(* ===== verification/Prelude.thy ===== *)
theory Prelude
  imports Main "HOL-Library.Word" "HOL-Library.Monad_Syntax"
begin

text \<open>
  Shared vocabulary of the development: the C integer types as machine words, the C memory
  primitives (\<open>memcpy\<close>, \<open>malloc\<close>, \<open>realloc\<close>) on byte regions, and the generic
  lemmas on lists and words that several components need.

  Conventions. A C function that can run into undefined behaviour (a null or dangling pointer,
  an access outside its region, a failed \<open>assert\<close>) returns an \<open>option\<close>: \<open>None\<close> is the
  fault, and the \<open>do\<close> notation of \<open>Monad_Syntax\<close> threads it. Error codes that the code
  itself returns (-1, NULL) are ordinary values. A success flag or the contents of a freshly
  allocated region is the environment's choice and is an argument.
\<close>

unbundle bit_operations_syntax

type_synonym u8 = "8 word"
type_synonym u16 = "16 word"
type_synonym u32 = "32 word"
type_synonym u64 = "64 word"

named_theorems word_nat "reading words as natural numbers"

section \<open>Memory regions\<close>

text \<open>
  \<open>mem_copy dst d src s n\<close> is \<open>memcpy (dst + d, src + s, n)\<close> for two different regions:
  it faults when either range leaves its region.
\<close>

definition mem_copy :: "'a list \<Rightarrow> nat \<Rightarrow> 'a list \<Rightarrow> nat \<Rightarrow> nat \<Rightarrow> 'a list option" where
  "mem_copy dst d src s n =
     (if d + n \<le> length dst \<and> s + n \<le> length src
      then Some (take d dst @ take n (drop s src) @ drop (d + n) dst) else None)"

text \<open>
  What an allocation returns is up to the environment: \<open>None\<close> is NULL, \<open>Some junk\<close> is a
  region whose fresh bytes are read off \<open>junk\<close>.
\<close>

type_synonym heap_choice = "(nat \<Rightarrow> u8) option"

definition c_malloc :: "heap_choice \<Rightarrow> nat \<Rightarrow> u8 list option" where
  "c_malloc ch n = map_option (\<lambda>junk. map junk [0..<n]) ch"

definition c_realloc :: "heap_choice \<Rightarrow> u8 list \<Rightarrow> nat \<Rightarrow> u8 list option" where
  "c_realloc ch old n = map_option (\<lambda>junk. take n old @ map junk [length old..<n]) ch"

lemma mem_copy_None_iff [simp]:
  "mem_copy dst d src s n = None \<longleftrightarrow> \<not> (d + n \<le> length dst \<and> s + n \<le> length src)"
  by (simp add: mem_copy_def)

lemma length_mem_copy: "mem_copy dst d src s n = Some out \<Longrightarrow> length out = length dst"
  by (auto simp: mem_copy_def min_def split: if_splits)

lemma nth_mem_copy:
  assumes "mem_copy dst d src s n = Some out" and "i < length dst"
  shows "out ! i = (if d \<le> i \<and> i < d + n then src ! (s + (i - d)) else dst ! i)"
proof -
  from assms(1) have le: "d + n \<le> length dst" "s + n \<le> length src"
    and out: "out = take d dst @ take n (drop s src) @ drop (d + n) dst"
    by (auto simp: mem_copy_def split: if_splits)
  have "length (take n (drop s src)) = n" using le by simp
  with le assms(2) show ?thesis by (auto simp: out nth_append)
qed

lemma length_c_malloc: "c_malloc ch n = Some r \<Longrightarrow> length r = n"
  by (auto simp: c_malloc_def)

lemma length_c_realloc: "c_realloc ch old n = Some r \<Longrightarrow> length r = n"
  by (auto simp: c_realloc_def)

lemma take_c_realloc:
  "c_realloc ch old n = Some r \<Longrightarrow> m \<le> length old \<Longrightarrow> m \<le> n \<Longrightarrow> take m r = take m old"
  by (auto simp: c_realloc_def take_map min_def)

section \<open>Words as numbers\<close>

lemma unat_and_pow2_mask [word_nat]:
  fixes x :: "'a::len word"
  assumes "k < LENGTH('a)"
  shows "unat (x AND (2 ^ k - 1)) = unat x mod 2 ^ k"
proof -
  have "x AND (2 ^ k - 1) = take_bit k x"
    by (simp add: take_bit_eq_mask mask_eq_exp_minus_1)
  moreover have "unat (take_bit k x) = unat x mod 2 ^ k"
    by (metis take_bit_eq_mod unsigned_take_bit_eq)
  ultimately show ?thesis by simp
qed

lemma unat_pow2 [word_nat]: "k < LENGTH('a) \<Longrightarrow> unat (2 ^ k :: 'a::len word) = 2 ^ k"
  by (metis mod_less nat_power_eq_Suc_0_iff of_nat_numeral of_nat_power one_less_numeral_iff
      power_strict_increasing semiring_norm(76) unat_of_nat)

lemma unat_sub_le [word_nat]:
  fixes a b :: "'a::len word"
  shows "unat b \<le> unat a \<Longrightarrow> unat (a - b) = unat a - unat b"
  by (simp add: unat_sub word_le_nat_alt)

lemma unat_add_no_wrap [word_nat]:
  fixes a b :: "'a::len word"
  shows "unat a + unat b < 2 ^ LENGTH('a) \<Longrightarrow> unat (a + b) = unat a + unat b"
  by (simp add: unat_word_ariths)

lemma sint_nonneg [word_nat]:
  fixes w :: "'a::len word"
  assumes "unat w < 2 ^ (LENGTH('a) - 1)"
  shows "sint w = int (unat w)"
proof -
  have "uint w = int (unat w)" by simp
  moreover have "signed_take_bit (LENGTH('a) - 1) (int (unat w)) = int (unat w)"
  proof (rule signed_take_bit_int_eq_self)
    show "- (2 ^ (LENGTH('a) - 1)) \<le> int (unat w)"
      by (rule order_trans [of _ 0]) simp_all
    show "int (unat w) < 2 ^ (LENGTH('a) - 1)"
      using assms by (metis of_nat_less_iff of_nat_numeral of_nat_power)
  qed
  ultimately show ?thesis by (simp add: sint_uint)
qed

lemma sint_neg [word_nat]:
  fixes w :: "'a::len word"
  assumes "2 ^ (LENGTH('a) - 1) \<le> unat w"
  shows "sint w < 0"
proof -
  have lt: "unat w < 2 ^ LENGTH('a)" by (rule unsigned_less)
  have "bit w (LENGTH('a) - 1)"
  proof -
    have "(2::nat) ^ LENGTH('a) = 2 * 2 ^ (LENGTH('a) - 1)"
      by (simp flip: power_Suc)
    with lt assms have "unat w div 2 ^ (LENGTH('a) - 1) = 1"
      by (intro div_nat_eqI) auto
    then have "bit (unat w) (LENGTH('a) - 1)" by (simp add: bit_iff_odd)
    then show ?thesis by (simp add: bit_unsigned_iff)
  qed
  then show ?thesis by (simp add: sint_uint bit_simps)
qed

lemma unat_drop_bit [word_nat]: "unat (drop_bit n w) = unat w div 2 ^ n" for w :: "'a::len word"
  by (metis drop_bit_eq_div unat_drop_bit_eq)

lemma unat_ucast_up [word_nat]:
  fixes n :: "'a::len word"
  assumes "LENGTH('a) \<le> LENGTH('b::len)"
  shows "unat (ucast n :: 'b word) = unat n"
proof -
  have "uint (ucast n :: 'b word) = uint n"
    using assms by (intro uint_up_ucast) (simp add: is_up)
  then show ?thesis by (simp only: unat_eq_nat_uint)
qed

section \<open>The number of significant bits\<close>

fun bitlen :: "nat \<Rightarrow> nat" where
  "bitlen n = (if n = 0 then 0 else Suc (bitlen (n div 2)))"

declare bitlen.simps [simp del]

lemma bitlen_0 [simp]: "bitlen 0 = 0"
  by (simp add: bitlen.simps)

lemma bitlen_pos_iff [simp]: "0 < bitlen n \<longleftrightarrow> 0 < n"
  by (simp add: bitlen.simps [of n])

lemma bitlen_le_iff: "bitlen n \<le> k \<longleftrightarrow> n < 2 ^ k"
proof (induction n arbitrary: k rule: bitlen.induct)
  case (1 n)
  show ?case
  proof (cases "n = 0")
    case False
    with 1 show ?thesis
      by (cases k) (auto simp: bitlen.simps [of n] div_less_iff_less_mult mult.commute)
  qed simp
qed

lemma bitlen_lower: "0 < n \<Longrightarrow> 2 ^ (bitlen n - 1) \<le> n"
proof -
  assume "0 < n"
  then have "\<not> bitlen n \<le> bitlen n - 1"
    by (simp add: bitlen.simps [of n])
  then show ?thesis by (simp add: bitlen_le_iff)
qed

lemma bitlen_upper: "n < 2 ^ bitlen n"
  by (simp flip: bitlen_le_iff)

lemma bitlen_div_pow2: "2 ^ k \<le> n \<Longrightarrow> bitlen n = bitlen (n div 2 ^ k) + k"
proof (induction k arbitrary: n)
  case (Suc k)
  then have "0 < n" by (metis gr_zeroI leD zero_less_numeral zero_less_power)
  moreover have "2 ^ k \<le> n div 2" using Suc.prems by auto
  ultimately show ?case using Suc.IH [of "n div 2"]
    by (simp add: bitlen.simps [of n] div_mult2_eq)
qed simp

text \<open>The test \<open>n & (n - 1)\<close> of the power-of-two macros, on numbers and on words.\<close>

lemma and_pred_zero_nat: "0 < n \<Longrightarrow> n AND (n - 1) = 0 \<longleftrightarrow> (\<exists>k. n = 2 ^ k)" for n :: nat
proof (induction n rule: less_induct)
  case (less n)
  show ?case
  proof (cases "even n")
    case True
    then obtain m where m: "n = 2 * m" by (rule evenE)
    with less.prems have m0: "0 < m" by simp
    have "n AND (n - 1) = 2 * (m AND (m - 1))"
    proof -
      have "(2 * m - Suc 0) div 2 = m - Suc 0" using m0 by arith
      with m show ?thesis by (subst and_rec) simp
    qed
    moreover have "(\<exists>k. n = 2 ^ k) \<longleftrightarrow> (\<exists>k. m = 2 ^ k)"
    proof
      assume "\<exists>k. n = 2 ^ k"
      then obtain k where "n = 2 ^ k" ..
      with m have "m = 2 ^ (k - 1)" by (cases k) auto
      then show "\<exists>k. m = 2 ^ k" ..
    next
      assume "\<exists>k. m = 2 ^ k"
      then obtain k where "m = 2 ^ k" ..
      with m have "n = 2 ^ Suc k" by simp
      then show "\<exists>k. n = 2 ^ k" ..
    qed
    ultimately show ?thesis using less.IH [of m] m m0 by simp
  next
    case False
    then obtain m where m: "n = 2 * m + 1" by (rule oddE)
    have "n AND (n - 1) = 2 * m"
      using m by (subst and_rec) auto
    moreover have "(\<exists>k. n = 2 ^ k) \<longleftrightarrow> n = 1"
    proof
      assume "\<exists>k. n = 2 ^ k"
      then obtain k where "n = 2 ^ k" ..
      with False show "n = 1" by (cases k) auto
    next
      assume "n = 1"
      then have "n = 2 ^ 0" by simp
      then show "\<exists>k. n = 2 ^ k" ..
    qed
    ultimately show ?thesis using m by simp
  qed
qed

lemma and_pred_zero_word:
  fixes w :: "'a::len word"
  assumes "w \<noteq> 0"
  shows "w AND (w - 1) = 0 \<longleftrightarrow> (\<exists>k < LENGTH('a). w = 2 ^ k)"
proof -
  have pos: "0 < unat w" using assms by (simp add: unat_gt_0)
  have "unat (w - 1) = unat w - 1"
    using pos by (simp add: unat_minus_one assms)
  then have "w AND (w - 1) = 0 \<longleftrightarrow> unat w AND (unat w - 1) = 0"
    by (metis unat_0 unsigned_0 unsigned_and_eq word_unat_eq_iff)
  also have "\<dots> \<longleftrightarrow> (\<exists>k. unat w = 2 ^ k)"
    using pos by (rule and_pred_zero_nat)
  also have "\<dots> \<longleftrightarrow> (\<exists>k < LENGTH('a). w = 2 ^ k)"
  proof
    assume "\<exists>k. unat w = 2 ^ k"
    then obtain k where k: "unat w = 2 ^ k" ..
    then have "(2::nat) ^ k < 2 ^ LENGTH('a)" using unsigned_less [of w] by metis
    then have "k < LENGTH('a)" by simp
    moreover with k have "w = 2 ^ k" by (simp add: word_unat_eq_iff unat_pow2)
    ultimately show "\<exists>k < LENGTH('a). w = 2 ^ k" by blast
  qed (auto simp: unat_pow2)
  finally show ?thesis .
qed

end
