(* ===== verification/Pow2.thy ===== *)
theory Pow2
  imports Prelude
begin

text \<open>
  The power-of-two helpers of \<open>src/data_structure/queue.c\<close> (the same text is in
  \<open>src/utils/roundup_pow_of_2.c\<close>): the macro \<open>is_power_of_2\<close>, \<open>fls\<close>, \<open>fls64\<close> and
  \<open>roundup_pow_of_two\<close>. The loop of \<open>fls\<close> shifts a signed \<open>int\<close> right and so never ends on a
  negative argument: it is a \<open>partial_function\<close>, and \<open>None\<close> says that it does not return.
\<close>

definition is_power_of_2 :: "u32 \<Rightarrow> bool" where
  "is_power_of_2 n \<longleftrightarrow> n \<noteq> 0 \<and> (n AND (n - 1)) = 0"

partial_function (option) fls_loop :: "u32 \<Rightarrow> int \<Rightarrow> int option" where
  "fls_loop i position =
     (if i \<noteq> 0 then fls_loop (signed_drop_bit 1 i) (position + 1) else Some position)"

definition fls :: "u32 \<Rightarrow> int option" where
  "fls x =
     (case (if x \<noteq> 0 then fls_loop (signed_drop_bit 1 x) 0 else Some (-1)) of
        None \<Rightarrow> None
      | Some position \<Rightarrow> Some (position + 1))"

definition fls64 :: "u64 \<Rightarrow> int option" where
  "fls64 x =
     (let h = ucast (drop_bit 32 x) :: u32
      in if h \<noteq> 0 then map_option (\<lambda>r. r + 32) (fls h) else fls (ucast x))"

text \<open>\<open>unsigned long\<close> is 64 bits wide here (LP64), so the \<open>sizeof\<close> test takes \<open>fls64\<close>.\<close>

definition roundup_pow_of_two :: "u64 \<Rightarrow> u64 option" where
  "roundup_pow_of_two x = map_option (\<lambda>a. push_bit (nat a) 1) (fls64 (x - 1))"

section \<open>Lemmas\<close>

lemma is_power_of_2_iff: "is_power_of_2 n \<longleftrightarrow> (\<exists>k < 32. n = 2 ^ k)"
proof -
  have "(2::u32) ^ k \<noteq> 0" if "k < 32" for k
    using that by simp
  then show ?thesis
    using and_pred_zero_word [of n] by (auto simp: is_power_of_2_def)
qed

text \<open>On words with a clear sign bit the arithmetic shift halves the number.\<close>

lemma unat_signed_drop_bit_1:
  fixes i :: u32
  assumes "unat i < 2 ^ 31"
  shows "unat (signed_drop_bit 1 i) = unat i div 2"
proof -
  have "sint (signed_drop_bit 1 i) = int (unat i div 2)"
    using assms by (simp add: sint_signed_drop_bit_eq drop_bit_Suc zdiv_int sint_nonneg del: of_nat_unat)
  then have "(of_int (sint (signed_drop_bit 1 i)) :: u32) = of_int (int (unat i div 2))"
    by (rule arg_cong)
  then have "signed_drop_bit 1 i = of_nat (unat i div 2)"
    by (simp only: of_int_sint scast_id of_int_of_nat_eq)
  moreover have "unat i div 2 < 2 ^ 32"
    using assms by auto
  ultimately show ?thesis by (simp add: unat_of_nat)
qed

lemma fls_loop_nonneg:
  "unat i < 2 ^ 31 \<Longrightarrow> fls_loop i p = Some (p + int (bitlen (unat i)))"
proof (induction "unat i" arbitrary: i p rule: less_induct)
  case less
  show ?case
  proof (cases "i = 0")
    case False
    then have pos: "0 < unat i" by (simp add: unat_gt_0)
    let ?j = "signed_drop_bit 1 i"
    have half: "unat ?j = unat i div 2"
      by (rule unat_signed_drop_bit_1 [OF less.prems])
    with pos less.prems have "fls_loop ?j (p + 1) = Some (p + 1 + int (bitlen (unat ?j)))"
      by (intro less.hyps) auto
    with False pos show ?thesis
      by (simp add: fls_loop.simps [of i] bitlen.simps [of "unat i"] half [simplified])
  qed (simp add: fls_loop.simps)
qed

lemma fls_loop_returns:
  assumes "fls_loop i p = Some r"
  shows "\<not> bit i 31"
proof (rule fls_loop.raw_induct [where P = "\<lambda>i p r. \<not> bit i 31", OF _ assms])
  fix f :: "u32 \<Rightarrow> int \<Rightarrow> int option" and i :: u32 and p r
  assume IH: "\<And>i p r. f i p = Some r \<Longrightarrow> \<not> bit i 31"
    and eq: "(if i \<noteq> 0 then f (signed_drop_bit 1 i) (p + 1) else Some p) = Some r"
  show "\<not> bit i 31"
  proof (cases "i = 0")
    case False
    with eq IH have "\<not> bit (signed_drop_bit 1 i) 31" by simp
    then show ?thesis by (simp add: bit_signed_drop_bit_iff)
  qed simp
qed

lemma bit_31_iff: "bit i 31 \<longleftrightarrow> 2 ^ 31 \<le> unat i" for i :: u32
proof -
  have "unat i < 2 ^ 32" using unsigned_less [of i] by simp
  then have "unat i div 2 ^ 31 < 2" by (simp add: div_less_iff_less_mult)
  then have "odd (unat i div 2 ^ 31) \<longleftrightarrow> unat i div 2 ^ 31 = 1" by (auto simp: less_2_cases_iff)
  also have "\<dots> \<longleftrightarrow> 2 ^ 31 \<le> unat i"
    using \<open>unat i div 2 ^ 31 < 2\<close> by (auto simp: less_2_cases_iff div_eq_0_iff)
  finally have "bit (unat i) 31 \<longleftrightarrow> 2 ^ 31 \<le> unat i" by (simp add: bit_iff_odd)
  then show ?thesis by (simp add: bit_unsigned_iff)
qed

lemma fls_eq: "fls x = (if unat x < 2 ^ 31 then Some (int (bitlen (unat x))) else None)"
proof (cases "unat x < 2 ^ 31")
  case True
  show ?thesis
  proof (cases "x = 0")
    case False
    then have pos: "0 < unat x" by (simp add: unat_gt_0)
    have half: "unat (signed_drop_bit 1 x) = unat x div 2"
      by (rule unat_signed_drop_bit_1 [OF True])
    moreover have "unat x div 2 < 2 ^ 31" using True by auto
    ultimately have "fls_loop (signed_drop_bit 1 x) 0 = Some (int (bitlen (unat x div 2)))"
      using fls_loop_nonneg [of "signed_drop_bit 1 x" 0] by simp
    with True False pos show ?thesis
      by (simp add: fls_def bitlen.simps [of "unat x"])
  qed (simp add: fls_def)
next
  case False
  then have "bit x 31" by (simp add: bit_31_iff)
  then have "bit (signed_drop_bit 1 x) 31" by (simp add: bit_signed_drop_bit_iff)
  then have "fls_loop (signed_drop_bit 1 x) 0 = None"
    using fls_loop_returns by (cases "fls_loop (signed_drop_bit 1 x) 0") auto
  moreover have "x \<noteq> 0" using False by auto
  ultimately show ?thesis using False by (simp add: fls_def)
qed

lemma fls64_eq:
  "fls64 x =
     (if unat x < 2 ^ 31 \<or> (2 ^ 32 \<le> unat x \<and> unat x < 2 ^ 63)
      then Some (int (bitlen (unat x))) else None)"
proof -
  let ?h = "ucast (drop_bit 32 x) :: u32"
  have x64: "unat x < 2 ^ 64" using unsigned_less [of x] by simp
  have h: "unat ?h = unat x div 2 ^ 32"
  proof -
    have "unat x div 2 ^ 32 < 2 ^ 32" using x64 by (simp add: div_less_iff_less_mult)
    then show ?thesis by (simp add: unsigned_ucast_eq take_bit_nat_eq_self unat_drop_bit)
  qed
  show ?thesis
  proof (cases "2 ^ 32 \<le> unat x")
    case True
    then have "unat x div 2 ^ 32 \<noteq> 0" by (simp add: div_eq_0_iff)
    with h have "?h \<noteq> 0" by auto
    moreover have "unat x div 2 ^ 32 < 2 ^ 31 \<longleftrightarrow> unat x < 2 ^ 63"
      by (simp add: div_less_iff_less_mult)
    moreover have "bitlen (unat x) = bitlen (unat x div 2 ^ 32) + 32"
      by (rule bitlen_div_pow2 [OF True])
    ultimately show ?thesis
      using True h by (auto simp: fls64_def fls_eq Let_def)
  next
    case False
    then have "unat x div 2 ^ 32 = 0" by (simp add: div_eq_0_iff)
    with h have "?h = 0" by (metis unsigned_eq_0_iff)
    moreover have "unat (ucast x :: u32) = unat x"
      using False by (simp add: unsigned_ucast_eq take_bit_nat_eq_self)
    ultimately show ?thesis
      using False by (auto simp: fls64_def fls_eq Let_def)
  qed
qed

lemma unat_push_bit_1 [word_nat]:
  "k < LENGTH('a) \<Longrightarrow> unat (push_bit k 1 :: 'a::len word) = 2 ^ k"
  by (simp add: push_bit_eq_mult unat_pow2)

text \<open>
  The rounding loop does not return on 0 (the subtraction wraps), nor when bit 31 or bit 63 is
  the top bit of \<open>x - 1\<close>; elsewhere it returns the least power of two above \<open>x\<close>.
\<close>

definition roundup_diverges :: "u64 \<Rightarrow> bool" where
  "roundup_diverges x \<longleftrightarrow>
     x = 0 \<or> (2 ^ 31 < unat x \<and> unat x \<le> 2 ^ 32) \<or> 2 ^ 63 < unat x"

lemma roundup_pow_of_two_eq:
  "roundup_pow_of_two x =
     (if roundup_diverges x then None else Some (2 ^ bitlen (unat x - 1)))"
proof (cases "x = 0")
  case True
  have "unat (0 - 1 :: u64) = 2 ^ 64 - 1"
    by (simp add: unsigned_minus_1_eq_mask mask_eq_exp_minus_1)
  then show ?thesis
    using True by (simp add: roundup_pow_of_two_def fls64_eq roundup_diverges_def)
next
  case False
  then have m: "unat (x - 1) = unat x - 1" by (simp add: unat_minus_one)
  have pos: "0 < unat x" using False by (simp add: unat_gt_0)
  show ?thesis
  proof (cases "roundup_diverges x")
    case True
    with False m pos show ?thesis
      by (auto simp: roundup_pow_of_two_def fls64_eq roundup_diverges_def)
  next
    case nd: False
    with False m pos
    have "unat (x - 1) < 2 ^ 31 \<or> (2 ^ 32 \<le> unat (x - 1) \<and> unat (x - 1) < 2 ^ 63)"
      by (auto simp: roundup_diverges_def)
    with nd m show ?thesis
      by (simp add: roundup_pow_of_two_def fls64_eq push_bit_eq_mult)
  qed
qed

lemma roundup_pow_of_two_bounds:
  assumes "roundup_pow_of_two x = Some r"
  shows "unat x \<le> unat r \<and> unat r < 2 * unat x"
    and "\<exists>k < 64. r = 2 ^ k"
proof -
  from assms have nd: "\<not> roundup_diverges x" and r: "r = 2 ^ bitlen (unat x - 1)"
    by (auto simp: roundup_pow_of_two_eq split: if_splits)
  from nd have pos: "0 < unat x" by (simp add: roundup_diverges_def unat_gt_0)
  have "unat x - 1 < 2 ^ 63" using nd pos by (auto simp: roundup_diverges_def)
  then have k: "bitlen (unat x - 1) < 64"
    by (metis bitlen_le_iff less_Suc_eq_le numeral_eq_Suc pred_numeral_simps(2) semiring_norm(26)
        semiring_norm(27) semiring_norm(28))
  with r show "\<exists>k < 64. r = 2 ^ k" by blast
  have ur: "unat r = 2 ^ bitlen (unat x - 1)"
    using k r by (simp add: unat_pow2)
  have "unat x - 1 < 2 ^ bitlen (unat x - 1)" by (rule bitlen_upper)
  then have "unat x \<le> unat r" using ur by simp
  moreover have "unat r < 2 * unat x"
  proof (cases "unat x = 1")
    case True
    with ur show ?thesis by simp
  next
    case False
    with pos have p: "0 < unat x - 1" by simp
    then have "2 ^ (bitlen (unat x - 1) - 1) \<le> unat x - 1" by (rule bitlen_lower)
    moreover have "0 < bitlen (unat x - 1)" using p by (simp only: bitlen_pos_iff)
    ultimately show ?thesis using ur pos by (cases "bitlen (unat x - 1)") auto
  qed
  ultimately show "unat x \<le> unat r \<and> unat r < 2 * unat x" ..
qed

section \<open>Properties\<close>

text \<open>
  \<open>roundup_pow_of_two\<close> loops for ever on 0, on arguments between \<open>2 ^ 31 + 1\<close> and \<open>2 ^ 32\<close>
  and above \<open>2 ^ 63\<close>; on every other argument it returns the least power of two that is not below the
  argument.
\<close>

theorem roundup_pow_of_two_least:
  "case roundup_pow_of_two x of
     None \<Rightarrow> x = 0 \<or> (2 ^ 31 < unat x \<and> unat x \<le> 2 ^ 32) \<or> 2 ^ 63 < unat x
   | Some r \<Rightarrow> (\<exists>k < 64. r = 2 ^ k) \<and> unat x \<le> unat r \<and> unat r < 2 * unat x"
proof (cases "roundup_pow_of_two x")
  case None
  then show ?thesis by (auto simp: roundup_pow_of_two_eq roundup_diverges_def split: if_splits)
next
  case (Some r)
  from roundup_pow_of_two_bounds [OF this] Some show ?thesis by simp
qed

end
