(* ===== verification/Ring_Queue.thy ===== *)
theory Ring_Queue
  imports Pow2
begin

text \<open>
  The byte FIFO of \<open>src/data_structure/queue.h\<close> and \<open>queue.c\<close>: a ring buffer whose indices
  \<open>in\<close> and \<open>out\<close> run freely over 32 bits and are masked with \<open>size - 1\<close>, with two
  \<open>memcpy\<close> calls per transfer. The abstraction \<open>contents\<close> is the list of bytes between
  \<open>out\<close> and \<open>in\<close>; the locale \<open>byte_fifo\<close> is the interface the clients see.
\<close>

section \<open>The code\<close>

record queue =
  buffer :: "u8 list"
  fsize :: u32
  fin :: u32
  fout :: u32

definition c_min :: "'a::len word \<Rightarrow> 'a word \<Rightarrow> 'a word" where
  "c_min a b = (if a < b then a else b)"

definition queue_reset_raw :: "queue \<Rightarrow> queue" where
  "queue_reset_raw f = f\<lparr>fin := 0, fout := 0\<rparr>"

definition queue_reset :: "queue \<Rightarrow> queue" where
  "queue_reset f = queue_reset_raw f"

text \<open>
  Allocation: the second component counts the heap blocks the call leaves allocated.
  \<open>sizeof (struct queue)\<close> is 24.
\<close>

definition queue_init :: "heap_choice \<Rightarrow> u8 list \<Rightarrow> u32 \<Rightarrow> queue option \<times> int" where
  "queue_init ch buf sz =
     (case c_malloc ch 24 of
        None \<Rightarrow> (None, 0)
      | Some _ \<Rightarrow> (Some \<lparr>buffer = buf, fsize = sz, fin = 0, fout = 0\<rparr>, 1))"

definition queue_alloc :: "heap_choice \<Rightarrow> heap_choice \<Rightarrow> u32 \<Rightarrow> (queue option \<times> int) option" where
  "queue_alloc ch1 ch2 sz =
     (case (if \<not> is_power_of_2 sz then map_option ucast (roundup_pow_of_two (ucast sz))
            else Some sz) of
        None \<Rightarrow> None
      | Some sz \<Rightarrow>
          (case c_malloc ch1 (unat sz) of
             None \<Rightarrow> Some (None, 0)
           | Some buf \<Rightarrow>
               (case queue_init ch2 buf sz of
                  (None, d) \<Rightarrow> Some (None, d + 1 - 1)
                | (Some ret, d) \<Rightarrow> Some (Some ret, d + 1))))"

definition queue_free :: "queue \<Rightarrow> int" where
  "queue_free f = - 1 - 1"

definition queue_in_raw :: "queue \<Rightarrow> u8 list \<Rightarrow> u32 \<Rightarrow> (u32 \<times> queue) option" where
  "queue_in_raw f src len = do {
     let len = c_min len (fsize f - fin f + fout f);
     let l = c_min len (fsize f - (fin f AND (fsize f - 1)));
     b1 \<leftarrow> mem_copy (buffer f) (unat (fin f AND (fsize f - 1))) src 0 (unat l);
     b2 \<leftarrow> mem_copy b1 0 src (unat l) (unat (len - l));
     Some (len, f\<lparr>buffer := b2, fin := fin f + len\<rparr>)
   }"

definition queue_out_raw :: "queue \<Rightarrow> u8 list \<Rightarrow> u32 \<Rightarrow> (u32 \<times> u8 list \<times> queue) option" where
  "queue_out_raw f dst len = do {
     let len = c_min len (fin f - fout f);
     let l = c_min len (fsize f - (fout f AND (fsize f - 1)));
     d1 \<leftarrow> mem_copy dst 0 (buffer f) (unat (fout f AND (fsize f - 1))) (unat l);
     d2 \<leftarrow> mem_copy d1 (unat l) (buffer f) 0 (unat (len - l));
     Some (len, d2, f\<lparr>fout := fout f + len\<rparr>)
   }"

definition queue_in :: "queue \<Rightarrow> u8 list \<Rightarrow> u32 \<Rightarrow> (u32 \<times> queue) option" where
  "queue_in f src len = queue_in_raw f src len"

definition queue_out :: "queue \<Rightarrow> u8 list \<Rightarrow> u32 \<Rightarrow> (u32 \<times> u8 list \<times> queue) option" where
  "queue_out f dst len = do {
     (ret, d, f) \<leftarrow> queue_out_raw f dst len;
     Some (ret, d, if fin f = fout f then f\<lparr>fin := 0, fout := 0\<rparr> else f)
   }"

definition queue_len_raw :: "queue \<Rightarrow> u32" where
  "queue_len_raw f = fin f - fout f"

definition queue_len :: "queue \<Rightarrow> u32" where
  "queue_len f = queue_len_raw f"

section \<open>Invariant and abstraction\<close>

definition queue_invar :: "queue \<Rightarrow> bool" where
  "queue_invar f \<longleftrightarrow>
     (\<exists>k < 32. fsize f = 2 ^ k) \<and> length (buffer f) = unat (fsize f) \<and>
     unat (fin f - fout f) \<le> unat (fsize f)"

definition contents :: "queue \<Rightarrow> u8 list" where
  "contents f = map (\<lambda>i. buffer f ! ((unat (fout f) + i) mod unat (fsize f)))
                    [0..<unat (fin f - fout f)]"

definition capacity :: "queue \<Rightarrow> nat" where
  "capacity f = unat (fsize f)"

lemma unat_c_min [word_nat]: "unat (c_min a b) = min (unat a) (unat b)"
  by (simp add: c_min_def word_less_nat_alt min_def)

lemma length_contents [simp]: "length (contents f) = unat (fin f - fout f)"
  by (simp add: contents_def)

lemma nth_contents:
  "i < unat (fin f - fout f) \<Longrightarrow>
     contents f ! i = buffer f ! ((unat (fout f) + i) mod unat (fsize f))"
  by (simp add: contents_def)

text \<open>The facts about the masked indices that every transfer uses.\<close>

lemma queue_invarE:
  assumes "queue_invar f"
  obtains k where "k < 32" "fsize f = 2 ^ k" "unat (fsize f) = 2 ^ k" "length (buffer f) = 2 ^ k"
    "unat (fin f - fout f) \<le> 2 ^ k"
    "\<And>x. unat (x AND (fsize f - 1)) = unat x mod 2 ^ k"
    "unat (fin f) mod 2 ^ k = (unat (fout f) + unat (fin f - fout f)) mod 2 ^ k"
proof -
  from assms obtain k where k: "k < 32" "fsize f = 2 ^ k"
    and rest: "length (buffer f) = unat (fsize f)" "unat (fin f - fout f) \<le> unat (fsize f)"
    by (auto simp: queue_invar_def)
  have sz: "unat (fsize f) = 2 ^ k" using k by (simp add: unat_pow2)
  have mask: "unat (x AND (fsize f - 1)) = unat x mod 2 ^ k" for x
    unfolding k(2) using k(1) by (simp add: unat_and_pow2_mask)
  have "unat (fin f) = unat (fout f + (fin f - fout f))" by simp
  also have "\<dots> = (unat (fout f) + unat (fin f - fout f)) mod 2 ^ 32"
    by (simp only: unat_word_ariths(1)) simp
  also have "\<dots> mod 2 ^ k = (unat (fout f) + unat (fin f - fout f)) mod 2 ^ k"
    using k(1) by (intro mod_mod_cancel le_imp_power_dvd) simp
  finally have "unat (fin f) mod 2 ^ k = (unat (fout f) + unat (fin f - fout f)) mod 2 ^ k"
    .
  with k sz mask rest show thesis by (intro that) auto
qed

lemma mod_offset:
  fixes b i n S :: nat
  assumes "n \<le> S" and "0 < S"
  shows "((b + i) mod S + S - (b + n) mod S) mod S = (i + S - n) mod S"
proof -
  have "int (((b + i) mod S + S - (b + n) mod S) mod S)
          = (int (b + i) mod int S + int S - int (b + n) mod int S) mod int S"
    using assms by (simp add: of_nat_diff zmod_int order.strict_implies_order trans_le_add2)
  also have "\<dots> = (int (b + i) + int S - int (b + n)) mod int S"
    by (intro mod_diff_cong mod_add_cong) simp_all
  also have "\<dots> = int (i + S - n) mod int S"
    using assms by (intro arg_cong [where f = "\<lambda>z. z mod int S"]) (simp add: of_nat_diff)
  also have "\<dots> = int ((i + S - n) mod S)" by (simp only: zmod_int)
  finally show ?thesis by simp
qed

text \<open>
  The two copies of a transfer, as one write (or read) of \<open>m\<close> bytes at the ring offset \<open>off\<close>.
\<close>

lemma ring_write:
  assumes "length b = S" and "off < S" and "m \<le> S" and "m \<le> length src" and "l = min m (S - off)"
  obtains b1 b2 where "mem_copy b off src 0 l = Some b1" "mem_copy b1 0 src l (m - l) = Some b2"
    "length b2 = S"
    "\<And>j. j < S \<Longrightarrow> b2 ! j = (let t = (j + S - off) mod S in if t < m then src ! t else b ! j)"
proof -
  from assms obtain b1 where b1: "mem_copy b off src 0 l = Some b1"
    by (cases "mem_copy b off src 0 l") auto
  from b1 assms(1) have len1: "length b1 = S" by (simp add: length_mem_copy)
  with assms obtain b2 where b2: "mem_copy b1 0 src l (m - l) = Some b2"
    by (cases "mem_copy b1 0 src l (m - l)") auto
  from b2 len1 have len2: "length b2 = S" by (simp add: length_mem_copy)
  have "b2 ! j = (let t = (j + S - off) mod S in if t < m then src ! t else b ! j)" if j: "j < S" for j
  proof (cases "off \<le> j")
    case True
    with j have "(j + S - off) mod S = j - off"
      by (metis Nat.add_diff_assoc2 le_add_diff_inverse2 less_imp_diff_less mod_add_self2 mod_less)
    with True j assms len1 show ?thesis
      by (auto simp: nth_mem_copy [OF b2] nth_mem_copy [OF b1] Let_def)
  next
    case False
    with j assms(2) have "j + S - off < S" "j + S - off = j + (S - off)" by auto
    then have "(j + S - off) mod S = j + (S - off)" by simp
    with False j assms len1 show ?thesis
      by (auto simp: nth_mem_copy [OF b2] nth_mem_copy [OF b1] Let_def min_def add.commute)
  qed
  with b1 b2 len2 show thesis by (rule that)
qed

lemma ring_read:
  assumes "length b = S" and "off < S" and "m \<le> S" and "m \<le> length dst" and "l = min m (S - off)"
  obtains d1 where "mem_copy dst 0 b off l = Some d1"
    "mem_copy d1 l b 0 (m - l) = Some (map (\<lambda>t. b ! ((off + t) mod S)) [0..<m] @ drop m dst)"
proof -
  from assms obtain d1 where d1: "mem_copy dst 0 b off l = Some d1"
    by (cases "mem_copy dst 0 b off l") auto
  from d1 have len1: "length d1 = length dst" by (simp add: length_mem_copy)
  with assms obtain d2 where d2: "mem_copy d1 l b 0 (m - l) = Some d2"
    by (cases "mem_copy d1 l b 0 (m - l)") auto
  from d2 len1 have len2: "length d2 = length dst" by (simp add: length_mem_copy)
  have "d2 ! t = (map (\<lambda>t. b ! ((off + t) mod S)) [0..<m] @ drop m dst) ! t"
    if t: "t < length dst" for t
  proof (cases "t < l")
    case True
    with assms have "off + t < S" by (simp add: min_def split: if_splits)
    then have "(off + t) mod S = off + t" by simp
    moreover have "t < m" using True assms(5) by simp
    ultimately show ?thesis using True t len1
      by (simp add: nth_mem_copy [OF d2] nth_mem_copy [OF d1] nth_append)
  next
    case False
    have "(off + t) mod S = t - l" if "t < m"
    proof -
      from that False assms(5) have "l = S - off" by (simp add: min_def split: if_splits)
      with assms(2) False have "off + t = (t - l) + S" by simp
      moreover have "t - l < S" using that assms(3) by simp
      ultimately show ?thesis by simp
    qed
    with False t assms len1 show ?thesis
      by (auto simp: nth_mem_copy [OF d2] nth_mem_copy [OF d1] nth_append)
  qed
  with len2 assms(4) have "d2 = map (\<lambda>t. b ! ((off + t) mod S)) [0..<m] @ drop m dst"
    by (intro nth_equalityI) auto
  with d1 d2 show thesis by (intro that) auto
qed

lemma queue_in_raw_correct:
  assumes inv: "queue_invar f" and len: "unat n \<le> length src"
  shows "\<exists>m f'. queue_in_raw f src n = Some (m, f') \<and>
      unat m = min (unat n) (capacity f - length (contents f)) \<and>
      contents f' = contents f @ take (unat m) src \<and> queue_invar f' \<and> capacity f' = capacity f"
proof -
  from inv obtain k where k: "k < 32" "fsize f = 2 ^ k" "unat (fsize f) = 2 ^ k"
    "length (buffer f) = 2 ^ k" "unat (fin f - fout f) \<le> 2 ^ k"
    "\<And>x. unat (x AND (fsize f - 1)) = unat x mod 2 ^ k"
    "unat (fin f) mod 2 ^ k = (unat (fout f) + unat (fin f - fout f)) mod 2 ^ k"
    by (elim queue_invarE) (use that in blast)
  define S where "S = (2::nat) ^ k"
  define c where "c = unat (fin f - fout f)"
  define off where "off = unat (fin f AND (fsize f - 1))"
  define m where "m = c_min n (fsize f - fin f + fout f)"
  define l where "l = c_min m (fsize f - (fin f AND (fsize f - 1)))"
  have S: "0 < S" "S < 2 ^ 32"
    unfolding S_def using k(1) by (simp, intro power_strict_increasing) simp_all
  have off: "off = (unat (fout f) + c) mod S" using k(6,7) by (simp add: off_def S_def c_def)
  then have offS: "off < S" using S by simp
  have eq: "fsize f - fin f + fout f = fsize f - (fin f - fout f)" by simp
  have free: "unat (fsize f - fin f + fout f) = S - c"
    unfolding eq using k(3,5) by (subst unat_sub_le) (simp_all add: S_def c_def)
  then have um: "unat m = min (unat n) (S - c)" by (simp add: m_def unat_c_min)
  have "unat (fsize f - (fin f AND (fsize f - 1))) = S - off"
    using offS k(3) unfolding off_def by (subst unat_sub_le) (simp_all add: S_def)
  then have ul: "unat l = min (unat m) (S - off)" by (simp add: l_def unat_c_min)
  have dl: "unat (m - l) = unat m - unat l" using ul by (simp add: unat_sub_le)
  have mS: "unat m \<le> S" "unat m \<le> length src" using um len by auto
  from ring_write [OF _ offS mS ul, of "buffer f"] obtain b1 b2 where
    b: "mem_copy (buffer f) off src 0 (unat l) = Some b1"
      "mem_copy b1 0 src (unat l) (unat m - unat l) = Some b2" "length b2 = S"
      "\<And>j. j < S \<Longrightarrow> b2 ! j = (let t = (j + S - off) mod S in if t < unat m then src ! t else buffer f ! j)"
    using k(4) by (auto simp: S_def)
  define f' where "f' = f\<lparr>buffer := b2, fin := fin f + m\<rparr>"
  have run: "queue_in_raw f src n = Some (m, f')"
    using b(1,2) by (simp add: queue_in_raw_def Let_def f'_def dl flip: off_def m_def l_def)
  have "fin f' - fout f' = (fin f - fout f) + m" by (simp add: f'_def)
  then have c': "unat (fin f' - fout f') = c + unat m"
    using um S k(5) by (simp add: unat_add_no_wrap c_def S_def)
  have inv': "queue_invar f'"
    using k(1-3) b(3) c' um k(5) by (auto simp: queue_invar_def f'_def S_def c_def)
  have "contents f' ! i = (contents f @ take (unat m) src) ! i" if i: "i < c + unat m" for i
  proof -
    let ?p = "(unat (fout f) + i) mod S"
    have "(?p + S - off) mod S = (i + S - c) mod S"
      unfolding off by (rule mod_offset) (use k(5) S in \<open>auto simp: S_def c_def\<close>)
    moreover have "(i + S - c) mod S = (if i < c then i + S - c else i - c)"
    proof (cases "i < c")
      case True
      then have "i + S - c < S" using S by simp
      with True show ?thesis by simp
    next
      case False
      with i um have lt: "i - c < S" and eq: "i + S - c = (i - c) + S" by auto
      have "(i + S - c) mod S = (i - c) mod S" by (simp only: eq mod_add_self2)
      with lt False show ?thesis by simp
    qed
    moreover have "?p < S" using S by simp
    ultimately have "b2 ! ?p = (if c \<le> i \<and> i - c < unat m then src ! (i - c) else buffer f ! ?p)"
      using b(4) [of ?p] um by (auto simp: Let_def)
    moreover have "contents f' ! i = b2 ! ?p"
      using i c' k(3) by (simp add: nth_contents f'_def S_def)
    ultimately show ?thesis
      using i k(3) by (auto simp: nth_append c_def S_def nth_contents)
  qed
  then have cont: "contents f' = contents f @ take (unat m) src"
    using c' mS by (intro nth_equalityI) (auto simp: c_def)
  show ?thesis
    using run um inv' cont k(3) by (auto simp: capacity_def c_def S_def f'_def)
qed

lemma queue_out_raw_correct:
  assumes inv: "queue_invar f" and len: "unat n \<le> length dst"
  shows "\<exists>m f'. queue_out_raw f dst n
        = Some (m, take (unat m) (contents f) @ drop (unat m) dst, f') \<and>
      unat m = min (unat n) (length (contents f)) \<and>
      contents f' = drop (unat m) (contents f) \<and> queue_invar f' \<and> capacity f' = capacity f"
proof -
  from inv obtain k where k: "k < 32" "fsize f = 2 ^ k" "unat (fsize f) = 2 ^ k"
    "length (buffer f) = 2 ^ k" "unat (fin f - fout f) \<le> 2 ^ k"
    "\<And>x. unat (x AND (fsize f - 1)) = unat x mod 2 ^ k"
    by (elim queue_invarE) (use that in blast)
  define S where "S = (2::nat) ^ k"
  define c where "c = unat (fin f - fout f)"
  define off where "off = unat (fout f AND (fsize f - 1))"
  define m where "m = c_min n (fin f - fout f)"
  define l where "l = c_min m (fsize f - (fout f AND (fsize f - 1)))"
  have S: "0 < S" by (simp add: S_def)
  have off: "off = unat (fout f) mod S" using k(6) by (simp add: off_def S_def)
  then have offS: "off < S" using S by simp
  have um: "unat m = min (unat n) c" by (simp add: m_def unat_c_min c_def)
  have "unat (fsize f - (fout f AND (fsize f - 1))) = S - off"
    using offS k(3) unfolding off_def by (subst unat_sub_le) (simp_all add: S_def)
  then have ul: "unat l = min (unat m) (S - off)" by (simp add: l_def unat_c_min)
  have dl: "unat (m - l) = unat m - unat l" using ul by (simp add: unat_sub_le)
  have mS: "unat m \<le> S" "unat m \<le> length dst" using um len k(5) by (auto simp: c_def S_def)
  from ring_read [OF _ offS mS ul, of "buffer f"] obtain d1 where
    d: "mem_copy dst 0 (buffer f) off (unat l) = Some d1"
      "mem_copy d1 (unat l) (buffer f) 0 (unat m - unat l)
         = Some (map (\<lambda>t. buffer f ! ((off + t) mod S)) [0..<unat m] @ drop (unat m) dst)"
    using k(4) by (auto simp: S_def)
  have "map (\<lambda>t. buffer f ! ((off + t) mod S)) [0..<unat m] = take (unat m) (contents f)"
    using um k(3) by (intro nth_equalityI) (auto simp: nth_contents off S_def c_def mod_simps)
  note d' = d(2) [unfolded this]
  define f' where "f' = f\<lparr>fout := fout f + m\<rparr>"
  have run: "queue_out_raw f dst n = Some (m, take (unat m) (contents f) @ drop (unat m) dst, f')"
    using d(1) d' by (simp add: queue_out_raw_def Let_def f'_def dl flip: off_def m_def l_def)
  have "fin f' - fout f' = (fin f - fout f) - m" by (simp add: f'_def)
  then have c': "unat (fin f' - fout f') = c - unat m"
    using um by (simp add: unat_sub_le c_def)
  have inv': "queue_invar f'"
    using k(1-5) c' by (auto simp: queue_invar_def f'_def c_def)
  have "unat (fout f') mod S = (unat (fout f) + unat m) mod S"
  proof -
    have "unat (fout f') = (unat (fout f) + unat m) mod 2 ^ 32"
      by (simp add: f'_def unat_word_ariths(1))
    also have "\<dots> mod S = (unat (fout f) + unat m) mod S"
      using k(1) unfolding S_def by (intro mod_mod_cancel le_imp_power_dvd) simp
    finally show ?thesis .
  qed
  then have "(unat (fout f') + i) mod S = (unat (fout f) + (unat m + i)) mod S" for i
    by (metis add.assoc mod_add_left_eq)
  then have cont: "contents f' = drop (unat m) (contents f)"
    using c' k(3) by (intro nth_equalityI) (auto simp: nth_contents c_def f'_def S_def)
  show ?thesis
    using run um inv' cont k(3) by (auto simp: capacity_def c_def S_def f'_def)
qed

section \<open>The interface\<close>

text \<open>
  What a client of the FIFO relies on: \<open>put\<close> appends as many bytes as there is room for,
  \<open>get\<close> removes bytes from the front in order, neither touches memory outside its regions.
\<close>

locale byte_fifo =
  fixes invar :: "'q \<Rightarrow> bool"
    and bytes :: "'q \<Rightarrow> u8 list"
    and room :: "'q \<Rightarrow> nat"
    and put :: "'q \<Rightarrow> u8 list \<Rightarrow> u32 \<Rightarrow> (u32 \<times> 'q) option"
    and get :: "'q \<Rightarrow> u8 list \<Rightarrow> u32 \<Rightarrow> (u32 \<times> u8 list \<times> 'q) option"
  assumes put_law: "invar q \<Longrightarrow> unat n \<le> length src \<Longrightarrow>
      \<exists>m q'. put q src n = Some (m, q') \<and> unat m = min (unat n) (room q - length (bytes q)) \<and>
        bytes q' = bytes q @ take (unat m) src \<and> invar q' \<and> room q' = room q"
    and get_law: "invar q \<Longrightarrow> unat n \<le> length dst \<Longrightarrow>
      \<exists>m q'. get q dst n = Some (m, take (unat m) (bytes q) @ drop (unat m) dst, q') \<and>
        unat m = min (unat n) (length (bytes q)) \<and>
        bytes q' = drop (unat m) (bytes q) \<and> invar q' \<and> room q' = room q"
    and room_law: "invar q \<Longrightarrow> length (bytes q) \<le> room q"
begin

lemma put_fits:
  assumes "invar q" and "length src = unat n" and "length (bytes q) + unat n \<le> room q"
  shows "\<exists>q'. put q src n = Some (n, q') \<and> bytes q' = bytes q @ src \<and> invar q' \<and> room q' = room q"
proof -
  from put_law [OF assms(1), of n src] assms(2,3) obtain m q' where
    q': "put q src n = Some (m, q')" "unat m = unat n" "bytes q' = bytes q @ take (unat m) src"
      "invar q'" "room q' = room q"
    by (auto simp: min_def)
  from q'(2) have "m = n" by (simp add: word_unat_eq_iff)
  with q' assms(2) show ?thesis by simp
qed

lemma get_front:
  assumes "invar q" and "bytes q = xs @ ys" and "length xs = unat n" and "length dst = unat n"
  shows "\<exists>q'. get q dst n = Some (n, xs, q') \<and> bytes q' = ys \<and> invar q' \<and> room q' = room q"
proof -
  from get_law [OF assms(1), of n dst] assms(2-4) obtain m q' where
    q': "get q dst n = Some (m, take (unat m) (bytes q) @ drop (unat m) dst, q')"
      "unat m = unat n" "bytes q' = drop (unat m) (bytes q)" "invar q'" "room q' = room q"
    by auto
  from q'(2) have "m = n" by (simp add: word_unat_eq_iff)
  with q' assms(2-4) show ?thesis by simp
qed

lemma get_empty:
  assumes "invar q" and "bytes q = []" and "unat n \<le> length dst"
  shows "\<exists>q'. get q dst n = Some (0, dst, q')"
proof -
  from get_law [OF assms(1,3)] assms(2) obtain m q' where
    "get q dst n = Some (m, take (unat m) (bytes q) @ drop (unat m) dst, q')" "unat m = 0"
    by auto
  moreover from this(2) have "m = 0" by (simp add: unsigned_eq_0_iff)
  ultimately show ?thesis by simp
qed

end

interpretation raw: byte_fifo queue_invar contents capacity queue_in_raw queue_out_raw
proof unfold_locales
  show "length (contents q) \<le> capacity q" if "queue_invar q" for q
    using that by (simp add: queue_invar_def capacity_def)
qed (rule queue_in_raw_correct queue_out_raw_correct; assumption)+

text \<open>
  The inline wrappers keep the same laws: rewinding an empty FIFO changes the indices only.
\<close>

lemma rewind_empty:
  assumes "queue_invar f" and "fin f = fout f"
  shows "queue_invar (f\<lparr>fin := 0, fout := 0\<rparr>)" "contents (f\<lparr>fin := 0, fout := 0\<rparr>) = contents f"
  using assms by (auto simp: queue_invar_def contents_def)

lemma queue_out_correct:
  assumes "queue_invar f" and "unat n \<le> length dst"
  shows "\<exists>m f'. queue_out f dst n = Some (m, take (unat m) (contents f) @ drop (unat m) dst, f') \<and>
      unat m = min (unat n) (length (contents f)) \<and>
      contents f' = drop (unat m) (contents f) \<and> queue_invar f' \<and> capacity f' = capacity f"
proof -
  from queue_out_raw_correct [OF assms] obtain m f' where
    f': "queue_out_raw f dst n = Some (m, take (unat m) (contents f) @ drop (unat m) dst, f')"
      "unat m = min (unat n) (length (contents f))"
      "contents f' = drop (unat m) (contents f)" "queue_invar f'" "capacity f' = capacity f"
    by blast
  show ?thesis
  proof (cases "fin f' = fout f'")
    case True
    with f' rewind_empty [OF f'(4) True] show ?thesis
      by (auto simp: queue_out_def capacity_def)
  next
    case False
    with f' show ?thesis by (auto simp: queue_out_def)
  qed
qed

interpretation fifo: byte_fifo queue_invar contents capacity queue_in queue_out
proof unfold_locales
  show "length (contents q) \<le> capacity q" if "queue_invar q" for q
    using that by (rule raw.room_law)
qed (unfold queue_in_def, (rule queue_in_raw_correct queue_out_correct; assumption)+)

section \<open>Allocation and the program of queue.c\<close>

lemma queue_init_correct:
  assumes "queue_init ch buf sz = (Some q, d)" and "sz = 2 ^ k" and "k < 32"
    and "length buf = unat sz"
  shows "queue_invar q" "contents q = []" "capacity q = unat sz" "d = 1"
  using assms by (auto simp: queue_init_def queue_invar_def contents_def capacity_def
      split: option.splits)

lemma rounded_size:
  "case (if \<not> is_power_of_2 n then map_option ucast (roundup_pow_of_two (ucast n)) else Some n) of
     None \<Rightarrow> n = 0 \<or> 2 ^ 31 < unat n
   | Some s \<Rightarrow> 0 < unat n \<and> unat n \<le> 2 ^ 31 \<and> (\<exists>k < 32. s = 2 ^ k) \<and>
       unat n \<le> unat s \<and> unat s < 2 * unat n" for n :: u32
proof (cases "is_power_of_2 n")
  case True
  then obtain k where k: "k < 32" "n = 2 ^ k" by (auto simp: is_power_of_2_iff)
  then have "unat n = 2 ^ k" by (simp add: unat_pow2)
  moreover have "(2::nat) ^ k \<le> 2 ^ 31" using k(1) by (intro power_increasing) auto
  ultimately show ?thesis using True k by auto
next
  case False
  let ?x = "ucast n :: u64"
  have n32: "unat n < 2 ^ 32" using unsigned_less [of n] by simp
  have x: "unat ?x = unat n"
    using n32 by (simp add: unsigned_ucast_eq take_bit_nat_eq_self)
  have div: "roundup_diverges ?x \<longleftrightarrow> n = 0 \<or> 2 ^ 31 < unat n"
    using n32 x by (auto simp: roundup_diverges_def unsigned_eq_0_iff)
  show ?thesis
  proof (cases "roundup_pow_of_two ?x")
    case None
    with div False show ?thesis by (auto simp: roundup_pow_of_two_eq split: if_splits)
  next
    case (Some r)
    then have nd: "\<not> roundup_diverges ?x" by (auto simp: roundup_pow_of_two_eq split: if_splits)
    with div have n: "0 < unat n" "unat n \<le> 2 ^ 31" by (auto simp: unat_gt_0)
    from roundup_pow_of_two_bounds [OF Some] x obtain k where
      b: "unat n \<le> unat r" "unat r < 2 * unat n" "k < 64" "r = 2 ^ k" by auto
    have "unat r < 2 ^ 32" using b(2) n(2) by simp
    then have "unat (ucast r :: u32) = unat r"
      by (simp add: unsigned_ucast_eq take_bit_nat_eq_self)
    moreover have k: "k < 32"
    proof -
      have "(2::nat) ^ k < 2 ^ 32" using \<open>unat r < 2 ^ 32\<close> b(3,4) by (simp add: unat_pow2)
      then show ?thesis by (simp only: power_strict_increasing_iff)
    qed
    moreover have "(ucast r :: u32) = 2 ^ k"
    proof (rule word_unat_eq_iff [THEN iffD2])
      show "unat (ucast r :: u32) = unat (2 ^ k :: u32)"
        using calculation b(3,4) by (simp add: unat_pow2)
    qed
    ultimately show ?thesis using False Some b n by auto
  qed
qed

lemma queue_alloc_returns:
  assumes "0 < unat n" and "unat n \<le> 2 ^ 31"
  shows "\<exists>q d. queue_alloc (Some j1) (Some j2) n = Some (Some q, d) \<and> queue_invar q \<and>
      contents q = [] \<and> unat n \<le> capacity q"
proof -
  from rounded_size [of n] assms obtain s k where
    s: "(if \<not> is_power_of_2 n then map_option ucast (roundup_pow_of_two (ucast n)) else Some n) = Some s"
      "k < 32" "s = 2 ^ k" "unat n \<le> unat s"
    by (auto split: option.splits simp del: is_power_of_2_def)
  let ?buf = "map j1 [0..<unat s]"
  obtain q d where q: "queue_init (Some j2) ?buf s = (Some q, d)"
    by (simp add: queue_init_def c_malloc_def)
  from queue_init_correct [OF this s(3,2)] s(4) show ?thesis
    using q s(1) by (simp add: queue_alloc_def c_malloc_def)
qed

text \<open>
  The test program: \<open>students\<close> is a table of 16-byte records whose last entry has age 0; its
  entries are put into a FIFO of the table's size and then taken out one record at a time. The
  bytes of each record read back are what the program prints.
\<close>

definition student_age_zero :: "u8 list \<Rightarrow> bool" where
  "student_age_zero s \<longleftrightarrow> take 4 s = [0, 0, 0, 0]"

fun main_fill :: "queue \<Rightarrow> u8 list list \<Rightarrow> queue option" where
  "main_fill q [] = None"
| "main_fill q (s # ss) =
     (if student_age_zero s then Some q
      else do { (_, q) \<leftarrow> queue_in q s 16; main_fill q ss })"

partial_function (option) main_drain :: "queue \<Rightarrow> u8 list \<Rightarrow> u8 list list option" where
  "main_drain q s = do {
     (status, s, q) \<leftarrow> queue_out q s 16;
     if sint status \<le> 0 then Some []
     else do { out \<leftarrow> main_drain q s; Some (s # out) }
   }"

definition queue_main :: "heap_choice \<Rightarrow> heap_choice \<Rightarrow> u8 list list \<Rightarrow> u8 list \<Rightarrow> u8 list list option" where
  "queue_main ch1 ch2 students s = do {
     (q, _) \<leftarrow> queue_alloc ch1 ch2 (of_nat (length students * 16));
     q \<leftarrow> q;
     q \<leftarrow> main_fill q students;
     main_drain q s
   }"

lemma main_fill_correct:
  assumes "queue_invar q" and "\<forall>s \<in> set ss. length s = 16 \<and> \<not> student_age_zero s"
    and "length (contents q) + length (concat ss) \<le> capacity q" and "student_age_zero z"
  shows "\<exists>q'. main_fill q (ss @ [z]) = Some q' \<and> queue_invar q' \<and>
      contents q' = contents q @ concat ss"
  using assms
proof (induction ss arbitrary: q)
  case (Cons s ss)
  have "length (contents q) + unat (16::u32) \<le> capacity q" using Cons.prems by auto
  moreover have "length s = unat (16::u32)" using Cons.prems(2) by simp
  ultimately obtain q' where q': "queue_in q s 16 = Some (16, q')" "contents q' = contents q @ s"
    "queue_invar q'" "capacity q' = capacity q"
    using fifo.put_fits [OF Cons.prems(1)] by blast
  with Cons.prems have "length (contents q') + length (concat ss) \<le> capacity q'" by simp
  then show ?case using Cons.IH [OF q'(3)] Cons.prems q' by auto
qed simp

lemma main_drain_correct:
  assumes "queue_invar q" and "\<forall>s \<in> set ss. length s = 16" and "contents q = concat ss"
    and "length s = 16"
  shows "main_drain q s = Some ss"
  using assms
proof (induction ss arbitrary: q s)
  case Nil
  then obtain q' where "queue_out q s 16 = Some (0, s, q')"
    using fifo.get_empty [of q 16 s] by auto
  then show ?case by (simp add: main_drain.simps)
next
  case (Cons x ss)
  have "length x = unat (16::u32)" "length s = unat (16::u32)" using Cons.prems by simp_all
  then obtain q' where q': "queue_out q s 16 = Some (16, x, q')" "contents q' = concat ss"
    "queue_invar q'"
    using fifo.get_front [of q x "concat ss" 16 s] Cons.prems by auto
  then have "main_drain q' x = Some ss" using Cons by simp
  with q'(1) show ?case by (simp add: main_drain.simps [of q s])
qed

section \<open>Properties\<close>

text \<open>
  C33: \<open>queue_in\<close> (and so \<open>_queue_in\<close>) on a well-formed FIFO never leaves its two memory regions, for
  every position of the free-running 32-bit indices, wrapped or not: it appends
  \<open>min (len, free space)\<close> bytes of the caller's buffer to the contents, returns that number, and
  keeps the FIFO well formed and its capacity.
\<close>

theorem queue_in_appends:
  assumes "queue_invar f" and "unat n \<le> length src"
  shows "\<exists>m f'. queue_in f src n = Some (m, f') \<and>
      unat m = min (unat n) (capacity f - length (contents f)) \<and>
      contents f' = contents f @ take (unat m) src \<and> queue_invar f' \<and> capacity f' = capacity f"
  using assms by (rule fifo.put_law)

definition example_queue :: queue where
  "example_queue = \<lparr>buffer = [0, 0, 7, 9], fsize = 4, fin = 0, fout = - 2\<rparr>"

lemma example_queue_invar: "queue_invar example_queue"
  unfolding queue_invar_def example_queue_def
  by (auto intro: exI [of _ 2])

theorem queue_in_appends_witness:
  "\<exists>m f'. queue_in example_queue [1, 2, 3] 3 = Some (m, f') \<and> unat m = 2 \<and>
      contents f' = [7, 9, 1, 2]"
proof -
  have "unat (3::u32) \<le> length [1, 2, 3::u8]" by simp
  from queue_in_appends [OF example_queue_invar this] obtain m f' where
    "queue_in example_queue [1, 2, 3] 3 = Some (m, f')"
    "unat m = min (unat (3::u32)) (capacity example_queue - length (contents example_queue))"
    "contents f' = contents example_queue @ take (unat m) [1, 2, 3]" by blast
  moreover have "capacity example_queue = 4" "contents example_queue = [7, 9]"
    by (simp_all add: capacity_def contents_def example_queue_def upt_rec unsigned_minus_1_eq_mask)
  ultimately show ?thesis by auto
qed

text \<open>
  C34: \<open>queue_out\<close> on a well-formed FIFO stays inside its two memory regions, overwrites the first
  \<open>min (len, fill)\<close> bytes of the destination with the front of the contents and leaves the rest of the
  destination alone, removes those bytes, and keeps the FIFO well formed, the reset of the indices
  of an emptied FIFO included.
\<close>

theorem queue_out_takes:
  assumes "queue_invar f" and "unat n \<le> length dst"
  shows "\<exists>m f'. queue_out f dst n = Some (m, take (unat m) (contents f) @ drop (unat m) dst, f') \<and>
      unat m = min (unat n) (length (contents f)) \<and>
      contents f' = drop (unat m) (contents f) \<and> queue_invar f' \<and> capacity f' = capacity f"
  using assms by (rule fifo.get_law)

theorem queue_out_takes_witness:
  "\<exists>m f'. queue_out example_queue [0, 0, 0] 3 = Some (m, [7, 9, 0], f') \<and> contents f' = []"
proof -
  have "unat (3::u32) \<le> length [0, 0, 0::u8]" by simp
  from queue_out_takes [OF example_queue_invar this] obtain m f' where
    "queue_out example_queue [0, 0, 0] 3
       = Some (m, take (unat m) (contents example_queue) @ drop (unat m) [0, 0, 0], f')"
    "unat m = min (unat (3::u32)) (length (contents example_queue))"
    "contents f' = drop (unat m) (contents example_queue)" by blast
  moreover have "contents example_queue = [7, 9]"
    by (simp add: contents_def example_queue_def upt_rec)
  ultimately show ?thesis by auto
qed

text \<open>
  \<open>queue_alloc\<close> never returns when the size is 0 or above \<open>2 ^ 31\<close> (the loop in \<open>fls\<close>
  shifts a negative number right for ever) and returns in every other case. If it returns NULL an
  allocation failed and nothing stays allocated; otherwise the FIFO is well formed and
  empty, its capacity is at least the size asked for and less than twice it, and \<open>queue_free\<close>
  releases exactly the blocks that were allocated.
\<close>

theorem queue_alloc_outcome:
  "case queue_alloc ch1 ch2 n of
     None \<Rightarrow> n = 0 \<or> 2 ^ 31 < unat n
   | Some (None, d) \<Rightarrow> 0 < unat n \<and> unat n \<le> 2 ^ 31 \<and> (ch1 = None \<or> ch2 = None) \<and> d = 0
   | Some (Some q, d) \<Rightarrow> 0 < unat n \<and> unat n \<le> 2 ^ 31 \<and> queue_invar q \<and> contents q = [] \<and>
       unat n \<le> capacity q \<and> capacity q < 2 * unat n \<and> d + queue_free q = 0"
proof -
  define sz where "sz = (if \<not> is_power_of_2 n then map_option ucast (roundup_pow_of_two (ucast n))
    else Some n)"
  have sz: "case sz of None \<Rightarrow> n = 0 \<or> 2 ^ 31 < unat n
      | Some s \<Rightarrow> 0 < unat n \<and> unat n \<le> 2 ^ 31 \<and> (\<exists>k < 32. s = 2 ^ k) \<and> unat n \<le> unat s \<and> unat s < 2 * unat n"
    unfolding sz_def by (rule rounded_size)
  show ?thesis
  proof (cases sz)
    case None
    with sz show ?thesis by (simp add: queue_alloc_def flip: sz_def)
  next
    case (Some s)
    with sz obtain k where k: "k < 32" "s = 2 ^ k" and n: "0 < unat n" "unat n \<le> 2 ^ 31"
      "unat n \<le> unat s" "unat s < 2 * unat n" by auto
    have run: "queue_alloc ch1 ch2 n = (case c_malloc ch1 (unat s) of
             None \<Rightarrow> Some (None, 0)
           | Some buf \<Rightarrow>
               (case queue_init ch2 buf s of
                  (None, d) \<Rightarrow> Some (None, d + 1 - 1)
                | (Some ret, d) \<Rightarrow> Some (Some ret, d + 1)))"
      using Some by (simp add: queue_alloc_def flip: sz_def)
    show ?thesis
    proof (cases "c_malloc ch1 (unat s)")
      case None
      with run n show ?thesis by (simp add: c_malloc_def)
    next
      case buf: (Some buf)
      then have len: "length buf = unat s" by (rule length_c_malloc)
      show ?thesis
      proof (cases "queue_init ch2 buf s")
        case (Pair qo d)
        show ?thesis
        proof (cases qo)
          case None
          with run n buf Pair show ?thesis
            by (auto simp: queue_init_def c_malloc_def split: option.splits)
        next
          case (Some q)
          from queue_init_correct [OF Pair [unfolded Some] k(2,1) len]
          show ?thesis using run n buf Pair Some by (simp add: queue_free_def)
        qed
      qed
    qed
  qed
qed

text \<open>
  The program of \<open>queue.c\<close>, run on a table of 16-byte records ended by a record of age 0,
  terminates without a memory fault and prints exactly the table's records, in order.
\<close>

theorem queue_main_prints_table:
  assumes "\<forall>s \<in> set ss. length s = 16 \<and> \<not> student_age_zero s" and "student_age_zero z"
    and "length s = 16" and "(length ss + 1) * 16 \<le> 2 ^ 31"
  shows "queue_main (Some j1) (Some j2) (ss @ [z]) s = Some ss"
proof -
  let ?n = "of_nat (length (ss @ [z]) * 16) :: u32"
  have n: "unat ?n = (length ss + 1) * 16"
    using assms(4) by (simp only: unat_of_nat) simp
  from queue_alloc_returns [of ?n j1 j2] assms(4) obtain q d where
    q: "queue_alloc (Some j1) (Some j2) ?n = Some (Some q, d)" "queue_invar q" "contents q = []"
      "unat ?n \<le> capacity q"
    unfolding n by auto
  have "length (concat ss) = length ss * 16"
    using assms(1) by (induction ss) auto
  with q(3,4) n have "length (contents q) + length (concat ss) \<le> capacity q" by simp
  from main_fill_correct [OF q(2) assms(1) this assms(2)] q(3) obtain q' where
    q': "main_fill q (ss @ [z]) = Some q'" "queue_invar q'" "contents q' = concat ss" by auto
  have "main_drain q' s = Some ss"
    using assms(1,3) q'(2,3) by (intro main_drain_correct) auto
  with q(1) q'(1) show ?thesis by (simp add: queue_main_def)
qed

theorem queue_main_prints_table_witness:
  "queue_main (Some (\<lambda>_. 7)) (Some (\<lambda>_. 0)) [replicate 16 1, replicate 16 2, replicate 16 0]
     (replicate 16 5) = Some [replicate 16 1, replicate 16 2]"
proof -
  have "\<forall>s \<in> set [replicate 16 (1::u8), replicate 16 2]. length s = 16 \<and> \<not> student_age_zero s"
    by (simp add: student_age_zero_def numeral_eq_Suc)
  moreover have "student_age_zero (replicate 16 0)"
    by (simp add: student_age_zero_def numeral_eq_Suc)
  ultimately have "queue_main (Some (\<lambda>_. 7)) (Some (\<lambda>_. 0))
      ([replicate 16 1, replicate 16 2] @ [replicate 16 0]) (replicate 16 5)
        = Some [replicate 16 1, replicate 16 2]"
    by (rule queue_main_prints_table) simp_all
  then show ?thesis by simp
qed

end
