(* ===== verification/NC_Array.thy ===== *)
theory NC_Array
  imports Prelude
begin

text \<open>
  The growable array of \<open>src/data_structure/nc_array.h\<close> and \<open>nc_array.c\<close>: a region of
  \<open>size * nalloc\<close> bytes of which the first \<open>nelem\<close> slots are in use. A pointer into the region
  is its byte offset. \<open>None\<close> is a failed \<open>assert\<close> or a division by zero; a NULL result is an
  ordinary \<open>None\<close> inside the result. Allocating and releasing functions also return the change
  in the number of live heap blocks.
\<close>

section \<open>The code\<close>

record nc_array =
  nelem :: u32
  elem :: "u8 list option"
  esize :: u64
  nalloc :: u32

definition array_null :: "nc_array \<Rightarrow> nc_array" where
  "array_null a = a\<lparr>nelem := 0, elem := None, esize := 0, nalloc := 0\<rparr>"

definition array_set :: "nc_array \<Rightarrow> u8 list option \<Rightarrow> u64 \<Rightarrow> u32 \<Rightarrow> nc_array" where
  "array_set a e sz n = a\<lparr>nelem := 0, elem := e, esize := sz, nalloc := n\<rparr>"

definition array_n :: "nc_array \<Rightarrow> u32" where
  "array_n a = nelem a"

definition c_assert :: "bool \<Rightarrow> unit option" where
  "c_assert b = (if b then Some () else None)"

definition array_create :: "heap_choice \<Rightarrow> heap_choice \<Rightarrow> u32 \<Rightarrow> u64 \<Rightarrow> (nc_array option \<times> int) option" where
  "array_create ch1 ch2 n sz = do {
     c_assert (n \<noteq> 0 \<and> sz \<noteq> 0);
     (case c_malloc ch1 32 of
        None \<Rightarrow> Some (None, 0)
      | Some _ \<Rightarrow>
          (case c_malloc ch2 (unat (ucast n * sz)) of
             None \<Rightarrow> Some (None, 1 - 1)
           | Some r \<Rightarrow> Some (Some \<lparr>nelem = 0, elem = Some r, esize = sz, nalloc = n\<rparr>, 1 + 1)))
   }"

definition array_init :: "heap_choice \<Rightarrow> nc_array \<Rightarrow> u32 \<Rightarrow> u64 \<Rightarrow> (int \<times> nc_array) option" where
  "array_init ch a n sz = do {
     c_assert (n \<noteq> 0 \<and> sz \<noteq> 0);
     (case c_malloc ch (unat (ucast n * sz)) of
        None \<Rightarrow> Some (- 1, a\<lparr>elem := None\<rparr>)
      | Some r \<Rightarrow> Some (0, a\<lparr>elem := Some r, nelem := 0, esize := sz, nalloc := n\<rparr>))
   }"

definition array_deinit :: "nc_array \<Rightarrow> int option" where
  "array_deinit a = do {
     c_assert (nelem a = 0);
     Some (if elem a \<noteq> None then - 1 else 0)
   }"

definition array_destroy :: "nc_array \<Rightarrow> int option" where
  "array_destroy a = do {
     d \<leftarrow> array_deinit a;
     Some (d - 1)
   }"

definition array_idx :: "nc_array \<Rightarrow> int \<Rightarrow> u32 option" where
  "array_idx a e = do {
     c_assert (0 \<le> e);
     let off = (word_of_int e :: u32);
     c_assert ((ucast (esize a) :: u32) \<noteq> 0);
     c_assert (off mod ucast (esize a) = 0);
     Some (off div ucast (esize a))
   }"

definition array_push :: "heap_choice \<Rightarrow> nc_array \<Rightarrow> int option \<times> nc_array" where
  "array_push ch a =
     (case (if nelem a = nalloc a then
              (let sz = esize a * ucast (nalloc a)
               in case c_realloc ch (case elem a of None \<Rightarrow> [] | Some r \<Rightarrow> r) (unat (2 * sz)) of
                    None \<Rightarrow> None
                  | Some r \<Rightarrow> Some (a\<lparr>elem := Some r, nalloc := nalloc a * 2\<rparr>))
            else Some a) of
        None \<Rightarrow> (None, a)
      | Some a \<Rightarrow> (Some (uint (esize a * ucast (nelem a))), a\<lparr>nelem := nelem a + 1\<rparr>))"

definition array_pop :: "nc_array \<Rightarrow> (int \<times> nc_array) option" where
  "array_pop a = do {
     c_assert (nelem a \<noteq> 0);
     let a = a\<lparr>nelem := nelem a - 1\<rparr>;
     Some (uint (esize a * ucast (nelem a)), a)
   }"

definition array_get :: "nc_array \<Rightarrow> u32 \<Rightarrow> int option" where
  "array_get a idx = do {
     c_assert (nelem a \<noteq> 0);
     c_assert (idx < nelem a);
     Some (uint (esize a * ucast idx))
   }"

definition array_top :: "nc_array \<Rightarrow> int option" where
  "array_top a = do {
     c_assert (nelem a \<noteq> 0);
     array_get a (nelem a - 1)
   }"

definition array_swap :: "nc_array \<Rightarrow> nc_array \<Rightarrow> nc_array \<times> nc_array" where
  "array_swap a b = (let tmp = a; a = b; b = tmp in (a, b))"

text \<open>
  \<open>slot r sz i\<close> is the \<open>i\<close>-th slot of a region. \<open>qsort\<close> sorts the used slots by the sign of
  the comparator; C leaves the order of equal elements open, the model keeps it.
\<close>

definition slot :: "u8 list \<Rightarrow> nat \<Rightarrow> nat \<Rightarrow> u8 list" where
  "slot r sz i = take sz (drop (i * sz) r)"

fun qsort_insert :: "(u8 list \<Rightarrow> u8 list \<Rightarrow> int) \<Rightarrow> u8 list \<Rightarrow> u8 list list \<Rightarrow> u8 list list" where
  "qsort_insert cmp x [] = [x]"
| "qsort_insert cmp x (y # ys) = (if cmp x y \<le> 0 then x # y # ys else y # qsort_insert cmp x ys)"

definition c_qsort :: "(u8 list \<Rightarrow> u8 list \<Rightarrow> int) \<Rightarrow> u8 list \<Rightarrow> nat \<Rightarrow> nat \<Rightarrow> u8 list" where
  "c_qsort cmp r n sz =
     concat (foldr (qsort_insert cmp) (map (slot r sz) [0..<n]) []) @ drop (n * sz) r"

definition array_sort :: "(u8 list \<Rightarrow> u8 list \<Rightarrow> int) \<Rightarrow> nc_array \<Rightarrow> nc_array option" where
  "array_sort cmp a = do {
     c_assert (nelem a \<noteq> 0);
     r \<leftarrow> elem a;
     Some (a\<lparr>elem := Some (c_qsort cmp r (unat (nelem a)) (unat (esize a)))\<rparr>)
   }"

text \<open>
  \<open>func\<close> gets the element's pointer and may write the region and its own data; its status
  ends the loop when it is not 0.
\<close>

partial_function (option) array_each_loop ::
  "(int \<Rightarrow> u8 list \<Rightarrow> 'd \<Rightarrow> int \<times> u8 list \<times> 'd) \<Rightarrow> nc_array \<Rightarrow> 'd \<Rightarrow> u32 \<Rightarrow> u32
     \<Rightarrow> (int \<times> nc_array \<times> 'd) option" where
  "array_each_loop func a data i n =
     (if i < n then do {
        e \<leftarrow> array_get a i;
        r \<leftarrow> elem a;
        let (status, r, data) = func e r data;
        let a = a\<lparr>elem := Some r\<rparr>;
        if status \<noteq> 0 then Some (status, a, data) else array_each_loop func a data (i + 1) n
      } else Some (0, a, data))"

definition array_each ::
  "(int \<Rightarrow> u8 list \<Rightarrow> 'd \<Rightarrow> int \<times> u8 list \<times> 'd) \<Rightarrow> nc_array \<Rightarrow> 'd
     \<Rightarrow> (int \<times> nc_array \<times> 'd) option" where
  "array_each func a data = do {
     c_assert (array_n a \<noteq> 0);
     array_each_loop func a data 0 (array_n a)
   }"

section \<open>Invariant and abstraction\<close>

text \<open>
  A usable array: its region has room for all \<open>nalloc\<close> slots, computed without overflow. Its
  abstraction is the list of its slots in use.
\<close>

definition array_ok :: "nc_array \<Rightarrow> bool" where
  "array_ok a \<longleftrightarrow>
     esize a \<noteq> 0 \<and> nalloc a \<noteq> 0 \<and> nelem a \<le> nalloc a \<and> unat (esize a) * unat (nalloc a) < 2 ^ 64 \<and>
     (\<exists>r. elem a = Some r \<and> length r = unat (esize a) * unat (nalloc a))"

definition region :: "nc_array \<Rightarrow> u8 list" where
  "region a = (case elem a of None \<Rightarrow> [] | Some r \<Rightarrow> r)"

definition slots :: "nc_array \<Rightarrow> u8 list list" where
  "slots a = map (slot (region a) (unat (esize a))) [0..<unat (nelem a)]"

text \<open>What a caller does through the pointer it got: \<open>memcpy (elem + p, bs, length bs)\<close>.\<close>

definition poke :: "nc_array \<Rightarrow> int \<Rightarrow> u8 list \<Rightarrow> nc_array option" where
  "poke a p bs = do {
     r \<leftarrow> elem a;
     r' \<leftarrow> mem_copy r (nat p) bs 0 (length bs);
     Some (a\<lparr>elem := Some r'\<rparr>)
   }"

lemma c_assert_bind [simp]: "(c_assert b \<bind> f) = (if b then f () else None)"
  by (simp add: c_assert_def)

lemma unat_scaled:
  assumes "unat (x :: u64) * unat (n :: u32) < 2 ^ 64"
  shows "unat (x * ucast n) = unat x * unat n"
proof -
  have u: "unat (ucast n :: u64) = unat n" by (simp add: unat_ucast_up)
  then have "unat x * unat (ucast n :: u64) < 2 ^ LENGTH(64)" using assms by simp
  then show ?thesis by (subst unat_mult_lem [THEN iffD1]) (simp_all only: u)
qed

lemma length_slots [simp]: "length (slots a) = unat (nelem a)"
  by (simp add: slots_def)

lemma slots_update [simp]:
  "slots (a\<lparr>nelem := n\<rparr>) = map (slot (region a) (unat (esize a))) [0..<unat n]"
  "region (a\<lparr>nelem := n\<rparr>) = region a"
  by (simp_all add: slots_def region_def)

lemma slot_bound: "i < n \<Longrightarrow> (i + 1) * sz \<le> (n :: nat) * sz"
  by (metis Suc_eq_plus1 Suc_leI mult_le_mono1)

lemma slot_take_eq:
  assumes "take m r' = take m r" and "(i + 1) * sz \<le> m"
  shows "slot r' sz i = slot r sz i"
proof -
  have "slot r sz i = take sz (drop (i * sz) (take m r))" for r
    using assms(2) by (simp add: slot_def drop_take min_def)
  with assms(1) show ?thesis by metis
qed

lemma slot_mem_copy:
  assumes "mem_copy r (j * sz) bs 0 sz = Some r'" and "length bs = sz" and "(i + 1) * sz \<le> length r"
  shows "slot r' sz i = (if i = j then bs else slot r sz i)"
proof (rule nth_equalityI)
  have len: "length r' = length r" using assms(1) by (rule length_mem_copy)
  have jr: "j * sz + sz \<le> length r" using assms(1) by (auto simp: mem_copy_def split: if_splits)
  show lens: "length (slot r' sz i) = length (if i = j then bs else slot r sz i)"
    using assms len by (auto simp: slot_def)
  fix t assume "t < length (slot r' sz i)"
  then have t: "t < sz" by (simp add: slot_def)
  have "\<not> (j * sz \<le> i * sz + t \<and> i * sz + t < j * sz + sz)" if "i \<noteq> j"
  proof -
    consider "i + 1 \<le> j" | "j + 1 \<le> i" using \<open>i \<noteq> j\<close> by linarith
    then show ?thesis
    proof cases
      case 1
      then have "(i + 1) * sz \<le> j * sz" by (rule mult_le_mono1)
      with t show ?thesis by simp
    next
      case 2
      then have "(j + 1) * sz \<le> i * sz" by (rule mult_le_mono1)
      then show ?thesis by simp
    qed
  qed
  with t assms(3) len show "slot r' sz i ! t = (if i = j then bs else slot r sz i) ! t"
    by (auto simp: slot_def nth_mem_copy [OF assms(1)])
qed

lemma array_push_grow:
  assumes "array_ok a" and "nelem a = nalloc a"
    and "2 * (unat (esize a) * unat (nalloc a)) < 2 ^ 64" and "unat (nalloc a) < 2 ^ 31"
    and "array_push (Some j) a = (p, a')"
  shows "unat (nalloc a') = 2 * unat (nalloc a)" "esize a' = esize a"
    "nelem a' = nelem a + 1" "p = Some (int (unat (esize a) * unat (nelem a)))"
    "length (region a') = unat (esize a) * unat (nalloc a')" "elem a' \<noteq> None"
    "take (length (region a)) (region a') = region a"
proof -
  from assms(1) obtain r where r: "elem a = Some r" "length r = unat (esize a) * unat (nalloc a)"
    and bound: "unat (esize a) * unat (nalloc a) < 2 ^ 64"
    by (auto simp: array_ok_def)
  have sz: "unat (esize a * ucast (nalloc a)) = unat (esize a) * unat (nalloc a)"
    using bound by (rule unat_scaled)
  have "unat (2 * (esize a * ucast (nalloc a))) = 2 * unat (esize a * ucast (nalloc a))"
    using assms(3) sz by (subst unat_mult_lem [THEN iffD1]) simp_all
  with sz have sz2: "unat (2 * (esize a * ucast (nalloc a))) = 2 * (unat (esize a) * unat (nalloc a))"
    by simp
  have na: "unat (nalloc a * 2) = 2 * unat (nalloc a)"
    using assms(4) by (subst unat_mult_lem [THEN iffD1]) simp_all
  obtain r' where r': "c_realloc (Some j) r (2 * (unat (esize a) * unat (nalloc a))) = Some r'"
    by (simp add: c_realloc_def)
  have push: "p = Some (uint (esize a * ucast (nelem a)))"
    "a' = a\<lparr>elem := Some r', nalloc := nalloc a * 2, nelem := nelem a + 1\<rparr>"
    using assms(2,5) r(1) r' sz2 by (auto simp: array_push_def Let_def)
  have "take (length r) r' = take (length r) r"
    using r(2) by (intro take_c_realloc [OF r']) simp_all
  then show "take (length (region a)) (region a') = region a"
    using r(1) push(2) by (simp add: region_def)
  show "p = Some (int (unat (esize a) * unat (nelem a)))"
    using push(1) sz assms(2) by (metis uint_nat)
  show "length (region a') = unat (esize a) * unat (nalloc a')"
    using length_c_realloc [OF r'] push(2) na by (simp add: region_def)
  show "unat (nalloc a') = 2 * unat (nalloc a)" "esize a' = esize a"
    "nelem a' = nelem a + 1" "elem a' \<noteq> None"
    using push(2) na by simp_all
qed

lemma array_ok_region:
  "array_ok a \<Longrightarrow> elem a = Some (region a) \<and> length (region a) = unat (esize a) * unat (nalloc a)"
  by (auto simp: array_ok_def region_def)

lemma array_ok_nelem:
  assumes "array_ok a"
  shows "unat (esize a) * unat (nelem a) \<le> unat (esize a) * unat (nalloc a)"
    and "unat (esize a) * unat (nelem a) < 2 ^ 64"
proof -
  have "unat (nelem a) \<le> unat (nalloc a)" using assms by (simp add: array_ok_def word_le_nat_alt)
  then show "unat (esize a) * unat (nelem a) \<le> unat (esize a) * unat (nalloc a)" by simp
  also have "\<dots> < 2 ^ 64" using assms by (simp add: array_ok_def)
  finally show "unat (esize a) * unat (nelem a) < 2 ^ 64" .
qed

text \<open>The slot that a push hands out is written by the caller: it becomes the last one.\<close>

lemma poke_appends:
  assumes "elem a' = Some r" "length r = unat (esize a') * unat (nalloc a')"
    and "unat (nelem a') = n + 1" "n + 1 \<le> unat (nalloc a')"
    and "length bs = unat (esize a')"
  shows "\<exists>a''. poke a' (int (n * unat (esize a'))) bs = Some a'' \<and> esize a'' = esize a' \<and>
    nelem a'' = nelem a' \<and> nalloc a'' = nalloc a' \<and> (\<exists>r''. elem a'' = Some r'' \<and> length r'' = length r) \<and>
    slots a'' = map (slot r (unat (esize a'))) [0..<n] @ [bs]"
proof -
  let ?sz = "unat (esize a')"
  have fits: "(n + 1) * ?sz \<le> unat (nalloc a') * ?sz" using assms(4) by (rule mult_le_mono1)
  then obtain r'' where r'': "mem_copy r (n * ?sz) bs 0 ?sz = Some r''"
    using assms(2,5) by (cases "mem_copy r (n * ?sz) bs 0 ?sz") (simp_all add: mult.commute)
  have len: "length r'' = length r" using r'' by (rule length_mem_copy)
  have "slot r'' ?sz i = (if i = n then bs else slot r ?sz i)" if "i < n + 1" for i
  proof (rule slot_mem_copy [OF r'' assms(5)])
    have "(i + 1) * ?sz \<le> (n + 1) * ?sz" using that by (intro mult_le_mono1) simp
    also note fits
    finally show "(i + 1) * ?sz \<le> length r" using assms(2) by (metis mult.commute)
  qed
  then have "map (slot r'' ?sz) [0..<n + 1] = map (slot r ?sz) [0..<n] @ [bs]"
    by (auto intro!: nth_equalityI simp: nth_append)
  moreover have "poke a' (int (n * ?sz)) bs = Some (a'\<lparr>elem := Some r''\<rparr>)"
    using r'' assms(1,5) by (simp only: poke_def nat_int bind.bind_lunit)
  ultimately show ?thesis
    using len assms(3) by (simp add: slots_def region_def)
qed

lemma array_push_room:
  assumes "array_ok a" and "nelem a \<noteq> nalloc a"
  shows "array_push ch a = (Some (int (unat (nelem a) * unat (esize a))), a\<lparr>nelem := nelem a + 1\<rparr>)"
    and "unat (nelem a + 1) = unat (nelem a) + 1" and "unat (nelem a) + 1 \<le> unat (nalloc a)"
proof -
  have lt: "unat (nelem a) < unat (nalloc a)"
    using assms by (simp add: array_ok_def word_le_nat_alt word_unat_eq_iff)
  then show le: "unat (nelem a) + 1 \<le> unat (nalloc a)" by simp
  have "unat (nalloc a) < 2 ^ 32" using unsigned_less [of "nalloc a", where ?'a = nat] by simp
  with le show "unat (nelem a + 1) = unat (nelem a) + 1"
    by (subst unat_add_no_wrap) simp_all
  have "unat (esize a * ucast (nelem a)) = unat (esize a) * unat (nelem a)"
    using array_ok_nelem(2) [OF assms(1)] by (rule unat_scaled)
  then have "uint (esize a * ucast (nelem a)) = int (unat (nelem a) * unat (esize a))"
    by (metis mult.commute uint_nat)
  then show "array_push ch a = (Some (int (unat (nelem a) * unat (esize a))), a\<lparr>nelem := nelem a + 1\<rparr>)"
    using assms(2) by (simp add: array_push_def)
qed

lemma map_slot_cong:
  assumes "take m r' = take m r" and "n * sz \<le> m"
  shows "map (slot r' sz) [0..<n] = map (slot r sz) [0..<n]"
proof (rule map_cong [OF refl])
  fix i assume "i \<in> set [0..<n]"
  then have "(i + 1) * sz \<le> n * sz" by (intro slot_bound) simp
  with assms show "slot r' sz i = slot r sz i" by (intro slot_take_eq [of m]) simp_all
qed

section \<open>Properties\<close>

text \<open>
  C35: \<open>array_push\<close> on a usable array returns the address of a fresh last slot, whether the
  region has room or has to be doubled; once the caller has filled that slot the array is usable
  again and holds the old elements followed by the new one. It returns NULL, and changes nothing,
  exactly when the array is full and the reallocation fails. The bounds say that the doubled size
  fits \<open>size_t\<close> and the doubled count fits \<open>uint32_t\<close>.
\<close>

theorem array_push_appends:
  assumes "array_ok a" and "length bs = unat (esize a)"
    and "2 * (unat (esize a) * unat (nalloc a)) < 2 ^ 64" and "unat (nalloc a) < 2 ^ 31"
  shows "if nelem a = nalloc a \<and> ch = None then array_push ch a = (None, a)
    else \<exists>a' a''. array_push ch a = (Some (int (unat (nelem a) * unat (esize a))), a') \<and>
      poke a' (int (unat (nelem a) * unat (esize a))) bs = Some a'' \<and> array_ok a'' \<and>
      slots a'' = slots a @ [bs] \<and> esize a'' = esize a"
proof (cases "nelem a = nalloc a")
  case True
  note reg = array_ok_region [OF assms(1)]
  show ?thesis
  proof (cases ch)
    case None
    with True show ?thesis by (simp add: array_push_def c_realloc_def)
  next
    case (Some j)
    obtain p a' where push: "array_push (Some j) a = (p, a')" by (cases "array_push (Some j) a")
    note grow = array_push_grow [OF assms(1) True assms(3,4) push]
    obtain r where r: "elem a' = Some r" "region a' = r" using grow(6) by (auto simp: region_def)
    have pos: "0 < unat (nalloc a)" using assms(1) by (simp add: array_ok_def unat_gt_0)
    have n: "unat (nelem a') = unat (nelem a) + 1"
      using grow(3) assms(4) True by (simp add: unat_add_no_wrap)
    have len: "length r = unat (esize a') * unat (nalloc a')" using grow(5) r(2) grow(2) by simp
    have fits: "unat (nelem a) + 1 \<le> unat (nalloc a')" using grow(1) True pos by simp
    have bs: "length bs = unat (esize a')" using assms(2) grow(2) by simp
    obtain a'' where a'': "poke a' (int (unat (nelem a) * unat (esize a'))) bs = Some a''"
      "esize a'' = esize a'" "nelem a'' = nelem a'" "nalloc a'' = nalloc a'"
      "\<exists>r''. elem a'' = Some r'' \<and> length r'' = length r"
      "slots a'' = map (slot r (unat (esize a'))) [0..<unat (nelem a)] @ [bs]"
      using poke_appends [OF r(1) len n fits bs] by blast
    have le: "unat (nelem a) * unat (esize a) \<le> length (region a)"
      using array_ok_nelem(1) [OF assms(1)] reg by (simp add: mult.commute)
    have "map (slot r (unat (esize a))) [0..<unat (nelem a)] = slots a"
      unfolding slots_def
      by (rule map_slot_cong [OF _ le]) (use grow(7) r(2) in simp)
    moreover have "array_ok a''"
    proof -
      have "unat (esize a) * unat (nalloc a') < 2 ^ 64" using assms(3) grow(1) by (simp add: mult.left_commute)
      moreover have "nalloc a' \<noteq> 0" using grow(1) pos by (metis mult_is_0 not_gr0 unat_0 zero_neq_numeral)
      ultimately show ?thesis
        using assms(1) a'' len fits n grow(2) by (auto simp: array_ok_def word_le_nat_alt)
    qed
    ultimately show ?thesis
      using Some True push a'' grow(2,4) by (simp add: mult.commute)
  qed
next
  case False
  note room = array_push_room [OF assms(1) False]
  note reg = array_ok_region [OF assms(1)]
  let ?a' = "a\<lparr>nelem := nelem a + 1\<rparr>"
  obtain a'' where a'': "poke ?a' (int (unat (nelem a) * unat (esize ?a'))) bs = Some a''"
    "esize a'' = esize ?a'" "nelem a'' = nelem ?a'" "nalloc a'' = nalloc ?a'"
    "\<exists>r''. elem a'' = Some r'' \<and> length r'' = length (region a)"
    "slots a'' = map (slot (region a) (unat (esize ?a'))) [0..<unat (nelem a)] @ [bs]"
    using poke_appends [of ?a' "region a" "unat (nelem a)" bs] reg room assms(2) by force
  have "array_ok a''"
    using assms(1) a'' reg room(2,3) by (auto simp: array_ok_def word_le_nat_alt)
  with a'' room(1) False show ?thesis by (auto simp: slots_def)
qed

definition small_array :: nc_array where
  "small_array = \<lparr>nelem = 1, elem = Some [1, 2], esize = 2, nalloc = 1\<rparr>"

lemma array_push_appends_witness:
  "array_ok small_array \<and> (\<exists>a' a''. array_push (Some (\<lambda>_. 9)) small_array = (Some 2, a') \<and>
     poke a' 2 [3, 4] = Some a'' \<and> array_ok a'' \<and> slots a'' = [[1, 2], [3, 4]])"
  using array_push_appends [of small_array "[3, 4]" "Some (\<lambda>_. 9)"]
  by (auto simp: array_ok_def small_array_def slots_def region_def slot_def)

text \<open>
  \<open>array_pop\<close> returns the address of the last slot and keeps the others. An array that held
  elements loses exactly its last one, and popping an empty array fails its assertion.
\<close>

theorem array_pop_takes_last:
  assumes "array_ok a"
  shows "(case array_pop a of
      None \<Rightarrow> slots a = []
    | Some (p, a') \<Rightarrow> p = int (unat (nelem a') * unat (esize a)) \<and> array_ok a' \<and>
        slots a = slots a' @ [slot (region a) (unat (esize a)) (unat (nelem a'))])"
proof (cases "nelem a = 0")
  case True
  then show ?thesis by (simp add: array_pop_def slots_def)
next
  case False
  then have n: "unat (nelem a) = unat (nelem a - 1) + 1"
    by (simp add: unat_minus_one unat_gt_0 Suc_leI)
  let ?a' = "a\<lparr>nelem := nelem a - 1\<rparr>"
  have ok: "array_ok ?a'"
    using assms n by (auto simp: array_ok_def word_le_nat_alt)
  have "unat (esize a * ucast (nelem ?a')) = unat (esize a) * unat (nelem ?a')"
    using array_ok_nelem(2) [OF ok] by (intro unat_scaled) simp
  then have "uint (esize a * ucast (nelem ?a')) = int (unat (nelem ?a') * unat (esize a))"
    by (metis mult.commute uint_nat)
  moreover have "slots a = slots ?a' @ [slot (region a) (unat (esize a)) (unat (nelem a - 1))]"
    by (simp add: slots_def n)
  ultimately show ?thesis using False ok by (simp add: array_pop_def)
qed

lemma array_pop_takes_last_witness:
  "array_ok small_array \<and> (case array_pop small_array of None \<Rightarrow> False
     | Some (p, a') \<Rightarrow> p = 0 \<and> array_ok a' \<and> slots a' = [])"
  using array_pop_takes_last [of small_array]
  by (simp add: array_ok_def small_array_def slots_def region_def slot_def array_pop_def)

lemma array_get_address:
  assumes "array_ok a" and "i < nelem a"
  shows "array_get a i = Some (int (unat i * unat (esize a)))"
proof -
  have lt: "unat i < unat (nelem a)" using assms(2) by (simp add: word_less_nat_alt)
  then have "unat (esize a) * unat i \<le> unat (esize a) * unat (nelem a)" by simp
  also have "\<dots> < 2 ^ 64" by (rule array_ok_nelem [OF assms(1)])
  finally have "unat (esize a * ucast i) = unat (esize a) * unat i" by (rule unat_scaled)
  then have "uint (esize a * ucast i) = int (unat i * unat (esize a))"
    by (metis mult.commute uint_nat)
  moreover have "nelem a \<noteq> 0" using lt by auto
  ultimately show ?thesis using assms(2) by (simp add: array_get_def)
qed

lemma array_idx_general:
  assumes "array_ok a" and "i < nelem a" and "unat (esize a) < 2 ^ 32"
  shows "array_get a i \<bind> array_idx a =
    (if (unat i * unat (esize a)) mod 2 ^ 32 mod unat (esize a) = 0
     then Some (of_nat ((unat i * unat (esize a)) mod 2 ^ 32 div unat (esize a))) else None)"
proof -
  let ?off = "unat i * unat (esize a)" and ?w = "ucast (esize a) :: u32"
  have w: "unat ?w = unat (esize a)"
    using assms(3) by (simp add: unsigned_ucast_eq take_bit_eq_mod)
  have sz: "0 < unat (esize a)" using assms(1) by (simp add: array_ok_def unat_gt_0)
  then have w0: "?w \<noteq> 0" using w by (metis less_numeral_extra(3) unat_0)
  have "(word_of_int (int ?off) :: u32) = of_nat ?off" by simp
  then have off: "unat (word_of_int (int ?off) :: u32) = ?off mod 2 ^ 32"
    by (simp only: unsigned_of_nat take_bit_eq_mod len_num1 len_bit0) simp
  have "word_of_int (int ?off) mod ?w = 0 \<longleftrightarrow> ?off mod 2 ^ 32 mod unat (esize a) = 0"
    by (simp only: word_unat_eq_iff unat_mod off w unat_0)
  moreover have "word_of_int (int ?off) div ?w = of_nat (?off mod 2 ^ 32 div unat (esize a))"
    by (metis off w unat_div of_nat_unat ucast_id)
  ultimately show general: "array_get a i \<bind> array_idx a =
    (if ?off mod 2 ^ 32 mod unat (esize a) = 0
     then Some (of_nat (?off mod 2 ^ 32 div unat (esize a))) else None)"
    using w0 by (simp add: array_get_address [OF assms(1,2)] array_idx_def Let_def)
qed

text \<open>
  \<open>array_idx\<close> inverts \<open>array_get\<close> for every element whose byte offset is below 4 GiB.
\<close>

theorem array_idx_of_get:
  assumes "array_ok a" and "i < nelem a" and "unat i * unat (esize a) < 2 ^ 32"
    and "unat (esize a) < 2 ^ 32"
  shows "array_get a i \<bind> array_idx a = Some i"
proof -
  have "0 < unat (esize a)" using assms(1) by (simp add: array_ok_def unat_gt_0)
  with assms(3) show ?thesis by (simp add: array_idx_general [OF assms(1,2,4)])
qed

lemma array_idx_of_get_witness:
  "array_ok (small_array\<lparr>elem := Some [1, 2, 3, 4], nelem := 2, nalloc := 2\<rparr>) \<and>
   array_get (small_array\<lparr>elem := Some [1, 2, 3, 4], nelem := 2, nalloc := 2\<rparr>) 1 \<bind>
     array_idx (small_array\<lparr>elem := Some [1, 2, 3, 4], nelem := 2, nalloc := 2\<rparr>) = Some 1"
  using array_idx_of_get [of "small_array\<lparr>elem := Some [1, 2, 3, 4], nelem := 2, nalloc := 2\<rparr>" 1]
  by (simp add: array_ok_def small_array_def)

text \<open>
  From 4 GiB on \<open>array_idx\<close> is wrong, because it casts the offset to \<open>uint32_t\<close>: with
  elements of \<open>2 ^ k\<close> bytes the index of element \<open>i\<close> comes back as \<open>i mod 2 ^ (32 - k)\<close>.
\<close>

theorem array_idx_truncates:
  assumes "array_ok a" and "i < nelem a" and "unat (esize a) = 2 ^ k" and "k < 32"
  shows "array_get a i \<bind> array_idx a = Some (of_nat (unat i mod 2 ^ (32 - k)))"
proof -
  have "(2::nat) ^ 32 = 2 ^ (32 - k) * 2 ^ k"
    using assms(4) by (simp flip: power_add)
  then have "unat i * 2 ^ k mod 2 ^ 32 = unat i mod 2 ^ (32 - k) * 2 ^ k"
    by (simp only: mult_mod_left)
  moreover have "unat (esize a) < 2 ^ 32"
    using assms(3,4) by (simp del: power_numeral)
  ultimately show ?thesis
    by (simp add: array_idx_general [OF assms(1,2)] assms(3) del: power_numeral)
qed

definition huge_array :: nc_array where
  "huge_array = \<lparr>nelem = 4, elem = Some (replicate (2 ^ 33) 0), esize = 2 ^ 31, nalloc = 4\<rparr>"

lemma array_idx_truncates_witness:
  "array_ok huge_array \<and> array_get huge_array 2 \<bind> array_idx huge_array = Some 0"
proof -
  have ok: "array_ok huge_array" by (simp add: huge_array_def array_ok_def)
  have "array_get huge_array 2 \<bind> array_idx huge_array = Some (of_nat (unat (2 :: u32) mod 2 ^ (32 - 31)))"
    by (rule array_idx_truncates [OF ok]) (simp_all add: huge_array_def)
  with ok show ?thesis by simp
qed

text \<open>
  Doubling \<open>nalloc\<close> wraps: a full array of \<open>2 ^ 31\<close> slots that is pushed once more gets a
  region of twice the size but a capacity of 0, which is below its element count, so the array is
  no longer usable.
\<close>

theorem array_push_wraps:
  assumes "array_ok a" and "nelem a = nalloc a" and "nalloc a = 2 ^ 31"
  shows "\<exists>p a'. array_push (Some j) a = (Some p, a') \<and> nalloc a' = 0 \<and> nelem a' = 2 ^ 31 + 1 \<and>
    \<not> array_ok a'"
  using assms by (auto simp: array_push_def c_realloc_def array_ok_def Let_def)

lemma array_push_wraps_witness:
  "\<exists>p a'. array_push (Some (\<lambda>_. 0))
     \<lparr>nelem = 2 ^ 31, elem = Some (replicate (2 ^ 31) 0), esize = 1, nalloc = 2 ^ 31\<rparr> = (Some p, a') \<and>
     nalloc a' = 0 \<and> nelem a' = 2 ^ 31 + 1 \<and> \<not> array_ok a'"
  by (rule array_push_wraps) (simp_all add: array_ok_def)

section \<open>Iteration\<close>

text \<open>The reference for \<open>array_each\<close>: the function runs over the addresses up to a failure.\<close>

fun each_ref ::
  "(int \<Rightarrow> u8 list \<Rightarrow> 'd \<Rightarrow> int \<times> u8 list \<times> 'd) \<Rightarrow> int list \<Rightarrow> u8 list \<Rightarrow> 'd \<Rightarrow> int \<times> u8 list \<times> 'd" where
  "each_ref func [] r d = (0, r, d)"
| "each_ref func (p # ps) r d =
     (case func p r d of (st, r', d') \<Rightarrow>
        if st \<noteq> 0 then (st, r', d') else each_ref func ps r' d')"

lemma array_ok_update:
  "array_ok a \<Longrightarrow> length r = length (region a) \<Longrightarrow> array_ok (a\<lparr>elem := Some r\<rparr>)"
  by (auto simp: array_ok_def region_def)

lemma array_each_loop_ref:
  assumes "array_ok a" and "\<And>p r d st r' d'. func p r d = (st, r', d') \<Longrightarrow> length r' = length r"
    and "n = nelem a" and "i \<le> n"
  shows "array_each_loop func a d i n =
    (case each_ref func (map (\<lambda>k. int (k * unat (esize a))) [unat i..<unat n]) (region a) d of
       (st, r', d') \<Rightarrow> Some (st, a\<lparr>elem := Some r'\<rparr>, d'))"
  using assms
proof (induction "unat n - unat i" arbitrary: a i d)
  case 0
  then have "i = n" by (simp add: word_unat_eq_iff word_le_nat_alt)
  with 0 show ?case
    using array_ok_region [OF 0(2)] by (subst array_each_loop.simps) (simp flip: region_def)
next
  case (Suc m)
  then have lt: "i < n" by (simp add: word_less_nat_alt)
  have i1: "unat (i + 1) = unat i + 1"
    using lt unsigned_less [of n, where ?'a = nat]
    by (subst unat_add_no_wrap) (simp_all add: word_less_nat_alt)
  obtain st r' d' where f: "func (int (unat i * unat (esize a))) (region a) d = (st, r', d')"
    by (metis prod_cases3)
  have len: "length r' = length (region a)" using Suc.prems(2) f by blast
  have el: "elem a = Some (region a)" using array_ok_region [OF Suc.prems(1)] by simp
  have get: "array_get a i = Some (int (unat i * unat (esize a)))"
    using lt Suc.prems(3) by (intro array_get_address [OF Suc.prems(1)]) simp
  have range: "[unat i..<unat n] = unat i # [unat (i + 1)..<unat n]"
    using lt i1 by (simp add: upt_conv_Cons word_less_nat_alt)
  let ?a' = "a\<lparr>elem := Some r'\<rparr>"
  have IH: "array_each_loop func ?a' d' (i + 1) n =
    (case each_ref func (map (\<lambda>k. int (k * unat (esize a))) [unat (i + 1)..<unat n]) r' d' of
       (st, r', d') \<Rightarrow> Some (st, a\<lparr>elem := Some r'\<rparr>, d'))"
    using Suc.hyps(1) [of "i + 1" ?a' d'] Suc.hyps(2) Suc.prems i1 lt array_ok_update [OF Suc.prems(1) len]
    by (simp add: region_def word_le_nat_alt word_less_nat_alt)
  show ?case
    using lt f IH by (subst array_each_loop.simps) (simp add: get el range)
qed

text \<open>
  \<open>array_each\<close> calls the function exactly on the addresses of the slots in use, in order, up
  to and including the first one where it fails, and returns that status (0 when there is none);
  it asserts that the array is not empty.
\<close>

theorem array_each_in_order:
  assumes "array_ok a" and "\<And>p r d st r' d'. func p r d = (st, r', d') \<Longrightarrow> length r' = length r"
  shows "array_each func a d =
    (if nelem a = 0 then None
     else case each_ref func (map (\<lambda>k. int (k * unat (esize a))) [0..<unat (nelem a)]) (region a) d of
       (st, r', d') \<Rightarrow> Some (st, a\<lparr>elem := Some r'\<rparr>, d'))"
  using array_each_loop_ref [of a func "nelem a" 0 d, OF assms refl]
  by (simp add: array_each_def array_n_def)

lemma array_each_in_order_witness:
  "array_ok small_array \<and>
   array_each (\<lambda>p r d. (7, r[nat p := 5], d + p)) small_array 1 =
     Some (7, small_array\<lparr>elem := Some [5, 2]\<rparr>, 1)"
proof -
  have ok: "array_ok small_array" by (simp add: small_array_def array_ok_def)
  have "array_each (\<lambda>p r d. (7, r[nat p := 5], d + p)) small_array 1 =
    (if nelem small_array = 0 then None
     else case each_ref (\<lambda>p r d. (7, r[nat p := 5], d + p))
       (map (\<lambda>k. int (k * unat (esize small_array))) [0..<unat (nelem small_array)]) (region small_array) 1 of
       (st, r', d') \<Rightarrow> Some (st, small_array\<lparr>elem := Some r'\<rparr>, d'))"
    by (rule array_each_in_order [OF ok]) auto
  with ok show ?thesis by (simp add: small_array_def region_def)
qed

end
