(* ===== verification/Links.thy ===== *)
theory Links
  imports Prelude
begin

text \<open>
  Doubly linked structures over addresses, shared by the two list implementations. A node's links
  are read through two partial functions \<open>nx\<close> and \<open>pv\<close> (undefined: no such node). A path of
  addresses is linked when every two neighbours point at each other; address 0 is NULL and carries
  no links, so \<open>0 # xs @ [0]\<close> describes a null-terminated list and \<open>h # xs @ [h]\<close> a circular one.
\<close>

type_synonym addr = nat

definition edge :: "(addr \<Rightarrow> addr option) \<Rightarrow> (addr \<Rightarrow> addr option) \<Rightarrow> addr \<Rightarrow> addr \<Rightarrow> bool" where
  "edge nx pv x y \<longleftrightarrow> (x \<noteq> 0 \<longrightarrow> nx x = Some y) \<and> (y \<noteq> 0 \<longrightarrow> pv y = Some x)"

fun chain :: "(addr \<Rightarrow> addr option) \<Rightarrow> (addr \<Rightarrow> addr option) \<Rightarrow> addr list \<Rightarrow> bool" where
  "chain nx pv (x # y # zs) \<longleftrightarrow> edge nx pv x y \<and> chain nx pv (y # zs)"
| "chain nx pv _ \<longleftrightarrow> True"

named_theorems links "splitting, joining and framing linked paths"

lemma chain_append:
  "chain nx pv (xs @ y # zs) \<longleftrightarrow> chain nx pv (xs @ [y]) \<and> chain nx pv (y # zs)"
proof (induction xs)
  case (Cons x xs)
  then show ?case by (cases xs) auto
qed simp

lemma chain_split [links]:
  "chain nx pv (xs @ y # z # zs) \<longleftrightarrow>
     chain nx pv (xs @ [y]) \<and> edge nx pv y z \<and> chain nx pv (z # zs)"
  by (subst chain_append) simp

lemma chain_cong:
  assumes "\<And>x. x \<in> set (butlast ys) \<Longrightarrow> x \<noteq> 0 \<Longrightarrow> nx' x = nx x"
    and "\<And>y. y \<in> set (tl ys) \<Longrightarrow> y \<noteq> 0 \<Longrightarrow> pv' y = pv y"
  shows "chain nx' pv' ys = chain nx pv ys"
  using assms
proof (induction ys)
  case (Cons x ys)
  show ?case
  proof (cases ys)
    case ys: (Cons y zs)
    have "chain nx' pv' ys = chain nx pv ys"
    proof (rule Cons.IH)
      show "nx' x = nx x" if "x \<in> set (butlast ys)" "x \<noteq> 0" for x
        using Cons.prems(1) that ys by simp
      show "pv' y = pv y" if "y \<in> set (tl ys)" "y \<noteq> 0" for y
        using Cons.prems(2) that ys by auto
    qed
    moreover have "edge nx' pv' x y = edge nx pv x y"
      using Cons.prems ys by (auto simp: edge_def)
    ultimately show ?thesis using ys by simp
  qed simp
qed simp

lemma chain_update_nx [links]:
  "p \<notin> set (butlast ys) \<Longrightarrow> chain (nx(p := v)) pv ys = chain nx pv ys"
  by (rule chain_cong) auto

lemma chain_update_pv [links]:
  "p \<notin> set (tl ys) \<Longrightarrow> chain nx (pv(p := v)) ys = chain nx pv ys"
  by (rule chain_cong) auto

lemma chain_nx_at:
  "chain nx pv (xs @ x # y # zs) \<Longrightarrow> x \<noteq> 0 \<Longrightarrow> nx x = Some y"
  by (simp add: chain_split edge_def)

lemma chain_pv_at:
  "chain nx pv (xs @ x # y # zs) \<Longrightarrow> y \<noteq> 0 \<Longrightarrow> pv y = Some x"
  by (simp add: chain_split edge_def)

lemma chain_rev: "chain pv nx (rev ys) = chain nx pv ys"
proof (induction ys)
  case (Cons x ys)
  show ?case
  proof (cases ys)
    case ys: (Cons y zs)
    then have "rev (x # ys) = rev zs @ y # [x]" by simp
    then have "chain pv nx (rev (x # ys)) \<longleftrightarrow> chain pv nx (rev zs @ [y]) \<and> edge pv nx y x"
      by (simp add: chain_split)
    also have "rev zs @ [y] = rev ys" using ys by simp
    finally show ?thesis using Cons ys by (auto simp: edge_def)
  qed simp
qed simp

section \<open>Rings\<close>

text \<open>
  A list with a sentinel \<open>h\<close>: the head of a circular list, or NULL for a null-terminated one. The
  lemmas say what linking a node in and out does, for any new link functions that agree with the
  intended update on the nodes that matter.
\<close>

definition ring :: "(addr \<Rightarrow> addr option) \<Rightarrow> (addr \<Rightarrow> addr option) \<Rightarrow> addr \<Rightarrow> addr list \<Rightarrow> bool" where
  "ring nx pv h xs \<longleftrightarrow> chain nx pv (h # xs @ [h]) \<and> distinct (h # xs)"

lemma ring_path:
  assumes "distinct (h # xs)" and "h # xs @ [h] = us @ a # b # vs"
  shows "a \<notin> set us" "a \<notin> set (butlast (b # vs))" "b \<notin> set vs" "b \<notin> set (tl (us @ [a]))"
proof -
  have "butlast (h # xs @ [h]) = us @ a # butlast (b # vs)"
    by (simp add: assms(2) butlast_append)
  then have "us @ a # butlast (b # vs) = h # xs" by simp
  then have "distinct (us @ a # butlast (b # vs))" using assms(1) by simp
  then show "a \<notin> set us" "a \<notin> set (butlast (b # vs))" by auto
  have "tl (h # xs @ [h]) = tl (us @ [a]) @ b # vs"
    by (cases us) (simp_all add: assms(2))
  then have "tl (us @ [a]) @ b # vs = xs @ [h]" by simp
  then have "distinct (tl (us @ [a]) @ b # vs)" using assms(1) by simp
  then show "b \<notin> set vs" "b \<notin> set (tl (us @ [a]))" by auto
qed

lemma ring_split:
  obtains us vs where "h # xs @ ys @ [h] = us @ last (h # xs) # hd (ys @ [h]) # vs"
    "h # xs @ p # ys @ [h] = us @ last (h # xs) # p # hd (ys @ [h]) # vs"
proof -
  obtain us where us: "h # xs = us @ [last (h # xs)]" by (metis append_butlast_last_id list.distinct(1))
  obtain vs where vs: "ys @ [h] = hd (ys @ [h]) # vs" by (cases ys) auto
  have eq: "h # xs @ zs = us @ last (h # xs) # zs" for zs
    using us by (metis append.assoc append_Cons append_Nil)
  show ?thesis
    by (rule that [of us vs]) (use eq [of "ys @ [h]"] eq [of "p # ys @ [h]"] vs in simp_all)
qed

lemma ring_insert:
  assumes "ring nx pv h (xs @ ys)" and "p \<notin> set (h # xs @ ys)"
    and "\<And>q. q \<noteq> 0 \<Longrightarrow> nx' q = (nx(p \<mapsto> hd (ys @ [h]), last (h # xs) \<mapsto> p)) q"
    and "\<And>q. q \<noteq> 0 \<Longrightarrow> pv' q = (pv(hd (ys @ [h]) \<mapsto> p, p \<mapsto> last (h # xs))) q"
  shows "ring nx' pv' h (xs @ p # ys)"
proof -
  define a b where ab_def: "a = last (h # xs)" "b = hd (ys @ [h])"
  obtain us vs where old: "h # xs @ ys @ [h] = us @ a # b # vs"
    and new: "h # xs @ p # ys @ [h] = us @ a # p # b # vs"
    unfolding ab_def by (rule ring_split)
  have dist: "distinct (h # xs @ ys)" using assms(1) by (simp add: ring_def)
  have old': "h # (xs @ ys) @ [h] = us @ a # b # vs" using old by simp
  note path = ring_path [OF dist old']
  have "set (us @ a # b # vs) = set (h # xs @ ys)" by (subst old [symmetric]) auto
  with assms(2) have p: "p \<notin> set us" "p \<noteq> a" "p \<noteq> b" "p \<notin> set vs" by auto
  from p have p': "p \<notin> set (tl (us @ [a]))" "p \<notin> set (butlast (b # vs))"
    by (cases us; auto dest: in_set_butlastD)+
  let ?nx = "nx(p \<mapsto> b, a \<mapsto> p)" and ?pv = "pv(b \<mapsto> p, p \<mapsto> a)"
  have "chain nx pv (us @ a # b # vs)" using assms(1) old by (simp add: ring_def)
  then have "chain nx pv (us @ [a])" "chain nx pv (b # vs)" by (simp_all add: chain_split)
  moreover have "chain ?nx ?pv (us @ [a]) = chain nx pv (us @ [a])"
    using path p p' by (intro chain_cong) auto
  moreover have "chain ?nx ?pv (b # vs) = chain nx pv (b # vs)"
    using path p p' by (intro chain_cong) auto
  moreover have "edge ?nx ?pv a p" "edge ?nx ?pv p b"
    using p by (auto simp: edge_def)
  ultimately have "chain ?nx ?pv (us @ a # p # b # vs)" by (simp add: chain_split)
  moreover have "chain nx' pv' (us @ a # p # b # vs) = chain ?nx ?pv (us @ a # p # b # vs)"
    unfolding ab_def by (rule chain_cong) (use assms(3,4) in blast)+
  ultimately have "chain nx' pv' (h # (xs @ p # ys) @ [h])" using new by simp
  with assms(2) dist show ?thesis by (auto simp: ring_def)
qed

lemma ring_remove:
  assumes "ring nx pv h (xs @ p # ys)"
    and "\<And>q. q \<noteq> 0 \<Longrightarrow> q \<noteq> p \<Longrightarrow> nx' q = (nx(last (h # xs) \<mapsto> hd (ys @ [h]))) q"
    and "\<And>q. q \<noteq> 0 \<Longrightarrow> q \<noteq> p \<Longrightarrow> pv' q = (pv(hd (ys @ [h]) \<mapsto> last (h # xs))) q"
  shows "ring nx' pv' h (xs @ ys)"
proof -
  define a b where ab_def: "a = last (h # xs)" "b = hd (ys @ [h])"
  obtain us vs where new: "h # xs @ ys @ [h] = us @ a # b # vs"
    and old: "h # xs @ p # ys @ [h] = us @ a # p # b # vs"
    unfolding ab_def by (rule ring_split)
  have dist: "distinct (h # xs @ p # ys)" using assms(1) by (simp add: ring_def)
  then have dist': "distinct (h # xs @ ys)" by auto
  have new': "h # (xs @ ys) @ [h] = us @ a # b # vs" using new by simp
  note path = ring_path [OF dist' new']
  have "set (us @ a # b # vs) = set (h # xs @ ys)" by (subst new [symmetric]) auto
  with dist have p: "p \<notin> set us" "p \<noteq> a" "p \<noteq> b" "p \<notin> set vs" by auto
  let ?nx = "nx(a \<mapsto> b)" and ?pv = "pv(b \<mapsto> a)"
  have "chain nx pv (us @ a # p # b # vs)" using assms(1) old by (simp add: ring_def)
  then have "chain nx pv (us @ [a])" "chain nx pv (b # vs)" by (simp_all add: chain_split)
  moreover have "chain ?nx ?pv (us @ [a]) = chain nx pv (us @ [a])"
    using path by (intro chain_cong) auto
  moreover have "chain ?nx ?pv (b # vs) = chain nx pv (b # vs)"
    using path by (intro chain_cong) auto
  moreover have "edge ?nx ?pv a b" by (auto simp: edge_def)
  ultimately have "chain ?nx ?pv (us @ a # b # vs)" by (simp add: chain_split)
  moreover have "chain nx' pv' (us @ a # b # vs) = chain ?nx ?pv (us @ a # b # vs)"
  proof (rule chain_cong)
    show "nx' q = ?nx q" if "q \<in> set (butlast (us @ a # b # vs))" "q \<noteq> 0" for q
      unfolding ab_def by (rule assms(2)) (use that p in_set_butlastD [OF that(1)] in auto)
    show "pv' q = ?pv q" if "q \<in> set (tl (us @ a # b # vs))" "q \<noteq> 0" for q
      unfolding ab_def by (rule assms(3)) (use that p list.set_sel(2) [OF _ that(1)] in auto)
  qed
  ultimately have "chain nx' pv' (h # (xs @ ys) @ [h])" using new by simp
  with dist' show ?thesis by (simp add: ring_def)
qed

lemma ring_at:
  assumes "ring nx pv h (xs @ p # ys)"
  shows "edge nx pv (last (h # xs)) p" "edge nx pv p (hd (ys @ [h]))"
proof -
  obtain us vs where old: "h # xs @ p # ys @ [h] = us @ last (h # xs) # p # hd (ys @ [h]) # vs"
    by (rule ring_split)
  have "chain nx pv (h # xs @ p # ys @ [h])" using assms by (simp add: ring_def)
  then show "edge nx pv (last (h # xs)) p" "edge nx pv p (hd (ys @ [h]))"
    unfolding old by (simp_all add: chain_split)
qed

lemma ring_ends:
  assumes "ring nx pv h (xs @ ys)"
  shows "edge nx pv (last (h # xs)) (hd (ys @ [h]))"
proof -
  obtain us vs where old: "h # xs @ ys @ [h] = us @ last (h # xs) # hd (ys @ [h]) # vs"
    by (rule ring_split)
  have "chain nx pv (h # xs @ ys @ [h])" using assms by (simp add: ring_def)
  then show ?thesis unfolding old by (simp add: chain_split)
qed

lemma ring_cong:
  assumes "\<And>q. q \<in> set (h # xs) \<Longrightarrow> q \<noteq> 0 \<Longrightarrow> nx' q = nx q \<and> pv' q = pv q"
  shows "ring nx' pv' h xs = ring nx pv h xs"
proof -
  have "chain nx' pv' (h # xs @ [h]) = chain nx pv (h # xs @ [h])"
    using assms by (intro chain_cong) (auto simp: butlast_append split: if_splits)
  then show ?thesis by (simp add: ring_def)
qed

text \<open>Two rings on disjoint nodes join into one when the first is cut open after the other's head.\<close>

lemma ring_splice:
  assumes "ring nx pv l xs" "ring nx pv h ys" and "xs \<noteq> []" and "set (l # xs) \<inter> set (h # ys) = {}"
    and "\<And>q. q \<noteq> 0 \<Longrightarrow> q \<noteq> l \<Longrightarrow> nx' q = (nx(h \<mapsto> hd xs, last xs \<mapsto> hd (ys @ [h]))) q"
    and "\<And>q. q \<noteq> 0 \<Longrightarrow> q \<noteq> l \<Longrightarrow> pv' q = (pv(hd xs \<mapsto> h, hd (ys @ [h]) \<mapsto> last xs)) q"
  shows "ring nx' pv' h (xs @ ys)"
proof -
  let ?b = "hd (ys @ [h])"
  obtain vs where vs: "ys @ [h] = ?b # vs" by (cases ys) auto
  obtain x xs' where x: "xs = x # xs'" using assms(3) by (cases xs) auto
  have dist: "distinct (l # xs)" "distinct (h # ys)" using assms(1,2) by (simp_all add: ring_def)
  have b: "?b \<in> set (h # ys)" "?b \<notin> set xs" "set vs \<subseteq> set (h # ys)"
    "?b \<notin> set vs" "h \<notin> set (butlast (?b # vs))"
    using assms(4) dist(2) vs by (cases ys; auto)+
  have ends: "hd xs \<in> set xs" "last xs \<in> set xs" using assms(3) by simp_all
  have lastb: "last xs \<notin> set (butlast xs)"
  proof -
    have "distinct (butlast xs @ [last xs])" using dist(1) assms(3) by simp
    then show ?thesis by (simp del: append_butlast_last_id)
  qed
  have "chain nx pv (xs @ [l])" using assms(1) x by (simp add: ring_def)
  moreover have "xs @ [l] = butlast xs @ last xs # l # []" using assms(3) by simp
  ultimately have "chain nx pv (butlast xs @ [last xs])" by (metis chain_split)
  then have inner: "chain nx pv xs" using assms(3) by simp
  have "chain nx' pv' xs = chain nx pv xs"
  proof (rule chain_cong)
    show "nx' q = nx q" if "q \<in> set (butlast xs)" "q \<noteq> 0" for q
    proof -
      have "q \<in> set xs" using that(1) by (rule in_set_butlastD)
      then have "q \<noteq> l" "q \<noteq> h" "q \<noteq> last xs" using assms(4) dist(1) lastb that(1) by auto
      then show ?thesis using assms(5) [of q] that(2) by simp
    qed
    show "pv' q = pv q" if "q \<in> set (tl xs)" "q \<noteq> 0" for q
    proof -
      have "q \<in> set xs" using that x by simp
      then have "q \<noteq> l" "q \<noteq> hd xs" "q \<noteq> ?b" using assms(4) dist(1) that(1) b x by auto
      then show ?thesis using assms(6) [of q] that(2) by simp
    qed
  qed
  with inner have c1: "chain nx' pv' xs" by simp
  have "chain nx pv (?b # vs)"
    using assms(2) vs by (cases ys) (simp_all add: ring_def)
  moreover have "chain nx' pv' (?b # vs) = chain nx pv (?b # vs)"
  proof (rule chain_cong)
    show "nx' q = nx q" if "q \<in> set (butlast (?b # vs))" "q \<noteq> 0" for q
    proof -
      have "q \<in> set (h # ys)" using in_set_butlastD [OF that(1)] b by auto
      then have "q \<noteq> l" "q \<noteq> last xs" using assms(4) ends by auto
      moreover have "q \<noteq> h" using that(1) b(5) by blast
      ultimately show ?thesis using assms(5) [of q] that(2) by simp
    qed
    show "pv' q = pv q" if "q \<in> set (tl (?b # vs))" "q \<noteq> 0" for q
    proof -
      have "q \<in> set (h # ys)" using that(1) b by auto
      then have "q \<noteq> l" "q \<noteq> hd xs" using assms(4) ends by auto
      moreover have "q \<noteq> ?b" using that(1) b(4) by auto
      ultimately show ?thesis using assms(6) [of q] that(2) by simp
    qed
  qed
  ultimately have c2: "chain nx' pv' (?b # vs)" by simp
  have "edge nx' pv' h (hd xs)"
  proof -
    have "hd xs \<noteq> l" "hd xs \<noteq> ?b" "h \<noteq> l" "h \<noteq> last xs"
      using assms(4) dist(1) ends b by auto
    then show ?thesis using assms(5) [of h] assms(6) [of "hd xs"] by (simp add: edge_def)
  qed
  with c1 x have "chain nx' pv' (h # xs)" by simp
  then have c1': "chain nx' pv' ((h # butlast xs) @ [last xs])" using assms(3) by simp
  have "edge nx' pv' (last xs) ?b"
  proof -
    have "last xs \<noteq> l" "?b \<noteq> l" using assms(4) dist(1) ends b by auto
    then show ?thesis using assms(5) [of "last xs"] assms(6) [of ?b] by (simp add: edge_def)
  qed
  with c1' c2 have "chain nx' pv' ((h # butlast xs) @ last xs # ?b # vs)" by (simp only: chain_split)
  moreover have "(h # butlast xs) @ last xs # ?b # vs = h # (xs @ ys) @ [h]"
  proof -
    have "butlast xs @ last xs # ?b # vs = (butlast xs @ [last xs]) @ ys @ [h]" using vs by simp
    also have "butlast xs @ [last xs] = xs" using assms(3) by simp
    finally show ?thesis by simp
  qed
  ultimately show ?thesis using dist assms(4) by (auto simp: ring_def)
qed

text \<open>The neighbours at a cut of a ring are nodes of it.\<close>

lemma last_ring: "last (h # xs) \<in> set (h # xs)"
  by (rule last_in_set) simp

lemma hd_ring: "hd (ys @ [h]) \<in> set (h # ys)"
  by (cases ys) simp_all

section \<open>Filling a list in a loop\<close>

text \<open>
  The interface a loop of insertions relies on. \<open>repr s xs\<close> says that the state represents the
  list \<open>xs\<close>, \<open>room s xs ys\<close> that the elements \<open>ys\<close> can still be inserted one after the other,
  and \<open>put\<close> is the abstract insertion (at the front or at the end).
\<close>

fun insert_all :: "('a \<Rightarrow> 's \<Rightarrow> 's option) \<Rightarrow> 'a list \<Rightarrow> 's \<Rightarrow> 's option" where
  "insert_all ins [] s = Some s"
| "insert_all ins (y # ys) s = ins y s \<bind> insert_all ins ys"

locale inserter =
  fixes repr :: "'s \<Rightarrow> 'a list \<Rightarrow> bool"
    and room :: "'s \<Rightarrow> 'a list \<Rightarrow> 'a list \<Rightarrow> bool"
    and ins :: "'a \<Rightarrow> 's \<Rightarrow> 's option"
    and put :: "'a \<Rightarrow> 'a list \<Rightarrow> 'a list"
  assumes insert_one: "repr s xs \<Longrightarrow> room s xs (y # ys) \<Longrightarrow>
    \<exists>s'. ins y s = Some s' \<and> repr s' (put y xs) \<and> room s' (put y xs) ys"
begin

lemma fill:
  "repr s xs \<Longrightarrow> room s xs (ys @ zs) \<Longrightarrow>
    \<exists>s'. insert_all ins ys s = Some s' \<and> repr s' (fold put ys xs) \<and> room s' (fold put ys xs) zs"
proof (induction ys arbitrary: s xs)
  case (Cons y ys)
  then obtain s' where "ins y s = Some s'" "repr s' (put y xs)" "room s' (put y xs) (ys @ zs)"
    using insert_one [of s xs y "ys @ zs"] by auto
  with Cons.IH [of s' "put y xs"] show ?case by simp
qed simp

end

lemma fold_Cons_rev: "fold (#) ys xs = rev ys @ xs"
  by (induction ys arbitrary: xs) auto

lemma fold_snoc: "fold (\<lambda>y zs. zs @ [y]) ys xs = xs @ ys"
  by (induction ys arbitrary: xs) auto

end
