(* ===== verification/List_Head.thy ===== *)
theory List_Head
  imports Links
begin

text \<open>
  The intrusive circular list of \<open>src/data_structure/list.h\<close>. The heap maps an address to the
  two links of the \<open>struct list_head\<close> there; following NULL or an unmapped address is the fault
  \<open>None\<close>. \<open>circ m h xs\<close> says that the nodes after the head \<open>h\<close> are \<open>xs\<close>, linked in both
  directions.
\<close>

section \<open>The code\<close>

record list_head =
  lnext :: addr
  lprev :: addr

type_synonym lheap = "addr \<rightharpoonup> list_head"

definition next_of :: "lheap \<Rightarrow> addr \<Rightarrow> addr option" where
  "next_of m p = map_option lnext (m p)"

definition prev_of :: "lheap \<Rightarrow> addr \<Rightarrow> addr option" where
  "prev_of m p = map_option lprev (m p)"

definition set_next :: "addr \<Rightarrow> addr \<Rightarrow> lheap \<Rightarrow> lheap option" where
  "set_next p x m = map_option (\<lambda>n. m(p \<mapsto> n\<lparr>lnext := x\<rparr>)) (m p)"

definition set_prev :: "addr \<Rightarrow> addr \<Rightarrow> lheap \<Rightarrow> lheap option" where
  "set_prev p x m = map_option (\<lambda>n. m(p \<mapsto> n\<lparr>lprev := x\<rparr>)) (m p)"

definition INIT_LIST_HEAD :: "addr \<Rightarrow> lheap \<Rightarrow> lheap option" where
  "INIT_LIST_HEAD p m = do { m \<leftarrow> set_next p p m; set_prev p p m }"

definition list_add_between :: "addr \<Rightarrow> addr \<Rightarrow> addr \<Rightarrow> lheap \<Rightarrow> lheap option" where
  "list_add_between p prev next m = do {
     m \<leftarrow> set_prev next p m;
     m \<leftarrow> set_next p next m;
     m \<leftarrow> set_prev p prev m;
     set_next prev p m
   }"

definition list_add :: "addr \<Rightarrow> addr \<Rightarrow> lheap \<Rightarrow> lheap option" where
  "list_add p head m = do {
     n \<leftarrow> next_of m head;
     list_add_between p head n m
   }"

definition list_add_tail :: "addr \<Rightarrow> addr \<Rightarrow> lheap \<Rightarrow> lheap option" where
  "list_add_tail p head m = do {
     l \<leftarrow> prev_of m head;
     list_add_between p l head m
   }"

definition list_del_between :: "addr \<Rightarrow> addr \<Rightarrow> lheap \<Rightarrow> lheap option" where
  "list_del_between prev next m = do {
     m \<leftarrow> set_prev next prev m;
     set_next prev next m
   }"

definition list_unlink :: "addr \<Rightarrow> lheap \<Rightarrow> lheap option" where
  "list_unlink entry m = do {
     p \<leftarrow> prev_of m entry;
     n \<leftarrow> next_of m entry;
     list_del_between p n m
   }"

definition list_del :: "addr \<Rightarrow> lheap \<Rightarrow> lheap option" where
  "list_del entry m = do {
     m \<leftarrow> list_unlink entry m;
     m \<leftarrow> set_next entry 0 m;
     set_prev entry 0 m
   }"

definition list_del_init :: "addr \<Rightarrow> lheap \<Rightarrow> lheap option" where
  "list_del_init entry m = do {
     m \<leftarrow> list_unlink entry m;
     INIT_LIST_HEAD entry m
   }"

definition list_move :: "addr \<Rightarrow> addr \<Rightarrow> lheap \<Rightarrow> lheap option" where
  "list_move l head m = do {
     m \<leftarrow> list_unlink l m;
     list_add l head m
   }"

definition list_move_tail :: "addr \<Rightarrow> addr \<Rightarrow> lheap \<Rightarrow> lheap option" where
  "list_move_tail l head m = do {
     m \<leftarrow> list_unlink l m;
     list_add_tail l head m
   }"

definition list_empty :: "addr \<Rightarrow> lheap \<Rightarrow> bool option" where
  "list_empty head m = do {
     n \<leftarrow> next_of m head;
     Some (n = head)
   }"

definition list_splice_raw :: "addr \<Rightarrow> addr \<Rightarrow> lheap \<Rightarrow> lheap option" where
  "list_splice_raw l head m = do {
     first \<leftarrow> next_of m l;
     last \<leftarrow> prev_of m l;
     at \<leftarrow> next_of m head;
     m \<leftarrow> set_prev first head m;
     m \<leftarrow> set_next head first m;
     m \<leftarrow> set_next last at m;
     set_prev at last m
   }"

definition list_splice :: "addr \<Rightarrow> addr \<Rightarrow> lheap \<Rightarrow> lheap option" where
  "list_splice l head m = do {
     e \<leftarrow> list_empty l m;
     if \<not> e then list_splice_raw l head m else Some m
   }"

definition list_splice_init :: "addr \<Rightarrow> addr \<Rightarrow> lheap \<Rightarrow> lheap option" where
  "list_splice_init l head m = do {
     e \<leftarrow> list_empty l m;
     if \<not> e then do {
       m \<leftarrow> list_splice_raw l head m;
       INIT_LIST_HEAD l m
     } else Some m
   }"

text \<open>
  The iteration macros, with the loop body as an argument. \<open>list_for_each\<close> reads the next link
  after the body has run, \<open>list_for_each_safe\<close> before. A loop that never meets the head again is
  \<open>None\<close>.
\<close>

partial_function (option) for_each_loop ::
  "(addr \<Rightarrow> lheap \<times> 'd \<Rightarrow> (lheap \<times> 'd) option) \<Rightarrow> addr \<Rightarrow> addr \<Rightarrow> lheap \<times> 'd \<Rightarrow> (lheap \<times> 'd) option" where
  "for_each_loop body head pos s =
     (if pos \<noteq> head then do {
        s \<leftarrow> body pos s;
        pos \<leftarrow> next_of (fst s) pos;
        for_each_loop body head pos s
      } else Some s)"

definition list_for_each ::
  "(addr \<Rightarrow> lheap \<times> 'd \<Rightarrow> (lheap \<times> 'd) option) \<Rightarrow> addr \<Rightarrow> lheap \<times> 'd \<Rightarrow> (lheap \<times> 'd) option" where
  "list_for_each body head s = do {
     pos \<leftarrow> next_of (fst s) head;
     for_each_loop body head pos s
   }"

partial_function (option) for_each_prev_loop ::
  "(addr \<Rightarrow> lheap \<times> 'd \<Rightarrow> (lheap \<times> 'd) option) \<Rightarrow> addr \<Rightarrow> addr \<Rightarrow> lheap \<times> 'd \<Rightarrow> (lheap \<times> 'd) option" where
  "for_each_prev_loop body head pos s =
     (if pos \<noteq> head then do {
        s \<leftarrow> body pos s;
        pos \<leftarrow> prev_of (fst s) pos;
        for_each_prev_loop body head pos s
      } else Some s)"

definition list_for_each_prev ::
  "(addr \<Rightarrow> lheap \<times> 'd \<Rightarrow> (lheap \<times> 'd) option) \<Rightarrow> addr \<Rightarrow> lheap \<times> 'd \<Rightarrow> (lheap \<times> 'd) option" where
  "list_for_each_prev body head s = do {
     pos \<leftarrow> prev_of (fst s) head;
     for_each_prev_loop body head pos s
   }"

partial_function (option) for_each_safe_loop ::
  "(addr \<Rightarrow> lheap \<times> 'd \<Rightarrow> (lheap \<times> 'd) option) \<Rightarrow> addr \<Rightarrow> addr \<Rightarrow> addr \<Rightarrow> lheap \<times> 'd \<Rightarrow>
    (lheap \<times> 'd) option" where
  "for_each_safe_loop body head pos n s =
     (if pos \<noteq> head then do {
        s \<leftarrow> body pos s;
        let pos = n;
        n \<leftarrow> next_of (fst s) pos;
        for_each_safe_loop body head pos n s
      } else Some s)"

definition list_for_each_safe ::
  "(addr \<Rightarrow> lheap \<times> 'd \<Rightarrow> (lheap \<times> 'd) option) \<Rightarrow> addr \<Rightarrow> lheap \<times> 'd \<Rightarrow> (lheap \<times> 'd) option" where
  "list_for_each_safe body head s = do {
     pos \<leftarrow> next_of (fst s) head;
     n \<leftarrow> next_of (fst s) pos;
     for_each_safe_loop body head pos n s
   }"

text \<open>\<open>CListHead::FreeList\<close>; its \<open>ResetList\<close> is \<open>list_del_init\<close>.\<close>

partial_function (option) FreeList :: "addr \<Rightarrow> lheap \<Rightarrow> lheap option" where
  "FreeList head m = do {
     e \<leftarrow> list_empty head m;
     if e then Some m
     else do {
       n \<leftarrow> next_of m head;
       m \<leftarrow> list_del_init n m;
       FreeList head m
     }
   }"

section \<open>Abstraction\<close>

definition circ :: "lheap \<Rightarrow> addr \<Rightarrow> addr list \<Rightarrow> bool" where
  "circ m h xs \<longleftrightarrow> ring (next_of m) (prev_of m) h xs \<and> 0 \<notin> set (h # xs)"

text \<open>Heap \<open>m'\<close> differs from \<open>m\<close> at most inside \<open>A\<close>, and maps the same addresses.\<close>

definition only_changes :: "addr set \<Rightarrow> lheap \<Rightarrow> lheap \<Rightarrow> bool" where
  "only_changes A m m' \<longleftrightarrow> (\<forall>q. q \<notin> A \<longrightarrow> m' q = m q) \<and> dom m' = dom m"

lemma only_changes_trans:
  "only_changes A m m1 \<Longrightarrow> only_changes B m1 m2 \<Longrightarrow> A \<subseteq> C \<Longrightarrow> B \<subseteq> C \<Longrightarrow> only_changes C m m2"
  unfolding only_changes_def by (metis subsetD)

lemma only_changes_mono: "only_changes A m m' \<Longrightarrow> A \<subseteq> C \<Longrightarrow> only_changes C m m'"
  by (auto simp: only_changes_def)

lemma only_changes_dom: "only_changes A m m' \<Longrightarrow> p \<in> dom m' \<longleftrightarrow> p \<in> dom m"
  by (simp add: only_changes_def)

text \<open>A store succeeds on a mapped address and changes one link.\<close>

lemma set_next_ok:
  assumes "p \<in> dom m"
  obtains m' where "set_next p x m = Some m'" "next_of m' = (next_of m)(p \<mapsto> x)"
    "prev_of m' = prev_of m" "only_changes {p} m m'"
proof -
  from assms obtain n where n: "m p = Some n" by blast
  show ?thesis
    by (rule that [of "m(p \<mapsto> n\<lparr>lnext := x\<rparr>)"])
      (use n in \<open>auto simp: set_next_def next_of_def prev_of_def only_changes_def fun_eq_iff\<close>)
qed

lemma set_prev_ok:
  assumes "p \<in> dom m"
  obtains m' where "set_prev p x m = Some m'" "prev_of m' = (prev_of m)(p \<mapsto> x)"
    "next_of m' = next_of m" "only_changes {p} m m'"
proof -
  from assms obtain n where n: "m p = Some n" by blast
  show ?thesis
    by (rule that [of "m(p \<mapsto> n\<lparr>lprev := x\<rparr>)"])
      (use n in \<open>auto simp: set_prev_def next_of_def prev_of_def only_changes_def fun_eq_iff\<close>)
qed

lemma list_add_between_ok:
  assumes "p \<in> dom m" "a \<in> dom m" "b \<in> dom m"
  obtains m' where "list_add_between p a b m = Some m'"
    "next_of m' = (next_of m)(p \<mapsto> b, a \<mapsto> p)" "prev_of m' = (prev_of m)(b \<mapsto> p, p \<mapsto> a)"
    "only_changes {p, a, b} m m'"
proof -
  obtain m1 where m1: "set_prev b p m = Some m1" "prev_of m1 = (prev_of m)(b \<mapsto> p)"
    "next_of m1 = next_of m" "only_changes {b} m m1"
    by (rule set_prev_ok [OF assms(3)])
  have "p \<in> dom m1" using assms(1) m1(4) by (simp add: only_changes_dom)
  then obtain m2 where m2: "set_next p b m1 = Some m2" "next_of m2 = (next_of m1)(p \<mapsto> b)"
    "prev_of m2 = prev_of m1" "only_changes {p} m1 m2"
    by (rule set_next_ok)
  have "p \<in> dom m2" using assms(1) m1(4) m2(4) by (simp add: only_changes_dom)
  then obtain m3 where m3: "set_prev p a m2 = Some m3" "prev_of m3 = (prev_of m2)(p \<mapsto> a)"
    "next_of m3 = next_of m2" "only_changes {p} m2 m3"
    by (rule set_prev_ok)
  have "a \<in> dom m3" using assms(2) m1(4) m2(4) m3(4) by (simp add: only_changes_dom)
  then obtain m4 where m4: "set_next a p m3 = Some m4" "next_of m4 = (next_of m3)(a \<mapsto> p)"
    "prev_of m4 = prev_of m3" "only_changes {a} m3 m4"
    by (rule set_next_ok)
  have "only_changes {p, a, b} m m4"
    using m1(4) m2(4) m3(4) m4(4) by (auto simp: only_changes_def)
  with m1 m2 m3 m4 show ?thesis
    by (intro that [of m4]) (simp_all add: list_add_between_def)
qed

lemma list_del_between_ok:
  assumes "a \<in> dom m" "b \<in> dom m"
  obtains m' where "list_del_between a b m = Some m'"
    "next_of m' = (next_of m)(a \<mapsto> b)" "prev_of m' = (prev_of m)(b \<mapsto> a)"
    "only_changes {a, b} m m'"
proof -
  obtain m1 where m1: "set_prev b a m = Some m1" "prev_of m1 = (prev_of m)(b \<mapsto> a)"
    "next_of m1 = next_of m" "only_changes {b} m m1"
    by (rule set_prev_ok [OF assms(2)])
  have "a \<in> dom m1" using assms(1) m1(4) by (simp add: only_changes_dom)
  then obtain m2 where m2: "set_next a b m1 = Some m2" "next_of m2 = (next_of m1)(a \<mapsto> b)"
    "prev_of m2 = prev_of m1" "only_changes {a} m1 m2"
    by (rule set_next_ok)
  have "only_changes {a, b} m m2"
    using m1(4) m2(4) by (auto simp: only_changes_def)
  with m1 m2 show ?thesis
    by (intro that [of m2]) (simp_all add: list_del_between_def)
qed

text \<open>A list whose nodes are untouched stays as it is.\<close>

lemma circ_frame:
  assumes "circ m h xs" and "only_changes A m m'" and "set (h # xs) \<inter> A = {}"
  shows "circ m' h xs"
proof -
  have "m' q = m q" if "q \<in> set (h # xs)" for q
    using that assms(2,3) by (auto simp: only_changes_def)
  then have "ring (next_of m') (prev_of m') h xs = ring (next_of m) (prev_of m) h xs"
    by (intro ring_cong) (simp add: next_of_def prev_of_def)
  with assms(1) show ?thesis by (simp add: circ_def)
qed

lemma next_of_dom: "next_of m a = Some b \<Longrightarrow> a \<in> dom m"
  by (auto simp: next_of_def)

lemma prev_of_dom: "prev_of m a = Some b \<Longrightarrow> a \<in> dom m"
  by (auto simp: prev_of_def)

lemma circ_links:
  assumes "circ m h (xs @ ys)"
  shows "next_of m (last (h # xs)) = Some (hd (ys @ [h]))"
    "prev_of m (hd (ys @ [h])) = Some (last (h # xs))"
proof -
  have "0 \<notin> set (h # xs)" "0 \<notin> set (h # ys)" using assms by (simp_all add: circ_def)
  then have "last (h # xs) \<noteq> 0" "hd (ys @ [h]) \<noteq> 0"
    using last_ring [of h xs] hd_ring [of ys h] by metis+
  then show "next_of m (last (h # xs)) = Some (hd (ys @ [h]))"
    "prev_of m (hd (ys @ [h])) = Some (last (h # xs))"
    using ring_ends [of "next_of m" "prev_of m" h xs ys] assms
    unfolding circ_def edge_def by metis+
qed

lemma circ_head:
  assumes "circ m h xs"
  shows "next_of m h = Some (hd (xs @ [h]))" "prev_of m h = Some (last (h # xs))" "h \<in> dom m"
proof -
  show n: "next_of m h = Some (hd (xs @ [h]))" "prev_of m h = Some (last (h # xs))"
    using circ_links [of m h "[]" xs] circ_links [of m h xs "[]"] assms by simp_all
  show "h \<in> dom m" using n(1) by (rule next_of_dom)
qed

lemma circ_node:
  assumes "circ m h (xs @ p # ys)"
  shows "next_of m p = Some (hd (ys @ [h]))" "prev_of m p = Some (last (h # xs))" "p \<in> dom m"
proof -
  show n: "next_of m p = Some (hd (ys @ [h]))"
    using circ_links(1) [of m h "xs @ [p]" ys] assms by simp
  show "prev_of m p = Some (last (h # xs))"
    using circ_links(2) [of m h xs "p # ys"] assms by simp
  show "p \<in> dom m" using n by (rule next_of_dom)
qed

lemma circ_dom: "circ m h xs \<Longrightarrow> p \<in> set (h # xs) \<Longrightarrow> p \<in> dom m"
  by (metis circ_head(3) circ_node(3) set_ConsD split_list)

text \<open>Linking a fresh node between two neighbours, anywhere in the circle.\<close>

lemma circ_insert:
  assumes "circ m h (xs @ ys)" and "p \<notin> set (h # xs @ ys)" "p \<noteq> 0" "p \<in> dom m"
  obtains m' where "list_add_between p (last (h # xs)) (hd (ys @ [h])) m = Some m'"
    "circ m' h (xs @ p # ys)" "only_changes (insert p (set (h # xs @ ys))) m m'"
proof -
  note links = circ_links [OF assms(1)]
  obtain m' where m': "list_add_between p (last (h # xs)) (hd (ys @ [h])) m = Some m'"
    "next_of m' = (next_of m)(p \<mapsto> hd (ys @ [h]), last (h # xs) \<mapsto> p)"
    "prev_of m' = (prev_of m)(hd (ys @ [h]) \<mapsto> p, p \<mapsto> last (h # xs))"
    "only_changes {p, last (h # xs), hd (ys @ [h])} m m'"
    by (rule list_add_between_ok [OF assms(4) next_of_dom [OF links(1)] prev_of_dom [OF links(2)]])
  have "ring (next_of m') (prev_of m') h (xs @ p # ys)"
    by (rule ring_insert [of "next_of m" "prev_of m"])
      (use assms(1,2) in \<open>simp_all add: circ_def m'(2,3) del: last.simps\<close>)
  then have "circ m' h (xs @ p # ys)" using assms(1,3) by (simp add: circ_def)
  moreover have "{p, last (h # xs), hd (ys @ [h])} \<subseteq> insert p (set (h # xs @ ys))"
    using last_ring [of h xs] hd_ring [of ys h] by auto
  ultimately show ?thesis
    using m'(1) only_changes_mono [OF m'(4)] by (intro that [of m'])
qed

text \<open>Cutting a node out.\<close>

lemma circ_unlink:
  assumes "circ m h (xs @ p # ys)"
  obtains m' where "list_unlink p m = Some m'" "circ m' h (xs @ ys)"
    "only_changes (set (h # xs @ ys)) m m'"
proof -
  note node = circ_node [OF assms]
  have a: "last (h # xs) \<in> dom m"
    by (rule circ_dom [OF assms]) (use last_ring [of h xs] in auto)
  have b: "hd (ys @ [h]) \<in> dom m"
    by (rule circ_dom [OF assms]) (use hd_ring [of ys h] in auto)
  obtain m' where m': "list_del_between (last (h # xs)) (hd (ys @ [h])) m = Some m'"
    "next_of m' = (next_of m)(last (h # xs) \<mapsto> hd (ys @ [h]))"
    "prev_of m' = (prev_of m)(hd (ys @ [h]) \<mapsto> last (h # xs))"
    "only_changes {last (h # xs), hd (ys @ [h])} m m'"
    by (rule list_del_between_ok [OF a b])
  have "ring (next_of m') (prev_of m') h (xs @ ys)"
    by (rule ring_remove [of "next_of m" "prev_of m" h xs p])
      (use assms in \<open>simp_all add: circ_def m'(2,3) del: last.simps\<close>)
  then have "circ m' h (xs @ ys)" using assms by (simp add: circ_def)
  moreover have "{last (h # xs), hd (ys @ [h])} \<subseteq> set (h # xs @ ys)"
    using last_ring [of h xs] hd_ring [of ys h] by auto
  moreover have "list_unlink p m = Some m'"
    by (simp only: list_unlink_def node m'(1) bind.bind_lunit)
  ultimately show ?thesis
    using only_changes_mono [OF m'(4)] by (intro that [of m'])
qed

lemma list_add_ok:
  assumes "circ m h xs" and "p \<notin> set (h # xs)" "p \<noteq> 0" "p \<in> dom m"
  obtains m' where "list_add p h m = Some m'" "circ m' h (p # xs)"
    "only_changes (insert p (set (h # xs))) m m'"
proof -
  obtain m' where "list_add_between p (last [h]) (hd (xs @ [h])) m = Some m'"
    "circ m' h ([] @ p # xs)" "only_changes (insert p (set (h # [] @ xs))) m m'"
    by (rule circ_insert [of m h "[]" xs p]) (use assms in simp_all)
  with circ_head [OF assms(1)] show ?thesis by (intro that [of m']) (simp_all add: list_add_def)
qed

lemma list_add_tail_ok:
  assumes "circ m h xs" and "p \<notin> set (h # xs)" "p \<noteq> 0" "p \<in> dom m"
  obtains m' where "list_add_tail p h m = Some m'" "circ m' h (xs @ [p])"
    "only_changes (insert p (set (h # xs))) m m'"
proof -
  obtain m' where "list_add_between p (last (h # xs)) (hd ([] @ [h])) m = Some m'"
    "circ m' h (xs @ p # [])" "only_changes (insert p (set (h # xs @ []))) m m'"
    by (rule circ_insert [of m h xs "[]" p]) (use assms in simp_all)
  with circ_head(2) [OF assms(1)] show ?thesis
    by (intro that [of m']) (simp_all add: list_add_tail_def del: last.simps)
qed

lemma init_ok:
  assumes "p \<in> dom m" "p \<noteq> 0"
  obtains m' where "INIT_LIST_HEAD p m = Some m'" "circ m' p []" "only_changes {p} m m'"
proof -
  obtain m1 where m1: "set_next p p m = Some m1" "next_of m1 = (next_of m)(p \<mapsto> p)"
    "prev_of m1 = prev_of m" "only_changes {p} m m1"
    by (rule set_next_ok [OF assms(1)])
  have "p \<in> dom m1" using assms(1) m1(4) by (simp add: only_changes_dom)
  then obtain m2 where m2: "set_prev p p m1 = Some m2" "prev_of m2 = (prev_of m1)(p \<mapsto> p)"
    "next_of m2 = next_of m1" "only_changes {p} m1 m2"
    by (rule set_prev_ok)
  show ?thesis
    by (rule that [of m2])
      (use m1 m2 assms(2) in \<open>auto simp: INIT_LIST_HEAD_def circ_def ring_def edge_def
        intro: only_changes_trans\<close>)
qed

lemma list_del_init_ok:
  assumes "circ m h (xs @ p # ys)"
  obtains m' where "list_del_init p m = Some m'" "circ m' h (xs @ ys)" "circ m' p []"
    "only_changes (set (h # xs @ p # ys)) m m'"
proof -
  obtain m1 where m1: "list_unlink p m = Some m1" "circ m1 h (xs @ ys)"
    "only_changes (set (h # xs @ ys)) m m1"
    by (rule circ_unlink [OF assms])
  have "p \<in> dom m1" "p \<noteq> 0" "p \<notin> set (h # xs @ ys)"
    using circ_node(3) [OF assms] m1(3) assms by (auto simp: only_changes_dom circ_def ring_def)
  then obtain m2 where m2: "INIT_LIST_HEAD p m1 = Some m2" "circ m2 p []" "only_changes {p} m1 m2"
    by (metis init_ok)
  have "circ m2 h (xs @ ys)"
    using \<open>p \<notin> set (h # xs @ ys)\<close> by (intro circ_frame [OF m1(2) m2(3)]) auto
  moreover have "only_changes (set (h # xs @ p # ys)) m m2"
    by (rule only_changes_trans [OF m1(3) m2(3)]) auto
  ultimately show ?thesis
    using m1(1) m2(1,2) by (intro that [of m2]) (simp_all add: list_del_init_def)
qed

lemma list_del_ok:
  assumes "circ m h (xs @ p # ys)"
  obtains m' where "list_del p m = Some m'" "circ m' h (xs @ ys)"
    "m' p = Some \<lparr>lnext = 0, lprev = 0\<rparr>" "only_changes (set (h # xs @ p # ys)) m m'"
proof -
  obtain m1 where m1: "list_unlink p m = Some m1" "circ m1 h (xs @ ys)"
    "only_changes (set (h # xs @ ys)) m m1"
    by (rule circ_unlink [OF assms])
  have p: "p \<in> dom m1" "p \<notin> set (h # xs @ ys)"
    using circ_node(3) [OF assms] m1(3) assms by (auto simp: only_changes_dom circ_def ring_def)
  obtain c where c: "m1 p = Some c" using p(1) by blast
  let ?m2 = "m1(p \<mapsto> \<lparr>lnext = 0, lprev = 0\<rparr>)"
  have del: "list_del p m = Some ?m2"
    using m1(1) c by (cases c) (simp add: list_del_def set_next_def set_prev_def)
  have oc: "only_changes {p} m1 ?m2" using c by (auto simp: only_changes_def)
  have "circ ?m2 h (xs @ ys)" using p(2) by (intro circ_frame [OF m1(2) oc]) auto
  moreover have "only_changes (set (h # xs @ p # ys)) m ?m2"
    by (rule only_changes_trans [OF m1(3) oc]) auto
  ultimately show ?thesis using del by (intro that [of ?m2]) simp_all
qed

lemma list_splice_raw_ok:
  assumes "circ m l xs" and "circ m h ys" and "xs \<noteq> []" and "set (l # xs) \<inter> set (h # ys) = {}"
  obtains m' where "list_splice_raw l h m = Some m'" "circ m' h (xs @ ys)" "m' l = m l"
    "only_changes (set xs \<union> set (h # ys)) m m'"
proof -
  let ?b = "hd (ys @ [h])"
  obtain x xs' where x: "xs = x # xs'" using assms(3) by (cases xs) auto
  have first: "next_of m l = Some (hd xs)" using circ_head(1) [OF assms(1)] x by simp
  have last: "prev_of m l = Some (last xs)" using circ_head(2) [OF assms(1)] x by simp
  note at = circ_head(1) [OF assms(2)]
  have ends: "hd xs \<in> set xs" "last xs \<in> set xs" using assms(3) by simp_all
  then have dom: "hd xs \<in> dom m" "last xs \<in> dom m" "h \<in> dom m" "?b \<in> dom m"
    using circ_dom [OF assms(1)] circ_dom [OF assms(2)] hd_ring [of ys h] by auto
  obtain m1 where m1: "set_prev (hd xs) h m = Some m1" "prev_of m1 = (prev_of m)(hd xs \<mapsto> h)"
    "next_of m1 = next_of m" "only_changes {hd xs} m m1"
    by (rule set_prev_ok [OF dom(1)])
  have "h \<in> dom m1" using dom m1(4) by (simp add: only_changes_dom)
  then obtain m2 where m2: "set_next h (hd xs) m1 = Some m2" "next_of m2 = (next_of m1)(h \<mapsto> hd xs)"
    "prev_of m2 = prev_of m1" "only_changes {h} m1 m2"
    by (rule set_next_ok)
  have "last xs \<in> dom m2" using dom m1(4) m2(4) by (simp add: only_changes_dom)
  then obtain m3 where m3: "set_next (last xs) ?b m2 = Some m3"
    "next_of m3 = (next_of m2)(last xs \<mapsto> ?b)" "prev_of m3 = prev_of m2" "only_changes {last xs} m2 m3"
    by (rule set_next_ok)
  have "?b \<in> dom m3" using dom m1(4) m2(4) m3(4) by (simp add: only_changes_dom)
  then obtain m4 where m4: "set_prev ?b (last xs) m3 = Some m4"
    "prev_of m4 = (prev_of m3)(?b \<mapsto> last xs)" "next_of m4 = next_of m3" "only_changes {?b} m3 m4"
    by (rule set_prev_ok)
  have "ring (next_of m4) (prev_of m4) h (xs @ ys)"
    by (rule ring_splice [of "next_of m" "prev_of m" l])
      (use assms m1 m2 m3 m4 in \<open>simp_all add: circ_def\<close>)
  then have c: "circ m4 h (xs @ ys)" using assms(1,2) by (simp add: circ_def)
  have b: "?b \<in> set (h # ys)" by (rule hd_ring)
  let ?A = "set xs \<union> set (h # ys)"
  have "only_changes ?A m m2"
    by (rule only_changes_trans [OF m1(4) m2(4)]) (use ends in auto)
  moreover have "only_changes ?A m2 m4"
    by (rule only_changes_trans [OF m3(4) m4(4)]) (use ends b in auto)
  ultimately have oc: "only_changes ?A m m4" by (rule only_changes_trans) auto
  have "l \<notin> set xs \<union> set (h # ys)" using assms(1,4) by (auto simp: circ_def ring_def)
  then have "m4 l = m l" using oc by (simp add: only_changes_def)
  moreover have "list_splice_raw l h m = Some m4"
    by (simp add: list_splice_raw_def first last at m1(1) m2(1) m3(1) m4(1))
  ultimately show ?thesis using c oc by (intro that [of m4])
qed

lemma list_empty_circ: "circ m h xs \<Longrightarrow> list_empty h m = Some (xs = [])"
  using circ_head(1) [of m h xs] by (cases xs) (auto simp: list_empty_def circ_def ring_def)

section \<open>Properties of the operations\<close>

text \<open>
  \<open>list_add\<close> puts an unlinked node at the front of a list and \<open>list_add_tail\<close> at its end; they
  never fault, and no node outside the list is touched.
\<close>

theorem list_add_both_ends:
  assumes "circ m h xs" and "p \<notin> set (h # xs)" "p \<noteq> 0" "p \<in> dom m"
  shows "(\<exists>m'. list_add p h m = Some m' \<and> circ m' h (p # xs) \<and>
      only_changes (insert p (set (h # xs))) m m') \<and>
    (\<exists>m'. list_add_tail p h m = Some m' \<and> circ m' h (xs @ [p]) \<and>
      only_changes (insert p (set (h # xs))) m m')"
  using list_add_ok [OF assms] list_add_tail_ok [OF assms] by metis

text \<open>A heap of \<open>n\<close> nodes at the addresses from 1, each linked to itself.\<close>

definition self_linked :: "nat \<Rightarrow> lheap" where
  "self_linked n p = (if 1 \<le> p \<and> p \<le> n then Some \<lparr>lnext = p, lprev = p\<rparr> else None)"

lemma circ_self_linked: "1 \<le> p \<Longrightarrow> p \<le> n \<Longrightarrow> circ (self_linked n) p []"
  by (simp add: circ_def ring_def edge_def next_of_def prev_of_def self_linked_def)

lemma list_add_both_ends_witness:
  "\<exists>m'. list_add 2 1 (self_linked 3) = Some m' \<and> circ m' 1 [2] \<and>
    only_changes (insert 2 (set [1])) (self_linked 3) m'"
proof -
  have "2 \<in> dom (self_linked 3)" by (simp add: self_linked_def dom_def)
  then show ?thesis
    using list_add_both_ends [of "self_linked 3" 1 "[]" 2] circ_self_linked [of 1 3] by simp
qed

text \<open>
  C36: \<open>list_del\<close> takes a node out of the list it is on and clears its links, so that deleting it
  again dereferences NULL; \<open>list_del_init\<close> leaves it as an empty list of its own, so that deleting
  it again is harmless.
\<close>

theorem list_del_removes:
  assumes "circ m h (xs @ p # ys)"
  shows "(\<exists>m'. list_del p m = Some m' \<and> circ m' h (xs @ ys) \<and> (m' 0 = None \<longrightarrow> list_del p m' = None)) \<and>
    (\<exists>m'. list_del_init p m = Some m' \<and> circ m' h (xs @ ys) \<and> circ m' p [] \<and>
      (\<exists>m''. list_del_init p m' = Some m'' \<and> circ m'' h (xs @ ys) \<and> circ m'' p []))"
proof
  obtain m1 where m1: "list_del p m = Some m1" "circ m1 h (xs @ ys)"
    "m1 p = Some \<lparr>lnext = 0, lprev = 0\<rparr>" "only_changes (set (h # xs @ p # ys)) m m1"
    by (rule list_del_ok [OF assms])
  have "list_del p m1 = None" if "m1 0 = None"
  proof -
    have "prev_of m1 p = Some 0" "next_of m1 p = Some 0" "set_prev 0 0 m1 = None"
      using m1(3) that by (simp_all add: prev_of_def next_of_def set_prev_def)
    then show ?thesis by (simp add: list_del_def list_unlink_def list_del_between_def)
  qed
  with m1 show "\<exists>m'. list_del p m = Some m' \<and> circ m' h (xs @ ys) \<and> (m' 0 = None \<longrightarrow> list_del p m' = None)"
    by (intro exI [of _ m1]) simp
  obtain m2 where m2: "list_del_init p m = Some m2" "circ m2 h (xs @ ys)" "circ m2 p []"
    "only_changes (set (h # xs @ p # ys)) m m2"
    by (rule list_del_init_ok [OF assms])
  have p: "p \<in> dom m2" "p \<noteq> 0" "p \<notin> set (h # xs @ ys)"
    using circ_head(3) [OF m2(3)] m2(3) assms by (auto simp: circ_def ring_def)
  obtain m3 where m3: "list_del_between p p m2 = Some m3"
    "next_of m3 = (next_of m2)(p \<mapsto> p)" "prev_of m3 = (prev_of m2)(p \<mapsto> p)" "only_changes {p, p} m2 m3"
    by (rule list_del_between_ok [OF p(1) p(1)])
  have un: "list_unlink p m2 = Some m3"
    using m3(1) circ_head(1,2) [OF m2(3)] by (simp add: list_unlink_def)
  have "p \<in> dom m3" using p(1) m3(4) by (simp add: only_changes_dom)
  then obtain m4 where m4: "INIT_LIST_HEAD p m3 = Some m4" "circ m4 p []" "only_changes {p} m3 m4"
    using p(2) by (rule init_ok)
  have "only_changes {p} m2 m4" by (rule only_changes_trans [OF m3(4) m4(3)]) auto
  then have "circ m4 h (xs @ ys)" using p(3) by (intro circ_frame [OF m2(2)]) auto
  moreover have "list_del_init p m2 = Some m4" using un m4(1) by (simp add: list_del_init_def)
  ultimately show "\<exists>m'. list_del_init p m = Some m' \<and> circ m' h (xs @ ys) \<and> circ m' p [] \<and>
      (\<exists>m''. list_del_init p m' = Some m'' \<and> circ m'' h (xs @ ys) \<and> circ m'' p [])"
    using m2 m4(2) by blast
qed

text \<open>A list of two nodes and a second, empty list, for the witnesses.\<close>

definition two_nodes :: lheap where
  "two_nodes = [1 \<mapsto> \<lparr>lnext = 2, lprev = 3\<rparr>, 2 \<mapsto> \<lparr>lnext = 3, lprev = 1\<rparr>,
     3 \<mapsto> \<lparr>lnext = 1, lprev = 2\<rparr>, 4 \<mapsto> \<lparr>lnext = 4, lprev = 4\<rparr>]"

lemma two_nodes_circ: "circ two_nodes 1 [2, 3]" "circ two_nodes 4 []"
  by (simp_all add: circ_def ring_def edge_def next_of_def prev_of_def two_nodes_def)

lemma list_del_removes_witness:
  "circ two_nodes 1 ([2] @ 3 # []) \<and> (\<exists>m'. list_del 3 two_nodes = Some m' \<and> circ m' 1 [2])"
  using list_del_removes [of two_nodes 1 "[2]" 3 "[]"] two_nodes_circ by auto

text \<open>
  \<open>list_move\<close> and \<open>list_move_tail\<close> take a node out of its list and put it at the front, or at
  the end, of another one; both lists are well linked afterwards.
\<close>

theorem list_move_between:
  assumes "circ m h (xs @ p # ys)" and "circ m g zs" and "set (h # xs @ p # ys) \<inter> set (g # zs) = {}"
  shows "(\<exists>m'. list_move p g m = Some m' \<and> circ m' h (xs @ ys) \<and> circ m' g (p # zs)) \<and>
    (\<exists>m'. list_move_tail p g m = Some m' \<and> circ m' h (xs @ ys) \<and> circ m' g (zs @ [p]))"
proof -
  obtain m1 where m1: "list_unlink p m = Some m1" "circ m1 h (xs @ ys)"
    "only_changes (set (h # xs @ ys)) m m1"
    by (rule circ_unlink [OF assms(1)])
  have g: "circ m1 g zs" by (rule circ_frame [OF assms(2) m1(3)]) (use assms(3) in auto)
  have p: "p \<in> dom m1" "p \<noteq> 0" "p \<notin> set (g # zs)" "p \<notin> set (h # xs @ ys)"
    using circ_node(3) [OF assms(1)] m1(3) assms(1,3)
    by (auto simp: only_changes_dom circ_def ring_def)
  have other: "set (h # xs @ ys) \<inter> insert p (set (g # zs)) = {}" using p(4) assms(3) by auto
  obtain m2 where m2: "list_add p g m1 = Some m2" "circ m2 g (p # zs)"
    "only_changes (insert p (set (g # zs))) m1 m2"
    by (rule list_add_ok [OF g p(3,2,1)])
  obtain m3 where m3: "list_add_tail p g m1 = Some m3" "circ m3 g (zs @ [p])"
    "only_changes (insert p (set (g # zs))) m1 m3"
    by (rule list_add_tail_ok [OF g p(3,2,1)])
  have "circ m2 h (xs @ ys)" "circ m3 h (xs @ ys)"
    using circ_frame [OF m1(2) m2(3) other] circ_frame [OF m1(2) m3(3) other] by simp_all
  with m1(1) m2 m3 show ?thesis by (simp add: list_move_def list_move_tail_def)
qed

lemma list_move_between_witness:
  "\<exists>m'. list_move 2 4 two_nodes = Some m' \<and> circ m' 1 [3] \<and> circ m' 4 [2]"
  using list_move_between [of two_nodes 1 "[]" 2 "[3]" 4 "[]"] two_nodes_circ by auto

lemma list_splice_joins_ok:
  assumes "circ m l xs" and "circ m h ys" and "set (l # xs) \<inter> set (h # ys) = {}"
  shows "(\<exists>m'. list_splice_init l h m = Some m' \<and> circ m' h (xs @ ys) \<and> circ m' l []) \<and>
    (\<exists>m'. list_splice l h m = Some m' \<and> circ m' h (xs @ ys) \<and> m' l = m l)"
proof (cases "xs = []")
  case True
  then show ?thesis
    using assms list_empty_circ [OF assms(1)] by (simp add: list_splice_init_def list_splice_def)
next
  case False
  obtain m1 where m1: "list_splice_raw l h m = Some m1" "circ m1 h (xs @ ys)" "m1 l = m l"
    "only_changes (set xs \<union> set (h # ys)) m m1"
    by (rule list_splice_raw_ok [OF assms(1,2) False assms(3)])
  have l: "l \<in> dom m1" "l \<noteq> 0" "l \<notin> set (h # xs @ ys)"
    using circ_head(3) [OF assms(1)] m1(4) assms(1,3)
    by (auto simp: only_changes_dom circ_def ring_def)
  obtain m2 where m2: "INIT_LIST_HEAD l m1 = Some m2" "circ m2 l []" "only_changes {l} m1 m2"
    by (rule init_ok [OF l(1,2)])
  have "circ m2 h (xs @ ys)" using l(3) by (intro circ_frame [OF m1(2) m2(3)]) auto
  with m1 m2 False show ?thesis
    using list_empty_circ [OF assms(1)] by (simp add: list_splice_init_def list_splice_def)
qed

text \<open>
  \<open>list_splice_init\<close> moves all nodes of one list to the front of another and leaves the first
  one empty; \<open>list_splice\<close> does the same but does not touch the first head, whose stale links
  still point at its old first and last nodes, now on the other list.
\<close>

theorem list_splice_joins:
  assumes "circ m l xs" and "circ m h ys" and "set (l # xs) \<inter> set (h # ys) = {}"
  shows "(\<exists>m'. list_splice_init l h m = Some m' \<and> circ m' h (xs @ ys) \<and> circ m' l []) \<and>
    (\<exists>m'. list_splice l h m = Some m' \<and> circ m' h (xs @ ys) \<and> m' l = m l)"
  using assms by (rule list_splice_joins_ok)

lemma list_splice_joins_witness:
  "\<exists>m'. list_splice_init 1 4 two_nodes = Some m' \<and> circ m' 4 [2, 3] \<and> circ m' 1 []"
  using list_splice_joins [of two_nodes 1 "[2, 3]" 4 "[]"] two_nodes_circ by auto

section \<open>Iteration\<close>

text \<open>
  Loop bodies: \<open>print_each\<close> reads what the node's owner holds and prints it, \<open>purge\<close> notes the
  node and deletes it when \<open>P\<close> holds.
\<close>

definition print_each :: "(addr \<rightharpoonup> 'v) \<Rightarrow> addr \<Rightarrow> lheap \<times> 'v list \<Rightarrow> (lheap \<times> 'v list) option" where
  "print_each owner pos s = do {
     v \<leftarrow> owner pos;
     Some (fst s, snd s @ [v])
   }"

definition purge :: "(addr \<Rightarrow> bool) \<Rightarrow> addr \<Rightarrow> lheap \<times> addr list \<Rightarrow> (lheap \<times> addr list) option" where
  "purge P pos s = do {
     m \<leftarrow> (if P pos then list_del pos (fst s) else Some (fst s));
     Some (m, snd s @ [pos])
   }"

lemma for_each_loop_print:
  assumes "circ m h (xs @ ys)" and "\<And>p. p \<in> set ys \<Longrightarrow> owner p = Some (g p)"
  shows "for_each_loop (print_each owner) h (hd (ys @ [h])) (m, vs) = Some (m, vs @ map g ys)"
  using assms
proof (induction ys arbitrary: xs vs)
  case Nil
  then show ?case by (subst for_each_loop.simps) simp
next
  case (Cons p ys)
  have "p \<noteq> h" using Cons.prems by (auto simp: circ_def ring_def)
  then show ?case
    using circ_node(1) [OF Cons.prems(1)] Cons.IH [of "xs @ [p]" "vs @ [g p]"] Cons.prems
    by (subst for_each_loop.simps) (simp add: print_each_def [of _ p])
qed

lemma for_each_prev_loop_print:
  assumes "circ m h (xs @ ys)" and "\<And>p. p \<in> set xs \<Longrightarrow> owner p = Some (g p)"
  shows "for_each_prev_loop (print_each owner) h (last (h # xs)) (m, vs) = Some (m, vs @ map g (rev xs))"
  using assms
proof (induction xs arbitrary: ys vs rule: rev_induct)
  case Nil
  then show ?case by (subst for_each_prev_loop.simps) simp
next
  case (snoc p xs)
  have "p \<noteq> h" using snoc.prems by (auto simp: circ_def ring_def)
  moreover have "circ m h (xs @ p # ys)" using snoc.prems by simp
  ultimately show ?case
    using circ_node(2) [of m h xs p ys] snoc.IH [of "p # ys" "vs @ [g p]"] snoc.prems(2)
    by (subst for_each_prev_loop.simps)
      (simp add: print_each_def [of _ p] last_snoc [of "h # xs", simplified])
qed

lemma for_each_safe_loop_purge:
  assumes "circ m h (xs @ ys)" and "ys \<noteq> [] \<longrightarrow> n = hd (tl ys @ [h])"
  shows "\<exists>m'. for_each_safe_loop (purge P) h (hd (ys @ [h])) n (m, vs) = Some (m', vs @ ys) \<and>
    circ m' h (xs @ filter (\<lambda>p. \<not> P p) ys)"
  using assms
proof (induction ys arbitrary: m xs vs n)
  case Nil
  then show ?case by (subst for_each_safe_loop.simps) simp
next
  case (Cons p ys)
  have ph: "p \<noteq> h" and n: "n = hd (ys @ [h])" using Cons.prems by (auto simp: circ_def ring_def)
  obtain m1 xs1 where m1: "purge P p (m, vs) = Some (m1, vs @ [p])" "circ m1 h (xs1 @ ys)"
    "xs1 = (if P p then xs else xs @ [p])"
  proof (cases "P p")
    case True
    obtain m1 where "list_del p m = Some m1" "circ m1 h (xs @ ys)"
      "m1 p = Some \<lparr>lnext = 0, lprev = 0\<rparr>" "only_changes (set (h # xs @ p # ys)) m m1"
      by (rule list_del_ok [OF Cons.prems(1)])
    with True show ?thesis by (intro that [of m1 xs]) (simp_all add: purge_def)
  next
    case False
    with Cons.prems show ?thesis by (intro that [of m "xs @ [p]"]) (simp_all add: purge_def)
  qed
  have "next_of m1 n \<noteq> None"
    using circ_dom [OF m1(2), of n] hd_ring [of ys h] n by (auto simp: next_of_def)
  moreover have "next_of m1 n = Some (hd (tl ys @ [h]))" if "ys \<noteq> []"
    using that n m1(2) circ_node(1) [of m1 h xs1 "hd ys" "tl ys"] by simp
  ultimately obtain n' where n': "next_of m1 n = Some n'" "ys \<noteq> [] \<longrightarrow> n' = hd (tl ys @ [h])" by auto
  have "for_each_safe_loop (purge P) h p n (m, vs) =
    for_each_safe_loop (purge P) h (hd (ys @ [h])) n' (m1, vs @ [p])"
    using ph m1(1) n'(1) n by (subst for_each_safe_loop.simps) simp
  with Cons.IH [OF m1(2) n'(2), of "vs @ [p]"] m1(3) show ?case by auto
qed

lemma list_for_each_prints:
  assumes "circ m h xs" and "\<And>p. p \<in> set xs \<Longrightarrow> owner p = Some (g p)"
  shows "list_for_each (print_each owner) h (m, vs) = Some (m, vs @ map g xs)"
    "list_for_each_prev (print_each owner) h (m, vs) = Some (m, vs @ map g (rev xs))"
  using assms circ_head(1,2) [OF assms(1)] for_each_loop_print [of m h "[]" xs owner g]
    for_each_prev_loop_print [of m h xs "[]" owner g]
  by (simp_all add: list_for_each_def list_for_each_prev_def del: last.simps)

text \<open>
  C37: \<open>list_for_each_safe\<close> allows its body to delete the current node: the loop ends, visits every
  node of the list once and in order, and leaves exactly the nodes that were not deleted, well
  linked. With \<open>list_for_each\<close> in its place, deleting any node runs the loop into NULL.
\<close>

theorem list_for_each_safe_purges:
  assumes "circ m h xs"
  shows "(\<exists>m'. list_for_each_safe (purge P) h (m, []) = Some (m', xs) \<and>
      circ m' h (filter (\<lambda>p. \<not> P p) xs)) \<and>
    (m 0 = None \<and> (\<exists>p\<in>set xs. P p) \<longrightarrow> list_for_each (purge P) h (m, []) = None)"
proof
  note head = circ_head [OF assms]
  obtain n where n: "next_of m (hd (xs @ [h])) = Some n" "xs \<noteq> [] \<longrightarrow> n = hd (tl xs @ [h])"
    using head(1) circ_node(1) [of m h "[]" "hd xs" "tl xs"] assms by (cases xs) auto
  then show "\<exists>m'. list_for_each_safe (purge P) h (m, []) = Some (m', xs) \<and>
      circ m' h (filter (\<lambda>p. \<not> P p) xs)"
    using head(1) for_each_safe_loop_purge [of m h "[]" xs n P "[]"] assms
    by (simp add: list_for_each_safe_def)
  show "m 0 = None \<and> (\<exists>p\<in>set xs. P p) \<longrightarrow> list_for_each (purge P) h (m, []) = None"
  proof
    assume bad: "m 0 = None \<and> (\<exists>p\<in>set xs. P p)"
    have "for_each_loop (purge P) h (hd (zs @ [h])) (m, vs) = None"
      if "circ m h (ys @ zs)" "\<exists>p\<in>set zs. P p" for ys zs vs
      using that
    proof (induction zs arbitrary: ys vs)
      case (Cons p zs)
      have "p \<noteq> h" using Cons.prems by (auto simp: circ_def ring_def)
      show ?case
      proof (cases "P p")
        case True
        obtain m1 where m1: "list_del p m = Some m1" "circ m1 h (ys @ zs)"
          "m1 p = Some \<lparr>lnext = 0, lprev = 0\<rparr>" "only_changes (set (h # ys @ p # zs)) m m1"
          by (rule list_del_ok [OF Cons.prems(1)])
        have "m1 0 = None" using bad m1(4) by (auto simp: only_changes_def domIff)
        then have null: "next_of m1 0 = None" "list_del 0 m1 = None"
          by (simp_all add: next_of_def list_del_def list_unlink_def prev_of_def)
        have "h \<noteq> 0" using assms by (auto simp: circ_def)
        then have "for_each_loop (purge P) h 0 (m1, vs @ [p]) = None"
          using null by (subst for_each_loop.simps) (simp add: purge_def)
        moreover have "next_of m1 p = Some 0" using m1(3) by (simp add: next_of_def)
        ultimately show ?thesis
          using True \<open>p \<noteq> h\<close> m1(1) by (subst for_each_loop.simps) (simp add: purge_def)
      next
        case False
        then have "\<exists>q\<in>set zs. P q" using Cons.prems(2) by auto
        then have "for_each_loop (purge P) h (hd (zs @ [h])) (m, vs @ [p]) = None"
          using Cons.IH [of "ys @ [p]"] Cons.prems(1) by simp
        with False \<open>p \<noteq> h\<close> circ_node(1) [OF Cons.prems(1)] show ?thesis
          by (subst for_each_loop.simps) (simp add: purge_def)
      qed
    qed simp
    from this [of "[]" xs "[]"] assms bad head(1)
    show "list_for_each (purge P) h (m, []) = None" by (simp add: list_for_each_def)
  qed
qed

lemma list_for_each_safe_purges_witness:
  "(\<exists>m'. list_for_each_safe (purge even) 1 (two_nodes, []) = Some (m', [2, 3]) \<and> circ m' 1 [3]) \<and>
   list_for_each (purge even) 1 (two_nodes, []) = None"
  using list_for_each_safe_purges [of two_nodes 1 "[2, 3]" even] two_nodes_circ
  by (simp add: two_nodes_def)

text \<open>
  \<open>FreeList\<close> ends, empties the list, and leaves every one of its nodes as an empty list of
  its own.
\<close>

theorem FreeList_empties:
  assumes "circ m h xs"
  shows "\<exists>m'. FreeList h m = Some m' \<and> circ m' h [] \<and> (\<forall>p\<in>set xs. circ m' p [])"
proof -
  have "\<exists>m'. FreeList h m = Some m' \<and> circ m' h [] \<and> (\<forall>p\<in>set xs. circ m' p []) \<and>
    only_changes (set (h # xs)) m m'"
    using assms
  proof (induction xs arbitrary: m)
    case Nil
    then show ?case
      by (subst FreeList.simps) (auto simp: list_empty_circ only_changes_def)
  next
    case (Cons p xs)
    obtain m1 where m1: "list_del_init p m = Some m1" "circ m1 h ([] @ xs)" "circ m1 p []"
      "only_changes (set (h # [] @ p # xs)) m m1"
      by (rule list_del_init_ok [of m h "[]" p xs]) (use Cons.prems in simp_all)
    obtain m2 where m2: "FreeList h m1 = Some m2" "circ m2 h []" "\<forall>q\<in>set xs. circ m2 q []"
      "only_changes (set (h # xs)) m1 m2"
      using Cons.IH [of m1] m1(2) by auto
    have "p \<notin> set (h # xs)" using Cons.prems by (auto simp: circ_def ring_def)
    then have "circ m2 p []" by (intro circ_frame [OF m1(3) m2(4)]) auto
    moreover have "only_changes (set (h # p # xs)) m m2"
      by (rule only_changes_trans [OF m1(4) m2(4)]) auto
    moreover have "FreeList h m = Some m2"
      using list_empty_circ [OF Cons.prems] circ_head(1) [OF Cons.prems] m1(1) m2(1)
      by (subst FreeList.simps) simp
    ultimately show ?case using m2 by auto
  qed
  then show ?thesis by blast
qed

lemma FreeList_empties_witness:
  "\<exists>m'. FreeList 1 two_nodes = Some m' \<and> circ m' 1 [] \<and> circ m' 2 [] \<and> circ m' 3 []"
  using FreeList_empties [of two_nodes 1 "[2, 3]"] two_nodes_circ by simp

section \<open>The test program\<close>

text \<open>
  The \<open>main\<close> at the end of \<open>list.h\<close>. The addresses of the \<open>entry\<close> fields of its variables are
  arguments (\<open>sts\<close> for the array \<open>students\<close>); its output is the three printed lists.
\<close>

record student =
  age :: int
  name :: string

definition students :: "student list" where
  "students = [\<lparr>age = 23, name = ''Andy''\<rparr>, \<lparr>age = 32, name = ''Chris''\<rparr>,
     \<lparr>age = 28, name = ''Jean''\<rparr>, \<lparr>age = 0, name = []\<rparr>]"

definition list_main :: "addr \<Rightarrow> addr \<Rightarrow> addr \<Rightarrow> addr \<Rightarrow> addr list \<Rightarrow> lheap \<Rightarrow> student list list option" where
  "list_main head ano_head one two sts m = do {
     let owner = map_of (zip sts students @
       [(one, \<lparr>age = 34, name = ''Tom''\<rparr>), (two, \<lparr>age = 47, name = ''Jerry''\<rparr>)]);
     m \<leftarrow> INIT_LIST_HEAD head m;
     m \<leftarrow> insert_all (\<lambda>p. list_add p head)
       (map fst (takeWhile (\<lambda>(p, s). age s \<noteq> 0) (zip sts students))) m;
     (m, out1) \<leftarrow> list_for_each (print_each owner) head (m, []);
     m \<leftarrow> list_del (sts ! 0) m;
     (m, out2) \<leftarrow> list_for_each (print_each owner) head (m, []);
     m \<leftarrow> INIT_LIST_HEAD ano_head m;
     m \<leftarrow> list_add one ano_head m;
     m \<leftarrow> list_add two ano_head m;
     m \<leftarrow> list_splice ano_head head m;
     (m, out3) \<leftarrow> list_for_each (print_each owner) head (m, []);
     Some [out1, out2, out3]
   }"

interpretation add_front: inserter "\<lambda>m. circ m h"
  "\<lambda>m xs ys. distinct ys \<and> set ys \<inter> set (h # xs) = {} \<and> 0 \<notin> set ys \<and> set ys \<subseteq> dom m"
  "\<lambda>p. list_add p h" "(#)" for h :: addr
proof (unfold_locales, goal_cases)
  case (1 m xs y ys)
  then have y: "y \<notin> set (h # xs)" "y \<noteq> 0" "y \<in> dom m" by auto
  obtain m' where m': "list_add y h m = Some m'" "circ m' h (y # xs)"
    "only_changes (insert y (set (h # xs))) m m'"
    by (rule list_add_ok [OF 1(1) y])
  moreover from m'(3) have "dom m' = dom m" by (simp add: only_changes_def)
  ultimately show ?case using 1(2) by auto
qed

interpretation add_back: inserter "\<lambda>m. circ m h"
  "\<lambda>m xs ys. distinct ys \<and> set ys \<inter> set (h # xs) = {} \<and> 0 \<notin> set ys \<and> set ys \<subseteq> dom m"
  "\<lambda>p. list_add_tail p h" "\<lambda>y zs. zs @ [y]" for h :: addr
proof (unfold_locales, goal_cases)
  case (1 m xs y ys)
  then have y: "y \<notin> set (h # xs)" "y \<noteq> 0" "y \<in> dom m" by auto
  obtain m' where m': "list_add_tail y h m = Some m'" "circ m' h (xs @ [y])"
    "only_changes (insert y (set (h # xs))) m m'"
    by (rule list_add_tail_ok [OF 1(1) y])
  moreover from m'(3) have "dom m' = dom m" by (simp add: only_changes_def)
  ultimately show ?case using 1(2) by auto
qed

text \<open>
  The test program prints the three students in reverse order of insertion, then without the
  first one of the array, then with the two students of the other list in front, whatever the
  addresses of its variables are.
\<close>

theorem list_main_output:
  assumes "distinct (head # ano_head # one # two # sts)" and "length sts = 4"
    and "0 \<notin> set (head # ano_head # one # two # sts)"
    and "set (head # ano_head # one # two # sts) \<subseteq> dom m"
  shows "list_main head ano_head one two sts m = Some
    [[\<lparr>age = 28, name = ''Jean''\<rparr>, \<lparr>age = 32, name = ''Chris''\<rparr>, \<lparr>age = 23, name = ''Andy''\<rparr>],
     [\<lparr>age = 28, name = ''Jean''\<rparr>, \<lparr>age = 32, name = ''Chris''\<rparr>],
     [\<lparr>age = 47, name = ''Jerry''\<rparr>, \<lparr>age = 34, name = ''Tom''\<rparr>,
      \<lparr>age = 28, name = ''Jean''\<rparr>, \<lparr>age = 32, name = ''Chris''\<rparr>]]"
proof -
  obtain a b c e where sts: "sts = [a, b, c, e]"
    using assms(2) by (auto simp: numeral_eq_Suc length_Suc_conv)
  define owner where "owner = map_of (zip sts students @
       [(one, \<lparr>age = 34, name = ''Tom''\<rparr>), (two, \<lparr>age = 47, name = ''Jerry''\<rparr>)])"
  define g where "g p = the (owner p)" for p
  have own: "owner a = Some (students ! 0)" "owner b = Some (students ! 1)"
    "owner c = Some (students ! 2)" "owner one = Some \<lparr>age = 34, name = ''Tom''\<rparr>"
    "owner two = Some \<lparr>age = 47, name = ''Jerry''\<rparr>"
    using assms(1) by (auto simp: owner_def sts students_def)
  obtain m1 where m1: "INIT_LIST_HEAD head m = Some m1" "circ m1 head []" "only_changes {head} m m1"
    by (rule init_ok [of head m]) (use assms in auto)
  have "\<exists>m2. insert_all (\<lambda>p. list_add p head) [a, b, c] m1 = Some m2 \<and>
    circ m2 head (fold (#) [a, b, c] []) \<and> (distinct [ano_head, one, two] \<and>
      set [ano_head, one, two] \<inter> set (head # fold (#) [a, b, c] []) = {} \<and>
      0 \<notin> set [ano_head, one, two] \<and> set [ano_head, one, two] \<subseteq> dom m2)"
  proof (rule add_front.fill [OF m1(2)])
    have "dom m1 = dom m" using m1(3) by (simp add: only_changes_def)
    then show "distinct ([a, b, c] @ [ano_head, one, two]) \<and>
      set ([a, b, c] @ [ano_head, one, two]) \<inter> set [head] = {} \<and>
      0 \<notin> set ([a, b, c] @ [ano_head, one, two]) \<and> set ([a, b, c] @ [ano_head, one, two]) \<subseteq> dom m1"
      using assms by (auto simp: sts)
  qed
  then obtain m2 where m2: "insert_all (\<lambda>p. list_add p head) [a, b, c] m1 = Some m2"
    "circ m2 head ([c, b] @ a # [])" "{ano_head, one, two} \<subseteq> dom m2" by auto
  obtain m3 where m3: "list_del a m2 = Some m3" "circ m3 head ([c, b] @ [])"
    "m3 a = Some \<lparr>lnext = 0, lprev = 0\<rparr>" "only_changes (set (head # [c, b] @ a # [])) m2 m3"
    by (rule list_del_ok [OF m2(2)])
  have d3: "dom m3 = dom m2" using m3(4) by (simp add: only_changes_def)
  obtain m4 where m4: "INIT_LIST_HEAD ano_head m3 = Some m4" "circ m4 ano_head []"
    "only_changes {ano_head} m3 m4"
    by (rule init_ok [of ano_head m3]) (use assms(3) m2(3) d3 in auto)
  have d4: "dom m4 = dom m2" using m4(3) d3 by (simp add: only_changes_def)
  obtain m5 where m5: "list_add one ano_head m4 = Some m5" "circ m5 ano_head [one]"
    "only_changes (insert one (set [ano_head])) m4 m5"
    by (rule list_add_ok [OF m4(2), of one]) (use assms m2(3) d4 in auto)
  have d5: "dom m5 = dom m2" using m5(3) d4 by (simp add: only_changes_def)
  obtain m6 where m6: "list_add two ano_head m5 = Some m6" "circ m6 ano_head [two, one]"
    "only_changes (insert two (set [ano_head, one])) m5 m6"
    by (rule list_add_ok [OF m5(2), of two]) (use assms m2(3) d5 in auto)
  have "circ m4 head [c, b]" by (rule circ_frame [OF _ m4(3)]) (use m3(2) assms(1) sts in auto)
  then have "circ m5 head [c, b]" by (rule circ_frame [OF _ m5(3)]) (use assms(1) sts in auto)
  then have c6: "circ m6 head [c, b]" by (rule circ_frame [OF _ m6(3)]) (use assms(1) sts in auto)
  have "set [ano_head, two, one] \<inter> set [head, c, b] = {}" using assms(1) sts by auto
  then obtain m7 where m7: "list_splice ano_head head m6 = Some m7" "circ m7 head [two, one, c, b]"
    using list_splice_joins_ok [OF m6(2) c6] by auto
  have ag: "owner p = Some (g p)" if "p \<in> {a, b, c, one, two}" for p
    using that own by (auto simp: g_def)
  note print = list_for_each_prints(1) [where owner = owner and g = g and vs = "[]"]
  have p1: "list_for_each (print_each owner) head (m2, []) = Some (m2, map g [c, b, a])"
    by (subst print [OF m2(2)]) (use ag in auto)
  have p2: "list_for_each (print_each owner) head (m3, []) = Some (m3, map g [c, b])"
    by (subst print [OF m3(2)]) (use ag in auto)
  have p3: "list_for_each (print_each owner) head (m7, []) = Some (m7, map g [two, one, c, b])"
    by (subst print [OF m7(2)]) (use ag in auto)
  have fill: "map fst (takeWhile (\<lambda>(p, s). age s \<noteq> 0) (zip sts students)) = [a, b, c]"
    by (simp add: sts students_def)
  have g: "g a = students ! 0" "g b = students ! 1" "g c = students ! 2"
    "g one = \<lparr>age = 34, name = ''Tom''\<rparr>" "g two = \<lparr>age = 47, name = ''Jerry''\<rparr>"
    using own by (simp_all add: g_def)
  have "list_main head ano_head one two sts m = Some [map g [c, b, a], map g [c, b], map g [two, one, c, b]]"
    unfolding list_main_def Let_def fill owner_def [symmetric]
    by (simp only: m1(1) m2(1) m3(1) m4(1) m5(1) m6(1) m7(1) p1 p2 p3 bind.bind_lunit prod.case
        sts nth_Cons_0)
  also have "\<dots> = Some [[students ! 2, students ! 1, students ! 0], [students ! 2, students ! 1],
      [\<lparr>age = 47, name = ''Jerry''\<rparr>, \<lparr>age = 34, name = ''Tom''\<rparr>, students ! 2, students ! 1]]"
    by (simp only: g list.map)
  finally show ?thesis by (simp add: students_def)
qed

lemma list_main_output_witness:
  "\<exists>out. list_main 1 2 3 4 [5, 6, 7, 8] (self_linked 8) = Some out \<and> map length out = [3, 2, 4]"
  using list_main_output [of 1 2 3 4 "[5, 6, 7, 8]" "self_linked 8"]
  by (simp add: self_linked_def dom_def)

end
