(* ===== verification/Adlist.thy ===== *)
theory Adlist
  imports Links
begin

text \<open>
  The doubly linked list of \<open>src/data_structure/alist/adlist.h\<close> and \<open>adlist.c\<close>. List structures
  and iterators are passed by value; the heap maps addresses to nodes. \<open>mallocs\<close> scripts what the
  coming \<open>malloc\<close> calls return (an address, or NULL; every behaviour of \<open>malloc\<close> is some script),
  \<open>structs\<close> counts the live list and iterator blocks, and \<open>freed\<close> logs the calls of the \<open>free\<close>
  method. Following NULL or an unmapped address, or freeing it, is the fault \<open>None\<close>.
\<close>

section \<open>The code\<close>

record 'v list_node =
  nprev :: addr
  nnext :: addr
  nvalue :: 'v

record list_iter =
  inext :: addr
  direction :: int

record 'v alist =
  head :: addr
  tail :: addr
  dup_fn :: "('v \<Rightarrow> 'v option) option"
  free_fn :: bool
  match_fn :: "('v \<Rightarrow> 'v \<Rightarrow> bool) option"
  len :: u64

record 'v world =
  nodes :: "addr \<rightharpoonup> 'v list_node"
  mallocs :: "addr option list"
  structs :: int
  freed :: "'v list"

definition AL_START_HEAD :: int where "AL_START_HEAD = 0"
definition AL_START_TAIL :: int where "AL_START_TAIL = 1"

definition node_next :: "'v world \<Rightarrow> addr \<Rightarrow> addr option" where
  "node_next w p = map_option nnext (nodes w p)"

definition node_prev :: "'v world \<Rightarrow> addr \<Rightarrow> addr option" where
  "node_prev w p = map_option nprev (nodes w p)"

definition node_value :: "'v world \<Rightarrow> addr \<Rightarrow> 'v option" where
  "node_value w p = map_option nvalue (nodes w p)"

definition put_node :: "addr \<Rightarrow> 'v list_node \<Rightarrow> 'v world \<Rightarrow> 'v world" where
  "put_node p n w = w\<lparr>nodes := (nodes w)(p \<mapsto> n)\<rparr>"

definition store_next :: "addr \<Rightarrow> addr \<Rightarrow> 'v world \<Rightarrow> 'v world option" where
  "store_next p x w = map_option (\<lambda>n. put_node p (n\<lparr>nnext := x\<rparr>) w) (nodes w p)"

definition store_prev :: "addr \<Rightarrow> addr \<Rightarrow> 'v world \<Rightarrow> 'v world option" where
  "store_prev p x w = map_option (\<lambda>n. put_node p (n\<lparr>nprev := x\<rparr>) w) (nodes w p)"

definition free_node :: "addr \<Rightarrow> 'v world \<Rightarrow> 'v world option" where
  "free_node p w = (if nodes w p = None then None else Some (w\<lparr>nodes := (nodes w)(p := None)\<rparr>))"

definition call_free :: "'v alist \<Rightarrow> 'v \<Rightarrow> 'v world \<Rightarrow> 'v world" where
  "call_free l v w = (if free_fn l then w\<lparr>freed := freed w @ [v]\<rparr> else w)"

text \<open>A \<open>malloc\<close> of a node: NULL is 0; a scripted address must be free.\<close>

definition malloc_node :: "'v world \<Rightarrow> addr \<times> 'v world" where
  "malloc_node w = (case mallocs w of
     Some a # ms \<Rightarrow> (if nodes w a = None then a else 0, w\<lparr>mallocs := ms\<rparr>)
   | None # ms \<Rightarrow> (0, w\<lparr>mallocs := ms\<rparr>)
   | [] \<Rightarrow> (0, w))"

definition malloc_struct :: "'v world \<Rightarrow> bool \<times> 'v world" where
  "malloc_struct w = (case mallocs w of
     Some a # ms \<Rightarrow> (True, w\<lparr>mallocs := ms, structs := structs w + 1\<rparr>)
   | None # ms \<Rightarrow> (False, w\<lparr>mallocs := ms\<rparr>)
   | [] \<Rightarrow> (False, w))"

definition free_struct :: "'v world \<Rightarrow> 'v world" where
  "free_struct w = w\<lparr>structs := structs w - 1\<rparr>"

definition listCreate :: "'v world \<Rightarrow> 'v alist option \<times> 'v world" where
  "listCreate w = (case malloc_struct w of
     (False, w) \<Rightarrow> (None, w)
   | (True, w) \<Rightarrow> (Some \<lparr>head = 0, tail = 0, dup_fn = None, free_fn = False, match_fn = None, len = 0\<rparr>, w))"

fun release_loop :: "'v alist \<Rightarrow> nat \<Rightarrow> addr \<Rightarrow> 'v world \<Rightarrow> 'v world option" where
  "release_loop l 0 current w = Some w"
| "release_loop l (Suc n) current w = do {
     nxt \<leftarrow> node_next w current;
     v \<leftarrow> node_value w current;
     let w = call_free l v w;
     w \<leftarrow> free_node current w;
     release_loop l n nxt w
   }"

definition listRelease :: "'v alist \<Rightarrow> 'v world \<Rightarrow> 'v world option" where
  "listRelease l w = do {
     w \<leftarrow> release_loop l (unat (len l)) (head l) w;
     Some (free_struct w)
   }"

text \<open>The functions that add a node return whether they returned the list (not NULL).\<close>

definition listAddNodeHead :: "'v alist \<Rightarrow> 'v \<Rightarrow> 'v world \<Rightarrow> (bool \<times> 'v alist \<times> 'v world) option" where
  "listAddNodeHead l v w = (case malloc_node w of (node, w) \<Rightarrow>
     if node = 0 then Some (False, l, w)
     else if len l = 0 then
       Some (True, l\<lparr>head := node, tail := node, len := len l + 1\<rparr>,
         put_node node \<lparr>nprev = 0, nnext = 0, nvalue = v\<rparr> w)
     else do {
       let w = put_node node \<lparr>nprev = 0, nnext = head l, nvalue = v\<rparr> w;
       w \<leftarrow> store_prev (head l) node w;
       Some (True, l\<lparr>head := node, len := len l + 1\<rparr>, w)
     })"

definition listAddNodeTail :: "'v alist \<Rightarrow> 'v \<Rightarrow> 'v world \<Rightarrow> (bool \<times> 'v alist \<times> 'v world) option" where
  "listAddNodeTail l v w = (case malloc_node w of (node, w) \<Rightarrow>
     if node = 0 then Some (False, l, w)
     else if len l = 0 then
       Some (True, l\<lparr>head := node, tail := node, len := len l + 1\<rparr>,
         put_node node \<lparr>nprev = 0, nnext = 0, nvalue = v\<rparr> w)
     else do {
       let w = put_node node \<lparr>nprev = tail l, nnext = 0, nvalue = v\<rparr> w;
       w \<leftarrow> store_next (tail l) node w;
       Some (True, l\<lparr>tail := node, len := len l + 1\<rparr>, w)
     })"

definition listInsertNode ::
  "'v alist \<Rightarrow> addr \<Rightarrow> 'v \<Rightarrow> bool \<Rightarrow> 'v world \<Rightarrow> (bool \<times> 'v alist \<times> 'v world) option" where
  "listInsertNode l old v after w = (case malloc_node w of (node, w) \<Rightarrow>
     if node = 0 then Some (False, l, w)
     else do {
       (p, n, l) \<leftarrow> (if after then do {
           n \<leftarrow> node_next w old;
           Some (old, n, if tail l = old then l\<lparr>tail := node\<rparr> else l)
         } else do {
           p \<leftarrow> node_prev w old;
           Some (p, old, if head l = old then l\<lparr>head := node\<rparr> else l)
         });
       let w = put_node node \<lparr>nprev = p, nnext = n, nvalue = v\<rparr> w;
       w \<leftarrow> (if p \<noteq> 0 then store_next p node w else Some w);
       w \<leftarrow> (if n \<noteq> 0 then store_prev n node w else Some w);
       Some (True, l\<lparr>len := len l + 1\<rparr>, w)
     })"

definition listDelNode :: "'v alist \<Rightarrow> addr \<Rightarrow> 'v world \<Rightarrow> ('v alist \<times> 'v world) option" where
  "listDelNode l node w = do {
     p \<leftarrow> node_prev w node;
     n \<leftarrow> node_next w node;
     v \<leftarrow> node_value w node;
     w \<leftarrow> (if p \<noteq> 0 then store_next p n w else Some w);
     let l = (if p \<noteq> 0 then l else l\<lparr>head := n\<rparr>);
     w \<leftarrow> (if n \<noteq> 0 then store_prev n p w else Some w);
     let l = (if n \<noteq> 0 then l else l\<lparr>tail := p\<rparr>);
     let w = call_free l v w;
     w \<leftarrow> free_node node w;
     Some (l\<lparr>len := len l - 1\<rparr>, w)
   }"

definition listRewind :: "'v alist \<Rightarrow> list_iter" where
  "listRewind l = \<lparr>inext = head l, direction = AL_START_HEAD\<rparr>"

definition listRewindTail :: "'v alist \<Rightarrow> list_iter" where
  "listRewindTail l = \<lparr>inext = tail l, direction = AL_START_TAIL\<rparr>"

definition listGetIterator :: "'v alist \<Rightarrow> int \<Rightarrow> 'v world \<Rightarrow> list_iter option \<times> 'v world" where
  "listGetIterator l dir w = (case malloc_struct w of
     (False, w) \<Rightarrow> (None, w)
   | (True, w) \<Rightarrow>
       (Some \<lparr>inext = (if dir = AL_START_HEAD then head l else tail l), direction = dir\<rparr>, w))"

definition listReleaseIterator :: "'v world \<Rightarrow> 'v world" where
  "listReleaseIterator w = free_struct w"

definition listNext :: "list_iter \<Rightarrow> 'v world \<Rightarrow> (addr \<times> list_iter) option" where
  "listNext iter w = (
     let current = inext iter
     in if current \<noteq> 0 then do {
          nx \<leftarrow> (if direction iter = AL_START_HEAD then node_next w current else node_prev w current);
          Some (current, iter\<lparr>inext := nx\<rparr>)
        } else Some (current, iter))"

text \<open>
  \<open>listDup\<close> and \<open>listSearchKey\<close> use the iterator without testing it: a NULL iterator is a fault.
\<close>

partial_function (option) dup_loop ::
  "'v alist \<Rightarrow> list_iter \<Rightarrow> 'v world \<Rightarrow> ('v alist option \<times> 'v world) option" where
  "dup_loop copy iter w = do {
     (node, iter) \<leftarrow> listNext iter w;
     if node = 0 then Some (Some copy, listReleaseIterator w)
     else do {
       v \<leftarrow> node_value w node;
       case (case dup_fn copy of Some d \<Rightarrow> d v | None \<Rightarrow> Some v) of
         None \<Rightarrow> do {
           w \<leftarrow> listRelease copy w;
           Some (None, listReleaseIterator w)
         }
       | Some v' \<Rightarrow> do {
           (ok, copy, w) \<leftarrow> listAddNodeTail copy v' w;
           if \<not> ok then do {
             w \<leftarrow> listRelease copy w;
             Some (None, listReleaseIterator w)
           } else dup_loop copy iter w
         }
     }
   }"

definition listDup :: "'v alist \<Rightarrow> 'v world \<Rightarrow> ('v alist option \<times> 'v world) option" where
  "listDup orig w = (case listCreate w of
     (None, w) \<Rightarrow> Some (None, w)
   | (Some copy, w) \<Rightarrow>
       let copy = copy\<lparr>dup_fn := dup_fn orig, free_fn := free_fn orig, match_fn := match_fn orig\<rparr>
       in (case listGetIterator orig AL_START_HEAD w of
             (None, w) \<Rightarrow> None
           | (Some iter, w) \<Rightarrow> dup_loop copy iter w))"

partial_function (option) search_loop ::
  "'v alist \<Rightarrow> 'v \<Rightarrow> list_iter \<Rightarrow> 'v world \<Rightarrow> (addr \<times> 'v world) option" where
  "search_loop l key iter w = do {
     (node, iter) \<leftarrow> listNext iter w;
     if node = 0 then Some (0, listReleaseIterator w)
     else do {
       v \<leftarrow> node_value w node;
       if (case match_fn l of Some m \<Rightarrow> m v key | None \<Rightarrow> key = v)
       then Some (node, listReleaseIterator w)
       else search_loop l key iter w
     }
   }"

definition listSearchKey :: "'v alist \<Rightarrow> 'v \<Rightarrow> 'v world \<Rightarrow> (addr \<times> 'v world) option" where
  "listSearchKey l key w = (case listGetIterator l AL_START_HEAD w of
     (None, w) \<Rightarrow> None
   | (Some iter, w) \<Rightarrow> search_loop l key iter w)"

text \<open>\<open>while (index-- && n) n = n->prev;\<close> and the same loop forwards; a signed overflow faults.\<close>

fun walk_prev :: "'v world \<Rightarrow> nat \<Rightarrow> addr \<Rightarrow> addr option" where
  "walk_prev w 0 n = Some n"
| "walk_prev w (Suc i) n = (if n = 0 then Some n else node_prev w n \<bind> walk_prev w i)"

fun walk_next :: "'v world \<Rightarrow> nat \<Rightarrow> addr \<Rightarrow> addr option" where
  "walk_next w 0 n = Some n"
| "walk_next w (Suc i) n = (if n = 0 then Some n else node_next w n \<bind> walk_next w i)"

definition listIndex :: "'v alist \<Rightarrow> 64 word \<Rightarrow> 'v world \<Rightarrow> addr option" where
  "listIndex l index w =
     (if sint index < 0 then
        (if sint index = - (2 ^ 63) then None
         else walk_prev w (nat (- sint index - 1)) (tail l))
      else walk_next w (nat (sint index)) (head l))"

definition listRotate :: "'v alist \<Rightarrow> 'v world \<Rightarrow> ('v alist \<times> 'v world) option" where
  "listRotate l w =
     (if len l \<le> 1 then Some (l, w)
      else do {
        let tl = tail l;
        p \<leftarrow> node_prev w tl;
        let l = l\<lparr>tail := p\<rparr>;
        w \<leftarrow> store_next (tail l) 0 w;
        w \<leftarrow> store_prev (head l) tl w;
        w \<leftarrow> store_prev tl 0 w;
        w \<leftarrow> store_next tl (head l) w;
        Some (l\<lparr>head := tl\<rparr>, w)
      })"

section \<open>Abstraction\<close>

text \<open>
  \<open>alist_repr w l xs vs\<close>: the list \<open>l\<close> consists of the nodes \<open>xs\<close>, which hold the values \<open>vs\<close>.
\<close>

definition alist_repr :: "'v world \<Rightarrow> 'v alist \<Rightarrow> addr list \<Rightarrow> 'v list \<Rightarrow> bool" where
  "alist_repr w l xs vs \<longleftrightarrow>
     ring (node_next w) (node_prev w) 0 xs \<and> head l = hd (xs @ [0]) \<and> tail l = last (0 # xs) \<and>
     unat (len l) = length xs \<and> map (node_value w) xs = map Some vs"

text \<open>World \<open>w'\<close> has the nodes of \<open>w\<close> outside \<open>A\<close>, and nothing else changed.\<close>

definition frame :: "addr set \<Rightarrow> 'v world \<Rightarrow> 'v world \<Rightarrow> bool" where
  "frame A w w' \<longleftrightarrow> (\<forall>q. q \<notin> A \<longrightarrow> nodes w' q = nodes w q) \<and> mallocs w' = mallocs w \<and>
     structs w' = structs w \<and> freed w' = freed w"

lemma frame_trans: "frame A w w1 \<Longrightarrow> frame B w1 w2 \<Longrightarrow> A \<subseteq> C \<Longrightarrow> B \<subseteq> C \<Longrightarrow> frame C w w2"
  unfolding frame_def by (metis subsetD)

lemma frame_mono: "frame A w w' \<Longrightarrow> A \<subseteq> C \<Longrightarrow> frame C w w'"
  unfolding frame_def by (metis subsetD)

lemma put_node_views [simp]:
  "node_next (put_node p n w) = (node_next w)(p \<mapsto> nnext n)"
  "node_prev (put_node p n w) = (node_prev w)(p \<mapsto> nprev n)"
  "node_value (put_node p n w) = (node_value w)(p \<mapsto> nvalue n)"
  by (auto simp: put_node_def node_next_def node_prev_def node_value_def)

lemma put_node_nodes [simp]: "nodes (put_node p n w) = (nodes w)(p \<mapsto> n)"
  by (simp add: put_node_def)

lemma put_node_frame [simp]: "frame {p} w (put_node p n w)"
  by (simp add: frame_def put_node_def)

lemma views_cong [simp]:
  "node_next (w\<lparr>mallocs := ms\<rparr>) = node_next w" "node_prev (w\<lparr>mallocs := ms\<rparr>) = node_prev w"
  "node_value (w\<lparr>mallocs := ms\<rparr>) = node_value w"
  "node_next (w\<lparr>structs := k\<rparr>) = node_next w" "node_prev (w\<lparr>structs := k\<rparr>) = node_prev w"
  "node_value (w\<lparr>structs := k\<rparr>) = node_value w"
  "node_next (w\<lparr>freed := fs\<rparr>) = node_next w" "node_prev (w\<lparr>freed := fs\<rparr>) = node_prev w"
  "node_value (w\<lparr>freed := fs\<rparr>) = node_value w"
  by (auto simp: node_next_def node_prev_def node_value_def)

lemma store_next_ok:
  assumes "nodes w p \<noteq> None"
  obtains w' where "store_next p x w = Some w'" "node_next w' = (node_next w)(p \<mapsto> x)"
    "node_prev w' = node_prev w" "node_value w' = node_value w" "frame {p} w w'"
    "dom (nodes w') = dom (nodes w)"
proof -
  from assms obtain n where n: "nodes w p = Some n" by blast
  show ?thesis
  proof (rule that [of "put_node p (n\<lparr>nnext := x\<rparr>) w"])
    have "node_prev w p = Some (nprev n)" "node_value w p = Some (nvalue n)"
      using n by (simp_all add: node_prev_def node_value_def)
    then show "node_prev (put_node p (n\<lparr>nnext := x\<rparr>) w) = node_prev w"
      "node_value (put_node p (n\<lparr>nnext := x\<rparr>) w) = node_value w"
      by (simp_all add: fun_upd_idem_iff)
  qed (use n in \<open>auto simp: store_next_def\<close>)
qed

lemma store_prev_ok:
  assumes "nodes w p \<noteq> None"
  obtains w' where "store_prev p x w = Some w'" "node_prev w' = (node_prev w)(p \<mapsto> x)"
    "node_next w' = node_next w" "node_value w' = node_value w" "frame {p} w w'"
    "dom (nodes w') = dom (nodes w)"
proof -
  from assms obtain n where n: "nodes w p = Some n" by blast
  show ?thesis
  proof (rule that [of "put_node p (n\<lparr>nprev := x\<rparr>) w"])
    have "node_next w p = Some (nnext n)" "node_value w p = Some (nvalue n)"
      using n by (simp_all add: node_next_def node_value_def)
    then show "node_next (put_node p (n\<lparr>nprev := x\<rparr>) w) = node_next w"
      "node_value (put_node p (n\<lparr>nprev := x\<rparr>) w) = node_value w"
      by (simp_all add: fun_upd_idem_iff)
  qed (use n in \<open>auto simp: store_prev_def\<close>)
qed

lemma node_value_dom: "node_value w p = Some v \<Longrightarrow> nodes w p \<noteq> None"
  by (auto simp: node_value_def)

lemma alist_repr_node:
  assumes "alist_repr w l (xs @ p # ys) vs"
  shows "p \<noteq> 0" "node_next w p = Some (hd (ys @ [0]))" "node_prev w p = Some (last (0 # xs))"
    "nodes w p \<noteq> None"
proof -
  have r: "ring (node_next w) (node_prev w) 0 (xs @ p # ys)" using assms by (simp add: alist_repr_def)
  then show p: "p \<noteq> 0" by (auto simp: ring_def)
  with ring_at [OF r] show "node_next w p = Some (hd (ys @ [0]))" "node_prev w p = Some (last (0 # xs))"
    by (simp_all add: edge_def)
  then show "nodes w p \<noteq> None" by (auto simp: node_next_def)
qed

lemma alist_repr_dom: "alist_repr w l xs vs \<Longrightarrow> p \<in> set xs \<Longrightarrow> nodes w p \<noteq> None"
  by (metis alist_repr_node(4) split_list)

lemma alist_repr_length: "alist_repr w l xs vs \<Longrightarrow> length vs = length xs"
  unfolding alist_repr_def by (metis length_map)

lemma alist_repr_frame:
  assumes "alist_repr w l xs vs" and "\<And>q. q \<in> set xs \<Longrightarrow> nodes w' q = nodes w q"
  shows "alist_repr w' l xs vs"
proof -
  have "ring (node_next w') (node_prev w') 0 xs = ring (node_next w) (node_prev w) 0 xs"
    by (rule ring_cong) (use assms(2) in \<open>auto simp: node_next_def node_prev_def\<close>)
  moreover have "map (node_value w') xs = map (node_value w) xs"
    using assms(2) by (simp add: node_value_def)
  ultimately show ?thesis using assms(1) unfolding alist_repr_def by metis
qed

text \<open>What \<open>malloc\<close> does to the world.\<close>

lemma malloc_node_cases:
  obtains (null) w' where "malloc_node w = (0, w')" "nodes w' = nodes w" "structs w' = structs w"
      "freed w' = freed w"
  | (node) a w' where "malloc_node w = (a, w')" "a \<noteq> 0" "nodes w a = None" "nodes w' = nodes w"
      "structs w' = structs w" "freed w' = freed w" "mallocs w = Some a # mallocs w'"
proof (cases "mallocs w")
  case Nil
  then show ?thesis using null [of w] by (simp add: malloc_node_def)
next
  case (Cons c ms)
  show ?thesis
  proof (cases "\<exists>a. c = Some a \<and> nodes w a = None \<and> a \<noteq> 0")
    case True
    then show ?thesis using Cons node [of _ "w\<lparr>mallocs := ms\<rparr>"] by (auto simp: malloc_node_def)
  next
    case False
    then show ?thesis using Cons null [of "w\<lparr>mallocs := ms\<rparr>"]
      by (cases c) (auto simp: malloc_node_def)
  qed
qed

text \<open>Linking a new node anywhere into the list, and cutting one out.\<close>

lemma alist_insert:
  assumes "alist_repr w l (xs @ ys) (us @ vs)" and "length xs = length us"
    and "a \<noteq> 0" "a \<notin> set (xs @ ys)" "length (xs @ ys) + 1 < 2 ^ 64"
    and "\<And>q. q \<noteq> 0 \<Longrightarrow> node_next w' q = ((node_next w)(a \<mapsto> hd (ys @ [0]), last (0 # xs) \<mapsto> a)) q"
    and "\<And>q. q \<noteq> 0 \<Longrightarrow> node_prev w' q = ((node_prev w)(hd (ys @ [0]) \<mapsto> a, a \<mapsto> last (0 # xs))) q"
    and "node_value w' = (node_value w)(a \<mapsto> v)"
    and "head l' = (if xs = [] then a else head l)" "tail l' = (if ys = [] then a else tail l)"
    and "len l' = len l + 1"
  shows "alist_repr w' l' (xs @ a # ys) (us @ v # vs)"
proof -
  have "ring (node_next w') (node_prev w') 0 (xs @ a # ys)"
    by (rule ring_insert [of "node_next w" "node_prev w" _ _ _ a])
      (use assms(1,3,4,6,7) in \<open>simp_all add: alist_repr_def del: last.simps fun_upd_apply\<close>)
  moreover have "unat (len l') = length (xs @ a # ys)"
    using assms(1,5,11) by (simp add: alist_repr_def unat_add_no_wrap)
  moreover have "map (node_value w') (xs @ a # ys) = map Some (us @ v # vs)"
  proof -
    have "map (node_value w) (xs @ ys) = map Some (us @ vs)" using assms(1) by (simp add: alist_repr_def)
    then have "map (node_value w) xs = map Some us \<and> map (node_value w) ys = map Some vs"
      using assms(2) by simp
    moreover have "map (node_value w') zs = map (node_value w) zs" if "a \<notin> set zs" for zs
      using that by (auto simp: assms(8))
    ultimately show ?thesis using assms(4,8) by simp
  qed
  ultimately show ?thesis
    using assms(1,9,10) by (auto simp: alist_repr_def hd_append split: if_splits)
qed

lemma alist_remove:
  assumes "alist_repr w l (xs @ p # ys) (us @ v # vs)" and "length xs = length us"
    and "\<And>q. q \<noteq> 0 \<Longrightarrow> q \<noteq> p \<Longrightarrow> node_next w' q = ((node_next w)(last (0 # xs) \<mapsto> hd (ys @ [0]))) q"
    and "\<And>q. q \<noteq> 0 \<Longrightarrow> q \<noteq> p \<Longrightarrow> node_prev w' q = ((node_prev w)(hd (ys @ [0]) \<mapsto> last (0 # xs))) q"
    and "\<And>q. q \<noteq> p \<Longrightarrow> node_value w' q = node_value w q"
    and "head l' = (if xs = [] then hd (ys @ [0]) else head l)"
    and "tail l' = (if ys = [] then last (0 # xs) else tail l)" and "len l' = len l - 1"
  shows "alist_repr w' l' (xs @ ys) (us @ vs)"
proof -
  have r: "ring (node_next w) (node_prev w) 0 (xs @ p # ys)" using assms(1) by (simp add: alist_repr_def)
  have "ring (node_next w') (node_prev w') 0 (xs @ ys)"
    by (rule ring_remove [OF r]) (use assms(3,4) in blast)+
  moreover have "unat (len l') = length (xs @ ys)"
  proof -
    have "unat (len l) = Suc (length (xs @ ys))" using assms(1) by (simp add: alist_repr_def)
    then show ?thesis using assms(8) by (simp add: unat_sub_le)
  qed
  moreover have "map (node_value w') (xs @ ys) = map Some (us @ vs)"
  proof -
    have "map (node_value w) (xs @ p # ys) = map Some (us @ v # vs)" using assms(1) by (simp add: alist_repr_def)
    then have "map (node_value w) xs = map Some us \<and> map (node_value w) ys = map Some vs"
      using assms(2) by simp
    moreover have "map (node_value w') zs = map (node_value w) zs" if "p \<notin> set zs" for zs
      using that assms(5) by (induction zs) auto
    moreover have "p \<notin> set xs" "p \<notin> set ys" using r by (auto simp: ring_def)
    ultimately show ?thesis by (metis map_append)
  qed
  ultimately show ?thesis
    using assms(1,6,7) by (auto simp: alist_repr_def hd_append split: if_splits)
qed

section \<open>Adding and deleting nodes\<close>

lemma len_zero_iff: "alist_repr w l xs vs \<Longrightarrow> len l = 0 \<longleftrightarrow> xs = []"
  by (simp add: alist_repr_def flip: unat_eq_0)

lemma alist_repr_views:
  assumes "alist_repr w l xs vs" and "nodes w' = nodes w"
  shows "alist_repr w' l xs vs" "node_next w' = node_next w" "node_prev w' = node_prev w"
    "node_value w' = node_value w"
proof -
  show "alist_repr w' l xs vs" by (rule alist_repr_frame [OF assms(1)]) (simp add: assms(2))
  show "node_next w' = node_next w" "node_prev w' = node_prev w" "node_value w' = node_value w"
    using assms(2) by (auto simp: node_next_def node_prev_def node_value_def)
qed

text \<open>
  The outcome of an insertion: NULL and nothing changed, or the list with a fresh node \<open>a\<close>
  linked in, and no node outside the list touched.
\<close>

definition inserted ::
  "'v world \<Rightarrow> 'v alist \<Rightarrow> addr list \<Rightarrow> addr list \<Rightarrow> 'v list \<Rightarrow> 'v list \<Rightarrow> 'v \<Rightarrow>
    (bool \<times> 'v alist \<times> 'v world) option \<Rightarrow> bool" where
  "inserted w l xs ys us vs v res = (case res of
     None \<Rightarrow> False
   | Some (False, l', w') \<Rightarrow> l' = l \<and> nodes w' = nodes w \<and> structs w' = structs w \<and> freed w' = freed w
   | Some (True, l', w') \<Rightarrow> \<exists>a. mallocs w = Some a # mallocs w' \<and> nodes w a = None \<and>
       alist_repr w' l' (xs @ a # ys) (us @ v # vs) \<and>
       frame (insert a (set (xs @ ys))) (w\<lparr>mallocs := mallocs w'\<rparr>) w' \<and>
       dup_fn l' = dup_fn l \<and> free_fn l' = free_fn l \<and> match_fn l' = match_fn l)"

lemma frame_malloc:
  assumes "frame A w1 w2" "nodes w1 = nodes w" "structs w1 = structs w" "freed w1 = freed w"
  shows "frame A (w\<lparr>mallocs := mallocs w2\<rparr>) w2"
  using assms by (auto simp: frame_def)

lemma add_head_ok:
  assumes "alist_repr w l ys vs" and "length ys + 1 < 2 ^ 64"
  shows "inserted w l [] ys [] vs v (listAddNodeHead l v w)"
proof (cases w rule: malloc_node_cases)
  case (null w')
  then show ?thesis by (simp add: inserted_def listAddNodeHead_def)
next
  case (node a w1)
  note same = alist_repr_views [OF assms(1) node(4)]
  let ?w2 = "put_node a \<lparr>nprev = 0, nnext = head l, nvalue = v\<rparr> w1"
  have a: "a \<notin> set ys" using node(3) alist_repr_dom [OF assms(1)] by blast
  have hd: "head l = hd (ys @ [0])" using assms(1) by (simp add: alist_repr_def)
  have len: "length ([] @ ys) + 1 < 2 ^ 64" using assms(2) by simp
  have r0: "alist_repr w l ([] @ ys) ([] @ vs)" using assms(1) by simp
  note insert = alist_insert [OF r0 _ node(2) _ len]
  show ?thesis
  proof (cases "ys = []")
    case True
    let ?l = "l\<lparr>head := a, tail := a, len := len l + 1\<rparr>"
    have "listAddNodeHead l v w = Some (True, ?l, ?w2)"
      using node(1,2) len_zero_iff [OF assms(1)] hd True by (simp add: listAddNodeHead_def)
    moreover have "alist_repr ?w2 ?l ([] @ a # ys) ([] @ v # vs)"
      by (rule insert) (use a hd same True in \<open>simp_all\<close>)
    moreover have "frame {a} (w\<lparr>mallocs := mallocs ?w2\<rparr>) ?w2"
      by (rule frame_malloc [OF put_node_frame]) (use node in simp_all)
    ultimately show ?thesis
      using node(3,7) True by (auto simp: inserted_def put_node_def)
  next
    case False
    let ?l = "l\<lparr>head := a, len := len l + 1\<rparr>"
    have "nodes ?w2 (head l) \<noteq> None"
      using False hd node(4) alist_repr_dom [OF assms(1), of "hd ys"] by simp
    then obtain w3 where w3: "store_prev (head l) a ?w2 = Some w3"
      "node_prev w3 = (node_prev ?w2)(head l \<mapsto> a)" "node_next w3 = node_next ?w2"
      "node_value w3 = node_value ?w2" "frame {head l} ?w2 w3" "dom (nodes w3) = dom (nodes ?w2)"
      by (rule store_prev_ok)
    have res: "listAddNodeHead l v w = Some (True, ?l, w3)"
      using node(1,2) len_zero_iff [OF assms(1)] w3(1) False by (simp add: listAddNodeHead_def)
    have ha: "head l \<noteq> a" using a False hd by auto
    have "alist_repr w3 ?l ([] @ a # ys) ([] @ v # vs)"
      by (rule insert) (use a hd ha same w3 False in \<open>simp_all add: fun_upd_twist\<close>)
    moreover have "frame (insert a (set ([] @ ys))) w1 w3"
      by (rule frame_trans [OF put_node_frame w3(5)]) (use hd False in auto)
    then have "frame (insert a (set ([] @ ys))) (w\<lparr>mallocs := mallocs w3\<rparr>) w3"
      by (rule frame_malloc) (use node in simp_all)
    moreover have "mallocs w3 = mallocs w1"
      using w3(5) by (simp add: frame_def put_node_def)
    ultimately show ?thesis
      unfolding inserted_def res using node(3,7) by simp
  qed
qed

lemma add_tail_ok:
  assumes "alist_repr w l xs us" and "length xs + 1 < 2 ^ 64"
  shows "inserted w l xs [] us [] v (listAddNodeTail l v w)"
proof (cases w rule: malloc_node_cases)
  case (null w')
  then show ?thesis by (simp add: inserted_def listAddNodeTail_def)
next
  case (node a w1)
  note same = alist_repr_views [OF assms(1) node(4)]
  let ?w2 = "put_node a \<lparr>nprev = tail l, nnext = 0, nvalue = v\<rparr> w1"
  have a: "a \<notin> set xs" using node(3) alist_repr_dom [OF assms(1)] by blast
  have tl: "tail l = last (0 # xs)" using assms(1) by (simp add: alist_repr_def)
  have len: "length (xs @ []) + 1 < 2 ^ 64" using assms(2) by simp
  have r0: "alist_repr w l (xs @ []) (us @ [])" using assms(1) by simp
  have lens: "length xs = length us" using alist_repr_length [OF assms(1)] by simp
  note insert = alist_insert [OF r0 lens node(2) _ len]
  show ?thesis
  proof (cases "xs = []")
    case True
    let ?l = "l\<lparr>head := a, tail := a, len := len l + 1\<rparr>"
    have "listAddNodeTail l v w = Some (True, ?l, ?w2)"
      using node(1,2) len_zero_iff [OF assms(1)] tl True by (simp add: listAddNodeTail_def)
    moreover have "alist_repr ?w2 ?l (xs @ a # []) (us @ v # [])"
      by (rule insert) (use a tl same True in \<open>simp_all\<close>)
    moreover have "frame {a} (w\<lparr>mallocs := mallocs ?w2\<rparr>) ?w2"
      by (rule frame_malloc [OF put_node_frame]) (use node in simp_all)
    ultimately show ?thesis
      using node(3,7) True by (auto simp: inserted_def put_node_def)
  next
    case False
    let ?l = "l\<lparr>tail := a, len := len l + 1\<rparr>"
    have "nodes ?w2 (tail l) \<noteq> None"
      using False tl node(4) alist_repr_dom [OF assms(1), of "last xs"] by simp
    then obtain w3 where w3: "store_next (tail l) a ?w2 = Some w3"
      "node_next w3 = (node_next ?w2)(tail l \<mapsto> a)" "node_prev w3 = node_prev ?w2"
      "node_value w3 = node_value ?w2" "frame {tail l} ?w2 w3" "dom (nodes w3) = dom (nodes ?w2)"
      by (rule store_next_ok)
    have res: "listAddNodeTail l v w = Some (True, ?l, w3)"
      using node(1,2) len_zero_iff [OF assms(1)] w3(1) False by (simp add: listAddNodeTail_def)
    have ta: "tail l \<noteq> a" using a False tl by auto
    have "alist_repr w3 ?l (xs @ a # []) (us @ v # [])"
      by (rule insert) (use a tl ta same w3 False in \<open>simp_all add: fun_upd_twist\<close>)
    moreover have "frame (insert a (set (xs @ []))) w1 w3"
      by (rule frame_trans [OF put_node_frame w3(5)]) (use tl False in auto)
    then have "frame (insert a (set (xs @ []))) (w\<lparr>mallocs := mallocs w3\<rparr>) w3"
      by (rule frame_malloc) (use node in simp_all)
    moreover have "mallocs w3 = mallocs w1"
      using w3(5) by (simp add: frame_def put_node_def)
    ultimately show ?thesis
      unfolding inserted_def res using node(3,7) by simp
  qed
qed

text \<open>The stores of \<open>listInsertNode\<close> between two neighbours, either of which may be NULL.\<close>

lemma store_both:
  assumes "a \<noteq> p" "a \<noteq> n" "p \<noteq> 0 \<Longrightarrow> nodes w1 p \<noteq> None" "n \<noteq> 0 \<Longrightarrow> nodes w1 n \<noteq> None"
  obtains w2 w3 where
    "(if p \<noteq> 0 then store_next p a (put_node a \<lparr>nprev = p, nnext = n, nvalue = v\<rparr> w1)
      else Some (put_node a \<lparr>nprev = p, nnext = n, nvalue = v\<rparr> w1)) = Some w2"
    "(if n \<noteq> 0 then store_prev n a w2 else Some w2) = Some w3"
    "\<forall>q. q \<noteq> 0 \<longrightarrow> node_next w3 q = ((node_next w1)(a \<mapsto> n, p \<mapsto> a)) q"
    "\<forall>q. q \<noteq> 0 \<longrightarrow> node_prev w3 q = ((node_prev w1)(n \<mapsto> a, a \<mapsto> p)) q"
    "node_value w3 = (node_value w1)(a \<mapsto> v)" "frame ({a, p, n} - {0} \<union> {a}) w1 w3"
proof -
  let ?w1 = "put_node a \<lparr>nprev = p, nnext = n, nvalue = v\<rparr> w1"
  obtain w2 where w2: "(if p \<noteq> 0 then store_next p a ?w1 else Some ?w1) = Some w2"
    "\<And>q. q \<noteq> 0 \<Longrightarrow> node_next w2 q = ((node_next ?w1)(p \<mapsto> a)) q"
    "node_prev w2 = node_prev ?w1" "node_value w2 = node_value ?w1" "frame ({p} - {0}) ?w1 w2"
    "dom (nodes w2) = dom (nodes ?w1)"
  proof (cases "p = 0")
    case True
    then show ?thesis by (intro that [of ?w1]) (simp_all add: frame_def)
  next
    case False
    with assms(1,3) have "nodes ?w1 p \<noteq> None" by simp
    then obtain w2 where "store_next p a ?w1 = Some w2" "node_next w2 = (node_next ?w1)(p \<mapsto> a)"
      "node_prev w2 = node_prev ?w1" "node_value w2 = node_value ?w1" "frame {p} ?w1 w2"
      "dom (nodes w2) = dom (nodes ?w1)"
      by (rule store_next_ok)
    with False show ?thesis by (intro that [of w2]) simp_all
  qed
  obtain w3 where w3: "(if n \<noteq> 0 then store_prev n a w2 else Some w2) = Some w3"
    "\<And>q. q \<noteq> 0 \<Longrightarrow> node_prev w3 q = ((node_prev w2)(n \<mapsto> a)) q"
    "node_next w3 = node_next w2" "node_value w3 = node_value w2" "frame ({n} - {0}) w2 w3"
  proof (cases "n = 0")
    case True
    then show ?thesis by (intro that [of w2]) (simp_all add: frame_def)
  next
    case False
    with assms(2,4) have "nodes ?w1 n \<noteq> None" by simp
    then have "nodes w2 n \<noteq> None" using w2(6) by (auto simp: dom_def)
    then obtain w3 where "store_prev n a w2 = Some w3" "node_prev w3 = (node_prev w2)(n \<mapsto> a)"
      "node_next w3 = node_next w2" "node_value w3 = node_value w2" "frame {n} w2 w3"
      "dom (nodes w3) = dom (nodes w2)"
      by (rule store_prev_ok)
    with False show ?thesis by (intro that [of w3]) simp_all
  qed
  let ?A = "{a, p, n} - {0} \<union> {a}"
  have "frame ?A w1 w2" by (rule frame_trans [OF put_node_frame w2(5)]) auto
  then have "frame ?A w1 w3" by (rule frame_trans [OF _ w3(5)]) auto
  moreover have "node_next w3 q = ((node_next w1)(a \<mapsto> n, p \<mapsto> a)) q" if "q \<noteq> 0" for q
    using w2(2) [OF that] w3(3) by simp
  moreover have "node_prev w3 q = ((node_prev w1)(n \<mapsto> a, a \<mapsto> p)) q" if "q \<noteq> 0" for q
    using w3(2) [OF that] w2(3) assms(2) by simp
  ultimately show ?thesis using w2(1,4) w3(1,4) by (intro that [of w2 w3]) simp_all
qed

lemma insert_ok:
  assumes "alist_repr w l (xs @ p # ys) (us @ u # vs)" and "length xs = length us"
    and "length (xs @ p # ys) + 1 < 2 ^ 64"
  shows "if after then inserted w l (xs @ [p]) ys (us @ [u]) vs v (listInsertNode l p v after w)
    else inserted w l xs (p # ys) us (u # vs) v (listInsertNode l p v after w)"
proof (cases w rule: malloc_node_cases)
  case (null w')
  then show ?thesis by (simp add: inserted_def listInsertNode_def)
next
  case (node a w1)
  note same = alist_repr_views [OF assms(1) node(4)]
  note at = alist_repr_node [OF assms(1)]
  have ring: "ring (node_next w) (node_prev w) 0 (xs @ p # ys)" using assms(1) by (simp add: alist_repr_def)
  have a: "a \<notin> set (xs @ p # ys)" using node(3) alist_repr_dom [OF assms(1)] by blast
  have mem: "nodes w1 q \<noteq> None" if "q \<in> set (0 # xs @ p # ys)" "q \<noteq> 0" for q
    using that alist_repr_dom [OF assms(1)] node(4) by auto
  have mp: "p \<noteq> 0 \<Longrightarrow> nodes w1 p \<noteq> None" using mem [of p] by simp
  show ?thesis
  proof (cases after)
    case True
    let ?n = "hd (ys @ [0])"
    have n: "?n \<in> set (0 # ys)" by (rule hd_ring)
    have an: "a \<noteq> p" "a \<noteq> ?n" "?n \<noteq> 0 \<Longrightarrow> nodes w1 ?n \<noteq> None"
      using a n node(2) mem [of ?n] by auto
    obtain w2 w3 where w: "(if p \<noteq> 0 then store_next p a (put_node a \<lparr>nprev = p, nnext = ?n, nvalue = v\<rparr> w1)
      else Some (put_node a \<lparr>nprev = p, nnext = ?n, nvalue = v\<rparr> w1)) = Some w2"
      "(if ?n \<noteq> 0 then store_prev ?n a w2 else Some w2) = Some w3"
      "\<forall>q. q \<noteq> 0 \<longrightarrow> node_next w3 q = ((node_next w1)(a \<mapsto> ?n, p \<mapsto> a)) q"
      "\<forall>q. q \<noteq> 0 \<longrightarrow> node_prev w3 q = ((node_prev w1)(?n \<mapsto> a, a \<mapsto> p)) q"
      "node_value w3 = (node_value w1)(a \<mapsto> v)" "frame ({a, p, ?n} - {0} \<union> {a}) w1 w3"
      by (rule store_both [OF an(1,2) mp an(3), where v = v])
    let ?l = "(if tail l = p then l\<lparr>tail := a\<rparr> else l)\<lparr>len := len l + 1\<rparr>"
    have res: "listInsertNode l p v after w = Some (True, ?l, w3)"
      using node(1,2) True at(2) same(2) w(1,2) by (simp add: listInsertNode_def Let_def)
    have tl: "tail l = p \<longleftrightarrow> ys = []"
      using assms(1) ring by (cases ys rule: rev_cases) (auto simp: alist_repr_def ring_def)
    have "alist_repr w3 ?l ((xs @ [p]) @ a # ys) ((us @ [u]) @ v # vs)"
      by (rule alist_insert [of w]) (use assms a node(2) w(3,4,5) same tl in simp_all)
    moreover have "frame (insert a (set ((xs @ [p]) @ ys))) w1 w3"
      by (rule frame_mono [OF w(6)]) (use n in auto)
    then have "frame (insert a (set ((xs @ [p]) @ ys))) (w\<lparr>mallocs := mallocs w3\<rparr>) w3"
      by (rule frame_malloc) (use node in simp_all)
    moreover have "mallocs w3 = mallocs w1" using w(6) by (simp add: frame_def)
    ultimately show ?thesis
      unfolding inserted_def res using node(3,7) True by simp
  next
    case False
    let ?p = "last (0 # xs)"
    have pm: "?p \<in> set (0 # xs)" by (rule last_ring)
    have ap: "a \<noteq> ?p" "a \<noteq> p" "?p \<noteq> 0 \<Longrightarrow> nodes w1 ?p \<noteq> None"
      using a pm node(2) mem [of ?p] by auto
    obtain w2 w3 where w: "(if ?p \<noteq> 0 then store_next ?p a (put_node a \<lparr>nprev = ?p, nnext = p, nvalue = v\<rparr> w1)
      else Some (put_node a \<lparr>nprev = ?p, nnext = p, nvalue = v\<rparr> w1)) = Some w2"
      "(if p \<noteq> 0 then store_prev p a w2 else Some w2) = Some w3"
      "\<forall>q. q \<noteq> 0 \<longrightarrow> node_next w3 q = ((node_next w1)(a \<mapsto> p, ?p \<mapsto> a)) q"
      "\<forall>q. q \<noteq> 0 \<longrightarrow> node_prev w3 q = ((node_prev w1)(p \<mapsto> a, a \<mapsto> ?p)) q"
      "node_value w3 = (node_value w1)(a \<mapsto> v)" "frame ({a, ?p, p} - {0} \<union> {a}) w1 w3"
      by (rule store_both [OF ap mp, where v = v])
    let ?l = "(if head l = p then l\<lparr>head := a\<rparr> else l)\<lparr>len := len l + 1\<rparr>"
    have res: "listInsertNode l p v after w = Some (True, ?l, w3)"
      using node(1,2) False at(3) same(3) w(1,2) by (simp add: listInsertNode_def Let_def del: last.simps)
    have hd: "head l = p \<longleftrightarrow> xs = []"
      using assms(1) ring by (cases xs) (auto simp: alist_repr_def ring_def)
    have "alist_repr w3 ?l (xs @ a # p # ys) (us @ v # u # vs)"
      by (rule alist_insert [of w]) (use assms a node(2) w(3,4,5) same hd in \<open>simp_all del: last.simps\<close>)
    moreover have "frame (insert a (set (xs @ p # ys))) w1 w3"
      by (rule frame_mono [OF w(6)]) (use pm in auto)
    then have "frame (insert a (set (xs @ p # ys))) (w\<lparr>mallocs := mallocs w3\<rparr>) w3"
      by (rule frame_malloc) (use node in simp_all)
    moreover have "mallocs w3 = mallocs w1" using w(6) by (simp add: frame_def)
    ultimately show ?thesis
      unfolding inserted_def res using node(3,7) False by simp
  qed
qed

lemma del_ok:
  assumes "alist_repr w l (xs @ p # ys) (us @ v # vs)" and "length xs = length us"
  obtains l' w' where "listDelNode l p w = Some (l', w')" "alist_repr w' l' (xs @ ys) (us @ vs)"
    "nodes w' p = None" "\<forall>q. q \<notin> set (xs @ p # ys) \<longrightarrow> nodes w' q = nodes w q"
    "freed w' = freed w @ (if free_fn l then [v] else [])"
    "free_fn l' = free_fn l" "structs w' = structs w" "mallocs w' = mallocs w"
proof -
  let ?a = "last (0 # xs)" and ?b = "hd (ys @ [0])"
  note at = alist_repr_node [OF assms(1)]
  have ring: "ring (node_next w) (node_prev w) 0 (xs @ p # ys)" using assms(1) by (simp add: alist_repr_def)
  have ab: "?a \<in> set (0 # xs)" "?b \<in> set (0 # ys)" by (rule last_ring, rule hd_ring)
  have p: "p \<noteq> ?a" "p \<noteq> ?b" using ring ab by (auto simp: ring_def)
  have mem: "nodes w q \<noteq> None" if "q \<in> set (0 # xs @ p # ys)" "q \<noteq> 0" for q
    using that alist_repr_dom [OF assms(1)] by auto
  have v: "node_value w p = Some v" using assms by (auto simp: alist_repr_def)
  obtain w1 where w1: "(if ?a \<noteq> 0 then store_next ?a ?b w else Some w) = Some w1"
    "\<And>q. q \<noteq> 0 \<Longrightarrow> node_next w1 q = ((node_next w)(?a \<mapsto> ?b)) q"
    "node_prev w1 = node_prev w" "node_value w1 = node_value w" "frame ({?a} - {0}) w w1"
    "dom (nodes w1) = dom (nodes w)"
  proof (cases "?a = 0")
    case True
    then show ?thesis by (intro that [of w]) (simp_all add: frame_def del: last.simps)
  next
    case False
    then have "nodes w ?a \<noteq> None" using ab by (intro mem) auto
    then obtain w1 where "store_next ?a ?b w = Some w1" "node_next w1 = (node_next w)(?a \<mapsto> ?b)"
      "node_prev w1 = node_prev w" "node_value w1 = node_value w" "frame {?a} w w1"
      "dom (nodes w1) = dom (nodes w)"
      by (rule store_next_ok)
    with False show ?thesis by (intro that [of w1]) (simp_all del: last.simps)
  qed
  obtain w2 where w2: "(if ?b \<noteq> 0 then store_prev ?b ?a w1 else Some w1) = Some w2"
    "\<And>q. q \<noteq> 0 \<Longrightarrow> node_prev w2 q = ((node_prev w1)(?b \<mapsto> ?a)) q"
    "node_next w2 = node_next w1" "node_value w2 = node_value w1" "frame ({?b} - {0}) w1 w2"
    "dom (nodes w2) = dom (nodes w1)"
  proof (cases "?b = 0")
    case True
    then show ?thesis by (intro that [of w1]) (simp_all add: frame_def del: last.simps)
  next
    case False
    then have "nodes w ?b \<noteq> None" using ab by (intro mem) auto
    then have "nodes w1 ?b \<noteq> None" using w1(6) by (auto simp: dom_def)
    then obtain w2 where "store_prev ?b ?a w1 = Some w2" "node_prev w2 = (node_prev w1)(?b \<mapsto> ?a)"
      "node_next w2 = node_next w1" "node_value w2 = node_value w1" "frame {?b} w1 w2"
      "dom (nodes w2) = dom (nodes w1)"
      by (rule store_prev_ok)
    with False show ?thesis by (intro that [of w2]) (simp_all del: last.simps)
  qed
  let ?w3 = "call_free l v w2"
  let ?w4 = "?w3\<lparr>nodes := (nodes ?w3)(p := None)\<rparr>"
  let ?l1 = "if ?a \<noteq> 0 then l else l\<lparr>head := ?b\<rparr>"
  let ?l2 = "if ?b \<noteq> 0 then ?l1 else ?l1\<lparr>tail := ?a\<rparr>"
  let ?l3 = "?l2\<lparr>len := len l - 1\<rparr>"
  have n3: "nodes ?w3 = nodes w2" by (simp add: call_free_def)
  have "nodes w2 p \<noteq> None" using mem [of p] at(1) w1(6) w2(6) by (auto simp: dom_def)
  then have free: "free_node p ?w3 = Some ?w4" by (simp add: free_node_def n3)
  have same: "call_free ?l2 v w2 = ?w3" "len ?l2 = len l" by (simp_all add: call_free_def)
  have res: "listDelNode l p w = Some (?l3, ?w4)"
    unfolding listDelNode_def Let_def
    by (simp only: at(2,3) v w1(1) w2(1) free same bind.bind_lunit)
  have w4: "nodes ?w4 q = (if q = p then None else nodes w2 q)" for q by (simp add: n3)
  have fr: "frame ({?a, ?b} - {0}) w w2" by (rule frame_trans [OF w1(5) w2(5)]) auto
  have ends: "?a = 0 \<longleftrightarrow> xs = []" "?b = 0 \<longleftrightarrow> ys = []"
    using ring by (cases xs rule: rev_cases; cases ys; auto simp: ring_def)+
  have "alist_repr ?w4 ?l3 (xs @ ys) (us @ vs)"
  proof (rule alist_remove [OF assms])
    have view: "node_next ?w4 q = node_next w2 q" "node_prev ?w4 q = node_prev w2 q"
      "node_value ?w4 q = node_value w2 q" if "q \<noteq> p" for q
      using that w4 [of q] by (simp_all add: node_next_def node_prev_def node_value_def)
    show "node_next ?w4 q = ((node_next w)(?a \<mapsto> ?b)) q" if "q \<noteq> 0" "q \<noteq> p" for q
      unfolding view(1) [OF that(2)] w2(3) by (rule w1(2) [OF that(1)])
    show "node_prev ?w4 q = ((node_prev w)(?b \<mapsto> ?a)) q" if "q \<noteq> 0" "q \<noteq> p" for q
      unfolding view(2) [OF that(2)] w1(3) [symmetric] by (rule w2(2) [OF that(1)])
    show "node_value ?w4 q = node_value w q" if "q \<noteq> p" for q
      unfolding view(3) [OF that] w2(4) w1(4) ..
  qed (use ends in \<open>auto split: if_splits\<close>)
  moreover have "nodes ?w4 q = nodes w q" if "q \<notin> set (xs @ p # ys)" for q
  proof -
    have "q \<notin> {?a, ?b} - {0}" "q \<noteq> p" using that ab by auto
    then show ?thesis using fr w4 [of q] unfolding frame_def by presburger
  qed
  ultimately show ?thesis
    by (intro that [OF res]) (use fr in \<open>simp_all add: call_free_def frame_def\<close>)
qed

section \<open>Iteration, release and duplication\<close>

text \<open>
  The usage pattern of the comment above \<open>listNext\<close>: the loop notes every value it is given and
  deletes the returned node when its value satisfies \<open>P\<close>.
\<close>

partial_function (option) iter_purge ::
  "('v \<Rightarrow> bool) \<Rightarrow> 'v alist \<Rightarrow> list_iter \<Rightarrow> 'v world \<Rightarrow> 'v list \<Rightarrow> ('v alist \<times> 'v world \<times> 'v list) option"
where
  "iter_purge P l iter w seen = do {
     (node, iter) \<leftarrow> listNext iter w;
     if node = 0 then Some (l, w, seen)
     else do {
       v \<leftarrow> node_value w node;
       (l, w) \<leftarrow> (if P v then listDelNode l node w else Some (l, w));
       iter_purge P l iter w (seen @ [v])
     }
   }"

lemma alist_repr_values:
  assumes "alist_repr w l (xs @ p # ys) (us @ v # vs)" and "length xs = length us"
  shows "node_value w p = Some v"
  using assms by (simp add: alist_repr_def)

lemma listNext_end [simp]: "listNext \<lparr>inext = 0, direction = d\<rparr> w = Some (0, \<lparr>inext = 0, direction = d\<rparr>)"
  by (simp add: listNext_def)

lemma listNext_forward:
  assumes "alist_repr w l (xs @ p # ys) vs"
  shows "listNext \<lparr>inext = p, direction = AL_START_HEAD\<rparr> w =
    Some (p, \<lparr>inext = hd (ys @ [0]), direction = AL_START_HEAD\<rparr>)"
  using alist_repr_node [OF assms] by (simp add: listNext_def)

lemma listNext_backward:
  assumes "alist_repr w l (xs @ p # ys) vs"
  shows "listNext \<lparr>inext = p, direction = AL_START_TAIL\<rparr> w =
    Some (p, \<lparr>inext = last (0 # xs), direction = AL_START_TAIL\<rparr>)"
  using alist_repr_node [OF assms]
  by (simp add: listNext_def AL_START_HEAD_def AL_START_TAIL_def del: last.simps)

text \<open>Both outcomes of the loop body at a node.\<close>

lemma purge_step:
  assumes "alist_repr w l (xs @ p # ys) (us @ v # vs)" and "length xs = length us"
  obtains l' w' xs' us' where "(if P v then listDelNode l p w else Some (l, w)) = Some (l', w')"
    "alist_repr w' l' (xs' @ ys) (us' @ vs)" "length xs' = length us'"
    "xs' = xs @ (if P v then [] else [p])" "us' = us @ (if P v then [] else [v])"
proof (cases "P v")
  case True
  obtain l' w' where "listDelNode l p w = Some (l', w')" "alist_repr w' l' (xs @ ys) (us @ vs)"
    "nodes w' p = None" "\<forall>q. q \<notin> set (xs @ p # ys) \<longrightarrow> nodes w' q = nodes w q"
    "freed w' = freed w @ (if free_fn l then [v] else [])"
    "free_fn l' = free_fn l" "structs w' = structs w" "mallocs w' = mallocs w"
    by (rule del_ok [OF assms])
  with True assms(2) show ?thesis by (intro that [of l' w' xs us]) simp_all
next
  case False
  with assms show ?thesis by (intro that [of l w "xs @ [p]" "us @ [v]"]) simp_all
qed

lemma iter_purge_forward:
  assumes "alist_repr w l (xs @ ys) (us @ vs)" and "length xs = length us"
  shows "\<exists>l' w' zs. iter_purge P l \<lparr>inext = hd (ys @ [0]), direction = AL_START_HEAD\<rparr> w seen =
      Some (l', w', seen @ vs) \<and> alist_repr w' l' zs (us @ filter (\<lambda>v. \<not> P v) vs)"
  using assms
proof (induction ys arbitrary: l w xs us vs seen)
  case Nil
  then have "vs = []" using alist_repr_length [OF Nil(1)] by simp
  with Nil show ?case by (subst iter_purge.simps) auto
next
  case (Cons p ys)
  have "length (us @ vs) = length (xs @ p # ys)" by (rule alist_repr_length [OF Cons.prems(1)])
  then obtain v vs' where vs: "vs = v # vs'" using Cons.prems(2) by (cases vs) auto
  note r = Cons.prems(1) [unfolded vs]
  obtain l' w' xs' us' where step: "(if P v then listDelNode l p w else Some (l, w)) = Some (l', w')"
    "alist_repr w' l' (xs' @ ys) (us' @ vs')" "length xs' = length us'"
    "xs' = xs @ (if P v then [] else [p])" "us' = us @ (if P v then [] else [v])"
    by (rule purge_step [OF r Cons.prems(2)])
  have p0: "p \<noteq> 0" by (rule alist_repr_node(1) [OF r])
  have "iter_purge P l \<lparr>inext = hd ((p # ys) @ [0]), direction = AL_START_HEAD\<rparr> w seen =
    iter_purge P l' \<lparr>inext = hd (ys @ [0]), direction = AL_START_HEAD\<rparr> w' (seen @ [v])"
    by (subst iter_purge.simps)
      (simp add: listNext_forward [OF r] alist_repr_values [OF r Cons.prems(2)] p0 step(1))
  with Cons.IH [OF step(2,3), of "seen @ [v]"] step(5) vs show ?case by auto
qed

lemma purge_step_back:
  assumes "alist_repr w l (xs @ p # ys) (us @ v # vs)" and "length xs = length us"
  obtains l' w' ys' vs' where "(if P v then listDelNode l p w else Some (l, w)) = Some (l', w')"
    "alist_repr w' l' (xs @ ys') (us @ vs')" "vs' = (if P v then [] else [v]) @ vs"
proof -
  obtain l' w' xs' us' where "(if P v then listDelNode l p w else Some (l, w)) = Some (l', w')"
    "alist_repr w' l' (xs' @ ys) (us' @ vs)" "length xs' = length us'"
    "xs' = xs @ (if P v then [] else [p])" "us' = us @ (if P v then [] else [v])"
    by (rule purge_step [OF assms])
  then show ?thesis
    by (intro that [of l' w' "(if P v then [] else [p]) @ ys"]) (simp_all split: if_splits)
qed

lemma iter_purge_backward:
  assumes "alist_repr w l (xs @ ys) (us @ vs)" and "length xs = length us"
  shows "\<exists>l' w' zs. iter_purge P l \<lparr>inext = last (0 # xs), direction = AL_START_TAIL\<rparr> w seen =
      Some (l', w', seen @ rev us) \<and> alist_repr w' l' zs (filter (\<lambda>v. \<not> P v) us @ vs)"
  using assms
proof (induction xs arbitrary: l w ys us vs seen rule: rev_induct)
  case Nil
  then show ?case by (subst iter_purge.simps) auto
next
  case (snoc p xs)
  obtain us' v where us: "us = us' @ [v]" using snoc.prems(2) by (cases us rule: rev_cases) auto
  have r: "alist_repr w l (xs @ p # ys) (us' @ v # vs)" and len: "length xs = length us'"
    using snoc.prems us by simp_all
  obtain l' w' ys' vs' where step: "(if P v then listDelNode l p w else Some (l, w)) = Some (l', w')"
    "alist_repr w' l' (xs @ ys') (us' @ vs')" "vs' = (if P v then [] else [v]) @ vs"
    by (rule purge_step_back [OF r len])
  have p0: "p \<noteq> 0" by (rule alist_repr_node(1) [OF r])
  have "last (0 # xs @ [p]) = p" by simp
  then have "iter_purge P l \<lparr>inext = last (0 # xs @ [p]), direction = AL_START_TAIL\<rparr> w seen =
    iter_purge P l' \<lparr>inext = last (0 # xs), direction = AL_START_TAIL\<rparr> w' (seen @ [v])"
    by (simp only: iter_purge.simps [of P l "\<lparr>inext = p, direction = AL_START_TAIL\<rparr>"]
        listNext_backward [OF r] alist_repr_values [OF r len] p0 step(1) bind.bind_lunit prod.case if_False)
  with snoc.IH [OF step(2) len, of "seen @ [v]"] step(3) us show ?case by auto
qed

lemma release_loop_ok:
  assumes "alist_repr w l0 (xs @ ys) (us @ vs)" and "length xs = length us"
    and "\<forall>q. q \<notin> set xs \<longrightarrow> nodes w' q = nodes w q"
  shows "\<exists>w''. release_loop l (length ys) (hd (ys @ [0])) w' = Some w'' \<and>
    (\<forall>q. nodes w'' q = (if q \<in> set ys then None else nodes w' q)) \<and>
    freed w'' = freed w' @ (if free_fn l then vs else []) \<and> structs w'' = structs w' \<and>
    mallocs w'' = mallocs w'"
  using assms
proof (induction ys arbitrary: xs us vs w')
  case Nil
  then have "vs = []" using alist_repr_length [OF Nil(1)] by simp
  then show ?case by simp
next
  case (Cons p ys)
  have "length (us @ vs) = length (xs @ p # ys)" by (rule alist_repr_length [OF Cons.prems(1)])
  then obtain v vs' where vs: "vs = v # vs'" using Cons.prems(2) by (cases vs) auto
  note r = Cons.prems(1) [unfolded vs]
  note at = alist_repr_node [OF r]
  have "distinct (xs @ p # ys)" using r by (simp add: alist_repr_def ring_def)
  then have px: "p \<notin> set xs" "p \<notin> set ys" by auto
  then have same: "nodes w' p = nodes w p" using Cons.prems(3) by simp
  then have views: "node_next w' p = Some (hd (ys @ [0]))" "node_value w' p = Some v"
    using at(2) alist_repr_values [OF r Cons.prems(2)] by (simp_all add: node_next_def node_value_def)
  let ?w1 = "call_free l v w'"
  let ?w2 = "?w1\<lparr>nodes := (nodes ?w1)(p := None)\<rparr>"
  have n1: "nodes ?w1 = nodes w'" by (simp add: call_free_def)
  have free: "free_node p ?w1 = Some ?w2" using at(4) same by (simp add: free_node_def n1)
  have r': "alist_repr w l0 ((xs @ [p]) @ ys) ((us @ [v]) @ vs')" using r by simp
  have "\<exists>w''. release_loop l (length ys) (hd (ys @ [0])) ?w2 = Some w'' \<and>
    (\<forall>q. nodes w'' q = (if q \<in> set ys then None else nodes ?w2 q)) \<and>
    freed w'' = freed ?w2 @ (if free_fn l then vs' else []) \<and> structs w'' = structs ?w2 \<and>
    mallocs w'' = mallocs ?w2"
    by (rule Cons.IH [OF r']) (use Cons.prems(2,3) n1 in simp_all)
  then obtain w'' where w'': "release_loop l (length ys) (hd (ys @ [0])) ?w2 = Some w''"
    "\<forall>q. nodes w'' q = (if q \<in> set ys then None else nodes ?w2 q)"
    "freed w'' = freed ?w2 @ (if free_fn l then vs' else [])" "structs w'' = structs ?w2"
    "mallocs w'' = mallocs ?w2" by blast
  have "release_loop l (length (p # ys)) (hd ((p # ys) @ [0])) w' = Some w''"
    using views free w''(1) by (simp add: Let_def)
  moreover have "nodes w'' q = (if q \<in> set (p # ys) then None else nodes w' q)" for q
    using w''(2) n1 by simp
  moreover have "freed w'' = freed w' @ (if free_fn l then vs else [])"
    using w''(3) vs by (simp add: call_free_def)
  moreover have "structs w'' = structs w'" "mallocs w'' = mallocs w'"
    using w''(4,5) by (simp_all add: call_free_def)
  ultimately show ?case by blast
qed

lemma listRelease_ok:
  assumes "alist_repr w l ys vs"
  obtains w' where "listRelease l w = Some w'"
    "\<forall>q. nodes w' q = (if q \<in> set ys then None else nodes w q)"
    "freed w' = freed w @ (if free_fn l then vs else [])" "structs w' = structs w - 1"
    "mallocs w' = mallocs w"
proof -
  have r: "alist_repr w l ([] @ ys) ([] @ vs)" using assms by simp
  obtain w' where w': "release_loop l (length ys) (hd (ys @ [0])) w = Some w'"
    "\<forall>q. nodes w' q = (if q \<in> set ys then None else nodes w q)"
    "freed w' = freed w @ (if free_fn l then vs else [])" "structs w' = structs w"
    "mallocs w' = mallocs w"
    using release_loop_ok [OF r, of w l] by auto
  have "head l = hd (ys @ [0])" "unat (len l) = length ys" using assms by (simp_all add: alist_repr_def)
  with w' show ?thesis
    by (intro that [of "free_struct w'"]) (simp_all add: listRelease_def free_struct_def)
qed

definition dup_value :: "'v alist \<Rightarrow> 'v \<Rightarrow> 'v option" where
  "dup_value l v = (case dup_fn l of Some d \<Rightarrow> d v | None \<Rightarrow> Some v)"

text \<open>
  The outcome of the loop of \<open>listDup\<close>, given the nodes \<open>N\<close> that existed before it: a complete
  copy on fresh nodes, or NULL with the copy's nodes and both structures freed again.
\<close>

definition dup_outcome ::
  "(addr \<rightharpoonup> 'v list_node) \<Rightarrow> 'v alist \<Rightarrow> 'v list \<Rightarrow> 'v list \<Rightarrow> 'v world \<Rightarrow>
    ('v alist option \<times> 'v world) option \<Rightarrow> bool" where
  "dup_outcome N copy ws vs w res = (case res of
     None \<Rightarrow> False
   | Some (None, w') \<Rightarrow> nodes w' = N \<and> structs w' = structs w - 2 \<and>
       (\<exists>k \<le> length vs. freed w' = freed w @
         (if free_fn copy then ws @ map (the \<circ> dup_value copy) (take k vs) else []))
   | Some (Some c, w') \<Rightarrow> (\<exists>zs ws'. those (map (dup_value copy) vs) = Some ws' \<and>
       alist_repr w' c zs (ws @ ws') \<and> (\<forall>q\<in>set zs. N q = None) \<and>
       (\<forall>q. q \<notin> set zs \<longrightarrow> nodes w' q = N q) \<and>
       structs w' = structs w - 1 \<and> freed w' = freed w \<and>
       dup_fn c = dup_fn copy \<and> free_fn c = free_fn copy \<and> match_fn c = match_fn copy))"

lemma dup_outcome_cong:
  assumes "dup_fn c = dup_fn l" "free_fn c = free_fn l" "match_fn c = match_fn l"
    and "structs w1 = structs w" "freed w1 = freed w"
  shows "dup_outcome N c ws vs w1 res = dup_outcome N l ws vs w res"
proof -
  have "dup_value c = dup_value l" using assms(1) by (simp add: dup_value_def fun_eq_iff)
  then show ?thesis by (simp only: dup_outcome_def assms)
qed

lemma dup_abort:
  assumes "alist_repr w copy zs ws" and "\<forall>q\<in>set zs. N q = None"
    and "\<forall>q. q \<notin> set zs \<longrightarrow> nodes w q = N q" "k \<le> length vs"
    and "structs w = structs w0" "freed w = freed w0"
    and "ws = ws0 @ map (the \<circ> dup_value copy) (take k vs)"
  shows "dup_outcome N copy ws0 vs w0
    (listRelease copy w \<bind> (\<lambda>w. Some (None, listReleaseIterator w)))"
proof -
  obtain w' where w': "listRelease copy w = Some w'"
    "\<forall>q. nodes w' q = (if q \<in> set zs then None else nodes w q)"
    "freed w' = freed w @ (if free_fn copy then ws else [])" "structs w' = structs w - 1"
    "mallocs w' = mallocs w"
    by (rule listRelease_ok [OF assms(1)])
  have "nodes w' = N" using w'(2) assms(2,3) by (auto simp: fun_eq_iff)
  then show ?thesis
    using w' assms(4-7)
    by (auto simp: dup_outcome_def listReleaseIterator_def free_struct_def intro!: exI [of _ k])
qed

lemma dup_outcome_step:
  assumes "dup_outcome N c (ws @ [v']) vs w1 res" and "dup_value copy v = Some v'"
    and "dup_value c = dup_value copy" "dup_fn c = dup_fn copy" "free_fn c = free_fn copy"
    "match_fn c = match_fn copy" "structs w1 = structs w" "freed w1 = freed w"
  shows "dup_outcome N copy ws (v # vs) w res"
proof (cases res)
  case None
  with assms(1) show ?thesis by (simp add: dup_outcome_def)
next
  case (Some r)
  then obtain oc w' where res: "res = Some (oc, w')" by (cases r) auto
  show ?thesis
  proof (cases oc)
    case None
    then obtain k where "nodes w' = N" "structs w' = structs w - 2" "k \<le> length vs"
      "freed w' = freed w @ (if free_fn copy then (ws @ [v']) @ map (the \<circ> dup_value copy) (take k vs) else [])"
      using assms res by (auto simp: dup_outcome_def)
    with None res assms(2) show ?thesis
      by (auto simp: dup_outcome_def intro!: exI [of _ "Suc k"])
  next
    case (Some c')
    then obtain zs ws' where "those (map (dup_value copy) vs) = Some ws'"
       "alist_repr w' c' zs ((ws @ [v']) @ ws')" "\<forall>q\<in>set zs. N q = None"
       "\<forall>q. q \<notin> set zs \<longrightarrow> nodes w' q = N q" "structs w' = structs w - 1" "freed w' = freed w"
       "dup_fn c' = dup_fn copy" "free_fn c' = free_fn copy" "match_fn c' = match_fn copy"
      using assms res by (auto simp: dup_outcome_def)
    with Some res assms(2) show ?thesis
      by (auto simp: dup_outcome_def intro!: exI [of _ zs])
  qed
qed

lemma dup_loop_ok:
  assumes "alist_repr w orig (xs @ ys) (us @ vs)" and "length xs = length us"
    and "alist_repr w copy zs ws" and "\<forall>q\<in>set zs. N q = None"
    and "\<forall>q. q \<notin> set zs \<longrightarrow> nodes w q = N q" and "length zs + length ys < 2 ^ 64"
    and "\<forall>q\<in>set (xs @ ys). N q \<noteq> None"
  shows "dup_outcome N copy ws vs w
    (dup_loop copy \<lparr>inext = hd (ys @ [0]), direction = AL_START_HEAD\<rparr> w)"
  using assms
proof (induction ys arbitrary: w xs us vs copy zs ws)
  case Nil
  then have "vs = []" using alist_repr_length [OF Nil(1)] by simp
  moreover have "alist_repr (listReleaseIterator w) copy zs ws"
    by (rule alist_repr_views(1) [OF Nil(3)]) (simp add: listReleaseIterator_def free_struct_def)
  ultimately show ?case
    using Nil.prems(4,5)
    by (subst dup_loop.simps)
      (auto simp: dup_outcome_def listReleaseIterator_def free_struct_def intro!: exI [of _ zs])
next
  case (Cons p ys)
  have "length (us @ vs) = length (xs @ p # ys)" by (rule alist_repr_length [OF Cons.prems(1)])
  then obtain v vs' where vs: "vs = v # vs'" using Cons.prems(2) by (cases vs) auto
  note r = Cons.prems(1) [unfolded vs]
  have p0: "p \<noteq> 0" by (rule alist_repr_node(1) [OF r])
  let ?it = "\<lparr>inext = hd (ys @ [0]), direction = AL_START_HEAD\<rparr>"
  have unroll: "dup_loop copy \<lparr>inext = hd ((p # ys) @ [0]), direction = AL_START_HEAD\<rparr> w =
    (case dup_value copy v of
       None \<Rightarrow> listRelease copy w \<bind> (\<lambda>w. Some (None, listReleaseIterator w))
     | Some v' \<Rightarrow> listAddNodeTail copy v' w \<bind> (\<lambda>(ok, copy, w).
         if \<not> ok then listRelease copy w \<bind> (\<lambda>w. Some (None, listReleaseIterator w))
         else dup_loop copy ?it w))"
    by (subst dup_loop.simps)
      (simp add: listNext_forward [OF r] alist_repr_values [OF r Cons.prems(2)] p0 dup_value_def)
  show ?case
  proof (cases "dup_value copy v")
    case None
    then show ?thesis
      unfolding unroll
      using dup_abort [OF Cons.prems(3,4,5), of 0 vs w ws] by simp
  next
    case (Some v')
    have "length zs + 1 < 2 ^ 64" using Cons.prems(6) by simp
    from add_tail_ok [OF Cons.prems(3) this, of v']
    consider (null) w1 where "listAddNodeTail copy v' w = Some (False, copy, w1)" "nodes w1 = nodes w"
        "structs w1 = structs w" "freed w1 = freed w"
      | (node) a c w1 where "listAddNodeTail copy v' w = Some (True, c, w1)" "nodes w a = None"
        "alist_repr w1 c (zs @ [a]) (ws @ [v'])" "frame (insert a (set zs)) (w\<lparr>mallocs := mallocs w1\<rparr>) w1"
        "dup_fn c = dup_fn copy" "free_fn c = free_fn copy" "match_fn c = match_fn copy"
      by (auto simp: inserted_def split: option.splits prod.splits if_splits bool.splits)
    then show ?thesis
    proof cases
      case null
      have "dup_outcome N copy ws vs w (listRelease copy w1 \<bind> (\<lambda>w. Some (None, listReleaseIterator w)))"
        by (rule dup_abort [of w1 copy zs ws N 0])
          (use null Cons.prems alist_repr_views(1) [OF Cons.prems(3) null(2)] in simp_all)
      then show ?thesis unfolding unroll using Some null by simp
    next
      case node
      have same: "nodes w1 q = nodes w q" if "q \<notin> insert a (set zs)" for q
        using node(4) that by (simp add: frame_def)
      have az: "a \<notin> set zs" using node(2) alist_repr_dom [OF Cons.prems(3)] by blast
      then have Na: "N a = None" using node(2) Cons.prems(5) by auto
      have dv: "dup_value c = dup_value copy" using node(5) by (simp add: dup_value_def fun_eq_iff)
      have "alist_repr w1 orig ((xs @ [p]) @ ys) ((us @ [v]) @ vs')"
      proof -
        have "alist_repr w1 orig (xs @ p # ys) (us @ v # vs')"
        proof (rule alist_repr_frame [OF r])
          fix q assume "q \<in> set (xs @ p # ys)"
          then have "N q \<noteq> None" using Cons.prems(7) by blast
          then have "q \<notin> insert a (set zs)" using Na Cons.prems(4) by auto
          then show "nodes w1 q = nodes w q" by (rule same)
        qed
        then show ?thesis by simp
      qed
      then have "dup_outcome N c (ws @ [v']) vs' w1 (dup_loop c ?it w1)"
        by (rule Cons.IH [OF _ _ node(3)])
          (use Cons.prems Na az same in auto)
      moreover have "dup_loop copy \<lparr>inext = hd ((p # ys) @ [0]), direction = AL_START_HEAD\<rparr> w =
          dup_loop c ?it w1"
        unfolding unroll using Some node(1) by simp
      moreover have "structs w1 = structs w" "freed w1 = freed w" using node(4) by (simp_all add: frame_def)
      ultimately show ?thesis
        using dup_outcome_step [OF _ Some dv node(5,6,7)] vs by metis
    qed
  qed
qed

lemma search_loop_ok:
  assumes "alist_repr w l (xs @ ys) (us @ vs)" and "length xs = length us"
  shows "search_loop l key \<lparr>inext = hd (ys @ [0]), direction = AL_START_HEAD\<rparr> w =
    Some (case find (\<lambda>(p, v). case match_fn l of Some m \<Rightarrow> m v key | None \<Rightarrow> key = v) (zip ys vs) of
        Some (p, v) \<Rightarrow> p | None \<Rightarrow> 0, listReleaseIterator w)"
  using assms
proof (induction ys arbitrary: xs us vs)
  case Nil
  then show ?case by (subst search_loop.simps) simp
next
  case (Cons p ys)
  have "length (us @ vs) = length (xs @ p # ys)" by (rule alist_repr_length [OF Cons.prems(1)])
  then obtain v vs' where vs: "vs = v # vs'" using Cons.prems(2) by (cases vs) auto
  note r = Cons.prems(1) [unfolded vs]
  have "alist_repr w l ((xs @ [p]) @ ys) ((us @ [v]) @ vs')" using r by simp
  from Cons.IH [OF this] Cons.prems(2) show ?case
    using alist_repr_node(1) [OF r] vs
    by (subst search_loop.simps)
      (simp add: listNext_forward [OF r] alist_repr_values [OF r Cons.prems(2)] split: option.splits)
qed

lemma walk_prev_0: "walk_prev w i 0 = Some 0"
  by (cases i) simp_all

lemma walk_next_0: "walk_next w i 0 = Some 0"
  by (cases i) simp_all

lemma walk_next_ok:
  "alist_repr w l (xs @ ys) vs \<Longrightarrow>
    walk_next w i (hd (ys @ [0])) = Some (if i < length ys then ys ! i else 0)"
proof (induction ys arbitrary: xs i)
  case Nil
  then show ?case by (simp add: walk_next_0)
next
  case (Cons p ys)
  have "alist_repr w l ((xs @ [p]) @ ys) vs" using Cons.prems by simp
  then show ?case
    using alist_repr_node [OF Cons.prems] Cons.IH [of "xs @ [p]"] by (cases i) simp_all
qed

lemma walk_prev_ok:
  "alist_repr w l (xs @ ys) vs \<Longrightarrow>
    walk_prev w i (last (0 # xs)) = Some (if i < length xs then xs ! (length xs - 1 - i) else 0)"
proof (induction xs arbitrary: ys i rule: rev_induct)
  case Nil
  then show ?case by (simp add: walk_prev_0)
next
  case (snoc p xs)
  have r: "alist_repr w l (xs @ p # ys) vs" using snoc.prems by simp
  then show ?case
    using alist_repr_node [OF r] snoc.IH [OF r]
    by (cases i) (auto simp: nth_append simp del: last.simps simp: last_snoc [of "0 # xs", simplified])
qed

section \<open>Properties\<close>

text \<open>
  \<open>listAddNodeHead\<close> and \<open>listAddNodeTail\<close> never fault. Either the allocation failed, NULL is
  returned and neither the list nor the heap has changed, or the value is on a fresh node at that
  end of a well-linked list, and no node outside the list is touched.
\<close>

theorem listAddNode_ends:
  assumes "alist_repr w l xs vs" and "length xs + 1 < 2 ^ 64"
  shows "inserted w l [] xs [] vs v (listAddNodeHead l v w) \<and>
    inserted w l xs [] vs [] v (listAddNodeTail l v w)"
  using add_head_ok [OF assms] add_tail_ok [OF assms] by simp

text \<open>A world with the list of 10, 20, 30 at the addresses 1 to 3 and room for more.\<close>

definition sample_world :: "nat world" where
  "sample_world = \<lparr>nodes = [1 \<mapsto> \<lparr>nprev = 0, nnext = 2, nvalue = 10\<rparr>,
      2 \<mapsto> \<lparr>nprev = 1, nnext = 3, nvalue = 20\<rparr>, 3 \<mapsto> \<lparr>nprev = 2, nnext = 0, nvalue = 30\<rparr>],
     mallocs = [Some 4, Some 5, Some 6, Some 7, Some 8], structs = 1, freed = []\<rparr>"

definition sample_list :: "nat alist" where
  "sample_list = \<lparr>head = 1, tail = 3, dup_fn = Some (\<lambda>v. Some (v + 1)), free_fn = True,
     match_fn = None, len = 3\<rparr>"

lemma sample_repr: "alist_repr sample_world sample_list [1, 2, 3] [10, 20, 30]"
  by (simp add: alist_repr_def ring_def edge_def node_next_def node_prev_def node_value_def
      sample_world_def sample_list_def)

lemma listAddNode_ends_witness:
  "inserted sample_world sample_list [] [1, 2, 3] [] [10, 20, 30] 5
     (listAddNodeHead sample_list 5 sample_world)"
  using listAddNode_ends [OF sample_repr, of 5] by simp

text \<open>
  \<open>listInsertNode\<close> puts a value directly before or after a given node of the list, whichever
  position that node has, the first and the last included, with the same outcome on a failed
  allocation.
\<close>

theorem listInsertNode_links:
  assumes "alist_repr w l (xs @ p # ys) (us @ u # vs)" and "length xs = length us"
    and "length (xs @ p # ys) + 1 < 2 ^ 64"
  shows "inserted w l (xs @ [p]) ys (us @ [u]) vs v (listInsertNode l p v True w) \<and>
    inserted w l xs (p # ys) us (u # vs) v (listInsertNode l p v False w)"
  using insert_ok [OF assms, where after = True] insert_ok [OF assms, where after = False] by simp

lemma listInsertNode_links_witness:
  "inserted sample_world sample_list [1, 2] [3] [10, 20] [30] 25 (listInsertNode sample_list 2 25 True sample_world)"
  using listInsertNode_links [of sample_world sample_list "[1]" 2 "[3]" "[10]" 20 "[30]" 25] sample_repr
  by simp

text \<open>
  It is valid to delete the element that \<open>listNext\<close> returned, in either direction: the loop
  ends, sees every value of the list once and in order (of its direction), and leaves exactly the
  values that were not deleted.
\<close>

theorem listNext_survives_delete:
  assumes "alist_repr w l xs vs"
  shows "(\<exists>l' w' zs. iter_purge P l (listRewind l) w [] = Some (l', w', vs) \<and>
      alist_repr w' l' zs (filter (\<lambda>v. \<not> P v) vs)) \<and>
    (\<exists>l' w' zs. iter_purge P l (listRewindTail l) w [] = Some (l', w', rev vs) \<and>
      alist_repr w' l' zs (filter (\<lambda>v. \<not> P v) vs))"
proof -
  have r: "alist_repr w l ([] @ xs) ([] @ vs)" "alist_repr w l (xs @ []) (vs @ [])"
    using assms by simp_all
  have "listRewind l = \<lparr>inext = hd (xs @ [0]), direction = AL_START_HEAD\<rparr>"
    "listRewindTail l = \<lparr>inext = last (0 # xs), direction = AL_START_TAIL\<rparr>"
    using assms by (simp_all only: alist_repr_def listRewind_def listRewindTail_def)
  then show ?thesis
    using iter_purge_forward [OF r(1), where P = P and seen = "[]"]
      iter_purge_backward [OF r(2), where P = P and seen = "[]"] alist_repr_length [OF assms]
    by (simp only: append_Nil append_Nil2 list.size simp_thms)
qed

lemma listNext_survives_delete_witness:
  "\<exists>l' w' zs. iter_purge (\<lambda>v. v = 20) sample_list (listRewind sample_list) sample_world [] =
     Some (l', w', [10, 20, 30]) \<and> alist_repr w' l' zs [10, 30]"
  using listNext_survives_delete [OF sample_repr, of "\<lambda>v. v = 20"] by simp

text \<open>
  \<open>listDup\<close> of a list, when its two structures could be allocated, returns a list of the
  duplicated values on nodes that did not exist before, or NULL with all its own nodes and both
  structures freed again (every value copied so far handed to the free method); in both cases the
  original nodes are as before. The loop always ends.
\<close>

theorem listDup_copies:
  assumes "alist_repr w l xs vs" and "mallocs w = Some a # Some b # ms" and "length xs < 2 ^ 64"
  shows "dup_outcome (nodes w) l [] vs (w\<lparr>structs := structs w + 2\<rparr>) (listDup l w)"
proof -
  let ?w = "w\<lparr>mallocs := ms, structs := structs w + 2\<rparr>"
  let ?c = "\<lparr>head = 0, tail = 0, dup_fn = dup_fn l, free_fn = free_fn l, match_fn = match_fn l, len = 0\<rparr>"
  have n: "nodes ?w = nodes w" by simp
  have r: "alist_repr ?w l ([] @ xs) ([] @ vs)"
    using alist_repr_views(1) [OF assms(1) n] by simp
  have c: "alist_repr ?w ?c [] []" by (simp add: alist_repr_def ring_def edge_def)
  have "dup_outcome (nodes w) ?c [] vs ?w
    (dup_loop ?c \<lparr>inext = hd (xs @ [0]), direction = AL_START_HEAD\<rparr> ?w)"
    by (rule dup_loop_ok [OF r _ c]) (use assms(3) alist_repr_dom [OF assms(1)] in simp_all)
  moreover have "listDup l w = dup_loop ?c \<lparr>inext = hd (xs @ [0]), direction = AL_START_HEAD\<rparr> ?w"
    using assms(1,2)
    by (simp add: listDup_def listCreate_def malloc_struct_def listGetIterator_def alist_repr_def
        add.commute)
  moreover have "dup_outcome (nodes w) ?c [] vs ?w (listDup l w) =
    dup_outcome (nodes w) l [] vs (w\<lparr>structs := structs w + 2\<rparr>) (listDup l w)"
    by (rule dup_outcome_cong) simp_all
  ultimately show ?thesis by simp
qed

lemma listDup_copies_witness:
  "dup_outcome (nodes sample_world) sample_list [] [10, 20, 30]
     (sample_world\<lparr>structs := structs sample_world + 2\<rparr>) (listDup sample_list sample_world)"
  using listDup_copies [OF sample_repr, of 4 5 "[Some 6, Some 7, Some 8]"]
  by (simp add: sample_world_def)

text \<open>
  The iterator of \<open>listDup\<close> and of \<open>listSearchKey\<close> is not tested, so that running out of
  memory for it dereferences NULL, where the comment promises that \<open>listDup\<close> returns NULL.
\<close>

theorem listDup_null_iterator:
  assumes "mallocs w = Some a # None # ms" and "mallocs w2 = None # ms"
  shows "listDup l w = None \<and> listSearchKey l key w2 = None"
  using assms
  by (simp add: listDup_def listSearchKey_def listCreate_def malloc_struct_def listGetIterator_def)

lemma listDup_null_iterator_witness:
  "listDup sample_list (sample_world\<lparr>mallocs := [Some 4, None]\<rparr>) = None \<and>
   listSearchKey sample_list 20 (sample_world\<lparr>mallocs := [None]\<rparr>) = None"
  using listDup_null_iterator [of "sample_world\<lparr>mallocs := [Some 4, None]\<rparr>" 4 "[]"
      "sample_world\<lparr>mallocs := [None]\<rparr>" sample_list 20] by simp

text \<open>
  \<open>listIndex\<close> returns the node at an index counted from the head, or from the tail for negative
  ones (-1 is the last), and NULL out of range; it always ends. For the most negative index the
  negation overflows.
\<close>

theorem listIndex_nth:
  assumes "alist_repr w l xs vs"
  shows "listIndex l i w =
    (if sint i = - (2 ^ 63) then None
     else if 0 \<le> sint i \<and> nat (sint i) < length xs then Some (xs ! nat (sint i))
     else if sint i < 0 \<and> nat (- sint i) \<le> length xs then Some (xs ! (length xs - nat (- sint i)))
     else Some 0)"
proof -
  have r: "alist_repr w l ([] @ xs) vs" "alist_repr w l (xs @ []) vs" using assms by simp_all
  have ends: "head l = hd (xs @ [0])" "tail l = last (0 # xs)" using assms by (simp_all add: alist_repr_def)
  have "nat (- sint i - 1) < length xs \<longleftrightarrow> nat (- sint i) \<le> length xs"
    "length xs - 1 - nat (- sint i - 1) = length xs - nat (- sint i)" if "sint i < 0"
    using that by linarith+
  then show ?thesis
    unfolding listIndex_def ends using walk_next_ok [OF r(1)] walk_prev_ok [OF r(2)]
    by (simp del: last.simps)
qed

lemma listIndex_nth_witness:
  "listIndex sample_list (- 1) sample_world = Some 3 \<and> listIndex sample_list 1 sample_world = Some 2 \<and>
   listIndex sample_list 3 sample_world = Some 0"
  using listIndex_nth [OF sample_repr, of "- 1"] listIndex_nth [OF sample_repr, of 1]
    listIndex_nth [OF sample_repr, of 3]
  by simp

text \<open>
  \<open>listSearchKey\<close>, when its iterator could be allocated, returns the first node whose value
  matches the key (with the match method, or by equality), or NULL, and releases the iterator.
\<close>

theorem listSearchKey_first:
  assumes "alist_repr w l xs vs" and "mallocs w = Some a # ms"
  shows "listSearchKey l key w = Some
    (case find (\<lambda>(p, v). case match_fn l of Some m \<Rightarrow> m v key | None \<Rightarrow> key = v) (zip xs vs) of
        Some (p, v) \<Rightarrow> p | None \<Rightarrow> 0, w\<lparr>mallocs := ms\<rparr>)"
proof -
  let ?w = "w\<lparr>mallocs := ms, structs := structs w + 1\<rparr>"
  have "alist_repr ?w l ([] @ xs) ([] @ vs)"
    using alist_repr_views(1) [OF assms(1), of ?w] by simp
  from search_loop_ok [OF this, of key] assms show ?thesis
    by (simp add: listSearchKey_def listGetIterator_def malloc_struct_def alist_repr_def
        listReleaseIterator_def free_struct_def)
qed

lemma listSearchKey_first_witness:
  "\<exists>w'. listSearchKey sample_list 20 sample_world = Some (2, w')"
  using listSearchKey_first [OF sample_repr, of 4 "[Some 5, Some 6, Some 7, Some 8]" 20]
  by (simp add: sample_world_def sample_list_def)

lemma rotate_ok:
  assumes "alist_repr w l (xs @ [p]) (us @ [v])" and "xs \<noteq> []"
  obtains l' w' where "listRotate l w = Some (l', w')" "alist_repr w' l' (p # xs) (v # us)"
proof -
  note at = alist_repr_node [OF assms(1)]
  have lens: "length xs = length us" using alist_repr_length [OF assms(1)] by simp
  have ring: "ring (node_next w) (node_prev w) 0 (xs @ p # [])" using assms(1) by (simp add: alist_repr_def)
  have l: "head l = hd xs" "tail l = p" "unat (len l) = length xs + 1"
    using assms by (simp_all add: alist_repr_def)
  have "\<not> len l \<le> 1" using l(3) assms(2) by (cases xs) (auto simp: word_le_nat_alt)
  have mem: "nodes w q \<noteq> None" if "q \<in> set (xs @ [p])" for q
    using that alist_repr_dom [OF assms(1)] by blast
  have pv: "node_prev w p = Some (last xs)" using at(3) assms(2) by simp
  obtain w1 where w1: "store_next (last xs) 0 w = Some w1" "node_next w1 = (node_next w)(last xs \<mapsto> 0)"
    "node_prev w1 = node_prev w" "node_value w1 = node_value w" "frame {last xs} w w1"
    "dom (nodes w1) = dom (nodes w)"
    by (rule store_next_ok [OF mem [of "last xs"]]) (use assms(2) in simp_all)
  have "nodes w1 (hd xs) \<noteq> None" using mem [of "hd xs"] assms(2) w1(6) by (auto simp: dom_def)
  then obtain w2 where w2: "store_prev (hd xs) p w1 = Some w2" "node_prev w2 = (node_prev w1)(hd xs \<mapsto> p)"
    "node_next w2 = node_next w1" "node_value w2 = node_value w1" "frame {hd xs} w1 w2"
    "dom (nodes w2) = dom (nodes w1)"
    by (rule store_prev_ok)
  have "nodes w2 p \<noteq> None" using mem [of p] w1(6) w2(6) by (auto simp: dom_def)
  then obtain w3 where w3: "store_prev p 0 w2 = Some w3" "node_prev w3 = (node_prev w2)(p \<mapsto> 0)"
    "node_next w3 = node_next w2" "node_value w3 = node_value w2" "frame {p} w2 w3"
    "dom (nodes w3) = dom (nodes w2)"
    by (rule store_prev_ok)
  have "nodes w3 p \<noteq> None" using mem [of p] w1(6) w2(6) w3(6) by (auto simp: dom_def)
  then obtain w4 where w4: "store_next p (hd xs) w3 = Some w4" "node_next w4 = (node_next w3)(p \<mapsto> hd xs)"
    "node_prev w4 = node_prev w3" "node_value w4 = node_value w3" "frame {p} w3 w4"
    "dom (nodes w4) = dom (nodes w3)"
    by (rule store_next_ok)
  let ?l = "l\<lparr>tail := last xs, head := p\<rparr>"
  have res: "listRotate l w = Some (?l, w4)"
    using \<open>\<not> len l \<le> 1\<close> l pv w1(1) w2(1) w3(1) w4(1) by (simp add: listRotate_def Let_def)
  have "ring ((node_next w)(last xs \<mapsto> 0)) (node_prev w) 0 (xs @ [])"
    by (rule ring_remove [OF ring]) (use assms(2) in simp_all)
  then have r: "ring ((node_next w)(last xs \<mapsto> 0)) (node_prev w) 0 ([] @ xs)" by simp
  have p: "p \<notin> set (0 # [] @ xs)" using ring by (auto simp: ring_def)
  have ends: "hd xs \<noteq> p" using p assms(2) by auto
  have "ring (node_next w4) (node_prev w4) 0 ([] @ p # xs)"
    by (rule ring_insert [OF r p]) (use assms(2) ends w1 w2 w3 w4 in simp_all)
  moreover have "map (node_value w4) (p # xs) = map Some (v # us)"
    using assms(1) lens w1(4) w2(4) w3(4) w4(4) by (simp add: alist_repr_def)
  ultimately have "alist_repr w4 ?l (p # xs) (v # us)"
    using l(3) assms(2) by (simp add: alist_repr_def)
  with res show ?thesis by (rule that)
qed

text \<open>
  \<open>listRotate\<close> moves the last value of a list to its front, by relinking its node; a list of at
  most one element is left alone.
\<close>

theorem listRotate_rotates:
  assumes "alist_repr w l xs vs"
  shows "\<exists>l' w'. listRotate l w = Some (l', w') \<and>
    (if vs = [] then l' = l \<and> w' = w
     else alist_repr w' l' (last xs # butlast xs) (last vs # butlast vs))"
proof (cases "length xs \<le> 1")
  case True
  then have "len l \<le> 1" using assms by (simp add: alist_repr_def word_le_nat_alt)
  moreover have "last xs # butlast xs = xs \<and> last vs # butlast vs = vs" if "vs \<noteq> []"
    using True alist_repr_length [OF assms] that by (cases xs; cases vs) auto
  ultimately show ?thesis using assms by (auto simp: listRotate_def)
next
  case False
  then have ne: "xs \<noteq> []" "vs \<noteq> []" "butlast xs \<noteq> []"
    using alist_repr_length [OF assms] by (cases xs; auto)+
  then have "alist_repr w l (butlast xs @ [last xs]) (butlast vs @ [last vs])" using assms by simp
  then obtain l' w' where "listRotate l w = Some (l', w')"
    "alist_repr w' l' (last xs # butlast xs) (last vs # butlast vs)"
    by (rule rotate_ok [OF _ ne(3)])
  with ne show ?thesis by simp
qed

lemma listRotate_rotates_witness:
  "\<exists>l' w'. listRotate sample_list sample_world = Some (l', w') \<and>
     alist_repr w' l' [3, 1, 2] [30, 10, 20]"
  using listRotate_rotates [OF sample_repr] by simp

text \<open>
  A value that was duplicated but whose node could not be allocated leaks: \<open>listDup\<close> hands
  the values on the copy's nodes to the free method, and this value is on none of them.
\<close>

theorem listDup_leaks_value:
  assumes "alist_repr w l [p] [v]" and "dup_fn l = Some d" "d v = Some v'" "free_fn l"
    and "mallocs w = Some a # Some b # None # ms"
  shows "\<exists>w'. listDup l w = Some (None, w') \<and> nodes w' = nodes w \<and> freed w' = freed w"
proof -
  let ?c = "\<lparr>head = 0, tail = 0, dup_fn = Some d, free_fn = True, match_fn = match_fn l, len = 0\<rparr>"
  let ?w = "w\<lparr>mallocs := None # ms, structs := 2 + structs w\<rparr>"
  have n: "nodes ?w = nodes w" by simp
  have r: "alist_repr ?w l ([] @ p # []) ([] @ v # [])"
    using alist_repr_views(1) [OF assms(1) n] by simp
  have "listDup l w = dup_loop ?c \<lparr>inext = p, direction = AL_START_HEAD\<rparr> ?w"
    using assms
    by (simp add: listDup_def listCreate_def malloc_struct_def listGetIterator_def alist_repr_def)
  also have "\<dots> = Some (None, w\<lparr>mallocs := ms, structs := structs w\<rparr>)"
    using alist_repr_node(1) [OF r] alist_repr_values [OF r] assms(3)
    by (subst dup_loop.simps)
      (simp add: listNext_forward [OF r] listAddNodeTail_def malloc_node_def
        listRelease_def free_struct_def listReleaseIterator_def)
  finally show ?thesis by simp
qed

lemma listDup_leaks_value_witness:
  "\<exists>w'. listDup (sample_list\<lparr>head := 9, tail := 9, len := 1\<rparr>)
      (sample_world\<lparr>nodes := [9 \<mapsto> \<lparr>nprev = 0, nnext = 0, nvalue = 10\<rparr>],
        mallocs := [Some 4, Some 5, None]\<rparr>) = Some (None, w') \<and> freed w' = []"
  using listDup_leaks_value [of "sample_world\<lparr>nodes := [9 \<mapsto> \<lparr>nprev = 0, nnext = 0, nvalue = 10\<rparr>],
        mallocs := [Some 4, Some 5, None]\<rparr>" "sample_list\<lparr>head := 9, tail := 9, len := 1\<rparr>" 9 10
      "\<lambda>v. Some (v + 1)" 11 4 5 "[]"]
  by (auto simp: alist_repr_def ring_def edge_def node_next_def node_prev_def node_value_def
      sample_world_def sample_list_def)

interpretation tail_fill: inserter
  "\<lambda>(l, w) vs. \<exists>xs. alist_repr w l xs vs"
  "\<lambda>(l, w) vs ys. \<exists>as rest. mallocs w = map Some as @ rest \<and> length as = length ys \<and> distinct as \<and>
     0 \<notin> set as \<and> (\<forall>a\<in>set as. nodes w a = None) \<and> length vs + length ys < 2 ^ 64"
  "\<lambda>v (l, w). case listAddNodeTail l v w of Some (True, l', w') \<Rightarrow> Some (l', w') | _ \<Rightarrow> None"
  "\<lambda>v vs. vs @ [v]"
proof (unfold_locales, goal_cases)
  case (1 s vs v ys)
  obtain l w where s: "s = (l, w)" by (cases s)
  from 1(1) s obtain xs where r: "alist_repr w l xs vs" by auto
  from 1(2) s obtain as rest where as: "mallocs w = map Some as @ rest" "length as = length (v # ys)"
    "distinct as" "0 \<notin> set as" "\<forall>a\<in>set as. nodes w a = None" "length vs + length (v # ys) < 2 ^ 64" by auto
  then obtain a as' where a: "as = a # as'" by (cases as) auto
  have "length xs + 1 < 2 ^ 64" using as(6) alist_repr_length [OF r] by simp
  note add = add_tail_ok [OF r this, of v]
  have "listAddNodeTail l v w \<noteq> Some (False, l', w')" for l' w'
    using as(1,4,5) a by (auto simp: listAddNodeTail_def malloc_node_def Let_def split: bind_splits)
  with add obtain l' w' where ok: "listAddNodeTail l v w = Some (True, l', w')"
    by (auto simp: inserted_def split: option.splits bool.splits)
  with add obtain b where b: "mallocs w = Some b # mallocs w'" "alist_repr w' l' (xs @ [b]) (vs @ [v])"
    "frame (insert b (set xs)) (w\<lparr>mallocs := mallocs w'\<rparr>) w'"
    by (auto simp: inserted_def)
  have ba: "b = a" "mallocs w' = map Some as' @ rest" using as(1) a b(1) by simp_all
  have "nodes w' q = None" if "q \<in> set as'" for q
  proof -
    have "q \<noteq> a" "nodes w q = None" using that as(3,5) a by auto
    moreover have "q \<notin> set xs" using \<open>nodes w q = None\<close> alist_repr_dom [OF r] by blast
    ultimately show ?thesis using b(3) ba(1) by (simp add: frame_def)
  qed
  then have "\<exists>as rest. mallocs w' = map Some as @ rest \<and> length as = length ys \<and> distinct as \<and>
     0 \<notin> set as \<and> (\<forall>a\<in>set as. nodes w' a = None) \<and> length (vs @ [v]) + length ys < 2 ^ 64"
    using as(2-4,6) a ba(2) by (intro exI [of _ as'] exI [of _ rest]) auto
  with ok b(2) s show ?case by auto
qed

text \<open>Filling a list from its tail, as long as memory lasts, keeps the order of the values.\<close>

lemma listAddNodeTail_fills:
  assumes "alist_repr w l xs vs" and "mallocs w = map Some as @ rest" "distinct as" "0 \<notin> set as"
    and "\<forall>a\<in>set as. nodes w a = None" "length as = length ys" "length vs + length ys < 2 ^ 64"
  shows "\<exists>l' w' zs. insert_all (\<lambda>v (l, w). case listAddNodeTail l v w of
      Some (True, l', w') \<Rightarrow> Some (l', w') | _ \<Rightarrow> None) ys (l, w) = Some (l', w') \<and>
    alist_repr w' l' zs (vs @ ys)"
  using tail_fill.fill [of "(l, w)" vs ys "[]"] assms by (fastforce simp: fold_snoc)

end
