(* ===== verification/Posix.thy ===== *)
theory Posix
  imports Prelude
begin

text \<open>
  What the servers see of the operating system: the result of a system call (its value or the
  \<open>errno\<close> of the failure), the constants of \<open>epoll\<close> and \<open>fcntl\<close>, and the result of a
  function that can also block forever.
\<close>

datatype 'a syscall = Fails int | Returns 'a

definition EINTR :: int where "EINTR = 4"
definition EAGAIN :: int where "EAGAIN = 11"

datatype ctl = CTL_ADD | CTL_MOD | CTL_DEL

definition EPOLLIN :: u32 where "EPOLLIN = 1"
definition EPOLLOUT :: u32 where "EPOLLOUT = 4"
definition EPOLLERR :: u32 where "EPOLLERR = 8"
definition EPOLLHUP :: u32 where "EPOLLHUP = 16"
definition EPOLLET :: u32 where "EPOLLET = 2 ^ 31"

definition FD_CLOEXEC :: u32 where "FD_CLOEXEC = 1"
definition O_NONBLOCK :: u32 where "O_NONBLOCK = 0x800"

text \<open>A run ends with a value, with undefined behaviour, or not at all.\<close>

datatype 'a run = Ends 'a | Faults | Blocks

fun and_then :: "'a run \<Rightarrow> ('a \<Rightarrow> 'b run) \<Rightarrow> 'b run" where
  "and_then (Ends x) f = f x"
| "and_then Faults f = Faults"
| "and_then Blocks f = Blocks"

lemma and_then_Ends: "and_then r f = Ends y \<longleftrightarrow> (\<exists>x. r = Ends x \<and> f x = Ends y)"
  by (cases r) auto

end
