(* ===== verification/Ae_Loop.thy ===== *)
theory Ae_Loop
  imports Posix "HOL-Library.Signed_Division"
begin

text \<open>
  The event loop of \<open>src/pubsub/ae.h\<close>, \<open>ae.c\<close> and its epoll back end \<open>ae_epoll.c\<close>. The record
  \<open>ae\<close> holds the fields of \<open>struct aeEventLoop\<close> (a timer is paired with its heap address, the
  list order is that of the \<open>next\<close> pointers) and, below them, the environment: the kernel's
  interest set and open descriptors, the results of the coming \<open>epoll_wait\<close> and \<open>malloc\<close> calls,
  the clock readings, and the application's own state \<open>user\<close>. Function pointers are numbers that
  the record \<open>procs\<close> of the program interprets. \<open>None\<close> is undefined behaviour.
\<close>

section \<open>Data\<close>

definition AE_NONE :: u32 where "AE_NONE = 0"
definition AE_READABLE :: u32 where "AE_READABLE = 1"
definition AE_WRITABLE :: u32 where "AE_WRITABLE = 2"
definition AE_OK :: int where "AE_OK = 0"
definition AE_ERR :: int where "AE_ERR = - 1"
definition AE_NOMORE :: int where "AE_NOMORE = - 1"
definition AE_FILE_EVENTS :: u32 where "AE_FILE_EVENTS = 1"
definition AE_TIME_EVENTS :: u32 where "AE_TIME_EVENTS = 2"
definition AE_ALL_EVENTS :: u32 where "AE_ALL_EVENTS = AE_FILE_EVENTS OR AE_TIME_EVENTS"
definition AE_DONT_WAIT :: u32 where "AE_DONT_WAIT = 4"

lemmas ae_consts = AE_NONE_def AE_READABLE_def AE_WRITABLE_def AE_OK_def AE_ERR_def AE_NOMORE_def
  AE_FILE_EVENTS_def AE_TIME_EVENTS_def AE_ALL_EVENTS_def AE_DONT_WAIT_def
  EPOLLIN_def EPOLLOUT_def EPOLLERR_def EPOLLHUP_def EPOLLET_def

record aeFileEvent =
  mask :: u32
  rfileProc :: nat
  wfileProc :: nat
  fclientData :: nat

record aeTimeEvent =
  tid :: int
  when_sec :: int
  when_ms :: int
  timeProc :: nat
  finalizerProc :: "nat option"
  tclientData :: nat

record 'u ae =
  maxfd :: int
  setsize :: int
  timeEventNextId :: int
  lastTime :: int
  events :: "aeFileEvent list"
  fired :: "(int \<times> u32) list"
  timers :: "(nat \<times> aeTimeEvent) list"
  stop :: bool
  beforesleep :: "nat option"
  interest :: "int \<rightharpoonup> u32"
  ctl_refused :: "bool list"
  is_open :: "int \<Rightarrow> bool"
  polls :: "(int \<times> u32) list list"
  timeouts :: "int list"
  mallocs :: "nat option list"
  clock :: "nat \<Rightarrow> int \<times> int"
  ticks :: nat
  user :: 'u

record 'u procs =
  fproc :: "nat \<Rightarrow> 'u ae \<Rightarrow> int \<Rightarrow> nat \<Rightarrow> u32 \<Rightarrow> 'u ae option"
  tproc :: "nat \<Rightarrow> 'u ae \<Rightarrow> int \<Rightarrow> nat \<Rightarrow> (int \<times> 'u ae) option"
  finproc :: "nat \<Rightarrow> 'u ae \<Rightarrow> nat \<Rightarrow> 'u ae option"
  bsproc :: "nat \<Rightarrow> 'u ae \<Rightarrow> 'u ae option"

section \<open>The epoll back end\<close>

text \<open>
  \<open>epoll_ctl\<close> as documented: ADD of a member and MOD or DEL of a non-member fail, and any other ADD or
  MOD may fail too (EPERM, ENOMEM, ENOSPC); \<open>ctl_refused\<close> says which of the coming ones do.
\<close>

definition refuses :: "'u ae \<Rightarrow> bool" where
  "refuses s \<longleftrightarrow> ctl_refused s \<noteq> [] \<and> hd (ctl_refused s)"

definition epoll_ctl :: "ctl \<Rightarrow> int \<Rightarrow> u32 \<Rightarrow> 'u ae \<Rightarrow> int \<times> 'u ae" where
  "epoll_ctl op fd ev s =
     (if \<not> is_open s fd \<or> (op = CTL_ADD) = (interest s fd \<noteq> None) then (- 1, s)
      else if op = CTL_DEL then (0, s\<lparr>interest := (interest s)(fd := None)\<rparr>)
      else if refuses s then (- 1, s\<lparr>ctl_refused := tl (ctl_refused s)\<rparr>)
      else (0, s\<lparr>ctl_refused := tl (ctl_refused s), interest := (interest s)(fd \<mapsto> ev)\<rparr>))"

text \<open>Closing a descriptor takes it out of the interest set.\<close>

definition close_fd :: "int \<Rightarrow> 'u ae \<Rightarrow> 'u ae" where
  "close_fd fd s = s\<lparr>is_open := (is_open s)(fd := False), interest := (interest s)(fd := None)\<rparr>"

definition event_at :: "'u ae \<Rightarrow> int \<Rightarrow> aeFileEvent option" where
  "event_at s fd = (if 0 \<le> fd \<and> fd < int (length (events s)) then Some (events s ! nat fd) else None)"

definition set_event :: "int \<Rightarrow> aeFileEvent \<Rightarrow> 'u ae \<Rightarrow> 'u ae" where
  "set_event fd fe s = s\<lparr>events := (events s)[nat fd := fe]\<rparr>"

definition ee_events :: "u32 \<Rightarrow> u32" where
  "ee_events m = (
     let ev = 0;
         ev = (if m AND AE_READABLE \<noteq> 0 then EPOLLIN OR EPOLLET else ev);
         ev = (if m AND AE_WRITABLE \<noteq> 0 then EPOLLOUT OR EPOLLET else ev)
     in ev)"

definition aeApiAddEvent :: "int \<Rightarrow> u32 \<Rightarrow> 'u ae \<Rightarrow> (int \<times> 'u ae) option" where
  "aeApiAddEvent fd m s = do {
     fe \<leftarrow> event_at s fd;
     let op = (if mask fe = AE_NONE then CTL_ADD else CTL_MOD);
     let m = m OR mask fe;
     Some (case epoll_ctl op fd (ee_events m) s of (r, s) \<Rightarrow> (if r = - 1 then - 1 else 0, s))
   }"

definition aeApiDelEvent :: "int \<Rightarrow> u32 \<Rightarrow> 'u ae \<Rightarrow> 'u ae option" where
  "aeApiDelEvent fd delmask s = do {
     fe \<leftarrow> event_at s fd;
     let m = mask fe AND NOT delmask;
     Some (snd (if m \<noteq> AE_NONE then epoll_ctl CTL_MOD fd (ee_events m) s
       else epoll_ctl CTL_DEL fd (ee_events m) s))
   }"

definition fired_mask :: "u32 \<Rightarrow> u32" where
  "fired_mask ev = (
     let m = 0;
         m = (if ev AND EPOLLIN \<noteq> 0 then m OR AE_READABLE else m);
         m = (if ev AND EPOLLOUT \<noteq> 0 then m OR AE_WRITABLE else m);
         m = (if ev AND EPOLLERR \<noteq> 0 then m OR AE_WRITABLE else m);
         m = (if ev AND EPOLLHUP \<noteq> 0 then m OR AE_WRITABLE else m)
     in m)"

fun store_fired :: "nat \<Rightarrow> (int \<times> u32) list \<Rightarrow> (int \<times> u32) list \<Rightarrow> (int \<times> u32) list option" where
  "store_fired j [] f = Some f"
| "store_fired j ((fd, ev) # es) f =
     (if j < length f then store_fired (j + 1) es (f[j := (fd, fired_mask ev)]) else None)"

text \<open>
  \<open>epoll_wait\<close> returns at most \<open>setsize\<close> events of the next script entry; an empty list is a
  timeout or an error. The timeout is a C \<open>int\<close>: the milliseconds are truncated to 32 bits. The
  field \<open>timeouts\<close> records it.
\<close>

definition aeApiPoll :: "(int \<times> int) option \<Rightarrow> 'u ae \<Rightarrow> (nat \<times> 'u ae) option" where
  "aeApiPoll tvp s = do {
     let timeout = (case tvp of
       Some (sec, usec) \<Rightarrow> sint (word_of_int (sec * 1000 + usec sdiv 1000) :: 32 word) | None \<Rightarrow> - 1);
     let ready = (case polls s of [] \<Rightarrow> [] | es # _ \<Rightarrow> take (nat (setsize s)) es);
     let s = s\<lparr>polls := tl (polls s), timeouts := timeouts s @ [timeout]\<rparr>;
     f \<leftarrow> store_fired 0 ready (fired s);
     Some (length ready, s\<lparr>fired := f\<rparr>)
   }"

section \<open>The loop\<close>

text \<open>
  What the loop owns besides its state: the blocks of memory and the epoll descriptor. To free what is
  not allocated is undefined.
\<close>

datatype resource = Loop_block | Events_block | Fired_block | State_block | Epoll_events_block | Epoll_descriptor

definition free_resource :: "resource \<Rightarrow> resource set \<Rightarrow> resource set option" where
  "free_resource r B = (if r \<in> B then Some (B - {r}) else None)"

definition aeApiCreate :: "bool \<Rightarrow> bool \<Rightarrow> bool \<Rightarrow> resource set \<Rightarrow> (int \<times> resource set) option" where
  "aeApiCreate ok_state ok_events ok_epoll B =
     (if \<not> ok_state then Some (- 1, B)
      else let B = insert State_block B
        in if \<not> ok_events then do { B \<leftarrow> free_resource State_block B; Some (- 1, B) }
        else let B = insert Epoll_events_block B
          in if \<not> ok_epoll then do {
               B \<leftarrow> free_resource Epoll_events_block B;
               B \<leftarrow> free_resource State_block B;
               Some (- 1, B)
             } else Some (0, insert Epoll_descriptor B))"

definition aeApiFree :: "resource set \<Rightarrow> resource set option" where
  "aeApiFree B = do {
     B \<leftarrow> free_resource Epoll_descriptor B;
     B \<leftarrow> free_resource Epoll_events_block B;
     free_resource State_block B
   }"

text \<open>
  \<open>aeCreateEventLoop\<close>: the arguments say which of the five allocations and the \<open>epoll_create\<close>
  succeed, and what the fresh tables hold. When \<open>events\<close> cannot be allocated the error path frees the
  uninitialised \<open>fired\<close>.
\<close>

definition aeCreateEventLoop ::
  "bool \<Rightarrow> bool \<Rightarrow> bool \<Rightarrow> bool \<Rightarrow> bool \<Rightarrow> bool \<Rightarrow> int \<Rightarrow> (nat \<Rightarrow> aeFileEvent) \<Rightarrow> (nat \<Rightarrow> int \<times> u32) \<Rightarrow>
    'u ae \<Rightarrow> ('u ae option \<times> resource set) option" where
  "aeCreateEventLoop ok_loop ok_ev ok_fired ok_state ok_ees ok_epoll n junk junkf env =
     (if \<not> ok_loop then Some (None, {})
      else if \<not> ok_ev then None
      else if \<not> ok_fired then do {
        B \<leftarrow> free_resource Events_block {Loop_block, Events_block};
        B \<leftarrow> free_resource Loop_block B;
        Some (None, B)
      } else do {
        let env' = env\<lparr>maxfd := - 1, setsize := n, timeEventNextId := 0,
               lastTime := fst (clock env (ticks env)), ticks := ticks env + 1,
               timers := [], stop := False, beforesleep := None, fired := map junkf [0..<nat n]\<rparr>;
        (r, B) \<leftarrow> aeApiCreate ok_state ok_ees ok_epoll {Loop_block, Events_block, Fired_block};
        if r = - 1 then do {
          B \<leftarrow> free_resource Fired_block B;
          B \<leftarrow> free_resource Events_block B;
          B \<leftarrow> free_resource Loop_block B;
          Some (None, B)
        } else Some (Some (env'\<lparr>events := map (\<lambda>i. (junk i)\<lparr>mask := AE_NONE\<rparr>) [0..<nat n], interest := Map.empty\<rparr>), B)
      })"

definition aeGetSetSize :: "'u ae \<Rightarrow> int" where
  "aeGetSetSize s = setsize s"

fun clear_masks :: "nat list \<Rightarrow> aeFileEvent list \<Rightarrow> aeFileEvent list" where
  "clear_masks [] es = es"
| "clear_masks (i # is) es = clear_masks is (es[i := (es ! i)\<lparr>mask := AE_NONE\<rparr>])"

text \<open>\<open>junk\<close> is what \<open>realloc\<close> appends; the first store of the loop is at index \<open>maxfd\<close>.\<close>

text \<open>
  The buffer for the events of \<open>epoll_wait\<close> by its length; a failed \<open>realloc\<close> makes it NULL, and the
  function succeeds. A failed \<open>realloc\<close> of the event table faults at the first entry to be cleared.
\<close>

definition aeApiResize :: "bool \<Rightarrow> int \<Rightarrow> int \<times> nat option" where
  "aeApiResize ok n = (0, if ok then Some (nat n) else None)"

definition aeResizeSetSize ::
  "bool \<Rightarrow> bool \<Rightarrow> (nat \<Rightarrow> aeFileEvent) \<Rightarrow> int \<Rightarrow> nat option \<Rightarrow> 'u ae \<Rightarrow> (int \<times> nat option \<times> 'u ae) option" where
  "aeResizeSetSize ok_ees ok_ev junk n ees s =
     (if n = setsize s then Some (AE_OK, ees, s)
      else if maxfd s \<ge> n then Some (AE_ERR, ees, s)
      else case aeApiResize ok_ees n of (r, ees) \<Rightarrow>
        if r = - 1 then Some (AE_ERR, ees, s)
        else let es = map (\<lambda>i. if i < length (events s) then events s ! i else junk i) [0..<nat n] in
          if maxfd s < 0 \<or> \<not> ok_ev then None
          else Some (AE_OK, ees, s\<lparr>setsize := n, events := clear_masks [nat (maxfd s)..<nat n] es\<rparr>))"

definition aeDeleteEventLoop :: "resource set \<Rightarrow> resource set option" where
  "aeDeleteEventLoop B = do {
     B \<leftarrow> aeApiFree B;
     B \<leftarrow> free_resource Fired_block B;
     B \<leftarrow> free_resource Events_block B;
     free_resource Loop_block B
   }"

definition aeStop :: "'u ae \<Rightarrow> 'u ae" where
  "aeStop s = s\<lparr>stop := True\<rparr>"

definition aeCreateFileEvent ::
  "int \<Rightarrow> u32 \<Rightarrow> nat \<Rightarrow> nat \<Rightarrow> 'u ae \<Rightarrow> (int \<times> 'u ae) option" where
  "aeCreateFileEvent fd m proc clientData s =
     (if fd \<ge> setsize s then Some (AE_ERR, s)
      else do {
        (r, s) \<leftarrow> aeApiAddEvent fd m s;
        if r = - 1 then Some (AE_ERR, s)
        else do {
          fe \<leftarrow> event_at s fd;
          let fe = fe\<lparr>mask := mask fe OR m\<rparr>;
          let fe = (if m AND AE_READABLE \<noteq> 0 then fe\<lparr>rfileProc := proc\<rparr> else fe);
          let fe = (if m AND AE_WRITABLE \<noteq> 0 then fe\<lparr>wfileProc := proc\<rparr> else fe);
          let s = set_event fd (fe\<lparr>fclientData := clientData\<rparr>) s;
          Some (AE_OK, if fd > maxfd s then s\<lparr>maxfd := fd\<rparr> else s)
        }
      })"

fun last_used :: "aeFileEvent list \<Rightarrow> nat \<Rightarrow> int" where
  "last_used es 0 = - 1"
| "last_used es (Suc j) = (if mask (es ! j) \<noteq> AE_NONE then int j else last_used es j)"

definition aeDeleteFileEvent :: "int \<Rightarrow> u32 \<Rightarrow> 'u ae \<Rightarrow> 'u ae option" where
  "aeDeleteFileEvent fd m s =
     (if fd \<ge> setsize s then Some s
      else do {
        fe \<leftarrow> event_at s fd;
        if mask fe = AE_NONE then Some s
        else do {
          let fe = fe\<lparr>mask := mask fe AND NOT m\<rparr>;
          let s = set_event fd fe s;
          let s = (if fd = maxfd s \<and> mask fe = AE_NONE
            then s\<lparr>maxfd := last_used (events s) (nat (maxfd s))\<rparr> else s);
          aeApiDelEvent fd m s
        }
      })"

definition aeGetFileEvents :: "int \<Rightarrow> 'u ae \<Rightarrow> u32 option" where
  "aeGetFileEvents fd s =
     (if fd \<ge> setsize s then Some 0 else map_option mask (event_at s fd))"

definition aeGetTime :: "'u ae \<Rightarrow> (int \<times> int) \<times> 'u ae" where
  "aeGetTime s = (clock s (ticks s), s\<lparr>ticks := ticks s + 1\<rparr>)"

definition aeAddMillisecondsToNow :: "int \<Rightarrow> 'u ae \<Rightarrow> (int \<times> int) \<times> 'u ae" where
  "aeAddMillisecondsToNow milliseconds s = (case aeGetTime s of ((cur_sec, cur_ms), s) \<Rightarrow>
     let sec = cur_sec + milliseconds sdiv 1000;
         ms = cur_ms + milliseconds smod 1000
     in (if ms \<ge> 1000 then (sec + 1, ms - 1000) else (sec, ms), s))"

definition aeCreateTimeEvent ::
  "int \<Rightarrow> nat \<Rightarrow> nat \<Rightarrow> nat option \<Rightarrow> 'u ae \<Rightarrow> int \<times> 'u ae" where
  "aeCreateTimeEvent milliseconds proc clientData fin s = (
     let ident = timeEventNextId s;
         s = s\<lparr>timeEventNextId := ident + 1\<rparr>;
         a = (case mallocs s of [] \<Rightarrow> None | c # _ \<Rightarrow> c);
         s = s\<lparr>mallocs := tl (mallocs s)\<rparr>
     in case a of
          None \<Rightarrow> (AE_ERR, s)
        | Some a \<Rightarrow> (case aeAddMillisecondsToNow milliseconds s of ((sec, ms), s) \<Rightarrow>
            (ident, s\<lparr>timers := (a, \<lparr>tid = ident, when_sec = sec, when_ms = ms, timeProc = proc,
               finalizerProc = fin, tclientData = clientData\<rparr>) # timers s\<rparr>)))"

fun unlink_timer :: "int \<Rightarrow> (nat \<times> aeTimeEvent) list \<Rightarrow> (aeTimeEvent \<times> (nat \<times> aeTimeEvent) list) option" where
  "unlink_timer ident [] = None"
| "unlink_timer ident ((a, te) # ts) =
     (if tid te = ident then Some (te, ts)
      else map_option (\<lambda>(t, ts'). (t, (a, te) # ts')) (unlink_timer ident ts))"

definition aeDeleteTimeEvent :: "'u procs \<Rightarrow> int \<Rightarrow> 'u ae \<Rightarrow> (int \<times> 'u ae) option" where
  "aeDeleteTimeEvent P ident s = (case unlink_timer ident (timers s) of
     None \<Rightarrow> Some (AE_ERR, s)
   | Some (te, ts) \<Rightarrow> do {
       let s = s\<lparr>timers := ts\<rparr>;
       s \<leftarrow> (case finalizerProc te of Some f \<Rightarrow> finproc P f s (tclientData te) | None \<Rightarrow> Some s);
       Some (AE_OK, s)
     })"

definition earlier :: "aeTimeEvent \<Rightarrow> aeTimeEvent \<Rightarrow> bool" where
  "earlier te n \<longleftrightarrow> when_sec te < when_sec n \<or> (when_sec te = when_sec n \<and> when_ms te < when_ms n)"

fun nearest_loop :: "aeTimeEvent option \<Rightarrow> (nat \<times> aeTimeEvent) list \<Rightarrow> aeTimeEvent option" where
  "nearest_loop n [] = n"
| "nearest_loop n ((a, te) # ts) =
     nearest_loop (case n of None \<Rightarrow> Some te | Some x \<Rightarrow> if earlier te x then Some te else n) ts"

definition aeSearchNearestTimer :: "'u ae \<Rightarrow> aeTimeEvent option" where
  "aeSearchNearestTimer s = nearest_loop None (timers s)"

definition due :: "int \<times> int \<Rightarrow> aeTimeEvent \<Rightarrow> bool" where
  "due now te \<longleftrightarrow> fst now > when_sec te \<or> (fst now = when_sec te \<and> snd now > when_ms te)"

text \<open>
  The timer at an address may be gone after its callback: updating it there is then a write to
  freed memory.
\<close>

definition retime :: "nat \<Rightarrow> int \<times> int \<Rightarrow> 'u ae \<Rightarrow> 'u ae option" where
  "retime a w s =
     (if a \<in> fst ` set (timers s)
      then Some (s\<lparr>timers := map (\<lambda>(b, te). (b, if b = a
        then te\<lparr>when_sec := fst w, when_ms := snd w\<rparr> else te)) (timers s)\<rparr>)
      else None)"

text \<open>
  The scan holds the rest of the list from \<open>te\<close> on; after a callback it restarts from the head.
  A scan that restarts for ever is \<open>None\<close>.
\<close>

partial_function (option) time_scan ::
  "'u procs \<Rightarrow> int \<Rightarrow> (nat \<times> aeTimeEvent) list \<Rightarrow> int \<Rightarrow> 'u ae \<Rightarrow> (int \<times> 'u ae) option" where
  "time_scan P maxId ts processed s = (case ts of
     [] \<Rightarrow> Some (processed, s)
   | (a, te) # rest \<Rightarrow>
       if tid te > maxId then time_scan P maxId rest processed s
       else (case aeGetTime s of (now, s) \<Rightarrow>
         if due now te then do {
           let ident = tid te;
           (retval, s) \<leftarrow> tproc P (timeProc te) s ident (tclientData te);
           s \<leftarrow> (if retval \<noteq> AE_NOMORE
             then (case aeAddMillisecondsToNow retval s of (w, s) \<Rightarrow> retime a w s)
             else map_option snd (aeDeleteTimeEvent P ident s));
           time_scan P maxId (timers s) (processed + 1) s
         } else time_scan P maxId rest processed s))"

definition processTimeEvents :: "'u procs \<Rightarrow> 'u ae \<Rightarrow> (int \<times> 'u ae) option" where
  "processTimeEvents P s = (
     let now = fst (clock s (ticks s));
         s = s\<lparr>ticks := ticks s + 1\<rparr>;
         s = (if now < lastTime s
           then s\<lparr>timers := map (\<lambda>(a, te). (a, te\<lparr>when_sec := 0\<rparr>)) (timers s)\<rparr> else s);
         s = s\<lparr>lastTime := now\<rparr>
     in time_scan P (timeEventNextId s - 1) (timers s) 0 s)"

definition wait_time :: "aeTimeEvent \<Rightarrow> int \<times> int \<Rightarrow> int \<times> int" where
  "wait_time shortest now = (
     let sec = when_sec shortest - fst now;
         (sec, usec) = (if when_ms shortest < snd now
           then (sec - 1, (when_ms shortest + 1000 - snd now) * 1000)
           else (sec, (when_ms shortest - snd now) * 1000))
     in (if sec < 0 then 0 else sec, if usec < 0 then 0 else usec))"

text \<open>
  The dispatch loop reads \<open>fired[j]\<close> and the place of \<open>fe\<close> in the event table afresh in every iteration.
  After the read handler it reads through the same \<open>fe\<close>, which dangles if the handler has resized the table.
\<close>

fun dispatch :: "'u procs \<Rightarrow> nat \<Rightarrow> nat \<Rightarrow> int \<Rightarrow> 'u ae \<Rightarrow> (int \<times> 'u ae) option" where
  "dispatch P j 0 processed s = Some (processed, s)"
| "dispatch P j (Suc n) processed s = do {
     (fd, m) \<leftarrow> (if j < length (fired s) then Some (fired s ! j) else None);
     fe \<leftarrow> event_at s fd;
     let size = setsize s;
     let rfired = (mask fe AND m AND AE_READABLE \<noteq> 0);
     s \<leftarrow> (if rfired then fproc P (rfileProc fe) s fd (fclientData fe) m else Some s);
     fe \<leftarrow> (if setsize s = size then event_at s fd else None);
     s \<leftarrow> (if mask fe AND m AND AE_WRITABLE \<noteq> 0 \<and> (\<not> rfired \<or> wfileProc fe \<noteq> rfileProc fe)
       then fproc P (wfileProc fe) s fd (fclientData fe) m else Some s);
     dispatch P (j + 1) n (processed + 1) s
   }"

text \<open>
  \<open>processed\<close> is not initialised in the code: its first value is the argument \<open>garbage\<close>. With
  \<open>AE_DONT_WAIT\<close> the code writes through the uninitialised \<open>tvp\<close>.
\<close>

definition aeProcessEvents :: "'u procs \<Rightarrow> int \<Rightarrow> u32 \<Rightarrow> 'u ae \<Rightarrow> (int \<times> 'u ae) option" where
  "aeProcessEvents P garbage flags s =
     (if flags AND AE_TIME_EVENTS = 0 \<and> flags AND AE_FILE_EVENTS = 0 then Some (0, s)
      else do {
        (processed, s) \<leftarrow>
          (if maxfd s \<noteq> - 1 \<or> (flags AND AE_TIME_EVENTS \<noteq> 0 \<and> flags AND AE_DONT_WAIT = 0) then do {
             let shortest = (if flags AND AE_TIME_EVENTS \<noteq> 0 \<and> flags AND AE_DONT_WAIT = 0
               then aeSearchNearestTimer s else None);
             (tvp, s) \<leftarrow> (case shortest of
                 Some te \<Rightarrow> (case aeGetTime s of (now, s) \<Rightarrow> Some (Some (wait_time te now), s))
               | None \<Rightarrow> if flags AND AE_DONT_WAIT \<noteq> 0 then None else Some (None, s));
             (numevents, s) \<leftarrow> aeApiPoll tvp s;
             dispatch P 0 numevents garbage s
           } else Some (garbage, s));
        if flags AND AE_TIME_EVENTS \<noteq> 0 then do {
          (n, s) \<leftarrow> processTimeEvents P s;
          Some (processed + n, s)
        } else Some (processed, s)
      })"

partial_function (option) main_loop :: "'u procs \<Rightarrow> int \<Rightarrow> 'u ae \<Rightarrow> 'u ae option" where
  "main_loop P garbage s =
     (if stop s then Some s
      else do {
        s \<leftarrow> (case beforesleep s of Some f \<Rightarrow> bsproc P f s | None \<Rightarrow> Some s);
        (r, s) \<leftarrow> aeProcessEvents P garbage AE_ALL_EVENTS s;
        main_loop P garbage s
      })"

definition aeMain :: "'u procs \<Rightarrow> int \<Rightarrow> 'u ae \<Rightarrow> 'u ae option" where
  "aeMain P garbage s = main_loop P garbage (s\<lparr>stop := False\<rparr>)"

definition aeGetApiName :: string where
  "aeGetApiName = ''epoll''"

definition aeSetBeforeSleepProc :: "nat option \<Rightarrow> 'u ae \<Rightarrow> 'u ae" where
  "aeSetBeforeSleepProc b s = s\<lparr>beforesleep := b\<rparr>"

section \<open>The registration invariant\<close>

text \<open>
  \<open>mask_at s i\<close> is the mask of descriptor \<open>i\<close>. The loop is well formed when the table has
  \<open>setsize\<close> entries, \<open>maxfd\<close> is the greatest registered descriptor (or -1), and the kernel's
  interest set holds exactly the registered descriptors, all open, with the events of \<open>watched\<close>:
  input if only reading is registered, and output alone if writing is, even if reading is too. (That
  the two should be joined is a defect of the code, see \<open>aeApi_loses_EPOLLIN\<close>.)
\<close>

definition mask_at :: "'u ae \<Rightarrow> nat \<Rightarrow> u32" where
  "mask_at s i = mask (events s ! i)"

definition top_used :: "aeFileEvent list \<Rightarrow> int \<Rightarrow> bool" where
  "top_used es t \<longleftrightarrow> - 1 \<le> t \<and> t < int (length es) \<and>
     (\<forall>i < length es. mask (es ! i) \<noteq> 0 \<longrightarrow> int i \<le> t) \<and> (t \<noteq> - 1 \<longrightarrow> mask (es ! nat t) \<noteq> 0)"

definition watched :: "u32 \<Rightarrow> u32 option" where
  "watched m = (if m = AE_NONE then None
     else if m = AE_READABLE then Some (EPOLLIN OR EPOLLET)
     else Some (EPOLLOUT OR EPOLLET))"

lemma watched_0 [simp]: "watched 0 = None"
  by (simp add: watched_def AE_NONE_def)

lemma ee_events_watched: "m \<in> {1, 2, 3} \<Longrightarrow> Some (ee_events m) = watched m"
  by (auto simp: watched_def ee_events_def ae_consts)

definition ae_ok :: "'u ae \<Rightarrow> bool" where
  "ae_ok s \<longleftrightarrow> 0 \<le> setsize s \<and> int (length (events s)) = setsize s \<and> top_used (events s) (maxfd s) \<and>
     (\<forall>i < length (events s). mask_at s i \<in> {0, 1, 2, 3} \<and>
        interest s (int i) = watched (mask_at s i)) \<and>
     (\<forall>fd. interest s fd \<noteq> None \<longrightarrow> is_open s fd \<and> 0 \<le> fd \<and> fd < setsize s)"

lemma mask_or_closed: "a \<in> {0, 1, 2, 3} \<Longrightarrow> m \<in> {1, 2, 3} \<Longrightarrow> a OR m \<in> {1, 2, 3 :: u32}"
  by auto

lemma mask_and_closed: "a \<in> {0, 1, 2, 3} \<Longrightarrow> m \<in> {1, 2, 3} \<Longrightarrow> a AND NOT m \<in> {0, 1, 2, 3 :: u32}"
  by auto

lemma mask_ops_assoc:
  "a \<in> {0, 1, 2, 3} \<Longrightarrow> m \<in> {1, 2, 3} \<Longrightarrow> m OR a = a OR (m :: u32)"
  "a \<in> {0, 1, 2, 3} \<Longrightarrow> m \<in> {1, 2, 3} \<Longrightarrow> a AND NOT m AND NOT m = a AND NOT (m :: u32)"
  by auto

lemma last_used_top:
  assumes "j \<le> length es" and "\<And>i. j \<le> i \<Longrightarrow> i < length es \<Longrightarrow> mask (es ! i) = 0"
  shows "top_used es (last_used es j)"
  using assms
proof (induction j)
  case 0
  then show ?case by (auto simp: top_used_def)
next
  case (Suc j)
  show ?case
  proof (cases "mask (es ! j) = 0")
    case True
    then have "mask (es ! i) = 0" if "j \<le> i" "i < length es" for i
      using that Suc.prems(2) by (cases "i = j") auto
    with Suc True show ?thesis by (simp add: AE_NONE_def)
  next
    case False
    then have "int i \<le> int j" if "i < length es" "mask (es ! i) \<noteq> 0" for i
      using that Suc.prems(2) [of i] by (cases "Suc j \<le> i") auto
    with False Suc.prems(1) show ?thesis by (auto simp: top_used_def AE_NONE_def)
  qed
qed

text \<open>Changing the entry of one descriptor and its interest together keeps the rest in step.\<close>

lemma ae_ok_update:
  assumes "ae_ok s" and "0 \<le> fd" "fd < setsize s" "is_open s fd" and "mask fe \<in> {0, 1, 2, 3}"
    and "top_used ((events s)[nat fd := fe]) t"
    and "events s' = (events s)[nat fd := fe]" "setsize s' = setsize s" "maxfd s' = t"
    and "interest s' = (interest s)(fd := watched (mask fe))"
    and "is_open s' = is_open s"
  shows "ae_ok s'"
proof -
  have "int i = fd \<longleftrightarrow> i = nat fd" for i using assms(2) by auto
  then show ?thesis using assms unfolding ae_ok_def mask_at_def by (auto simp: nth_list_update)
qed

lemma event_at_ok:
  "ae_ok s \<Longrightarrow> 0 \<le> fd \<Longrightarrow> fd < setsize s \<Longrightarrow> event_at s fd = Some (events s ! nat fd)"
  by (simp add: event_at_def ae_ok_def)

lemma ae_ok_at:
  assumes "ae_ok s" "0 \<le> fd" "fd < setsize s"
  shows "mask_at s (nat fd) \<in> {0, 1, 2, 3}" "nat fd < length (events s)"
    "interest s fd = watched (mask_at s (nat fd))"
proof -
  show lt: "nat fd < length (events s)" using assms unfolding ae_ok_def by linarith
  with assms show "mask_at s (nat fd) \<in> {0, 1, 2, 3}" unfolding ae_ok_def by blast
  have "int (nat fd) = fd" using assms(2) by simp
  then show "interest s fd = watched (mask_at s (nat fd))"
    using lt assms(1) unfolding ae_ok_def by metis
qed

lemma interest_iff: "ae_ok s \<Longrightarrow> 0 \<le> fd \<Longrightarrow> fd < setsize s \<Longrightarrow> interest s fd = None \<longleftrightarrow> mask_at s (nat fd) = 0"
  using ae_ok_at(1,3) [of s fd] by (auto simp: watched_def AE_NONE_def split: if_splits)

lemma ae_ok_answered: "ae_ok s \<Longrightarrow> ae_ok (s\<lparr>ctl_refused := r\<rparr>)"
  by (simp add: ae_ok_def mask_at_def)

lemma aeCreateFileEvent_refused:
  assumes "ae_ok s" and "0 \<le> fd" "fd < setsize s"
  shows "\<not> is_open s fd \<Longrightarrow> aeCreateFileEvent fd m proc cd s = Some (AE_ERR, s)"
    and "is_open s fd \<Longrightarrow> refuses s \<Longrightarrow> aeCreateFileEvent fd m proc cd s = Some (AE_ERR, s\<lparr>ctl_refused := tl (ctl_refused s)\<rparr>)"
  using interest_iff [OF assms] assms(3)
  by (auto simp: aeCreateFileEvent_def aeApiAddEvent_def event_at_ok [OF assms] epoll_ctl_def mask_at_def AE_NONE_def Let_def)

lemma aeCreateFileEvent_accepted:
  assumes "ae_ok s" and "0 \<le> fd" "fd < setsize s" "is_open s fd" "\<not> refuses s" and "m \<in> {1, 2, 3}"
  shows "\<exists>s'. aeCreateFileEvent fd m proc cd s = Some (AE_OK, s') \<and> ae_ok s' \<and>
      aeGetFileEvents fd s' = Some (mask_at s (nat fd) OR m) \<and> interest s' fd = watched (mask_at s (nat fd) OR m) \<and>
      maxfd s' = max fd (maxfd s) \<and>
      (m AND AE_READABLE \<noteq> 0 \<longrightarrow> rfileProc (events s' ! nat fd) = proc) \<and>
      (m AND AE_WRITABLE \<noteq> 0 \<longrightarrow> wfileProc (events s' ! nat fd) = proc) \<and> fclientData (events s' ! nat fd) = cd \<and>
      (\<forall>i. i \<noteq> nat fd \<longrightarrow> events s' ! i = events s ! i)"
proof -
  note lt = assms(3)
  note at = ae_ok_at [OF assms(1,2) lt]
  let ?old = "mask_at s (nat fd)"
  have new: "?old OR m \<in> {1, 2, 3}" by (rule mask_or_closed [OF at(1) assms(6)])
  then have n0: "?old OR m \<noteq> 0" by auto
  note ev = ee_events_watched [OF new]
  let ?s1 = "s\<lparr>ctl_refused := tl (ctl_refused s), interest := (interest s)(fd \<mapsto> ee_events (?old OR m))\<rparr>"
  have add: "aeApiAddEvent fd m s = Some (0, ?s1)"
    using interest_iff [OF assms(1,2) lt] assms(4,5) mask_ops_assoc(1) [OF at(1) assms(6)]
    by (auto simp: aeApiAddEvent_def event_at_ok [OF assms(1,2) lt] epoll_ctl_def mask_at_def AE_NONE_def Let_def)
  define fe where "fe = (events s ! nat fd)\<lparr>mask := ?old OR m,
    rfileProc := (if m AND AE_READABLE \<noteq> 0 then proc else rfileProc (events s ! nat fd)),
    wfileProc := (if m AND AE_WRITABLE \<noteq> 0 then proc else wfileProc (events s ! nat fd)),
    fclientData := cd\<rparr>"
  let ?s2 = "?s1\<lparr>events := (events s)[nat fd := fe], maxfd := max fd (maxfd s)\<rparr>"
  have bound: "fd < int (length (events s))" using at(2) assms(2) by linarith
  then have "event_at ?s1 fd = Some (events s ! nat fd)"
    using assms(2) by (simp add: event_at_def)
  then have res: "aeCreateFileEvent fd m proc cd s = Some (AE_OK, ?s2)"
    using lt add by (auto simp: aeCreateFileEvent_def Let_def fe_def mask_at_def set_event_def max_def)
  have mfe: "mask fe = ?old OR m" by (simp add: fe_def)
  have "top_used ((events s)[nat fd := fe]) (max fd (maxfd s))"
    using assms(1,2) lt n0 mfe at(2)
    unfolding ae_ok_def top_used_def by (auto simp: nth_list_update max_def)
  then have "ae_ok ?s2"
    by (rule ae_ok_update [OF assms(1,2) lt assms(4), rotated 1]) (use new n0 mfe ev in auto)
  moreover have "aeGetFileEvents fd ?s2 = Some (?old OR m)"
    using lt at(2) mfe assms(2) by (simp add: aeGetFileEvents_def event_at_def)
  ultimately show ?thesis using res ev at(2) by (auto simp: fe_def)
qed

text \<open>
  C38: \<open>aeCreateFileEvent\<close> fails exactly when the descriptor is beyond \<open>setsize\<close> or not open or the kernel
  refuses to watch it, and then leaves the loop as it was; otherwise it adds the wanted events to the mask
  of this descriptor and of no other, stores the handler for each of them, and the loop stays well formed:
  \<open>maxfd\<close> is again the greatest registered descriptor. The kernel then watches the descriptor, edge
  triggered, for input if reading alone is registered, and for output alone if writing is: what the two
  masks together should make it watch is lost.
\<close>

theorem aeCreateFileEvent_registers:
  assumes "ae_ok s" and "0 \<le> fd" and "m \<in> {1, 2, 3}"
  shows "if setsize s \<le> fd \<or> \<not> is_open s fd then aeCreateFileEvent fd m proc cd s = Some (AE_ERR, s)
    else if refuses s then aeCreateFileEvent fd m proc cd s = Some (AE_ERR, s\<lparr>ctl_refused := tl (ctl_refused s)\<rparr>)
    else \<exists>s'. aeCreateFileEvent fd m proc cd s = Some (AE_OK, s') \<and> ae_ok s' \<and>
      aeGetFileEvents fd s' = Some (mask_at s (nat fd) OR m) \<and>
      interest s' fd = Some ((if mask_at s (nat fd) OR m = AE_READABLE then EPOLLIN else EPOLLOUT) OR EPOLLET) \<and>
      maxfd s' = max fd (maxfd s) \<and>
      (m AND AE_READABLE \<noteq> 0 \<longrightarrow> rfileProc (events s' ! nat fd) = proc) \<and>
      (m AND AE_WRITABLE \<noteq> 0 \<longrightarrow> wfileProc (events s' ! nat fd) = proc) \<and> fclientData (events s' ! nat fd) = cd \<and>
      (\<forall>i. i \<noteq> nat fd \<longrightarrow> events s' ! i = events s ! i)"
proof (cases "setsize s \<le> fd")
  case True
  then show ?thesis by (simp add: aeCreateFileEvent_def)
next
  case False
  then have lt: "fd < setsize s" by simp
  have "mask_at s (nat fd) OR m \<noteq> AE_NONE"
    using mask_or_closed [OF ae_ok_at(1) [OF assms(1,2) lt] assms(3)] by (auto simp: AE_NONE_def)
  then have w: "watched (mask_at s (nat fd) OR m) = Some ((if mask_at s (nat fd) OR m = AE_READABLE then EPOLLIN else EPOLLOUT) OR EPOLLET)"
    by (simp add: watched_def)
  show ?thesis
    using False aeCreateFileEvent_refused [OF assms(1,2) lt] aeCreateFileEvent_accepted [OF assms(1,2) lt _ _ assms(3), of proc cd]
    unfolding w by auto
qed

definition fresh_loop :: "unit ae" where
  "fresh_loop = \<lparr>maxfd = - 1, setsize = 4, timeEventNextId = 0, lastTime = 100,
     events = replicate 4 \<lparr>mask = 0, rfileProc = 0, wfileProc = 0, fclientData = 0\<rparr>,
     fired = replicate 4 (0, 0), timers = [], stop = False, beforesleep = None,
     interest = Map.empty, ctl_refused = [], is_open = (\<lambda>_. True), polls = [], timeouts = [], mallocs = [],
     clock = (\<lambda>_. (100, 0)), ticks = 0, user = ()\<rparr>"

lemma fresh_loop_ok: "ae_ok fresh_loop"
  by (auto simp: ae_ok_def fresh_loop_def top_used_def mask_at_def)

lemma aeCreateFileEvent_registers_witness:
  "ae_ok fresh_loop \<and> (\<exists>s'. aeCreateFileEvent 2 1 7 0 fresh_loop = Some (AE_OK, s') \<and> ae_ok s' \<and>
     maxfd s' = 2 \<and> aeGetFileEvents 2 s' = Some 1 \<and> interest s' 2 = Some (EPOLLIN OR EPOLLET)) \<and>
   (\<exists>s'. aeCreateFileEvent 2 1 7 0 (fresh_loop\<lparr>ctl_refused := [True]\<rparr>) = Some (AE_ERR, s'))"
proof (intro conjI)
  show "\<exists>s'. aeCreateFileEvent 2 1 7 0 fresh_loop = Some (AE_OK, s') \<and> ae_ok s' \<and>
     maxfd s' = 2 \<and> aeGetFileEvents 2 s' = Some 1 \<and> interest s' 2 = Some (EPOLLIN OR EPOLLET)"
    using aeCreateFileEvent_registers [OF fresh_loop_ok, of 2 1 7 0]
    by (auto simp: fresh_loop_def mask_at_def refuses_def AE_READABLE_def)
  show "\<exists>s'. aeCreateFileEvent 2 1 7 0 (fresh_loop\<lparr>ctl_refused := [True]\<rparr>) = Some (AE_ERR, s')"
    using aeCreateFileEvent_registers [OF ae_ok_answered [OF fresh_loop_ok], of 2 1 "[True]" 7 0]
    by (auto simp: fresh_loop_def refuses_def)
qed (rule fresh_loop_ok)

lemma aeDeleteFileEvent_unregisters_ok:
  assumes "ae_ok s" and "0 \<le> fd" and "m \<in> {1, 2, 3}" and "\<not> refuses s"
  shows "\<exists>s'. aeDeleteFileEvent fd m s = Some s' \<and> ae_ok s' \<and>
    (if fd < setsize s then aeGetFileEvents fd s' = Some (mask_at s (nat fd) AND NOT m) else s' = s) \<and>
    (\<forall>i. i \<noteq> nat fd \<longrightarrow> events s' ! i = events s ! i)"
proof (cases "fd < setsize s")
  case False
  with assms(1) show ?thesis by (simp add: aeDeleteFileEvent_def)
next
  case lt: True
  note at = ae_ok_at [OF assms(1,2) lt]
  let ?old = "mask_at s (nat fd)"
  show ?thesis
  proof (cases "?old = 0")
    case True
    then show ?thesis
      using assms(1,2) lt at(2)
      by (intro exI [of _ s])
        (simp add: aeDeleteFileEvent_def aeGetFileEvents_def event_at_ok mask_at_def AE_NONE_def)
  next
    case False
    have new: "?old AND NOT m \<in> {0, 1, 2, 3}" by (rule mask_and_closed [OF at(1) assms(3)])
    have ints: "interest s fd \<noteq> None" using interest_iff [OF assms(1,2) lt] False by simp
    then have op: "is_open s fd" using assms(1) unfolding ae_ok_def by blast
    define fe where "fe = (events s ! nat fd)\<lparr>mask := ?old AND NOT m\<rparr>"
    let ?es = "(events s)[nat fd := fe]"
    let ?t = "if fd = maxfd s \<and> mask fe = 0 then last_used ?es (nat (maxfd s)) else maxfd s"
    define s2 where "s2 = s\<lparr>events := ?es, maxfd := ?t\<rparr>"
    let ?s3 = "s2\<lparr>ctl_refused := (if mask fe = 0 then ctl_refused s else tl (ctl_refused s)), interest := (interest s)(fd := watched (mask fe))\<rparr>"
    have mfe: "mask fe = ?old AND NOT m" by (simp add: fe_def)
    have ev: "watched (mask fe) = (if mask fe = 0 then None else Some (ee_events (mask fe)))"
      using ee_events_watched [of "mask fe"] new unfolding mfe by auto
    have bound: "fd < int (length (events s))" using at(2) assms(2) by linarith
    have s2: "event_at s2 fd = Some fe" "interest s2 = interest s" "is_open s2 = is_open s" "ctl_refused s2 = ctl_refused s"
      using bound assms(2) at(2) by (simp_all add: event_at_def s2_def)
    have r: "\<not> refuses s2" using assms(4) s2(4) by (simp add: refuses_def)
    have del: "aeApiDelEvent fd m s2 = Some ?s3"
      using op ints mask_ops_assoc(2) [OF at(1) assms(3)] unfolding ev
      by (simp add: aeApiDelEvent_def s2 r mfe epoll_ctl_def AE_NONE_def Let_def)
    have fe: "(events s ! nat fd)\<lparr>mask := mask (events s ! nat fd) AND NOT m\<rparr> = fe"
      by (simp add: fe_def mask_at_def)
    have eq: "(if fd = maxfd (set_event fd fe s) \<and> mask fe = AE_NONE
        then set_event fd fe s\<lparr>maxfd := last_used (events (set_event fd fe s)) (nat (maxfd (set_event fd fe s)))\<rparr>
        else set_event fd fe s) = s2"
      by (simp add: s2_def set_event_def AE_NONE_def)
    have cond: "\<not> setsize s \<le> fd" "mask (events s ! nat fd) \<noteq> AE_NONE"
      using lt False by (simp_all add: mask_at_def AE_NONE_def)
    have "aeDeleteFileEvent fd m s = aeApiDelEvent fd m s2"
      by (simp only: aeDeleteFileEvent_def event_at_ok [OF assms(1,2) lt] bind.bind_lunit Let_def
          fe eq cond if_False)
    with del have res: "aeDeleteFileEvent fd m s = Some ?s3" by simp
    have top: "top_used (events s) (maxfd s)" using assms(1) by (simp add: ae_ok_def)
    have "top_used ?es ?t"
    proof (cases "fd = maxfd s \<and> mask fe = 0")
      case True
      have "top_used ?es (last_used ?es (nat (maxfd s)))"
      proof (rule last_used_top)
        show "nat (maxfd s) \<le> length ?es" using top by (simp add: top_used_def nat_le_iff)
        show "mask (?es ! i) = 0" if "nat (maxfd s) \<le> i" "i < length ?es" for i
          using that True top assms(2) by (cases "i = nat fd") (auto simp: top_used_def nth_list_update)
      qed
      with True show ?thesis by simp
    next
      case keep: False
      have "mask (events s ! nat fd) \<noteq> 0" using False by (simp add: mask_at_def)
      with keep show ?thesis
        using top at(2) assms(2) by (auto simp: top_used_def nth_list_update split: if_splits)
    qed
    then have "ae_ok ?s3"
      by (rule ae_ok_update [OF assms(1,2) lt op, rotated 1]) (use new mfe in \<open>auto simp: s2_def\<close>)
    moreover have "aeGetFileEvents fd ?s3 = Some (?old AND NOT m)"
      using lt bound mfe assms(2) at(2) by (simp add: aeGetFileEvents_def event_at_def s2_def)
    moreover have "\<forall>i. i \<noteq> nat fd \<longrightarrow> events ?s3 ! i = events s ! i" by (simp add: s2_def)
    ultimately show ?thesis using res lt by auto
  qed
qed

text \<open>
  If the kernel does not refuse to change what it watches, whose answer is ignored,
  \<open>aeDeleteFileEvent\<close> removes the given events from the mask of one descriptor, never faults on
  a descriptor of the table, and keeps the loop well formed; when the mask becomes empty the kernel
  forgets the descriptor and \<open>maxfd\<close> drops to the next registered one.
\<close>

theorem aeDeleteFileEvent_unregisters:
  assumes "ae_ok s" and "0 \<le> fd" and "m \<in> {1, 2, 3}" and "\<not> refuses s"
  shows "\<exists>s'. aeDeleteFileEvent fd m s = Some s' \<and> ae_ok s' \<and>
    (if fd < setsize s then aeGetFileEvents fd s' = Some (mask_at s (nat fd) AND NOT m) else s' = s) \<and>
    (\<forall>i. i \<noteq> nat fd \<longrightarrow> events s' ! i = events s ! i)"
  using assms by (rule aeDeleteFileEvent_unregisters_ok)

definition loop_with_2 :: "unit ae" where
  "loop_with_2 = fresh_loop\<lparr>maxfd := 2, events := (events fresh_loop)[2 := \<lparr>mask = 1, rfileProc = 7,
     wfileProc = 0, fclientData = 0\<rparr>], interest := [2 \<mapsto> EPOLLIN OR EPOLLET]\<rparr>"

lemma loop_with_2_ok: "ae_ok loop_with_2"
  by (auto simp: ae_ok_def loop_with_2_def fresh_loop_def top_used_def mask_at_def nth_list_update
      watched_def ae_consts less_Suc_eq numeral_eq_Suc)

lemma aeDeleteFileEvent_unregisters_witness:
  "\<exists>s'. aeDeleteFileEvent 2 1 loop_with_2 = Some s' \<and> ae_ok s' \<and> aeGetFileEvents 2 s' = Some 0"
  using aeDeleteFileEvent_unregisters [OF loop_with_2_ok, of 2 1]
  by (auto simp: loop_with_2_def fresh_loop_def mask_at_def refuses_def)

text \<open>
  The masks are translated by assignment, not by OR: once a descriptor is registered for reading
  and for writing, the kernel watches it for writing only, and input is never reported.
\<close>

theorem aeApi_loses_EPOLLIN:
  assumes "ae_ok s" and "0 \<le> fd" "fd < setsize s" "is_open s fd" "\<not> refuses s" and "mask_at s (nat fd) = AE_READABLE"
  shows "\<exists>s'. aeCreateFileEvent fd AE_WRITABLE proc cd s = Some (AE_OK, s') \<and>
    aeGetFileEvents fd s' = Some (AE_READABLE OR AE_WRITABLE) \<and>
    interest s' fd = Some (EPOLLOUT OR EPOLLET) \<and> (EPOLLOUT OR EPOLLET) AND EPOLLIN = 0"
proof -
  have "AE_WRITABLE \<in> {1, 2, 3}" by (simp add: AE_WRITABLE_def)
  from aeCreateFileEvent_accepted [OF assms(1-5) this, of proc cd] show ?thesis
    unfolding assms(6) by (auto simp: watched_def ae_consts)
qed

lemma aeApi_loses_EPOLLIN_witness:
  "\<exists>s'. aeCreateFileEvent 2 AE_WRITABLE 8 0 loop_with_2 = Some (AE_OK, s') \<and>
    interest s' 2 = Some (EPOLLOUT OR EPOLLET)"
  using aeApi_loses_EPOLLIN [OF loop_with_2_ok, of 2 8 0]
  by (auto simp: loop_with_2_def fresh_loop_def mask_at_def AE_READABLE_def refuses_def)

lemma length_clear_masks [simp]: "length (clear_masks is es) = length es"
  by (induction "is" arbitrary: es) auto

lemma clear_masks_at:
  "i < length es \<Longrightarrow> mask (clear_masks is es ! i) = (if i \<in> set is then 0 else mask (es ! i))"
  by (induction "is" arbitrary: es) (auto simp: nth_list_update AE_NONE_def)

text \<open>
  \<open>aeResizeSetSize\<close> starts clearing at \<open>maxfd\<close> instead of the entry after it. Growing (or
  shrinking within bounds) forgets the mask of the highest registered descriptor while the kernel
  keeps reporting it and \<open>maxfd\<close> keeps naming it; with nothing registered it writes before the
  table.
\<close>

theorem aeResizeSetSize_clobbers:
  assumes "ae_ok s" and "n \<noteq> setsize s" "maxfd s < n"
  shows "if maxfd s = - 1 then aeResizeSetSize ok True junk n ees s = None
    else \<exists>ees' s'. aeResizeSetSize ok True junk n ees s = Some (AE_OK, ees', s') \<and> mask_at s (nat (maxfd s)) \<noteq> 0 \<and>
      aeGetFileEvents (maxfd s) s' = Some 0 \<and> interest s' (maxfd s) \<noteq> None \<and> maxfd s' = maxfd s \<and>
      \<not> ae_ok s'"
proof (cases "maxfd s = - 1")
  case True
  then show ?thesis using assms by (simp add: aeResizeSetSize_def aeApiResize_def)
next
  case False
  let ?t = "maxfd s"
  have top: "top_used (events s) ?t" and len: "int (length (events s)) = setsize s"
    using assms(1) by (simp_all add: ae_ok_def)
  then have t: "0 \<le> ?t" "?t < setsize s" "mask_at s (nat ?t) \<noteq> 0"
    using False by (auto simp: top_used_def mask_at_def)
  have int: "interest s ?t \<noteq> None" using interest_iff [OF assms(1) t(1,2)] t(3) by simp
  define es where "es = map (\<lambda>i. if i < length (events s) then events s ! i else junk i) [0..<nat n]"
  let ?s' = "s\<lparr>setsize := n, events := clear_masks [nat ?t..<nat n] es\<rparr>"
  have res: "\<exists>ees'. aeResizeSetSize ok True junk n ees s = Some (AE_OK, ees', ?s')"
    using assms(2,3) t(1) by (simp add: aeResizeSetSize_def aeApiResize_def es_def)
  have lt: "nat ?t < length es" using assms(3) t(1) by (simp add: es_def)
  then have m0: "mask (clear_masks [nat ?t..<nat n] es ! nat ?t) = 0"
    using assms(3) t(1) by (simp add: clear_masks_at)
  have "aeGetFileEvents ?t ?s' = Some 0"
    using assms(3) t(1) lt m0 by (auto simp: aeGetFileEvents_def event_at_def)
  moreover have "\<not> ae_ok ?s'"
    using m0 False by (auto simp: ae_ok_def top_used_def)
  ultimately show ?thesis using False res t(3) int by auto
qed

lemma aeResizeSetSize_clobbers_witness:
  "aeResizeSetSize True True (\<lambda>_. \<lparr>mask = 0, rfileProc = 0, wfileProc = 0, fclientData = 0\<rparr>) 8 None fresh_loop = None"
  using aeResizeSetSize_clobbers [OF fresh_loop_ok, of 8] by (simp add: fresh_loop_def)

text \<open>The table of fired events keeps its size: after growing the loop, a poll that reports more events than the
  loop had room for at first writes past that table.\<close>
theorem grown_loop_overflows_fired:
  assumes "aeResizeSetSize ok_ees ok_ev junk n ees s = Some (AE_OK, ees', s')" and "polls s = evs # later"
    and "length (fired s) < length evs" "int (length evs) \<le> n" "n \<noteq> setsize s"
  shows "aeApiPoll tvp s' = None"
proof -
  have s': "polls s' = polls s" "fired s' = fired s" "setsize s' = n"
    using assms(1,5) by (auto simp: aeResizeSetSize_def aeApiResize_def AE_OK_def AE_ERR_def Let_def split: if_splits)
  have over: "store_fired j es f = None" if "j \<le> length f" "length f < j + length es" for j es and f :: "(int \<times> u32) list"
    using that
  proof (induction j es f rule: store_fired.induct)
    case (2 j fd ev es f)
    then show ?case by auto
  qed simp
  have "store_fired 0 evs (fired s') = None" by (rule over) (use assms(3) s' in simp_all)
  then show ?thesis using assms(2,4) s' by (simp add: aeApiPoll_def Let_def)
qed

theorem grown_loop_overflows_fired_witness:
  "\<exists>ees s'. aeResizeSetSize True True (\<lambda>_. \<lparr>mask = 0, rfileProc = 0, wfileProc = 0, fclientData = 0\<rparr>) 8 None
      (fresh_loop\<lparr>maxfd := 0, fired := [(0, 0)], polls := [[(0, 1), (1, 1)]]\<rparr>) = Some (AE_OK, ees, s') \<and> aeApiPoll None s' = None"
proof -
  obtain ees s' where r: "aeResizeSetSize True True (\<lambda>_. \<lparr>mask = 0, rfileProc = 0, wfileProc = 0, fclientData = 0\<rparr>) 8 None
      (fresh_loop\<lparr>maxfd := 0, fired := [(0, 0)], polls := [[(0, 1), (1, 1)]]\<rparr>) = Some (AE_OK, ees, s')"
    by (simp add: aeResizeSetSize_def aeApiResize_def fresh_loop_def)
  have "aeApiPoll None s' = None" by (rule grown_loop_overflows_fired [OF r, of "[(0, 1), (1, 1)]" "[]"]) (simp_all add: fresh_loop_def)
  with r show ?thesis by blast
qed

text \<open>Making and deleting a loop keeps the books: a failed creation leaves nothing behind, except that it is undefined
  when the event table cannot be allocated, and deleting frees each resource exactly once.\<close>
theorem event_loop_resources:
  "(aeCreateEventLoop ok_loop ok_ev ok_fired ok_state ok_ees ok_epoll n junk junkf env = None \<longleftrightarrow> ok_loop \<and> \<not> ok_ev) \<and>
   (\<forall>r B. aeCreateEventLoop ok_loop ok_ev ok_fired ok_state ok_ees ok_epoll n junk junkf env = Some (r, B) \<longrightarrow>
     (r = None \<longrightarrow> B = {}) \<and> (r \<noteq> None \<longrightarrow> aeDeleteEventLoop B = Some {}))"
  by (auto simp: aeCreateEventLoop_def aeApiCreate_def aeDeleteEventLoop_def aeApiFree_def free_resource_def Let_def)

theorem event_loop_resources_witness:
  "aeCreateEventLoop True True True True False True 4 (\<lambda>_. \<lparr>mask = 0, rfileProc = 0, wfileProc = 0, fclientData = 0\<rparr>) (\<lambda>_. (0, 0)) fresh_loop = Some (None, {}) \<and>
   (\<exists>r B. aeCreateEventLoop True True True True True True 4 (\<lambda>_. \<lparr>mask = 0, rfileProc = 0, wfileProc = 0, fclientData = 0\<rparr>) (\<lambda>_. (0, 0)) fresh_loop = Some (Some r, B) \<and> aeDeleteEventLoop B = Some {})"
  using event_loop_resources [of True True True True False True 4 "(\<lambda>_. \<lparr>mask = 0, rfileProc = 0, wfileProc = 0, fclientData = 0\<rparr>)" "(\<lambda>_. (0, 0))" fresh_loop]
    event_loop_resources [of True True True True True True 4 "(\<lambda>_. \<lparr>mask = 0, rfileProc = 0, wfileProc = 0, fclientData = 0\<rparr>)" "(\<lambda>_. (0, 0))" fresh_loop]
  by (cases "aeCreateEventLoop True True True True False True 4 (\<lambda>_. \<lparr>mask = 0, rfileProc = 0, wfileProc = 0, fclientData = 0\<rparr>) (\<lambda>_. (0, 0)) fresh_loop";
      cases "aeCreateEventLoop True True True True True True 4 (\<lambda>_. \<lparr>mask = 0, rfileProc = 0, wfileProc = 0, fclientData = 0\<rparr>) (\<lambda>_. (0, 0)) fresh_loop")
    (auto simp: aeCreateEventLoop_def aeApiCreate_def free_resource_def Let_def split: if_splits)

section \<open>Timers\<close>

definition millis :: "int \<times> int \<Rightarrow> int" where
  "millis t = 1000 * fst t + snd t"

definition expiry :: "aeTimeEvent \<Rightarrow> int \<times> int" where
  "expiry te = (when_sec te, when_ms te)"

lemma due_expiry: "due now te \<longleftrightarrow> fst now > fst (expiry te) \<or> (fst now = fst (expiry te) \<and> snd now > snd (expiry te))"
  by (simp add: due_def expiry_def)

lemma earlier_millis:
  assumes "0 \<le> when_ms a" "when_ms a < 1000" "0 \<le> when_ms b" "when_ms b < 1000"
  shows "earlier a b \<longleftrightarrow> millis (expiry a) < millis (expiry b)"
proof -
  have "when_sec a = when_sec b \<or> when_sec a + 1 \<le> when_sec b \<or> when_sec b + 1 \<le> when_sec a" by linarith
  with assms show ?thesis by (auto simp: earlier_def millis_def expiry_def)
qed

lemma nearest_loop_min:
  assumes "\<forall>(a, te)\<in>set ts. 0 \<le> when_ms te \<and> when_ms te < 1000"
    and "\<forall>x. n = Some x \<longrightarrow> 0 \<le> when_ms x \<and> when_ms x < 1000"
  shows "case nearest_loop n ts of
      None \<Rightarrow> n = None \<and> ts = []
    | Some te \<Rightarrow> (n = Some te \<or> te \<in> snd ` set ts) \<and>
        (\<forall>x. n = Some x \<longrightarrow> millis (expiry te) \<le> millis (expiry x)) \<and>
        (\<forall>x\<in>snd ` set ts. millis (expiry te) \<le> millis (expiry x))"
  using assms
proof (induction n ts rule: nearest_loop.induct)
  case (1 n)
  then show ?case by (auto split: option.splits)
next
  case (2 n a te ts)
  let ?n = "case n of None \<Rightarrow> Some te | Some x \<Rightarrow> if earlier te x then Some te else n"
  have te: "0 \<le> when_ms te" "when_ms te < 1000" using 2(2) by auto
  have "\<forall>x. ?n = Some x \<longrightarrow> 0 \<le> when_ms x \<and> when_ms x < 1000"
    using 2(3) te by (auto split: option.splits if_splits)
  with 2 have IH: "case nearest_loop ?n ts of
      None \<Rightarrow> ?n = None \<and> ts = []
    | Some te \<Rightarrow> (?n = Some te \<or> te \<in> snd ` set ts) \<and>
        (\<forall>x. ?n = Some x \<longrightarrow> millis (expiry te) \<le> millis (expiry x)) \<and>
        (\<forall>x\<in>snd ` set ts. millis (expiry te) \<le> millis (expiry x))" by auto
  have "\<exists>y. ?n = Some y \<and> millis (expiry y) \<le> millis (expiry te) \<and>
    (\<forall>x. n = Some x \<longrightarrow> millis (expiry y) \<le> millis (expiry x)) \<and> (y = te \<or> n = Some y)"
  proof (cases n)
    case (Some x)
    then have "earlier te x \<longleftrightarrow> millis (expiry te) < millis (expiry x)"
      using 2(3) te by (intro earlier_millis) auto
    with Some show ?thesis by auto
  qed simp
  then obtain y where y: "?n = Some y" "millis (expiry y) \<le> millis (expiry te)"
    "\<forall>x. n = Some x \<longrightarrow> millis (expiry y) \<le> millis (expiry x)" "y = te \<or> n = Some y" by blast
  from IH y(1) obtain t where t: "nearest_loop ?n ts = Some t" "t = y \<or> t \<in> snd ` set ts"
    "millis (expiry t) \<le> millis (expiry y)" "\<forall>x\<in>snd ` set ts. millis (expiry t) \<le> millis (expiry x)"
    by (cases "nearest_loop ?n ts") auto
  have "nearest_loop n ((a, te) # ts) = Some t" using t(1) by simp
  moreover have "n = Some t \<or> t \<in> snd ` set ((a, te) # ts)" using t(2) y(4) by auto
  moreover have "\<forall>x. n = Some x \<longrightarrow> millis (expiry t) \<le> millis (expiry x)"
    using t(3) y(3) by (metis order_trans)
  moreover have "\<forall>x\<in>snd ` set ((a, te) # ts). millis (expiry t) \<le> millis (expiry x)"
    using t(3,4) y(2) by auto
  ultimately show ?case by simp
qed

text \<open>The timeout in milliseconds, before the truncation to \<open>int\<close>.\<close>

lemma wait_time_millis:
  assumes "0 \<le> when_ms te" "when_ms te < 1000" "0 \<le> snd now" "snd now < 1000"
    and "wait_time te now = (sec, usec)"
  shows "0 \<le> sec" "0 \<le> usec" "usec < 1000000" "usec mod 1000 = 0"
    "sec * 1000 + usec div 1000 = (if millis now \<le> millis (expiry te) then millis (expiry te) - millis now
      else (millis (expiry te) - millis now) mod 1000)"
proof -
  let ?d = "when_ms te - snd now" and ?k = "when_sec te - fst now"
  have diff: "millis (expiry te) - millis now = 1000 * ?k + ?d"
    by (simp add: millis_def expiry_def algebra_simps)
  have "(1000 * ?k + ?d) mod 1000 = ?d mod 1000" by (metis add.commute mod_mult_self2)
  moreover have "?d mod 1000 = (if ?d < 0 then ?d + 1000 else ?d)"
  proof (cases "?d < 0")
    case True
    have "?d mod 1000 = (?d + 1000) mod 1000" by simp
    also have "\<dots> = ?d + 1000" using True assms by (intro mod_pos_pos_trivial) simp_all
    finally show ?thesis using True by simp
  next
    case False
    then show ?thesis using assms by (intro trans [OF mod_pos_pos_trivial]) simp_all
  qed
  ultimately have m: "(1000 * ?k + ?d) mod 1000 = (if ?d < 0 then ?d + 1000 else ?d)" by simp
  have le: "millis now \<le> millis (expiry te) \<longleftrightarrow> 0 \<le> 1000 * ?k + ?d" using diff by linarith
  show "0 \<le> sec" "0 \<le> usec" "usec < 1000000" "usec mod 1000 = 0"
    "sec * 1000 + usec div 1000 = (if millis now \<le> millis (expiry te) then millis (expiry te) - millis now
      else (millis (expiry te) - millis now) mod 1000)"
    unfolding le diff m using assms by (auto simp: wait_time_def Let_def split: if_splits)
qed

text \<open>
  The poll of an iteration sleeps for the number of milliseconds to the earliest timer, cut to a
  C \<open>int\<close>. When that timer is already overdue the code clears the negative seconds but keeps
  the microseconds, and sleeps for the difference modulo one second: up to 999 ms too long.
\<close>

theorem poll_until_nearest_timer:
  assumes "timers s \<noteq> []" and "\<forall>(a, te)\<in>set (timers s). 0 \<le> when_ms te \<and> when_ms te < 1000"
    and "0 \<le> snd now" "snd now < 1000"
  shows "\<exists>te. aeSearchNearestTimer s = Some te \<and> te \<in> snd ` set (timers s) \<and>
    (\<forall>x\<in>snd ` set (timers s). millis (expiry te) \<le> millis (expiry x)) \<and>
    (\<forall>n s'. aeApiPoll (Some (wait_time te now)) s = Some (n, s') \<longrightarrow> timeouts s' = timeouts s @
      [sint (word_of_int (if millis now \<le> millis (expiry te) then millis (expiry te) - millis now
        else (millis (expiry te) - millis now) mod 1000) :: 32 word)])"
proof -
  from nearest_loop_min [OF assms(2), of None] assms(1)
  obtain te where te: "aeSearchNearestTimer s = Some te" "te \<in> snd ` set (timers s)"
    "\<forall>x\<in>snd ` set (timers s). millis (expiry te) \<le> millis (expiry x)"
    by (auto simp: aeSearchNearestTimer_def split: option.splits)
  then have ms: "0 \<le> when_ms te" "when_ms te < 1000" using assms(2) by auto
  obtain sec usec where w: "wait_time te now = (sec, usec)" by (cases "wait_time te now")
  note wt = wait_time_millis [OF ms assms(3,4) w]
  have "usec sdiv 1000 = usec div 1000"
    using wt(2) by (cases "usec = 0") (simp_all add: signed_divide_int_def)
  then have "timeouts s' = timeouts s @ [sint (word_of_int (sec * 1000 + usec div 1000) :: 32 word)]"
    if "aeApiPoll (Some (wait_time te now)) s = Some (n, s')" for n s'
    using that w by (auto simp: aeApiPoll_def Let_def split: bind_splits)
  with te wt(5) show ?thesis by auto
qed

definition overdue :: aeTimeEvent where
  "overdue = \<lparr>tid = 0, when_sec = 100, when_ms = 4, timeProc = 0, finalizerProc = None, tclientData = 0\<rparr>"

lemma poll_until_nearest_timer_witness:
  "\<exists>n s'. aeApiPoll (Some (wait_time overdue (100, 5))) (fresh_loop\<lparr>timers := [(1, overdue)]\<rparr>) = Some (n, s') \<and>
    timeouts s' = [999]"
proof -
  let ?s = "fresh_loop\<lparr>timers := [(1, overdue)]\<rparr>"
  obtain n s' where r: "aeApiPoll (Some (wait_time overdue (100, 5))) ?s = Some (n, s')"
    by (simp add: aeApiPoll_def fresh_loop_def)
  from poll_until_nearest_timer [of ?s "(100, 5)"] r show ?thesis
    by (simp add: millis_def expiry_def fresh_loop_def overdue_def)
qed

text \<open>One pass over the timers while the clock stands still, with callbacks that only touch \<open>user\<close>.\<close>

definition plus_ms :: "int \<times> int \<Rightarrow> int \<Rightarrow> int \<times> int" where
  "plus_ms now r = (
     let sec = fst now + r sdiv 1000; ms = snd now + r smod 1000
     in if ms \<ge> 1000 then (sec + 1, ms - 1000) else (sec, ms))"

definition fires :: "int \<Rightarrow> int \<times> int \<Rightarrow> aeTimeEvent \<Rightarrow> bool" where
  "fires maxId now te \<longleftrightarrow> tid te \<le> maxId \<and> due now te"

definition after_pass ::
  "int \<Rightarrow> int \<times> int \<Rightarrow> (aeTimeEvent \<Rightarrow> int) \<Rightarrow> (nat \<times> aeTimeEvent) list \<Rightarrow> (nat \<times> aeTimeEvent) list" where
  "after_pass maxId now R ts = concat (map (\<lambda>(a, te).
     if fires maxId now te then
       (if R te = AE_NOMORE then []
        else [(a, te\<lparr>when_sec := fst (plus_ms now (R te)), when_ms := snd (plus_ms now (R te))\<rparr>)])
     else [(a, te)]) ts)"

definition simple_procs :: "'u procs \<Rightarrow> (aeTimeEvent \<Rightarrow> int) \<Rightarrow> (aeTimeEvent \<Rightarrow> 'u \<Rightarrow> 'u) \<Rightarrow> aeTimeEvent \<Rightarrow> bool" where
  "simple_procs P R U te \<longleftrightarrow>
     (\<forall>s. tproc P (timeProc te) s (tid te) (tclientData te) = Some (R te, s\<lparr>user := U te (user s)\<rparr>)) \<and>
     (R te = AE_NOMORE \<or> 0 \<le> R te) \<and>
     (\<forall>f s. finalizerProc te = Some f \<longrightarrow> finproc P f s (tclientData te) = Some s)"

lemma plus_ms_not_due:
  assumes "0 \<le> r"
  shows "\<not> due now (te\<lparr>when_sec := fst (plus_ms now r), when_ms := snd (plus_ms now r)\<rparr>)"
proof -
  have "r sdiv 1000 = r div 1000" "r smod 1000 = r mod 1000"
    using assms by (cases "r = 0"; simp add: signed_divide_int_def signed_modulo_int_def minus_div_mult_eq_mod)+
  moreover have "0 \<le> r div 1000" "0 \<le> r mod 1000" using assms by simp_all
  ultimately show ?thesis by (auto simp: due_def plus_ms_def Let_def)
qed

lemma unlink_timer_at:
  "tid te \<notin> (\<lambda>t. tid (snd t)) ` set ds \<Longrightarrow> unlink_timer (tid te) (ds @ (a, te) # rest) = Some (te, ds @ rest)"
  by (induction ds) auto

lemma time_scan_skip:
  assumes "clock s = (\<lambda>_. now)" and "\<forall>(a, te)\<in>set ds. \<not> fires maxId now te"
  shows "\<exists>k. time_scan P maxId (ds @ rest) n s = time_scan P maxId rest n (s\<lparr>ticks := ticks s + k\<rparr>)"
  using assms
proof (induction ds arbitrary: s)
  case Nil
  show ?case by (rule exI [of _ 0]) simp
next
  case (Cons d ds)
  obtain a te where d: "d = (a, te)" by (cases d)
  have nf: "\<not> fires maxId now te" using Cons.prems(2) d by auto
  show ?case
  proof (cases "tid te > maxId")
    case True
    with Cons.IH [of s] Cons.prems d show ?thesis
      by (subst time_scan.simps) simp
  next
    case False
    then have "\<not> due now te" using nf by (simp add: fires_def)
    with False have "time_scan P maxId ((d # ds) @ rest) n s =
      time_scan P maxId (ds @ rest) n (s\<lparr>ticks := ticks s + 1\<rparr>)"
      using d Cons.prems(1) by (subst time_scan.simps) (simp add: aeGetTime_def)
    moreover from Cons.IH [of "s\<lparr>ticks := ticks s + 1\<rparr>"] Cons.prems obtain k where
      "time_scan P maxId (ds @ rest) n (s\<lparr>ticks := ticks s + 1\<rparr>) =
       time_scan P maxId rest n (s\<lparr>ticks := ticks s + 1 + k\<rparr>)" by auto
    ultimately show ?thesis by (intro exI [of _ "1 + k"]) (simp add: add.assoc)
  qed
qed

lemma time_scan_frozen:
  assumes "clock s = (\<lambda>_. now)" and "timers s = ds @ ts"
    and "\<forall>(a, te)\<in>set ds. \<not> fires maxId now te"
    and "\<forall>(a, te)\<in>set ts. simple_procs P R U te"
    and "distinct (map fst (timers s))" "distinct (map (\<lambda>t. tid (snd t)) (timers s))"
  shows "\<exists>k. time_scan P maxId ts n s =
    Some (n + int (length (filter (fires maxId now \<circ> snd) ts)),
      s\<lparr>timers := ds @ after_pass maxId now R ts, ticks := k,
        user := fold (\<lambda>(a, te). U te) (filter (fires maxId now \<circ> snd) ts) (user s)\<rparr>)"
  using assms
proof (induction ts arbitrary: s ds n)
  case Nil
  then have ds: "ds = timers s" by simp
  show ?case
    by (rule exI [of _ "ticks s"], subst time_scan.simps) (simp add: after_pass_def ds)
next
  case (Cons t ts)
  obtain a te where t: "t = (a, te)" by (cases t)
  show ?case
  proof (cases "fires maxId now te")
    case False
    from time_scan_skip [of s now "[t]" maxId P ts n] Cons.prems(1) False t obtain k where
      k: "time_scan P maxId (t # ts) n s = time_scan P maxId ts n (s\<lparr>ticks := ticks s + k\<rparr>)" by auto
    have "\<exists>k'. time_scan P maxId ts n (s\<lparr>ticks := ticks s + k\<rparr>) =
      Some (n + int (length (filter (fires maxId now \<circ> snd) ts)),
        s\<lparr>ticks := ticks s + k\<rparr>\<lparr>timers := (ds @ [t]) @ after_pass maxId now R ts, ticks := k',
          user := fold (\<lambda>(a, te). U te) (filter (fires maxId now \<circ> snd) ts)
            (user (s\<lparr>ticks := ticks s + k\<rparr>))\<rparr>)"
      by (rule Cons.IH) (use Cons.prems False t in simp_all)
    then obtain k' where k': "time_scan P maxId (t # ts) n s =
      Some (n + int (length (filter (fires maxId now \<circ> snd) ts)),
        s\<lparr>timers := (ds @ [t]) @ after_pass maxId now R ts, ticks := k',
          user := fold (\<lambda>(a, te). U te) (filter (fires maxId now \<circ> snd) ts) (user s)\<rparr>)"
      unfolding k by auto
    have "after_pass maxId now R (t # ts) = t # after_pass maxId now R ts"
      using False t by (simp add: after_pass_def)
    moreover have "filter (fires maxId now \<circ> snd) (t # ts) = filter (fires maxId now \<circ> snd) ts"
      using False t by simp
    ultimately show ?thesis by (intro exI [of _ k']) (simp only: k' append.assoc append.simps)
  next
    case True
    then have id: "\<not> tid te > maxId" and due: "due now te" by (auto simp: fires_def)
    have sp: "simple_procs P R U te" using Cons.prems(4) t by auto
    define s1 where "s1 = s\<lparr>ticks := ticks s + 1, user := U te (user s)\<rparr>"
    have call: "tproc P (timeProc te) (s\<lparr>ticks := ticks s + 1\<rparr>) (tid te) (tclientData te) = Some (R te, s1)"
      using sp by (simp add: simple_procs_def s1_def)
    have tim: "timers s1 = ds @ (a, te) # ts" using Cons.prems(2) t by (simp add: s1_def)
    define new where "new = after_pass maxId now R [t]"
    have ids: "tid te \<notin> (\<lambda>t. tid (snd t)) ` set ds" "a \<notin> fst ` set ds" "a \<notin> fst ` set ts"
      using Cons.prems(2,5,6) t by auto
    have "\<exists>k. (if R te \<noteq> AE_NOMORE
        then (case aeAddMillisecondsToNow (R te) s1 of (w, s) \<Rightarrow> retime a w s)
        else map_option snd (aeDeleteTimeEvent P (tid te) s1)) =
      Some (s1\<lparr>timers := ds @ new @ ts, ticks := k\<rparr>)"
    proof (cases "R te = AE_NOMORE")
      case True
      have "aeDeleteTimeEvent P (tid te) s1 = Some (AE_OK, s1\<lparr>timers := ds @ ts\<rparr>)"
        using sp tim unlink_timer_at [OF ids(1), of a ts]
        by (cases "finalizerProc te") (simp_all add: aeDeleteTimeEvent_def simple_procs_def Let_def)
      with True \<open>fires maxId now te\<close> show ?thesis
        by (auto simp: new_def after_pass_def t intro!: exI [of _ "ticks s1"])
    next
      case False
      have "aeAddMillisecondsToNow (R te) s1 = (plus_ms now (R te), s1\<lparr>ticks := ticks s1 + 1\<rparr>)"
        using Cons.prems(1) by (simp add: aeAddMillisecondsToNow_def aeGetTime_def s1_def plus_ms_def Let_def
            split: prod.split)
      moreover have "map (\<lambda>(b, te). (b, if b = a then te\<lparr>when_sec := x, when_ms := y\<rparr> else te)) zs = zs"
        if "a \<notin> fst ` set zs" for x y and zs :: "(nat \<times> aeTimeEvent) list"
        using that by (induction zs) auto
      ultimately show ?thesis
        using False \<open>fires maxId now te\<close> ids(2,3) tim
        by (auto simp: retime_def new_def after_pass_def t intro!: exI [of _ "ticks s1 + 1"])
    qed
    then obtain k1 where k1: "(if R te \<noteq> AE_NOMORE
        then (case aeAddMillisecondsToNow (R te) s1 of (w, s) \<Rightarrow> retime a w s)
        else map_option snd (aeDeleteTimeEvent P (tid te) s1)) =
      Some (s1\<lparr>timers := ds @ new @ ts, ticks := k1\<rparr>)" by blast
    define s2 where "s2 = s1\<lparr>timers := ds @ new @ ts, ticks := k1\<rparr>"
    have step: "time_scan P maxId (t # ts) n s = time_scan P maxId (timers s2) (n + 1) s2"
      using id due Cons.prems(1) call k1 t
      by (subst time_scan.simps) (simp add: aeGetTime_def s2_def)
    have nf: "\<forall>(a, te)\<in>set (ds @ new). \<not> fires maxId now te"
    proof -
      have "\<not> fires maxId now (te\<lparr>when_sec := fst (plus_ms now (R te)), when_ms := snd (plus_ms now (R te))\<rparr>)"
        if "R te \<noteq> AE_NOMORE"
        using that sp plus_ms_not_due [of "R te" now te] by (simp add: fires_def simple_procs_def)
      with Cons.prems(3) True show ?thesis by (auto simp: new_def after_pass_def t)
    qed
    have s2: "clock s2 = (\<lambda>_. now)" "timers s2 = (ds @ new) @ ts" "user s2 = U te (user s)"
      using Cons.prems(1) by (simp_all add: s2_def s1_def)
    from time_scan_skip [OF s2(1) nf, of P ts "n + 1"] obtain k where
      "time_scan P maxId (timers s2) (n + 1) s2 = time_scan P maxId ts (n + 1) (s2\<lparr>ticks := ticks s2 + k\<rparr>)"
      unfolding s2(2) by (elim exE) (use that in blast)
    then obtain k2 where
      k2: "time_scan P maxId (timers s2) (n + 1) s2 = time_scan P maxId ts (n + 1) (s2\<lparr>ticks := k2\<rparr>)"
      by (elim that)
    have sub: "distinct (map fst (timers s2))" "distinct (map (\<lambda>t. tid (snd t)) (timers s2))"
      using Cons.prems(2,5,6) t by (auto simp: s2(2) new_def after_pass_def)
    have "\<exists>k. time_scan P maxId ts (n + 1) (s2\<lparr>ticks := k2\<rparr>) =
      Some (n + 1 + int (length (filter (fires maxId now \<circ> snd) ts)),
        s2\<lparr>ticks := k2\<rparr>\<lparr>timers := (ds @ new) @ after_pass maxId now R ts, ticks := k,
          user := fold (\<lambda>(a, te). U te) (filter (fires maxId now \<circ> snd) ts)
            (user (s2\<lparr>ticks := k2\<rparr>))\<rparr>)"
      by (rule Cons.IH) (use s2 sub nf Cons.prems(4) in simp_all)
    then obtain k where k: "time_scan P maxId (t # ts) n s =
      Some (n + 1 + int (length (filter (fires maxId now \<circ> snd) ts)),
        s\<lparr>timers := (ds @ new) @ after_pass maxId now R ts, ticks := k,
          user := fold (\<lambda>(a, te). U te) (filter (fires maxId now \<circ> snd) ts) (U te (user s))\<rparr>)"
      unfolding step k2 by (auto simp: s2_def s1_def)
    have f1: "after_pass maxId now R (t # ts) = new @ after_pass maxId now R ts"
      by (simp add: new_def after_pass_def)
    have f2: "filter (fires maxId now \<circ> snd) (t # ts) = t # filter (fires maxId now \<circ> snd) ts"
      using True t by simp
    show ?thesis
      by (rule exI [of _ k], unfold k f1 f2) (simp add: t)
  qed
qed

text \<open>
  C39: a pass of \<open>processTimeEvents\<close>, while the clock stands still and for callbacks that leave the
  loop itself alone, ends, calls every timer that is due exactly once and in list order, deletes
  those whose callback returned \<open>AE_NOMORE\<close>, moves the others to that many milliseconds from now,
  and leaves the timers that are not due untouched; the result is the number of calls. (A clock
  set back since the last pass makes every timer due at second 0 first.)
\<close>

theorem processTimeEvents_pass:
  assumes "clock s = (\<lambda>_. now)" and "lastTime s \<le> fst now"
    and "\<forall>(a, te)\<in>set (timers s). simple_procs P R U te \<and> tid te < timeEventNextId s"
    and "distinct (map fst (timers s))" "distinct (map (\<lambda>t. tid (snd t)) (timers s))"
  shows "\<exists>k. processTimeEvents P s =
    Some (int (length (filter (\<lambda>t. due now (snd t)) (timers s))),
      s\<lparr>lastTime := fst now, timers := after_pass (timeEventNextId s - 1) now R (timers s),
        ticks := k, user := fold (\<lambda>(a, te). U te) (filter (\<lambda>t. due now (snd t)) (timers s)) (user s)\<rparr>)"
proof -
  let ?s = "s\<lparr>ticks := ticks s + 1, lastTime := fst now\<rparr>"
  let ?m = "timeEventNextId s - 1"
  have "filter (fires ?m now \<circ> snd) (timers s) = filter (\<lambda>t. due now (snd t)) (timers s)"
    using assms(3) by (intro filter_cong) (auto simp: fires_def)
  moreover have "\<exists>k. time_scan P ?m (timers s) 0 ?s =
    Some (0 + int (length (filter (fires ?m now \<circ> snd) (timers s))),
      ?s\<lparr>timers := [] @ after_pass ?m now R (timers s), ticks := k,
        user := fold (\<lambda>(a, te). U te) (filter (fires ?m now \<circ> snd) (timers s)) (user ?s)\<rparr>)"
    by (rule time_scan_frozen) (use assms in auto)
  moreover have "processTimeEvents P s = time_scan P ?m (timers s) 0 ?s"
    using assms(1,2) by (simp add: processTimeEvents_def Let_def)
  ultimately show ?thesis by auto
qed

text \<open>A due timer that runs every 20 ms and logs its calls.\<close>

definition log_procs :: "nat list procs" where
  "log_procs = \<lparr>fproc = (\<lambda>f s fd c m. Some (s\<lparr>user := user s @ [f]\<rparr>)),
     tproc = (\<lambda>f s i c. Some (20, s\<lparr>user := user s @ [f]\<rparr>)),
     finproc = (\<lambda>f s c. Some s), bsproc = (\<lambda>f s. Some s)\<rparr>"

definition log_loop :: "nat list ae" where
  "log_loop = \<lparr>maxfd = 2, setsize = 4, timeEventNextId = 1, lastTime = 100,
     events = [\<lparr>mask = 0, rfileProc = 0, wfileProc = 0, fclientData = 0\<rparr>,
       \<lparr>mask = 0, rfileProc = 0, wfileProc = 0, fclientData = 0\<rparr>,
       \<lparr>mask = 3, rfileProc = 7, wfileProc = 8, fclientData = 0\<rparr>,
       \<lparr>mask = 0, rfileProc = 0, wfileProc = 0, fclientData = 0\<rparr>],
     fired = [(2, 3), (0, 0), (0, 0), (0, 0)],
     timers = [(64, \<lparr>tid = 0, when_sec = 99, when_ms = 0, timeProc = 5, finalizerProc = None,
       tclientData = 0\<rparr>)], stop = False, beforesleep = None,
     interest = [2 \<mapsto> EPOLLOUT OR EPOLLET], ctl_refused = [], is_open = (\<lambda>_. True), polls = [], timeouts = [], mallocs = [],
     clock = (\<lambda>_. (100, 990)), ticks = 0, user = []\<rparr>"

lemma processTimeEvents_pass_witness:
  "\<exists>k. processTimeEvents log_procs log_loop = Some (1, log_loop\<lparr>ticks := k, user := [5],
     timers := [(64, \<lparr>tid = 0, when_sec = 101, when_ms = 10, timeProc = 5, finalizerProc = None,
       tclientData = 0\<rparr>)]\<rparr>)"
  using processTimeEvents_pass [of log_loop "(100, 990)" log_procs "\<lambda>_. 20" "\<lambda>te u. u @ [timeProc te]"]
  by (simp add: log_loop_def log_procs_def simple_procs_def due_def after_pass_def fires_def
      plus_ms_def AE_NOMORE_def signed_divide_int_def signed_modulo_int_def)

text \<open>
  A callback that deletes its own timer and then returns a new period makes the loop write to
  the freed timer.
\<close>

theorem self_deleting_timer_faults:
  assumes "timers s = [(a, te)]" and "tid te < timeEventNextId s" and "due (clock s (ticks s + 1)) te"
    and "lastTime s \<le> fst (clock s (ticks s))" and "r \<noteq> AE_NOMORE"
    and "\<And>s. tproc P (timeProc te) s (tid te) (tclientData te) =
      map_option (\<lambda>(_, s). (r, s)) (aeDeleteTimeEvent P (tid te) s)"
    and "finalizerProc te = None"
  shows "processTimeEvents P s = None"
proof -
  let ?s = "s\<lparr>lastTime := fst (clock s (ticks s)), ticks := ticks s + 2\<rparr>"
  have "aeDeleteTimeEvent P (tid te) ?s = Some (AE_OK, ?s\<lparr>timers := []\<rparr>)"
    using assms(1,7) by (simp add: aeDeleteTimeEvent_def Let_def)
  then have "tproc P (timeProc te) ?s (tid te) (tclientData te) = Some (r, ?s\<lparr>timers := []\<rparr>)"
    using assms(6) by simp
  then show ?thesis
    using assms(1-5)
    by (simp add: processTimeEvents_def Let_def, subst time_scan.simps)
      (simp add: aeGetTime_def aeAddMillisecondsToNow_def retime_def Let_def split: prod.splits)
qed

lemma delete_ignores_tproc: "aeDeleteTimeEvent (P\<lparr>tproc := f\<rparr>) = aeDeleteTimeEvent P"
proof -
  have "finproc (P\<lparr>tproc := f\<rparr>) = finproc P" by simp
  then show ?thesis by (intro ext) (unfold aeDeleteTimeEvent_def, simp only:)
qed

lemma self_deleting_timer_faults_witness:
  "processTimeEvents (log_procs\<lparr>tproc := \<lambda>f s i c. map_option (\<lambda>(_, s). (20, s)) (aeDeleteTimeEvent log_procs i s)\<rparr>)
     log_loop = None"
proof (rule self_deleting_timer_faults)
  show "timers log_loop = [(64, \<lparr>tid = 0, when_sec = 99, when_ms = 0, timeProc = 5, finalizerProc = None,
    tclientData = 0\<rparr>)]" by (simp add: log_loop_def)
  show "20 \<noteq> AE_NOMORE" by (simp add: AE_NOMORE_def)
qed (simp_all add: log_loop_def due_def delete_ignores_tproc)

section \<open>Dispatch\<close>

text \<open>The handlers that one fired event calls, as a function on the application's state.\<close>

definition call_event ::
  "(nat \<Rightarrow> int \<Rightarrow> nat \<Rightarrow> u32 \<Rightarrow> 'u \<Rightarrow> 'u) \<Rightarrow> aeFileEvent list \<Rightarrow> int \<times> u32 \<Rightarrow> 'u \<Rightarrow> 'u" where
  "call_event F es e u = (case e of (fd, m) \<Rightarrow>
     let fe = es ! nat fd;
         r = (mask fe AND m AND AE_READABLE \<noteq> 0);
         w = (mask fe AND m AND AE_WRITABLE \<noteq> 0);
         u = (if r then F (rfileProc fe) fd (fclientData fe) m u else u)
     in if w \<and> (\<not> r \<or> wfileProc fe \<noteq> rfileProc fe) then F (wfileProc fe) fd (fclientData fe) m u else u)"

lemma dispatch_from:
  assumes "\<And>f s fd c m. fproc P f s fd c m = Some (s\<lparr>user := F f fd c m (user s)\<rparr>)"
    and "j + n \<le> length (fired s)"
    and "\<forall>(fd, m)\<in>set (take n (drop j (fired s))). 0 \<le> fd \<and> fd < int (length (events s))"
  shows "dispatch P j n g s = Some (g + int n,
    s\<lparr>user := fold (call_event F (events s)) (take n (drop j (fired s))) (user s)\<rparr>)"
  using assms(2,3)
proof (induction n arbitrary: j g s)
  case (Suc n)
  have j: "j < length (fired s)" using Suc.prems(1) by simp
  obtain fd m where e: "fired s ! j = (fd, m)" by (cases "fired s ! j")
  have drop: "take (Suc n) (drop j (fired s)) = (fd, m) # take n (drop (j + 1) (fired s))"
    using j e by (metis Cons_nth_drop_Suc Suc_eq_plus1 take_Suc_Cons)
  have fd: "0 \<le> fd" "fd < int (length (events s))" using Suc.prems(2) drop by auto
  define s' where "s' = s\<lparr>user := call_event F (events s) (fd, m) (user s)\<rparr>"
  have at: "event_at (s\<lparr>user := u\<rparr>) fd = Some (events s ! nat fd)" for u
    using fd by (simp add: event_at_def)
  then have at0: "event_at s fd = Some (events s ! nat fd)" using fd by (simp add: event_at_def)
  have "dispatch P j (Suc n) g s = dispatch P (j + 1) n (g + 1) s'"
    using j e by (simp add: at0 at assms(1) s'_def call_event_def Let_def)
  also have "\<dots> = Some (g + 1 + int n,
    s'\<lparr>user := fold (call_event F (events s')) (take n (drop (j + 1) (fired s'))) (user s')\<rparr>)"
    by (rule Suc.IH) (use Suc.prems drop in \<open>auto simp: s'_def\<close>)
  finally show ?case by (simp add: s'_def drop del: take_Suc)
qed simp

text \<open>
  C40: one iteration of the loop without timers and with handlers that leave the loop alone serves
  exactly the events that \<open>epoll_wait\<close> reported, in their order: the read handler of a descriptor
  when it is registered and ready for reading, then its write handler when it is registered and
  ready for writing, once only if both are the same function. The number returned is off by the
  uninitialised \<open>garbage\<close> that \<open>processed\<close> starts from.
\<close>

theorem aeProcessEvents_dispatches:
  assumes "\<And>f s fd c m. fproc P f s fd c m = Some (s\<lparr>user := F f fd c m (user s)\<rparr>)"
    and "timers s = []" and "polls s = es # rest" "length es \<le> length (fired s)"
    and "int (length es) \<le> setsize s"
    and "\<forall>(fd, ev)\<in>set es. 0 \<le> fd \<and> fd < int (length (events s))"
    and "lastTime s \<le> fst (clock s (ticks s))"
  shows "\<exists>s'. aeProcessEvents P garbage AE_ALL_EVENTS s = Some (garbage + int (length es), s') \<and>
    user s' = fold (call_event F (events s)) (map (\<lambda>(fd, ev). (fd, fired_mask ev)) es) (user s) \<and>
    events s' = events s \<and> interest s' = interest s \<and> timers s' = []"
proof -
  have store: "store_fired j xs f = Some (take j f @ map (\<lambda>(fd, ev). (fd, fired_mask ev)) xs @ drop (j + length xs) f)"
    if "j + length xs \<le> length f" for j and xs f :: "(int \<times> u32) list"
    using that
  proof (induction xs arbitrary: j f)
    case (Cons x xs)
    obtain fd ev where x: "x = (fd, ev)" by (cases x)
    have "take (j + 1) (f[j := (fd, fired_mask ev)]) = take j f @ [(fd, fired_mask ev)]"
      using Cons.prems by (simp add: take_Suc_conv_app_nth)
    with Cons x show ?case by (simp add: Suc_eq_plus1 [symmetric] del: Suc_eq_plus1)
  qed simp
  let ?ms = "map (\<lambda>(fd, ev). (fd, fired_mask ev)) es"
  define s1 where "s1 = s\<lparr>polls := rest, timeouts := timeouts s @ [- 1],
    fired := ?ms @ drop (length es) (fired s)\<rparr>"
  have ready: "take (nat (setsize s)) es = es" using assms(5) by simp
  have poll: "aeApiPoll None s = Some (length es, s1)"
    using store [of 0 es "fired s"] assms(3,4) ready
    by (simp add: aeApiPoll_def Let_def s1_def)
  have "dispatch P 0 (length es) garbage s1 = Some (garbage + int (length es),
    s1\<lparr>user := fold (call_event F (events s1)) (take (length es) (drop 0 (fired s1))) (user s1)\<rparr>)"
    by (rule dispatch_from [OF assms(1)]) (use assms(4,6) in \<open>auto simp: s1_def\<close>)
  moreover have "aeSearchNearestTimer s = None" using assms(2) by (simp add: aeSearchNearestTimer_def)
  ultimately have "aeProcessEvents P garbage AE_ALL_EVENTS s =
    do { (n, s) \<leftarrow> processTimeEvents P (s1\<lparr>user := fold (call_event F (events s)) ?ms (user s)\<rparr>);
         Some (garbage + int (length es) + n, s) }"
    using poll by (simp add: aeProcessEvents_def ae_consts s1_def)
  moreover have "processTimeEvents P (s1\<lparr>user := u\<rparr>) =
    Some (0, s1\<lparr>user := u, ticks := ticks s + 1, lastTime := fst (clock s (ticks s))\<rparr>)" for u
    using assms(2,7) by (simp add: processTimeEvents_def Let_def s1_def, subst time_scan.simps) simp
  ultimately show ?thesis by (simp add: s1_def assms(2))
qed

lemma aeProcessEvents_dispatches_witness:
  "\<exists>s'. aeProcessEvents log_procs 42 AE_ALL_EVENTS
      (log_loop\<lparr>timers := [], polls := [[(2, EPOLLIN), (2, EPOLLOUT)]]\<rparr>) = Some (44, s') \<and>
    user s' = [7, 8]"
  using aeProcessEvents_dispatches [of log_procs "\<lambda>f fd c m u. u @ [f]"
      "log_loop\<lparr>timers := [], polls := [[(2, EPOLLIN), (2, EPOLLOUT)]]\<rparr>" "[(2, EPOLLIN), (2, EPOLLOUT)]" "[]" 42]
  by (simp add: log_procs_def log_loop_def call_event_def fired_mask_def ae_consts) blast

text \<open>
  Asking the loop not to wait, with any descriptor registered, writes through an uninitialised
  pointer: the timeout structure is filled in before the pointer is set to it.
\<close>

theorem dont_wait_faults:
  assumes "maxfd s \<noteq> - 1" and "flags AND AE_DONT_WAIT \<noteq> 0" and "flags AND AE_ALL_EVENTS \<noteq> 0"
  shows "aeProcessEvents P garbage flags s = None"
proof -
  have "flags AND AE_TIME_EVENTS \<noteq> 0 \<or> flags AND AE_FILE_EVENTS \<noteq> 0"
  proof (rule ccontr)
    assume "\<not> ?thesis"
    then have "flags AND AE_ALL_EVENTS = 0" by (simp add: AE_ALL_EVENTS_def bit.conj_disj_distrib)
    with assms(3) show False by simp
  qed
  then show ?thesis using assms(1,2) by (auto simp: aeProcessEvents_def)
qed

lemma dont_wait_faults_witness:
  "aeProcessEvents log_procs 0 (AE_FILE_EVENTS OR AE_DONT_WAIT) log_loop = None"
  by (rule dont_wait_faults) (simp_all add: log_loop_def ae_consts)

text \<open>
  \<open>aeMain\<close> ends after the iteration in which the loop was stopped, whatever that iteration did.
\<close>

lemma aeMain_stops:
  assumes "aeProcessEvents P garbage AE_ALL_EVENTS (s\<lparr>stop := False\<rparr>) = Some (r, s')" and "stop s'"
    and "beforesleep s = None"
  shows "aeMain P garbage s = Some s'"
  using assms by (simp add: aeMain_def, subst main_loop.simps) (simp, subst main_loop.simps, simp)

text \<open>Creating and deleting timers, as operations on the list.\<close>

lemma aeCreateTimeEvent_adds:
  assumes "mallocs s = Some a # ms" and "clock s (ticks s) = now"
  shows "aeCreateTimeEvent r f c fin s = (timeEventNextId s,
    s\<lparr>timeEventNextId := timeEventNextId s + 1, mallocs := ms, ticks := ticks s + 1,
      timers := (a, \<lparr>tid = timeEventNextId s, when_sec = fst (plus_ms now r), when_ms = snd (plus_ms now r),
        timeProc = f, finalizerProc = fin, tclientData = c\<rparr>) # timers s\<rparr>)"
  using assms
  by (simp add: aeCreateTimeEvent_def aeAddMillisecondsToNow_def aeGetTime_def plus_ms_def Let_def
      split: prod.split)

lemma aeCreateTimeEvent_out_of_memory:
  "mallocs s = None # ms \<Longrightarrow> aeCreateTimeEvent r f c fin s =
    (AE_ERR, s\<lparr>timeEventNextId := timeEventNextId s + 1, mallocs := ms\<rparr>)"
  by (simp add: aeCreateTimeEvent_def)

end
