(* ===== verification/Pubsub_Server.thy ===== *)
theory Pubsub_Server
  imports Ae_Loop
begin

text \<open>
  The TCP server of \<open>src/pubsub/main.c\<close> on top of the event loop. The results of the coming system
  calls are scripts in the record \<open>pub\<close>; a failed call gives its \<open>errno\<close>. Function pointers are the
  numbers 1 (\<open>accept_conn_from_client\<close>), 2 (\<open>read_query_from_client\<close>), 3 (\<open>send_resp_to_client\<close>)
  for descriptors and 1 (\<open>server_cron\<close>) for timers.
\<close>

section \<open>The code\<close>

text \<open>\<open>stack\<close> is what the 128 bytes of the handler's buffer hold before the read.\<close>

record pub =
  reads :: "u8 list syscall list"
  writes :: "int syscall list"
  accepts :: "int syscall list"
  opts :: "int list"
  stack :: "u8 list"
  served :: "(int \<times> u8 list) list"
  sent :: "int list"

type_synonym server = "pub ae"

definition next_opt :: "server \<Rightarrow> int \<times> server" where
  "next_opt s = (case opts (user s) of [] \<Rightarrow> 0 | r # _ \<Rightarrow> r,
     s\<lparr>user := (user s)\<lparr>opts := tl (opts (user s))\<rparr>\<rparr>)"

definition set_tcpnodelay :: "int \<Rightarrow> server \<Rightarrow> int \<times> server" where
  "set_tcpnodelay fd s = next_opt s"

definition set_reuseaddr :: "int \<Rightarrow> server \<Rightarrow> int \<times> server" where
  "set_reuseaddr fd s = next_opt s"

definition set_nonblocking :: "int \<Rightarrow> server \<Rightarrow> int \<times> server" where
  "set_nonblocking fd s = (case next_opt s of (flag, s) \<Rightarrow> if flag < 0 then (- 1, s) else next_opt s)"

definition server_cron :: "server \<Rightarrow> int \<Rightarrow> nat \<Rightarrow> (int \<times> server) option" where
  "server_cron s i c = Some (5000, s)"

definition send_resp_to_client :: "server \<Rightarrow> int \<Rightarrow> nat \<Rightarrow> u32 \<Rightarrow> server option" where
  "send_resp_to_client s fd c m = do {
     let r = (case writes (user s) of [] \<Rightarrow> Fails EAGAIN | x # _ \<Rightarrow> x);
     let s = s\<lparr>user := (user s)\<lparr>writes := tl (writes (user s)), sent := sent (user s) @ [fd]\<rparr>\<rparr>;
     let s = (case r of Fails e \<Rightarrow> if e = EAGAIN then s else close_fd fd s | Returns n \<Rightarrow> s);
     s \<leftarrow> aeDeleteFileEvent fd AE_WRITABLE s;
     (status, s) \<leftarrow> aeCreateFileEvent fd AE_READABLE 2 0 s;
     Some s
   }"

text \<open>
  The \<open>printf\<close> prints the buffer up to its first zero byte, whether the read stored it or not; a
  buffer without one is read beyond its end.
\<close>

definition read_query_from_client :: "server \<Rightarrow> int \<Rightarrow> nat \<Rightarrow> u32 \<Rightarrow> server option" where
  "read_query_from_client s fd c m = do {
     let r = (case reads (user s) of [] \<Rightarrow> Fails EAGAIN | x # _ \<Rightarrow> x);
     let s = s\<lparr>user := (user s)\<lparr>reads := tl (reads (user s))\<rparr>\<rparr>;
     case r of
       Fails e \<Rightarrow> if e = EAGAIN then Some s else Some (close_fd fd s)
     | Returns bs \<Rightarrow>
         if bs = [] then Some (close_fd fd s)
         else do {
           let bs = take 128 bs;
           let buf = bs @ drop (length bs) (stack (user s));
           if 0 \<notin> set buf then None
           else do {
             let s = s\<lparr>user := (user s)\<lparr>served := served (user s) @ [(fd, takeWhile (\<lambda>b. b \<noteq> 0) buf)],
               stack := buf\<rparr>\<rparr>;
             s \<leftarrow> aeDeleteFileEvent fd AE_READABLE s;
             (status, s) \<leftarrow> aeCreateFileEvent fd AE_WRITABLE 3 0 s;
             Some s
           }
         }
   }"

definition accept_conn_from_client :: "server \<Rightarrow> int \<Rightarrow> nat \<Rightarrow> u32 \<Rightarrow> server option" where
  "accept_conn_from_client s fd c m = do {
     let r = (case accepts (user s) of [] \<Rightarrow> Fails EAGAIN | x # _ \<Rightarrow> x);
     let s = s\<lparr>user := (user s)\<lparr>accepts := tl (accepts (user s))\<rparr>\<rparr>;
     case r of
       Fails e \<Rightarrow> Some s
     | Returns connfd \<Rightarrow>
         (let s = s\<lparr>is_open := (is_open s)(connfd := True)\<rparr> in
          case set_nonblocking connfd s of (status, s) \<Rightarrow>
          if status < 0 then Some s
          else case set_tcpnodelay connfd s of (status, s) \<Rightarrow>
          if status < 0 then Some s
          else map_option snd (aeCreateFileEvent connfd AE_READABLE 2 0 s))
   }"

definition server_procs :: "pub procs" where
  "server_procs = \<lparr>
     fproc = (\<lambda>f s fd c m. if f = 1 then accept_conn_from_client s fd c m
       else if f = 2 then read_query_from_client s fd c m
       else if f = 3 then send_resp_to_client s fd c m else None),
     tproc = (\<lambda>f s i c. if f = 1 then server_cron s i c else None),
     finproc = (\<lambda>f s c. None),
     bsproc = (\<lambda>f s. None)\<rparr>"

definition sigterm_handler :: "server \<Rightarrow> server" where
  "sigterm_handler s = aeStop s"

text \<open>
  \<open>sock\<close> is what \<open>socket\<close> returns; \<open>setsockopt\<close>, \<open>bind\<close>, \<open>listen\<close> and \<open>fcntl\<close> take their
  results from \<open>opts\<close>. The first component is the status, the second the stored \<open>listenfd\<close>.
\<close>

definition listen_to_port :: "int \<Rightarrow> server \<Rightarrow> int \<times> int \<times> server" where
  "listen_to_port sock s =
     (if sock < 0 then (- 1, sock, s)
      else let s = s\<lparr>is_open := (is_open s)(sock := True)\<rparr> in
        case set_reuseaddr sock s of (status, s) \<Rightarrow>
        if status < 0 then (- 1, sock, s)
        else case next_opt s of (status, s) \<Rightarrow>
        if status < 0 then (- 1, sock, s)
        else case next_opt s of (status, s) \<Rightarrow>
        if status < 0 then (- 1, sock, s)
        else case set_nonblocking sock s of (status, s) \<Rightarrow>
        if status < 0 then (- 1, sock, s) else (0, sock, s))"

text \<open>\<open>init_server\<close> looks at none of these results; \<open>lp\<close> is what \<open>aeCreateEventLoop(1024)\<close> returned.\<close>

definition init_server :: "int \<Rightarrow> server option \<Rightarrow> (int \<times> server) option" where
  "init_server sock lp = do {
     s \<leftarrow> lp;
     let (_, listenfd, s) = listen_to_port sock s;
     (status, s) \<leftarrow> aeCreateFileEvent listenfd AE_READABLE 1 0 s;
     Some (aeCreateTimeEvent 5000 1 0 None s)
   }"

definition server_main :: "int \<Rightarrow> int \<Rightarrow> server option \<Rightarrow> (int \<times> server) option" where
  "server_main garbage sock lp = do {
     (status, s) \<leftarrow> init_server sock lp;
     s \<leftarrow> aeMain server_procs garbage s;
     Some (0, s)
   }"

section \<open>Properties\<close>

lemma ae_ok_user [simp]: "ae_ok (s\<lparr>user := u\<rparr>) = ae_ok s"
  by (simp add: ae_ok_def mask_at_def)

lemma aeGetFileEvents_user [simp]: "aeGetFileEvents fd (s\<lparr>user := u\<rparr>) = aeGetFileEvents fd s"
  by (simp add: aeGetFileEvents_def event_at_def)

text \<open>Exchanging one interest for the other, as both handlers do.\<close>

lemma mask_at_get:
  assumes "ae_ok s" "0 \<le> fd" "fd < setsize s"
  shows "aeGetFileEvents fd s = Some (mask_at s (nat fd))"
  using event_at_ok [OF assms] assms(3) by (simp add: aeGetFileEvents_def mask_at_def)

lemma setsize_event_at: "event_at s fd = Some fe \<Longrightarrow> 0 \<le> fd" by (simp add: event_at_def split: if_splits)

lemma aeApiDelEvent_fields:
  "aeApiDelEvent fd m s = Some s' \<Longrightarrow> setsize s' = setsize s \<and> is_open s' = is_open s \<and> user s' = user s \<and>
     (ctl_refused s = [] \<longrightarrow> ctl_refused s' = [])"
  by (auto simp: aeApiDelEvent_def epoll_ctl_def Let_def split: bind_splits if_splits)

lemma aeDeleteFileEvent_fields:
  assumes "aeDeleteFileEvent fd m s = Some s'"
  shows "setsize s' = setsize s \<and> is_open s' = is_open s \<and> user s' = user s \<and>
     (ctl_refused s = [] \<longrightarrow> ctl_refused s' = [])"
  using assms
  by (auto simp: aeDeleteFileEvent_def set_event_def Let_def dest!: aeApiDelEvent_fields
      split: bind_splits if_splits)

lemma aeCreateFileEvent_fields:
  assumes "aeCreateFileEvent fd m p c s = Some (r, s')"
  shows "setsize s' = setsize s \<and> is_open s' = is_open s \<and> user s' = user s \<and>
     (ctl_refused s = [] \<longrightarrow> ctl_refused s' = [])"
  using assms
  by (auto simp: aeCreateFileEvent_def aeApiAddEvent_def epoll_ctl_def set_event_def Let_def
      split: bind_splits if_splits)

lemma exchange_interest:
  assumes "ae_ok s" and "0 \<le> fd" "fd < setsize s" "is_open s fd" and "mask_at s (nat fd) = a"
    and "a \<in> {1, 2, 3}" "b \<in> {1, 2, 3}" and "ctl_refused s = []"
  obtains s1 s2 where "aeDeleteFileEvent fd a s = Some s1" "aeCreateFileEvent fd b p c s1 = Some (AE_OK, s2)"
    "ae_ok s2" "mask_at s2 (nat fd) = b" "interest s2 fd = watched b"
    "setsize s2 = setsize s" "is_open s2 = is_open s" "user s2 = user s" "ctl_refused s2 = []"
proof -
  obtain s1 where s1: "aeDeleteFileEvent fd a s = Some s1" "ae_ok s1"
    "aeGetFileEvents fd s1 = Some (a AND NOT a)"
    using aeDeleteFileEvent_unregisters_ok [OF assms(1,2,6)] assms(3,5,8) by (auto simp: refuses_def)
  note f1 = aeDeleteFileEvent_fields [OF s1(1)]
  have lt1: "fd < setsize s1" using f1 assms(3) by simp
  have m1: "mask_at s1 (nat fd) = 0" using mask_at_get [OF s1(2) assms(2) lt1] s1(3) by simp
  have "is_open s1 fd" "\<not> refuses s1" using f1 assms(4,8) by (simp_all add: refuses_def)
  from aeCreateFileEvent_accepted [OF s1(2) assms(2) lt1 this assms(7), of p c] m1
  obtain s2 where s2: "aeCreateFileEvent fd b p c s1 = Some (AE_OK, s2)" "ae_ok s2"
    "aeGetFileEvents fd s2 = Some b" by auto
  note f2 = aeCreateFileEvent_fields [OF s2(1)]
  have lt2: "fd < setsize s2" using f2 lt1 by simp
  have m2: "mask_at s2 (nat fd) = b" using mask_at_get [OF s2(2) assms(2) lt2] s2(3) by simp
  then have "interest s2 fd = watched b"
    using ae_ok_at(3) [OF s2(2) assms(2) lt2] by simp
  moreover have "ctl_refused s2 = []" using f1 f2 assms(8) by blast
  ultimately show ?thesis using that [of s1 s2] s1(1) s2(1,2) m2 f1 f2 by simp
qed

definition buffer_after :: "u8 list \<Rightarrow> u8 list \<Rightarrow> u8 list" where
  "buffer_after bs st = take 128 bs @ drop (length (take 128 bs)) st"

text \<open>
  A connection that is watched for reading and sends something that leaves a zero byte in the
  buffer is served and from then on watched for writing only; the next send (completed, short, or
  would-block) turns it back to reading. Neither step faults, and the loop stays well formed, if the
  kernel does not refuse to watch.
\<close>

theorem request_response_cycle:
  assumes "ae_ok s" and "0 \<le> fd" "fd < setsize s" "is_open s fd" and "mask_at s (nat fd) = AE_READABLE"
    and "reads (user s) = Returns bs # rs" "bs \<noteq> []" and "0 \<in> set (buffer_after bs (stack (user s)))"
    and "writes (user s) = w # ws" "w = Returns n \<or> w = Fails EAGAIN" and "ctl_refused s = []"
  shows "\<exists>s1 s2. read_query_from_client s fd c m = Some s1 \<and> ae_ok s1 \<and>
    mask_at s1 (nat fd) = AE_WRITABLE \<and> interest s1 fd = Some (EPOLLOUT OR EPOLLET) \<and>
    served (user s1) = served (user s) @
      [(fd, takeWhile (\<lambda>b. b \<noteq> 0) (buffer_after bs (stack (user s))))] \<and>
    send_resp_to_client s1 fd c' m' = Some s2 \<and> ae_ok s2 \<and> sent (user s2) = sent (user s) @ [fd] \<and>
    mask_at s2 (nat fd) = AE_READABLE \<and> interest s2 fd = Some (EPOLLIN OR EPOLLET)"
proof -
  let ?buf = "buffer_after bs (stack (user s))"
  have rd: "AE_READABLE \<in> {1, 2, 3}" and wr: "AE_WRITABLE \<in> {1, 2, 3}" by (simp_all add: ae_consts)
  define s0 where "s0 = s\<lparr>user := (user s)\<lparr>reads := rs,
    served := served (user s) @ [(fd, takeWhile (\<lambda>b. b \<noteq> 0) ?buf)], stack := ?buf\<rparr>\<rparr>"
  have s0: "ae_ok s0" "fd < setsize s0" "is_open s0 fd" "mask_at s0 (nat fd) = AE_READABLE" "ctl_refused s0 = []"
    using assms(1,3-5,11) by (simp_all add: s0_def mask_at_def)
  obtain t1 s1 where 1: "aeDeleteFileEvent fd AE_READABLE s0 = Some t1"
    "aeCreateFileEvent fd AE_WRITABLE 3 0 t1 = Some (AE_OK, s1)" "ae_ok s1"
    "mask_at s1 (nat fd) = AE_WRITABLE" "interest s1 fd = watched AE_WRITABLE"
    "setsize s1 = setsize s0" "is_open s1 = is_open s0" "user s1 = user s0" "ctl_refused s1 = []"
    by (rule exchange_interest [OF s0(1) assms(2) s0(2-4) rd wr s0(5)])
  have read: "read_query_from_client s fd c m = Some s1"
    using assms(6-8) 1(1,2) by (simp add: read_query_from_client_def Let_def buffer_after_def s0_def)
  define s2 where "s2 = s1\<lparr>user := (user s1)\<lparr>writes := ws, sent := sent (user s1) @ [fd]\<rparr>\<rparr>"
  have s2: "ae_ok s2" "fd < setsize s2" "is_open s2 fd" "mask_at s2 (nat fd) = AE_WRITABLE" "ctl_refused s2 = []"
    using 1 s0 by (simp_all add: s2_def mask_at_def)
  obtain t2 s3 where 3: "aeDeleteFileEvent fd AE_WRITABLE s2 = Some t2"
    "aeCreateFileEvent fd AE_READABLE 2 0 t2 = Some (AE_OK, s3)" "ae_ok s3"
    "mask_at s3 (nat fd) = AE_READABLE" "interest s3 fd = watched AE_READABLE"
    "setsize s3 = setsize s2" "is_open s3 = is_open s2" "user s3 = user s2" "ctl_refused s3 = []"
    by (rule exchange_interest [OF s2(1) assms(2) s2(2-4) wr rd s2(5)])
  have w: "writes (user s1) = w # ws" using assms(9) 1(8) by (simp add: s0_def)
  have "send_resp_to_client s1 fd c' m' = Some s3"
    using assms(10) w 3(1,2) by (auto simp: send_resp_to_client_def Let_def s2_def)
  moreover have "watched AE_WRITABLE = Some (EPOLLOUT OR EPOLLET)" "watched AE_READABLE = Some (EPOLLIN OR EPOLLET)"
    by (simp_all add: watched_def ae_consts)
  ultimately show ?thesis using read 1 3 by (simp add: s0_def s2_def)
qed

definition demo_server :: server where
  "demo_server = \<lparr>maxfd = 2, setsize = 4, timeEventNextId = 1, lastTime = 100,
     events = [\<lparr>mask = 0, rfileProc = 0, wfileProc = 0, fclientData = 0\<rparr>,
       \<lparr>mask = 0, rfileProc = 0, wfileProc = 0, fclientData = 0\<rparr>,
       \<lparr>mask = 1, rfileProc = 2, wfileProc = 3, fclientData = 0\<rparr>,
       \<lparr>mask = 0, rfileProc = 0, wfileProc = 0, fclientData = 0\<rparr>],
     fired = [(0, 0), (0, 0), (0, 0), (0, 0)], timers = [], stop = False, beforesleep = None,
     interest = [2 \<mapsto> EPOLLIN OR EPOLLET], ctl_refused = [], is_open = (\<lambda>_. True), polls = [], timeouts = [], mallocs = [],
     clock = (\<lambda>_. (100, 0)), ticks = 0,
     user = \<lparr>reads = [Returns [65, 0]], writes = [Returns 19], accepts = [Returns 2], opts = [],
       stack = replicate 128 9, served = [], sent = []\<rparr>\<rparr>"

lemma demo_server_ok: "ae_ok demo_server"
  by (auto simp: ae_ok_def demo_server_def top_used_def mask_at_def watched_def ae_consts
      less_Suc_eq numeral_eq_Suc)

lemma request_response_cycle_witness:
  "\<exists>s1 s2. read_query_from_client demo_server 2 0 1 = Some s1 \<and> served (user s1) = [(2, [65])] \<and>
    send_resp_to_client s1 2 0 2 = Some s2 \<and> interest s2 2 = Some (EPOLLIN OR EPOLLET)"
  using request_response_cycle [OF demo_server_ok, of 2 "[65, 0]" "[]" "Returns 19" "[]" 19 0 1 0 2]
  by (auto simp: demo_server_def mask_at_def AE_READABLE_def buffer_after_def)

text \<open>
  When a client closes its connection the handler closes the descriptor but leaves it
  registered. The next connection that gets the same descriptor is accepted, but its registration
  is a modification of an entry the kernel no longer has: it fails, the connection stays open and is
  never watched.
\<close>

theorem reused_descriptor_never_served:
  assumes "ae_ok s" and "0 \<le> fd" "fd < setsize s" "is_open s fd" and "mask_at s (nat fd) = AE_READABLE"
    and "reads (user s) = Returns [] # rs" and "accepts (user s) = Returns fd # as"
    and "\<forall>r\<in>set (opts (user s)). 0 \<le> r"
  shows "\<exists>s1 s2. read_query_from_client s fd c m = Some s1 \<and> \<not> is_open s1 fd \<and>
    mask_at s1 (nat fd) = AE_READABLE \<and>
    accept_conn_from_client s1 lfd c' m' = Some s2 \<and> is_open s2 fd \<and> interest s2 fd = None"
proof -
  define s1 where "s1 = close_fd fd (s\<lparr>user := (user s)\<lparr>reads := rs\<rparr>\<rparr>)"
  have read: "read_query_from_client s fd c m = Some s1"
    using assms(6) by (simp add: read_query_from_client_def s1_def)
  define s2 where "s2 = s1\<lparr>user := (user s1)\<lparr>accepts := as\<rparr>, is_open := (is_open s1)(fd := True)\<rparr>"
  have user2: "opts (user s2) = opts (user s)" by (simp add: s2_def s1_def close_fd_def)
  have opt: "\<exists>r rs. next_opt t = (r, t\<lparr>user := (user t)\<lparr>opts := rs\<rparr>\<rparr>) \<and> 0 \<le> r \<and> (\<forall>r\<in>set rs. 0 \<le> r)"
    if "\<forall>r\<in>set (opts (user t)). 0 \<le> r" for t :: server
    by (intro exI conjI, rule next_opt_def) (use that in \<open>cases "opts (user t)"; auto\<close>)+
  obtain r1 o1 where 1: "next_opt s2 = (r1, s2\<lparr>user := (user s2)\<lparr>opts := o1\<rparr>\<rparr>)" "0 \<le> r1" "\<forall>r\<in>set o1. 0 \<le> r"
    using opt [of s2] user2 assms(8) by auto
  let ?t1 = "s2\<lparr>user := (user s2)\<lparr>opts := o1\<rparr>\<rparr>"
  obtain r2 o2 where 2: "next_opt ?t1 = (r2, ?t1\<lparr>user := (user ?t1)\<lparr>opts := o2\<rparr>\<rparr>)" "0 \<le> r2" "\<forall>r\<in>set o2. 0 \<le> r"
    using opt [of ?t1] 1(3) by auto
  let ?t2 = "?t1\<lparr>user := (user ?t1)\<lparr>opts := o2\<rparr>\<rparr>"
  obtain r3 o3 where 3: "next_opt ?t2 = (r3, ?t2\<lparr>user := (user ?t2)\<lparr>opts := o3\<rparr>\<rparr>)" "0 \<le> r3"
    using opt [of ?t2] 2(3) by auto
  let ?t3 = "?t2\<lparr>user := (user ?t2)\<lparr>opts := o3\<rparr>\<rparr>"
  have ev: "event_at ?t3 fd = Some (events s ! nat fd)" "mask (events s ! nat fd) = AE_READABLE"
    using assms(1-3,5) by (simp_all add: event_at_def s2_def s1_def close_fd_def mask_at_def ae_ok_def)
  have ints: "interest ?t3 fd = None" "setsize ?t3 = setsize s" "is_open ?t3 fd"
    by (simp_all add: s2_def s1_def close_fd_def)
  have create: "aeCreateFileEvent fd AE_READABLE 2 0 ?t3 = Some (AE_ERR, ?t3)"
    using assms(3) ints ev by (simp add: aeCreateFileEvent_def aeApiAddEvent_def epoll_ctl_def ae_consts)
  have nb: "set_nonblocking fd s2 = (r2, ?t2)"
    using 1 2(1) by (simp add: set_nonblocking_def)
  have nd: "set_tcpnodelay fd ?t2 = (r3, ?t3)" using 3(1) by (simp add: set_tcpnodelay_def)
  have acc: "accepts (user s1) = Returns fd # as" using assms(7) by (simp add: s1_def close_fd_def)
  have "accept_conn_from_client s1 lfd c' m' = Some ?t3"
    using nb nd 2(2) 3(2) create acc
    by (simp add: accept_conn_from_client_def s2_def [symmetric])
  with read ints show ?thesis
    using assms(5) by (auto simp: s1_def close_fd_def mask_at_def)
qed

lemma reused_descriptor_never_served_witness:
  "\<exists>s1 s2. read_query_from_client (demo_server\<lparr>user := (user demo_server)\<lparr>reads := [Returns []]\<rparr>\<rparr>) 2 0 1 = Some s1 \<and>
    accept_conn_from_client s1 3 0 1 = Some s2 \<and> is_open s2 2 \<and> interest s2 2 = None"
proof -
  let ?s = "demo_server\<lparr>user := (user demo_server)\<lparr>reads := [Returns []]\<rparr>\<rparr>"
  have "ae_ok ?s" using demo_server_ok by simp
  then have "\<exists>s1 s2. read_query_from_client ?s 2 0 1 = Some s1 \<and> \<not> is_open s1 2 \<and>
    mask_at s1 (nat 2) = AE_READABLE \<and>
    accept_conn_from_client s1 3 0 1 = Some s2 \<and> is_open s2 2 \<and> interest s2 2 = None"
    by (rule reused_descriptor_never_served)
      (simp_all add: demo_server_def mask_at_def AE_READABLE_def)
  then show ?thesis by blast
qed

text \<open>A client that fills the buffer without a zero byte makes the handler read beyond it.\<close>

lemma unterminated_query_faults:
  assumes "reads (user s) = Returns bs # rs" and "128 \<le> length bs" "0 \<notin> set bs" "length (stack (user s)) = 128"
  shows "read_query_from_client s fd c m = None"
proof -
  have "bs \<noteq> []" using assms(2) by auto
  moreover have "0 \<notin> set (take 128 bs)" using assms(3) by (auto dest: in_set_takeD)
  ultimately show ?thesis using assms by (simp add: read_query_from_client_def Let_def min_def)
qed

text \<open>The result of \<open>listen_to_port\<close> is ignored: without a socket the table is indexed by -1.\<close>

lemma init_server_without_socket_faults:
  "sock < 0 \<Longrightarrow> 0 \<le> setsize s \<Longrightarrow> init_server sock (Some s) = None"
  by (simp add: init_server_def listen_to_port_def aeCreateFileEvent_def aeApiAddEvent_def event_at_def)

end
