(* ===== verification/Epoll_Server.thy ===== *)
theory Epoll_Server
  imports Posix
begin

text \<open>
  The time server of \<open>src/epoll/simplest_sample/epoll_server.c\<close>. The results of the coming
  system calls are scripts in the state; a read with nothing left in its script waits for data on
  a blocking socket and fails with \<open>EAGAIN\<close> on a non-blocking one. The kernel keeps for each
  descriptor whether it is open, its descriptor flags, its status flags and its entry in the
  interest set. Names the repository uses twice end in \<open>_es\<close>.
\<close>

section \<open>The code\<close>

definition ES_OK :: int where "ES_OK = 0"
definition ES_ERR :: int where "ES_ERR = - 1"
definition NEVENTS :: int where "NEVENTS = 1024"
definition MAX_BUF_SIZE :: nat where "MAX_BUF_SIZE = 16384"

text \<open>A pointer to one of the two blocks of \<open>struct event_base\<close>.\<close>

datatype block = Null | Live | Freed

text \<open>What \<open>epoll_wait\<close> does next: it fails (perhaps because a signal set \<open>stop\<close>), or reports.\<close>

datatype wait = Wait_fails int bool | Reports "(int \<times> u32) list"

record es =
  evb :: block
  event :: block
  ep :: int
  nevent :: int
  ld :: int
  stop_es :: bool
  errno :: int
  is_open_es :: "int \<Rightarrow> bool"
  fd_flags :: "int \<Rightarrow> u32"
  status_flags :: "int \<Rightarrow> u32"
  interest_es :: "int \<rightharpoonup> u32"
  accepts_es :: "int syscall list"
  reads_es :: "u8 list syscall list"
  writes_es :: "nat syscall list"
  results :: "int list"
  waits :: "wait list"
  printed :: "u8 list list"
  wire :: "u8 list"

definition signal_handler :: "int \<Rightarrow> es \<Rightarrow> es" where
  "signal_handler signo s = s\<lparr>stop_es := True\<rparr>"

subsection \<open>The kernel\<close>

definition close_es :: "int \<Rightarrow> es \<Rightarrow> es" where
  "close_es fd s = s\<lparr>is_open_es := (is_open_es s)(fd := False), interest_es := (interest_es s)(fd := None)\<rparr>"

definition ctl_es :: "ctl \<Rightarrow> int \<Rightarrow> u32 \<Rightarrow> es \<Rightarrow> int \<times> es" where
  "ctl_es op fd ev s =
     (if \<not> is_open_es s fd \<or> (op = CTL_ADD) = (interest_es s fd \<noteq> None) then (- 1, s)
      else (0, s\<lparr>interest_es := (interest_es s)(fd := if op = CTL_DEL then None else Some ev)\<rparr>))"

text \<open>\<open>F_GETFD\<close> and \<open>F_SETFD\<close> work on the descriptor flags, of which only \<open>FD_CLOEXEC\<close> exists.\<close>

definition fcntl_getfd :: "int \<Rightarrow> es \<Rightarrow> int" where
  "fcntl_getfd fd s = (if is_open_es s fd then uint (fd_flags s fd) else - 1)"

definition fcntl_setfd :: "int \<Rightarrow> u32 \<Rightarrow> es \<Rightarrow> int \<times> es" where
  "fcntl_setfd fd v s =
     (if is_open_es s fd then (0, s\<lparr>fd_flags := (fd_flags s)(fd := v AND FD_CLOEXEC)\<rparr>) else (- 1, s))"

definition next_result :: "es \<Rightarrow> int \<times> es" where
  "next_result s = (case results s of [] \<Rightarrow> 0 | r # _ \<Rightarrow> r, s\<lparr>results := tl (results s)\<rparr>)"

subsection \<open>Sockets\<close>

definition set_reuseaddr_es :: "int \<Rightarrow> es \<Rightarrow> int \<times> es" where
  "set_reuseaddr_es fd s = next_result s"

definition set_nonblocking_es :: "int \<Rightarrow> es \<Rightarrow> int \<times> es" where
  "set_nonblocking_es fd s =
     (let flag = fcntl_getfd fd s
      in if flag < 0 then (ES_ERR, s) else fcntl_setfd fd (word_of_int flag OR O_NONBLOCK) s)"

definition listen_to_port_es :: "int \<Rightarrow> es \<Rightarrow> int \<times> es" where
  "listen_to_port_es sock s =
     (let s = s\<lparr>ld := sock\<rparr> in
      if sock < 0 then (ES_ERR, s)
      else let s = s\<lparr>is_open_es := (is_open_es s)(sock := True), status_flags := (status_flags s)(sock := 0)\<rparr>
      in case set_reuseaddr_es sock s of (status, s) \<Rightarrow>
         if status < 0 then (ES_ERR, close_es sock s)
         else case next_result s of (status, s) \<Rightarrow>
         if status < 0 then (ES_ERR, close_es sock s)
         else case next_result s of (status, s) \<Rightarrow>
         if status < 0 then (ES_ERR, close_es sock s)
         else case set_nonblocking_es sock s of (status, s) \<Rightarrow>
         if status < 0 then (ES_ERR, close_es sock s)
         else case ctl_es CTL_ADD sock (EPOLLIN OR EPOLLET) s of (status, s) \<Rightarrow>
         if status < 0 then (ES_ERR, close_es sock s) else (ES_OK, s))"

text \<open>A descriptor that \<open>accept\<close> returns is open, blocking and without flags.\<close>

definition accept_conn :: "es \<Rightarrow> int \<times> es" where
  "accept_conn s =
     (case accepts_es s of
        [] \<Rightarrow> (ES_ERR, s)
      | Fails e # rest \<Rightarrow> (ES_ERR, s\<lparr>accepts_es := rest, errno := e\<rparr>)
      | Returns sd # rest \<Rightarrow>
          (let s = s\<lparr>accepts_es := rest, is_open_es := (is_open_es s)(sd := True), fd_flags := (fd_flags s)(sd := 0),
                     status_flags := (status_flags s)(sd := 0)\<rparr>
           in case set_nonblocking_es sd s of (status, s) \<Rightarrow>
              if status < 0 then (ES_ERR, close_es sd s)
              else case ctl_es CTL_ADD sd (EPOLLIN OR EPOLLET) s of (status, s) \<Rightarrow>
              if status < 0 then (ES_ERR, close_es sd s) else (ES_OK, s)))"

subsection \<open>Receiving\<close>

text \<open>
  The loop of \<open>recv_req\<close>: \<open>recvd\<close> bytes of \<open>buf\<close> are filled, and every read may store up to
  \<open>MAX_BUF_SIZE\<close> bytes from there on. The result is the early return value, if any. The
  condition \<open>errno = EAGAIN\<close> is an assignment.
\<close>

fun recv_loop :: "int \<Rightarrow> u8 list syscall list \<Rightarrow> nat \<Rightarrow> u8 list \<Rightarrow> es \<Rightarrow> (int option \<times> u8 list \<times> es) run" where
  "recv_loop sd [] recvd buf s =
     (if status_flags s sd AND O_NONBLOCK = 0 then Blocks
      else Ends (None, buf, s\<lparr>reads_es := [], errno := EAGAIN\<rparr>))"
| "recv_loop sd (Fails e # rs) recvd buf s =
     (let s = s\<lparr>reads_es := rs, errno := EAGAIN\<rparr>
      in if errno s \<noteq> 0 then Ends (None, buf, s)
         else if errno s = EINTR then recv_loop sd rs recvd buf s
         else case ctl_es CTL_DEL sd 0 s of (status, s) \<Rightarrow> Ends (Some ES_ERR, buf, close_es sd s))"
| "recv_loop sd (Returns bs # rs) recvd buf s =
     (let s = s\<lparr>reads_es := rs\<rparr>; bs = take MAX_BUF_SIZE bs
      in if bs = [] then case ctl_es CTL_DEL sd 0 s of (status, s) \<Rightarrow> Ends (None, buf, close_es sd s)
         else case mem_copy buf recvd bs 0 (length bs) of
           None \<Rightarrow> Faults
         | Some buf \<Rightarrow>
             if length bs < MAX_BUF_SIZE then Ends (None, buf, s) else recv_loop sd rs (recvd + length bs) buf s)"

text \<open>\<open>printf\<close> reads \<open>buf\<close> up to its first zero byte.\<close>

definition recv_req :: "int \<Rightarrow> es \<Rightarrow> (int \<times> es) run" where
  "recv_req sd s =
     and_then (recv_loop sd (reads_es s) 0 (replicate MAX_BUF_SIZE 0) s) (\<lambda>(ret, buf, s).
       case ret of
         Some r \<Rightarrow> Ends (r, s)
       | None \<Rightarrow>
           if 0 \<notin> set buf then Faults
           else let s = s\<lparr>printed := printed s @ [takeWhile (\<lambda>b. b \<noteq> 0) buf]\<rparr>;
                    s = snd (ctl_es CTL_MOD sd (EPOLLIN OR EPOLLOUT OR EPOLLET) s)
             in Ends (ES_OK, s))"

subsection \<open>Sending\<close>

text \<open>
  The loop of \<open>send_resp\<close> over the rest of the message. A write with nothing left in its
  script never succeeds.
\<close>

fun send_loop :: "nat syscall list \<Rightarrow> u8 list \<Rightarrow> es \<Rightarrow> (int \<times> es) run" where
  "send_loop [] msg s = Blocks"
| "send_loop (Fails e # ws) msg s =
     (let s = s\<lparr>writes_es := ws, errno := e\<rparr>
      in if e = EINTR then send_loop ws msg s
         else if e = EAGAIN then send_loop ws msg s
         else Ends (ES_ERR, s))"
| "send_loop (Returns n # ws) msg s =
     (let n = min n (length msg);
          s = s\<lparr>writes_es := ws, wire := wire s @ take n msg\<rparr>
      in if n = length msg then Ends (ES_OK, s) else send_loop ws (drop n msg) s)"

text \<open>\<open>now\<close> is the line \<open>strftime\<close> wrote.\<close>

definition send_resp :: "u8 list \<Rightarrow> int \<Rightarrow> es \<Rightarrow> (int \<times> es) run" where
  "send_resp now sd s =
     and_then (send_loop (writes_es s) now s) (\<lambda>(r, s).
       if r = ES_ERR then Ends (ES_ERR, s)
       else Ends (ES_OK, snd (ctl_es CTL_MOD sd (EPOLLIN OR EPOLLET) s)))"

subsection \<open>The event loop\<close>

definition create_event_base :: "bool \<Rightarrow> bool \<Rightarrow> int \<Rightarrow> es \<Rightarrow> int \<times> es" where
  "create_event_base malloc_ok calloc_ok fd s =
     (if \<not> malloc_ok then (ES_ERR, s\<lparr>evb := Null\<rparr>)
      else let s = s\<lparr>evb := Live, nevent := NEVENTS\<rparr> in
      if \<not> calloc_ok then (ES_ERR, s\<lparr>event := Null, evb := Freed\<rparr>)
      else let s = s\<lparr>event := Live\<rparr> in
      if fd < 0 then (ES_ERR, s\<lparr>event := Freed, evb := Freed\<rparr>)
      else (ES_OK, s\<lparr>ep := fd, is_open_es := (is_open_es s)(fd := True)\<rparr>))"

definition delete_event_base :: "es \<Rightarrow> es run" where
  "delete_event_base s =
     (if evb s \<noteq> Live then Faults
      else let s = close_es (ep s) s in
      if event s = Freed then Faults else Ends (s\<lparr>event := Freed, evb := Freed\<rparr>))"

fun handle_events :: "u8 list \<Rightarrow> (int \<times> u32) list \<Rightarrow> es \<Rightarrow> es run" where
  "handle_events now [] s = Ends s"
| "handle_events now ((fd, ev) # evs) s =
     and_then (if ev AND EPOLLIN \<noteq> 0 then
         if fd = ld s then Ends (snd (accept_conn s))
         else and_then (recv_req fd s) (\<lambda>(r, s). Ends s)
       else Ends s) (\<lambda>s.
     and_then (if ev AND EPOLLOUT \<noteq> 0 then and_then (send_resp now fd s) (\<lambda>(r, s). Ends s) else Ends s)
       (handle_events now evs))"

fun event_loop :: "u8 list \<Rightarrow> wait list \<Rightarrow> es \<Rightarrow> (int option \<times> es) run" where
  "event_loop now [] s = (if stop_es s then Ends (None, s) else Blocks)"
| "event_loop now (w # ws) s =
     (if stop_es s then Ends (None, s)
      else let s = s\<lparr>waits := ws\<rparr> in
      case w of
        Wait_fails e sig \<Rightarrow>
          (let s = s\<lparr>errno := e\<rparr>; s = (if sig then signal_handler 15 s else s)
           in if errno s = EINTR then event_loop now ws s else Ends (Some (- 1), s))
      | Reports evs \<Rightarrow>
          and_then (handle_events now evs s) (\<lambda>s.
            if evs = [] \<and> errno s \<noteq> EINTR then Ends (Some (- 1), s) else event_loop now ws s))"

text \<open>\<open>main\<close> after the signals are set up; the result is the exit status.\<close>

definition main_es :: "u8 list \<Rightarrow> bool \<Rightarrow> bool \<Rightarrow> int \<Rightarrow> int \<Rightarrow> es \<Rightarrow> (int \<times> es) run" where
  "main_es now malloc_ok calloc_ok fd sock s =
     (case create_event_base malloc_ok calloc_ok fd s of (status, s) \<Rightarrow>
      if status < 0 then and_then (delete_event_base s) (\<lambda>s. Ends (1, s))
      else case listen_to_port_es sock s of (status, s) \<Rightarrow>
      if status < 0 then and_then (delete_event_base s) (\<lambda>s. Ends (1, s))
      else and_then (event_loop now (waits s) s) (\<lambda>(r, s).
        and_then (delete_event_base s) (\<lambda>s. Ends (0, close_es (ld s) s))))"

section \<open>Properties\<close>

text \<open>A script that only retries or makes progress: every write that succeeds takes at least a byte.\<close>

fun progress :: "nat syscall \<Rightarrow> bool" where
  "progress (Fails e) \<longleftrightarrow> False"
| "progress (Returns n) \<longleftrightarrow> 0 < n"

fun retry :: "nat syscall \<Rightarrow> bool" where
  "retry (Fails e) \<longleftrightarrow> e = EINTR \<or> e = EAGAIN"
| "retry (Returns n) \<longleftrightarrow> False"

lemma send_loop_sends:
  assumes "\<forall>w \<in> set ws. retry w \<or> progress w" and "msg \<noteq> []" and "length msg \<le> length (filter progress ws)"
  shows "\<exists>s'. send_loop ws msg s = Ends (ES_OK, s') \<and> wire s' = wire s @ msg \<and>
    interest_es s' = interest_es s \<and> is_open_es s' = is_open_es s \<and> printed s' = printed s \<and> ld s' = ld s \<and>
    stop_es s' = stop_es s"
  using assms
proof (induction ws arbitrary: msg s)
  case (Cons w ws)
  show ?case
  proof (cases w)
    case (Fails e)
    then have "e = EINTR \<or> e = EAGAIN" using Cons.prems(1) by simp
    moreover obtain s' where "send_loop ws msg (s\<lparr>writes_es := ws, errno := e\<rparr>) = Ends (ES_OK, s')"
      "wire s' = wire s @ msg" "interest_es s' = interest_es s" "is_open_es s' = is_open_es s" "printed s' = printed s"
      "ld s' = ld s" "stop_es s' = stop_es s"
      using Cons.IH [of msg "s\<lparr>writes_es := ws, errno := e\<rparr>"] Cons.prems Fails by auto
    ultimately show ?thesis using Fails by (auto simp: Let_def)
  next
    case (Returns n)
    define m where "m = min n (length msg)"
    define t where "t = s\<lparr>writes_es := ws, wire := wire s @ take m msg\<rparr>"
    have n: "0 < n" using Cons.prems(1) Returns by simp
    have step: "send_loop (w # ws) msg s = (if m = length msg then Ends (ES_OK, t) else send_loop ws (drop m msg) t)"
      using Returns by (simp add: m_def t_def Let_def)
    show ?thesis
    proof (cases "m = length msg")
      case True
      then show ?thesis using step by (simp add: t_def)
    next
      case False
      have m: "0 < m" "m < length msg" using n False Cons.prems(2) by (auto simp: m_def)
      have "length (drop m msg) \<le> length (filter progress ws)" using Cons.prems(3) m Returns n by simp
      then obtain s' where "send_loop ws (drop m msg) t = Ends (ES_OK, s')" "wire s' = wire t @ drop m msg"
        "interest_es s' = interest_es t" "is_open_es s' = is_open_es t" "printed s' = printed t" "ld s' = ld t"
        "stop_es s' = stop_es t"
        using Cons.IH [of "drop m msg" t] Cons.prems m by auto
      then show ?thesis using step False by (simp add: t_def)
    qed
  qed
qed simp

lemma send_resp_ok:
  assumes "\<forall>w \<in> set (writes_es s). retry w \<or> progress w" and "msg \<noteq> []"
    and "length msg \<le> length (filter progress (writes_es s))" and "is_open_es s sd" "interest_es s sd = Some i"
  shows "\<exists>s'. send_resp msg sd s = Ends (ES_OK, s') \<and> wire s' = wire s @ msg \<and>
    interest_es s' = (interest_es s)(sd \<mapsto> EPOLLIN OR EPOLLET) \<and> is_open_es s' = is_open_es s \<and> printed s' = printed s \<and>
    ld s' = ld s \<and> stop_es s' = stop_es s"
proof -
  obtain t where t: "send_loop (writes_es s) msg s = Ends (ES_OK, t)" "wire t = wire s @ msg"
    "interest_es t = interest_es s" "is_open_es t = is_open_es s" "printed t = printed s" "ld t = ld s" "stop_es t = stop_es s"
    using send_loop_sends [OF assms(1-3), of s] by blast
  then show ?thesis using assms(4,5) by (simp add: send_resp_def ctl_es_def ES_OK_def ES_ERR_def)
qed

text \<open>
  C15: However often the writes of the reply are interrupted, refused or cut short, the whole reply
  goes out in order, once, and the connection then waits for the next request.
\<close>

theorem send_resp_sends_all:
  assumes "\<forall>w \<in> set (writes_es s). retry w \<or> progress w" and "msg \<noteq> []"
    and "length msg \<le> length (filter progress (writes_es s))" and "is_open_es s sd" "interest_es s sd = Some i"
  shows "\<exists>s'. send_resp msg sd s = Ends (ES_OK, s') \<and> wire s' = wire s @ msg \<and>
    interest_es s' = (interest_es s)(sd \<mapsto> EPOLLIN OR EPOLLET) \<and> is_open_es s' = is_open_es s \<and> printed s' = printed s \<and>
    ld s' = ld s \<and> stop_es s' = stop_es s"
  using assms by (rule send_resp_ok)

text \<open>A request shorter than the buffer; \<open>request r\<close> is what gets printed for it.\<close>

fun request :: "u8 list syscall \<Rightarrow> u8 list" where
  "request (Fails e) = []"
| "request (Returns bs) = takeWhile (\<lambda>b. b \<noteq> 0) bs"

fun short_read :: "u8 list syscall \<Rightarrow> bool" where
  "short_read (Fails e) \<longleftrightarrow> True"
| "short_read (Returns bs) \<longleftrightarrow> bs \<noteq> [] \<and> length bs < MAX_BUF_SIZE"

lemma takeWhile_padded: "0 < k \<Longrightarrow> takeWhile (\<lambda>b. b \<noteq> (0::u8)) (bs @ replicate k 0) = takeWhile (\<lambda>b. b \<noteq> 0) bs"
  by (induction bs) (auto simp: gr0_conv_Suc)

lemma recv_req_ok:
  assumes "reads_es s = r # rs" and "short_read r" and "is_open_es s sd" "interest_es s sd = Some i"
  shows "\<exists>s'. recv_req sd s = Ends (ES_OK, s') \<and> printed s' = printed s @ [request r] \<and> reads_es s' = rs \<and>
    interest_es s' = (interest_es s)(sd \<mapsto> EPOLLIN OR EPOLLOUT OR EPOLLET) \<and> is_open_es s' = is_open_es s \<and>
    wire s' = wire s \<and> writes_es s' = writes_es s \<and> ld s' = ld s \<and> stop_es s' = stop_es s"
proof (cases r)
  case (Fails e)
  define t where "t = s\<lparr>reads_es := rs, errno := EAGAIN\<rparr>"
  have "recv_loop sd (r # rs) 0 (replicate MAX_BUF_SIZE 0) s = Ends (None, replicate MAX_BUF_SIZE 0, t)"
    using Fails by (simp add: t_def EAGAIN_def Let_def)
  then show ?thesis using assms Fails
    by (simp add: recv_req_def ctl_es_def t_def MAX_BUF_SIZE_def takeWhile_eq_Nil_iff Let_def)
next
  case (Returns bs)
  have len: "0 < length bs" "length bs < MAX_BUF_SIZE" using assms(2) Returns by auto
  define buf where "buf = bs @ replicate (MAX_BUF_SIZE - length bs) 0"
  have "mem_copy (replicate MAX_BUF_SIZE 0) 0 bs 0 (length bs) = Some buf"
    using len by (simp add: mem_copy_def buf_def)
  then have loop: "recv_loop sd (r # rs) 0 (replicate MAX_BUF_SIZE 0) s = Ends (None, buf, s\<lparr>reads_es := rs\<rparr>)"
    using len Returns by (auto simp: Let_def)
  have "0 \<in> set buf" "takeWhile (\<lambda>b. b \<noteq> 0) buf = request r"
    using len Returns by (auto simp: buf_def takeWhile_padded)
  then show ?thesis using loop assms by (simp add: recv_req_def ctl_es_def Let_def)
qed

text \<open>
  A request that fills the whole buffer is never answered: the next read stores behind the buffer,
  a failed read or the end of the stream makes \<open>printf\<close> run past it, and without more data the
  loop waits forever in \<open>read\<close>, because the socket is blocking.
\<close>

theorem recv_req_full_buffer:
  assumes "reads_es s = Returns bs # rs" and "MAX_BUF_SIZE \<le> length bs" and "0 \<notin> set (take MAX_BUF_SIZE bs)"
  shows "recv_req sd s = (if rs = [] \<and> status_flags s sd AND O_NONBLOCK = 0 then Blocks else Faults)"
proof -
  define buf where "buf = take MAX_BUF_SIZE bs"
  have buf: "length buf = MAX_BUF_SIZE" "0 \<notin> set buf" "buf \<noteq> []" using assms(2,3) by (auto simp: buf_def MAX_BUF_SIZE_def)
  have copy: "mem_copy (replicate MAX_BUF_SIZE 0) 0 buf 0 (length buf) = Some buf" using buf by (simp add: mem_copy_def)
  have loop: "recv_loop sd (Returns bs # rs) 0 (replicate MAX_BUF_SIZE 0) s =
      recv_loop sd rs MAX_BUF_SIZE buf (s\<lparr>reads_es := rs\<rparr>)"
    using buf copy by (simp add: buf_def [symmetric])
  show ?thesis
  proof (cases rs)
    case Nil
    then show ?thesis using loop assms(1) buf by (simp add: recv_req_def)
  next
    case (Cons r rs')
    show ?thesis
    proof (cases r)
      case (Fails e)
      then show ?thesis using loop assms(1) buf Cons by (simp add: recv_req_def EAGAIN_def)
    next
      case (Returns cs)
      define ds where "ds = take MAX_BUF_SIZE cs"
      show ?thesis using loop assms(1) buf Cons Returns
        by (cases "ds = []") (simp_all add: recv_req_def mem_copy_def Let_def ds_def [symmetric] split: prod.split)
    qed
  qed
qed

text \<open>An accepted connection; it stays blocking, since \<open>F_SETFD\<close> does not touch the status flags.\<close>

lemma accept_conn_ok:
  assumes "accepts_es s = Returns sd # rest" and "interest_es s sd = None"
  shows "\<exists>s'. accept_conn s = (ES_OK, s') \<and> is_open_es s' = (is_open_es s)(sd := True) \<and>
    interest_es s' = (interest_es s)(sd \<mapsto> EPOLLIN OR EPOLLET) \<and> status_flags s' sd AND O_NONBLOCK = 0 \<and>
    reads_es s' = reads_es s \<and> writes_es s' = writes_es s \<and> wire s' = wire s \<and> printed s' = printed s \<and>
    ld s' = ld s \<and> stop_es s' = stop_es s"
  using assms by (simp add: accept_conn_def set_nonblocking_es_def fcntl_getfd_def fcntl_setfd_def ctl_es_def)

text \<open>
  The life of a connection through the event loop: a client connects, its request is read and
  printed, the reply is written, and when a signal arrives the loop ends with the connection
  still open and waiting for the next request.
\<close>

theorem event_loop_serves:
  assumes "\<not> stop_es s" and "accepts_es s = Returns sd # as" "interest_es s sd = None" "sd \<noteq> ld s"
    and "reads_es s = r # rs" "short_read r"
    and "\<forall>w \<in> set (writes_es s). retry w \<or> progress w" "now \<noteq> []" "length now \<le> length (filter progress (writes_es s))"
  shows "\<exists>s'. event_loop now [Reports [(ld s, EPOLLIN)], Reports [(sd, EPOLLIN)], Reports [(sd, EPOLLOUT)], Wait_fails EINTR True] s =
      Ends (None, s') \<and> printed s' = printed s @ [request r] \<and> wire s' = wire s @ now \<and>
    is_open_es s' sd \<and> interest_es s' sd = Some (EPOLLIN OR EPOLLET) \<and> stop_es s'"
proof -
  have ev: "EPOLLIN AND EPOLLIN \<noteq> 0" "EPOLLIN AND EPOLLOUT = 0" "EPOLLOUT AND EPOLLIN = 0" "EPOLLOUT AND EPOLLOUT \<noteq> 0"
    by (simp_all add: EPOLLIN_def EPOLLOUT_def)
  define ws where "ws = [Reports [(sd, EPOLLIN)], Reports [(sd, EPOLLOUT)], Wait_fails EINTR True]"
  define s0 where "s0 = s\<lparr>waits := ws\<rparr>"
  have a0: "accepts_es s0 = Returns sd # as" "interest_es s0 sd = None" using assms(2,3) by (simp_all add: s0_def)
  obtain s1 where s1: "accept_conn s0 = (ES_OK, s1)" "is_open_es s1 sd" "interest_es s1 sd = Some (EPOLLIN OR EPOLLET)"
    "reads_es s1 = reads_es s" "writes_es s1 = writes_es s" "wire s1 = wire s" "printed s1 = printed s" "ld s1 = ld s" "\<not> stop_es s1"
    using accept_conn_ok [OF a0] assms(1) by (auto simp: s0_def)
  define s2 where "s2 = s1\<lparr>waits := tl ws\<rparr>"
  have r2: "reads_es s2 = r # rs" "is_open_es s2 sd" "interest_es s2 sd = Some (EPOLLIN OR EPOLLET)"
    using s1 assms(5) by (simp_all add: s2_def)
  obtain s3 where s3: "recv_req sd s2 = Ends (ES_OK, s3)" "printed s3 = printed s @ [request r]" "is_open_es s3 sd"
    "interest_es s3 sd = Some (EPOLLIN OR EPOLLOUT OR EPOLLET)" "wire s3 = wire s" "writes_es s3 = writes_es s" "ld s3 = ld s" "\<not> stop_es s3"
    using recv_req_ok [OF r2(1) assms(6) r2(2,3)] s1 by (auto simp: s2_def)
  define s4 where "s4 = s3\<lparr>waits := [Wait_fails EINTR True]\<rparr>"
  obtain s5 where s5: "send_resp now sd s4 = Ends (ES_OK, s5)" "wire s5 = wire s @ now" "interest_es s5 sd = Some (EPOLLIN OR EPOLLET)"
    "is_open_es s5 sd" "printed s5 = printed s @ [request r]" "\<not> stop_es s5"
    using send_resp_ok [of s4 now sd "EPOLLIN OR EPOLLOUT OR EPOLLET"] assms(7-9) s3 by (auto simp: s4_def)
  have ne: "sd \<noteq> ld s2" "sd \<noteq> ld s4" using assms(4) s1 s3 by (simp_all add: s2_def s4_def)
  have h1: "handle_events now [(ld s, EPOLLIN)] s0 = Ends s1" using s1 ev by (simp add: s0_def)
  have h2: "handle_events now [(sd, EPOLLIN)] s2 = Ends s3" using s3 ev ne by simp
  have h3: "handle_events now [(sd, EPOLLOUT)] s4 = Ends s5" using s5 ev by simp
  define s6 where "s6 = s5\<lparr>waits := [], errno := EINTR, stop_es := True\<rparr>"
  have "event_loop now (Reports [(ld s, EPOLLIN)] # ws) s = Ends (None, s6)"
    using assms(1) s1(9) s3(8) s5(6) h1 h2 h3
    by (simp add: ws_def s0_def s2_def s4_def s6_def signal_handler_def Let_def del: handle_events.simps)
  then show ?thesis unfolding ws_def using s5 by (auto simp: s6_def)
qed

text \<open>
  When the event base cannot be created, \<open>main\<close> runs \<open>delete_event_base\<close> on a pointer that is NULL
  or has been freed.
\<close>

theorem failed_start_faults:
  assumes "\<not> malloc_ok \<or> \<not> calloc_ok \<or> fd < 0"
  shows "main_es now malloc_ok calloc_ok fd sock s = Faults"
  using assms unfolding main_es_def create_event_base_def delete_event_base_def Let_def
  by (auto simp: ES_ERR_def)

definition demo_es :: es where
  "demo_es = \<lparr>evb = Live, event = Live, ep = 3, nevent = 1024, ld = 4, stop_es = False, errno = 0,
     is_open_es = (\<lambda>fd. fd = 3 \<or> fd = 4 \<or> fd = 5), fd_flags = (\<lambda>_. 0), status_flags = (\<lambda>_. 0),
     interest_es = [4 \<mapsto> EPOLLIN OR EPOLLET, 5 \<mapsto> EPOLLIN OR EPOLLOUT OR EPOLLET], accepts_es = [Returns 6],
     reads_es = [Returns [71, 69, 84]],
     writes_es = [Fails EINTR, Returns 2, Fails EAGAIN, Returns 1, Returns 9], results = [], waits = [], printed = [], wire = []\<rparr>"

theorem send_resp_sends_all_witness:
  "\<exists>s'. send_resp [50, 48, 10] 5 demo_es = Ends (ES_OK, s') \<and> wire s' = [50, 48, 10]"
proof -
  have "\<exists>s'. send_resp [50, 48, 10] 5 demo_es = Ends (ES_OK, s') \<and> wire s' = wire demo_es @ [50, 48, 10] \<and>
    interest_es s' = (interest_es demo_es)(5 \<mapsto> EPOLLIN OR EPOLLET) \<and> is_open_es s' = is_open_es demo_es \<and>
    printed s' = printed demo_es \<and> ld s' = ld demo_es \<and> stop_es s' = stop_es demo_es"
    by (rule send_resp_sends_all [where i = "EPOLLIN OR EPOLLOUT OR EPOLLET"]) (simp_all add: demo_es_def)
  then show ?thesis by (auto simp: demo_es_def)
qed

theorem recv_req_full_buffer_witness:
  "recv_req 5 (demo_es\<lparr>reads_es := [Returns (replicate MAX_BUF_SIZE 65), Returns [66]]\<rparr>) = Faults"
proof -
  have "recv_req 5 (demo_es\<lparr>reads_es := [Returns (replicate MAX_BUF_SIZE 65), Returns [66]]\<rparr>) =
    (if [Returns [66 :: u8]] = [] \<and> status_flags (demo_es\<lparr>reads_es := [Returns (replicate MAX_BUF_SIZE 65), Returns [66]]\<rparr>) 5 AND O_NONBLOCK = 0
      then Blocks else Faults)"
    by (rule recv_req_full_buffer [where bs = "replicate MAX_BUF_SIZE 65"]) simp_all
  then show ?thesis by simp
qed

theorem event_loop_serves_witness:
  "\<exists>s'. event_loop [50, 48, 10] [Reports [(4, EPOLLIN)], Reports [(6, EPOLLIN)], Reports [(6, EPOLLOUT)], Wait_fails EINTR True] demo_es =
      Ends (None, s') \<and> printed s' = [[71, 69, 84]] \<and> wire s' = [50, 48, 10]"
proof -
  have "\<exists>s'. event_loop [50, 48, 10] [Reports [(ld demo_es, EPOLLIN)], Reports [(6, EPOLLIN)], Reports [(6, EPOLLOUT)],
      Wait_fails EINTR True] demo_es = Ends (None, s') \<and>
    printed s' = printed demo_es @ [request (Returns [71, 69, 84])] \<and> wire s' = wire demo_es @ [50, 48, 10] \<and>
    is_open_es s' 6 \<and> interest_es s' 6 = Some (EPOLLIN OR EPOLLET) \<and> stop_es s'"
    by (rule event_loop_serves) (simp_all add: demo_es_def MAX_BUF_SIZE_def)
  then show ?thesis by (auto simp: demo_es_def)
qed

theorem failed_start_faults_witness: "main_es [] True False 3 4 demo_es = Faults"
  by (rule failed_start_faults) simp

end
