(* ===== verification/Dent_Sort.thy ===== *)
theory Dent_Sort
  imports Prelude "HOL-Library.Multiset"
begin

text \<open>
  Sorting directory entries, in \<open>src/libeio/eio.c\<close>: a bitwise radix sort with an explicit stack
  that stops at small partitions, and an insertion sort that relies on its smallest element being
  at the front. Reading or writing outside an array is the fault \<open>None\<close>. The structure is laid
  out as on a little-endian 64-bit machine: \<open>nameofs\<close> in bits 0 to 31, \<open>namelen\<close> 32 to 47,
  \<open>type\<close> 48 to 55, \<open>score\<close> 56 to 63 and \<open>inode\<close> 64 to 127.
\<close>

section \<open>The code\<close>

record eio_dirent =
  nameofs :: u32
  namelen :: u16
  dtype :: u8
  score :: u8
  inode :: u64

definition EIO_SORT_CUTOFF :: nat where "EIO_SORT_CUTOFF = 30"
definition EIO_SORT_FAST :: nat where "EIO_SORT_FAST = 60"

definition eio_dent_cmp :: "eio_dirent \<Rightarrow> eio_dirent \<Rightarrow> int" where
  "eio_dent_cmp a b =
     (let d = sint (score a) - sint (score b)
      in if d \<noteq> 0 then sint (word_of_int d :: u8)
         else if inode a < inode b then - 1
         else if inode b < inode a then 1 else 0)"

text \<open>The bit of a structure in memory with a given number: byte \<open>k div 8\<close>, bit \<open>k mod 8\<close>.\<close>

definition dent_bit :: "eio_dirent \<Rightarrow> nat \<Rightarrow> bool" where
  "dent_bit d k =
     (if k < 32 then bit (nameofs d) k
      else if k < 48 then bit (namelen d) (k - 32)
      else if k < 56 then bit (dtype d) (k - 48)
      else if k < 64 then bit (score d) (k - 56)
      else bit (inode d) (k - 64))"

text \<open>The array of bits to test, the sentinel first and the most significant bit last.\<close>

definition sort_bits :: "u8 \<Rightarrow> u64 \<Rightarrow> nat list" where
  "sort_bits score_bits inode_bits =
     0 # map (\<lambda>k. 64 + k) (filter (bit inode_bits) [0..<64]) @ map (\<lambda>j. 56 + j) (filter (bit score_bits) [0..<8])"

definition swap :: "nat \<Rightarrow> nat \<Rightarrow> 'a list \<Rightarrow> 'a list" where
  "swap i j xs = xs[i := xs ! j, j := xs ! i]"

text \<open>The partition of \<open>xs[a..<b]\<close> on bit \<open>k\<close>, a \<open>do\<close>-\<open>while\<close> loop.\<close>

function part_loop :: "nat \<Rightarrow> eio_dirent list \<Rightarrow> nat \<Rightarrow> nat \<Rightarrow> eio_dirent list \<times> nat" where
  "part_loop k xs a b =
     (if \<not> dent_bit (xs ! a) k then (if a + 1 < b then part_loop k xs (a + 1) b else (xs, a + 1))
      else if \<not> dent_bit (xs ! (b - 1)) k then
        (if a + 1 < b - 1 then part_loop k (swap a (b - 1) xs) (a + 1) (b - 1) else (swap a (b - 1) xs, a + 1))
      else (if a < b - 1 then part_loop k xs a (b - 1) else (xs, a)))"
  by pat_completeness auto
termination by (relation "measure (\<lambda>(k, xs, a, b). b - a)") auto

declare part_loop.simps [simp del]

text \<open>
  The loop over the stack. \<open>b\<close> is the index of the current bit in \<open>bits\<close>; decrementing it
  below 0 reads in front of the array, and the stack holds at most 73 entries.
\<close>

function (sequential) radix_run ::
  "nat list \<Rightarrow> eio_dirent list \<Rightarrow> nat \<Rightarrow> nat \<Rightarrow> nat \<Rightarrow> (nat \<times> nat \<times> nat) list \<Rightarrow> eio_dirent list option" where
  "radix_run bits xs base end0 b stk =
     (if end0 < base + EIO_SORT_CUTOFF then
        (case stk of [] \<Rightarrow> Some xs | (s, e, b') # stk' \<Rightarrow> radix_run bits xs s e b' stk')
      else case part_loop (bits ! b) xs base end0 of (xs', a) \<Rightarrow>
        if b = 0 then None
        else if bits ! (b - 1) = 0 then
          (case stk of [] \<Rightarrow> Some xs' | (s, e, b') # stk' \<Rightarrow> radix_run bits xs' s e b' stk')
        else if 73 \<le> length stk then None
        else radix_run bits xs' base a (b - 1) ((a, end0, b - 1) # stk))"
  by pat_completeness auto
termination
proof (relation "measure (\<lambda>(bits, xs, base, end0, b, stk). 3 ^ b + (\<Sum>(s, e, b') \<leftarrow> stk. 3 ^ b' :: nat))", goal_cases)
  case (4 bits xs base end0 b stk)
  then obtain c where "b = Suc c" by (cases b) auto
  then show ?case by simp
qed auto

declare radix_run.simps [simp del]

definition eio_dent_radix_sort :: "eio_dirent list \<Rightarrow> u8 \<Rightarrow> u64 \<Rightarrow> eio_dirent list option" where
  "eio_dent_radix_sort dents score_bits inode_bits =
     (if length dents \<le> EIO_SORT_FAST then Some dents
      else let bits = sort_bits score_bits inode_bits
        in radix_run bits dents 0 (length dents) (length bits - 1) [])"

text \<open>The scan for the minimum counts down; \<open>m\<close> is the index of the smallest element so far.\<close>

fun min_loop :: "eio_dirent list \<Rightarrow> nat \<Rightarrow> nat \<Rightarrow> nat" where
  "min_loop xs 0 m = m"
| "min_loop xs (Suc i) m = min_loop xs i (if eio_dent_cmp (xs ! Suc i) (xs ! m) < 0 then Suc i else m)"

text \<open>Making room for \<open>value\<close>, which goes behind the first element that is not larger.\<close>

fun shift_down :: "eio_dirent list \<Rightarrow> nat \<Rightarrow> eio_dirent \<Rightarrow> eio_dirent list option" where
  "shift_down xs 0 value = None"
| "shift_down xs (Suc j) value =
     (if eio_dent_cmp (xs ! j) value > 0 then shift_down (xs[Suc j := xs ! j]) j value
      else Some (xs[Suc j := value]))"

fun insert_loop :: "nat list \<Rightarrow> eio_dirent list \<Rightarrow> eio_dirent list option" where
  "insert_loop [] xs = Some xs"
| "insert_loop (i # is) xs = shift_down xs i (xs ! i) \<bind> insert_loop is"

definition eio_dent_insertion_sort :: "eio_dirent list \<Rightarrow> eio_dirent list option" where
  "eio_dent_insertion_sort dents =
     (let n = (if EIO_SORT_FAST < length dents then EIO_SORT_CUTOFF + 1 else length dents);
          m = min_loop dents (n - 1) 0
      in insert_loop [1..<length dents] (swap 0 m dents))"

definition eio_dent_sort :: "eio_dirent list \<Rightarrow> u8 \<Rightarrow> u64 \<Rightarrow> eio_dirent list option" where
  "eio_dent_sort dents score_bits inode_bits =
     (if length dents \<le> 1 then Some dents
      else do {
        dents \<leftarrow> eio_dent_radix_sort dents score_bits inode_bits;
        eio_dent_insertion_sort dents
      })"

section \<open>The order\<close>

text \<open>
  The comparison is that of a number: the score above the inode. It is an order as long as the
  scores stay between 0 and 100, as the comment in the code says.
\<close>

definition key :: "eio_dirent \<Rightarrow> nat" where
  "key d = unat (score d) * 2 ^ 64 + unat (inode d)"

definition scored :: "eio_dirent \<Rightarrow> bool" where
  "scored d \<longleftrightarrow> unat (score d) \<le> 100"

lemma sint_score: "scored d \<Longrightarrow> sint (score d) = int (unat (score d))"
  by (rule sint_nonneg) (simp add: scored_def)

lemma cmp_key:
  assumes "scored a" "scored b"
  shows "eio_dent_cmp a b < 0 \<longleftrightarrow> key a < key b" "0 < eio_dent_cmp a b \<longleftrightarrow> key b < key a"
proof -
  define p q where "p = unat (score a)" "q = unat (score b)"
  define u v where "u = unat (inode a)" "v = unat (inode b)"
  have "u < 2 ^ 64" "v < 2 ^ 64" using unsigned_less [of "inode a"] unsigned_less [of "inode b"] by (simp_all add: u_v_def)
  have pq: "p \<le> 100" "q \<le> 100" using assms by (simp_all add: scored_def p_q_def)
  have s: "sint (score a) = int p" "sint (score b) = int q" using assms by (simp_all add: sint_score p_q_def)
  have uv: "inode a < inode b \<longleftrightarrow> u < v" "inode b < inode a \<longleftrightarrow> v < u" by (simp_all add: u_v_def word_less_nat_alt)
  have d: "sint (word_of_int (int p - int q) :: u8) = int p - int q"
  proof -
    define z where "z = int p - int q"
    have "sint (word_of_int z :: u8) = signed_take_bit 7 z" by (simp add: sint_uint unsigned_of_int signed_take_bit_take_bit)
    also have "\<dots> = z" by (rule signed_take_bit_int_eq_self) (use pq in \<open>auto simp: z_def\<close>)
    finally show ?thesis by (simp only: z_def)
  qed
  have lex: "x * 2 ^ 64 + i < y * 2 ^ 64 + (j :: nat)" if "x < y" "i < 2 ^ 64" for x y i j :: nat
  proof -
    have "x * 2 ^ 64 + i < Suc x * 2 ^ 64" using that by simp
    also have "\<dots> \<le> y * 2 ^ 64" using that by (intro mult_le_mono1) simp
    finally show ?thesis by simp
  qed
  have k: "key a = p * 2 ^ 64 + u" "key b = q * 2 ^ 64 + v" by (simp_all add: key_def p_q_def u_v_def)
  consider "p < q" | "q < p" | "p = q" by linarith
  then show "eio_dent_cmp a b < 0 \<longleftrightarrow> key a < key b" "0 < eio_dent_cmp a b \<longleftrightarrow> key b < key a"
  proof (atomize (full), cases)
    case 1
    then have "key a < key b" unfolding k by (rule lex) fact
    then show "(eio_dent_cmp a b < 0 \<longleftrightarrow> key a < key b) \<and> (0 < eio_dent_cmp a b \<longleftrightarrow> key b < key a)"
      using 1 by (simp add: eio_dent_cmp_def s d del: of_int_diff)
  next
    case 2
    then have "key b < key a" unfolding k by (rule lex) fact
    then show "(eio_dent_cmp a b < 0 \<longleftrightarrow> key a < key b) \<and> (0 < eio_dent_cmp a b \<longleftrightarrow> key b < key a)"
      using 2 by (simp add: eio_dent_cmp_def s d del: of_int_diff)
  next
    case 3
    then show "(eio_dent_cmp a b < 0 \<longleftrightarrow> key a < key b) \<and> (0 < eio_dent_cmp a b \<longleftrightarrow> key b < key a)"
      by (simp add: eio_dent_cmp_def s uv k)
  qed
qed

section \<open>The insertion sort\<close>

text \<open>Insertion from the end, on the reversed prefix.\<close>

fun rins :: "eio_dirent \<Rightarrow> eio_dirent list \<Rightarrow> eio_dirent list" where
  "rins v [] = [v]"
| "rins v (p # ps) = (if key v < key p then p # rins v ps else v # p # ps)"

lemma mset_rins: "mset (rins v ps) = add_mset v (mset ps)"
  by (induction ps) auto

lemma set_rins [simp]: "set (rins v ps) = insert v (set ps)"
  by (induction ps) auto

lemma length_rins [simp]: "length (rins v ps) = Suc (length ps)"
  by (induction ps) auto

lemma sorted_rins:
  "sorted_wrt (\<lambda>a b. key b \<le> key a) ps \<Longrightarrow> sorted_wrt (\<lambda>a b. key b \<le> key a) (rins v ps)"
proof (induction ps)
  case (Cons p ps)
  then show ?case by (cases "key v < key p") (auto intro: order_trans)
qed simp

lemma last_rins: "ps \<noteq> [] \<Longrightarrow> key (last ps) \<le> key v \<Longrightarrow> last (rins v ps) = last ps"
proof (induction ps)
  case (Cons p ps)
  then show ?case by (cases ps) auto
qed simp

lemma shift_down_rins:
  assumes "\<forall>d \<in> set ps. scored d" "scored v" and "\<exists>p \<in> set ps. key p \<le> key v"
  shows "shift_down (rev ps @ c # R) (length ps) v = Some (rev (rins v ps) @ R)"
  using assms
proof (induction ps arbitrary: c R)
  case (Cons p ps)
  have cmp: "eio_dent_cmp p v > 0 \<longleftrightarrow> key v < key p" using Cons.prems cmp_key(2) [of p v] by simp
  have nth: "(rev (p # ps) @ c # R) ! length ps = p" by (simp add: nth_append)
  show ?case
  proof (cases "key v < key p")
    case True
    have "(rev (p # ps) @ c # R)[Suc (length ps) := p] = rev ps @ p # p # R"
      by (simp add: list_update_append)
    then have "shift_down (rev (p # ps) @ c # R) (length (p # ps)) v = shift_down (rev ps @ p # (p # R)) (length ps) v"
      using True cmp nth by simp
    also have "\<dots> = Some (rev (rins v ps) @ p # R)" using Cons True by (intro Cons.IH) auto
    finally show ?thesis using True by simp
  next
    case False
    have "(rev (p # ps) @ c # R)[Suc (length ps) := v] = rev (p # ps) @ v # R"
      by (simp add: list_update_append)
    then show ?thesis using False cmp nth by simp
  qed
qed simp

lemma insert_loop_sorts:
  assumes "sorted_wrt (\<lambda>a b. key b \<le> key a) ps" and "ps \<noteq> []" and "\<forall>d \<in> set (rev ps @ R). key (last ps) \<le> key d \<and> scored d"
  shows "\<exists>ys. insert_loop [length ps..<length ps + length R] (rev ps @ R) = Some ys \<and> mset ys = mset (rev ps @ R) \<and>
    sorted_wrt (\<lambda>a b. key a \<le> key b) ys"
  using assms
proof (induction R arbitrary: ps)
  case Nil
  then show ?case by (auto simp: sorted_wrt_rev)
next
  case (Cons v R)
  have step: "shift_down (rev ps @ v # R) (length ps) v = Some (rev (rins v ps) @ R)"
  proof (rule shift_down_rins)
    show "\<exists>p \<in> set ps. key p \<le> key v" using Cons.prems(2,3) by (intro bexI [of _ "last ps"]) auto
  qed (use Cons.prems in auto)
  have last: "last (rins v ps) = last ps" using Cons.prems(2,3) by (intro last_rins) auto
  have "\<exists>ys. insert_loop [length (rins v ps)..<length (rins v ps) + length R] (rev (rins v ps) @ R) = Some ys \<and>
      mset ys = mset (rev (rins v ps) @ R) \<and> sorted_wrt (\<lambda>a b. key a \<le> key b) ys"
  proof (rule Cons.IH)
    show "sorted_wrt (\<lambda>a b. key b \<le> key a) (rins v ps)" by (rule sorted_rins) (rule Cons.prems(1))
    show "rins v ps \<noteq> []" by (cases ps) auto
    show "\<forall>d \<in> set (rev (rins v ps) @ R). key (last (rins v ps)) \<le> key d \<and> scored d"
      using last Cons.prems(3) by auto
  qed
  moreover have "[length ps..<length ps + length (v # R)] = length ps # [length (rins v ps)..<length (rins v ps) + length R]"
    by (simp add: upt_rec)
  moreover have "(rev ps @ v # R) ! length ps = v" by (simp add: nth_append)
  ultimately show ?case using step by (simp add: mset_rins)
qed

lemma min_loop_min:
  assumes "\<forall>d \<in> set xs. scored d" and "i < length xs" "m < length xs"
  shows "min_loop xs i m \<in> insert m {1..i} \<and> (\<forall>k \<in> insert m {1..i}. key (xs ! min_loop xs i m) \<le> key (xs ! k))"
  using assms(2,3)
proof (induction i arbitrary: m)
  case (Suc i)
  define m' where "m' = (if eio_dent_cmp (xs ! Suc i) (xs ! m) < 0 then Suc i else m)"
  have "eio_dent_cmp (xs ! Suc i) (xs ! m) < 0 \<longleftrightarrow> key (xs ! Suc i) < key (xs ! m)"
    using assms(1) Suc.prems by (intro cmp_key) auto
  then have m': "key (xs ! m') \<le> key (xs ! m)" "key (xs ! m') \<le> key (xs ! Suc i)" "m' \<in> {m, Suc i}" "m' < length xs"
    using Suc.prems by (auto simp: m'_def)
  have "min_loop xs i m' \<in> insert m' {1..i} \<and> (\<forall>k \<in> insert m' {1..i}. key (xs ! min_loop xs i m') \<le> key (xs ! k))"
    using Suc.IH [of m'] Suc.prems m' by simp
  moreover have "insert m {1..Suc i} = insert m (insert (Suc i) {1..i})" by auto
  ultimately show ?case using m' unfolding min_loop.simps m'_def [symmetric]
    by (auto intro: order_trans)
qed simp

section \<open>The radix sort\<close>

text \<open>A pass over \<open>xs[a..<b]\<close> permutes that region and nothing else.\<close>

definition permutes :: "nat \<Rightarrow> nat \<Rightarrow> eio_dirent list \<Rightarrow> eio_dirent list \<Rightarrow> bool" where
  "permutes a b xs ys \<longleftrightarrow> length ys = length xs \<and> mset ys = mset xs \<and>
     (\<forall>i. i < a \<or> b \<le> i \<longrightarrow> ys ! i = xs ! i) \<and> (!) ys ` {a..<b} = (!) xs ` {a..<b}"

lemma permutes_refl: "permutes a b xs xs"
  by (simp add: permutes_def)

lemma permutes_trans: "permutes a b xs ys \<Longrightarrow> permutes a b ys zs \<Longrightarrow> permutes a b xs zs"
  unfolding permutes_def by metis

lemma permutes_swap:
  assumes "a \<le> i" "i < b" "a \<le> j" "j < b" "b \<le> length xs"
  shows "permutes a b xs (swap i j xs)"
proof -
  define f where "f k = (if k = j then i else if k = i then j else k)" for k
  have f: "f (f k) = k" "a \<le> k \<Longrightarrow> k < b \<Longrightarrow> a \<le> f k \<and> f k < b" for k using assms by (auto simp: f_def)
  have nth: "swap i j xs ! k = xs ! f k" if "k < length xs" for k
    using that assms by (auto simp: swap_def nth_list_update f_def)
  have "swap i j xs ! k \<in> (!) xs ` {a..<b}" "xs ! k \<in> (!) (swap i j xs) ` {a..<b}" if "a \<le> k" "k < b" for k
  proof -
    have "f k < length xs" "k < length xs" using f(2) that assms by (metis less_le_trans)+
    then have "swap i j xs ! k = xs ! f k" "xs ! k = swap i j xs ! f k" using nth [of k] nth [of "f k"] f(1) by simp_all
    then show "swap i j xs ! k \<in> (!) xs ` {a..<b}" "xs ! k \<in> (!) (swap i j xs) ` {a..<b}" using f(2) [OF that] by auto
  qed
  then have "(!) (swap i j xs) ` {a..<b} = (!) xs ` {a..<b}" by (auto simp: image_subset_iff)
  moreover have "mset (swap i j xs) = mset xs" using assms by (simp add: swap_def mset_swap)
  moreover have "swap i j xs ! k = xs ! k" if "k < a \<or> b \<le> k" for k using that assms by (auto simp: swap_def)
  ultimately show ?thesis by (auto simp: permutes_def swap_def)
qed

lemma permutes_mono: "permutes a' b' xs ys \<Longrightarrow> a \<le> a' \<Longrightarrow> b' \<le> b \<Longrightarrow> permutes a b xs ys"
proof -
  assume p: "permutes a' b' xs ys" and ab: "a \<le> a'" "b' \<le> b"
  have eq: "ys ! i = xs ! i" if "i < a' \<or> b' \<le> i" for i using p that unfolding permutes_def by blast
  have img: "(!) ys ` {a'..<b'} = (!) xs ` {a'..<b'}" using p by (simp add: permutes_def)
  have "{a..<b} = {a..<b} - {a'..<b'} \<union> {a'..<b'}" if "a' < b'" using that ab by auto
  moreover have "(!) ys ` ({a..<b} - {a'..<b'}) = (!) xs ` ({a..<b} - {a'..<b'})"
    by (rule image_cong) (use eq in auto)
  ultimately have "(!) ys ` {a..<b} = (!) xs ` {a..<b}"
  proof (cases "a' < b'")
    case False
    have "ys ! i = xs ! i" for i by (rule eq) (use False in linarith)
    then show ?thesis by simp
  qed (metis image_Un img)
  then show ?thesis using p ab by (auto simp: permutes_def)
qed

lemma part_loop_ok:
  assumes "a < b" "b \<le> length xs" and "part_loop k xs a b = (ys, c)"
  shows "permutes a b xs ys \<and> a \<le> c \<and> c \<le> b \<and> (\<forall>i. a \<le> i \<and> i < c \<longrightarrow> \<not> dent_bit (ys ! i) k) \<and>
    (\<forall>i. c \<le> i \<and> i < b \<longrightarrow> dent_bit (ys ! i) k)"
  using assms
proof (induction k xs a b rule: part_loop.induct)
  case (1 k xs a b)
  consider (low) "\<not> dent_bit (xs ! a) k" | (swap) "dent_bit (xs ! a) k" "\<not> dent_bit (xs ! (b - 1)) k"
    | (high) "dent_bit (xs ! a) k" "dent_bit (xs ! (b - 1)) k" by blast
  then show ?case
  proof cases
    case low
    show ?thesis
    proof (cases "a + 1 < b")
      case True
      have "part_loop k xs (a + 1) b = (ys, c)"
        using 1(6) low True by (subst (asm) part_loop.simps) simp
      then have IH: "permutes (a + 1) b xs ys" "a + 1 \<le> c" "c \<le> b" "\<forall>i. a + 1 \<le> i \<and> i < c \<longrightarrow> \<not> dent_bit (ys ! i) k"
        "\<forall>i. c \<le> i \<and> i < b \<longrightarrow> dent_bit (ys ! i) k"
        using 1(1) [OF low True True 1(5)] by auto
      have "ys ! a = xs ! a" using IH(1) by (simp add: permutes_def)
      then have "\<not> dent_bit (ys ! i) k" if "a \<le> i" "i < c" for i
        using that low IH(4) by (cases "i = a") auto
      then show ?thesis using IH by (auto intro: permutes_mono [of "a + 1" b])
    next
      case False
      then have "ys = xs" "c = a + 1" using 1(6) low by (subst (asm) part_loop.simps, simp)+
      then show ?thesis using low False 1(4) by (auto simp: permutes_refl less_Suc_eq le_less_Suc_eq)
    qed
  next
    case swap
    define zs where "zs = swap a (b - 1) xs"
    have pz: "permutes a b xs zs" unfolding zs_def by (rule permutes_swap) (use 1(4,5) in auto)
    have ne: "a \<noteq> b - 1" using swap by metis
    have za: "zs ! a = xs ! (b - 1)" "zs ! (b - 1) = xs ! a" using 1(4,5) ne by (auto simp: zs_def swap_def)
    show ?thesis
    proof (cases "a + 1 < b - 1")
      case True
      have "part_loop k zs (a + 1) (b - 1) = (ys, c)"
        using 1(6) swap True unfolding zs_def by (subst (asm) part_loop.simps) simp
      then have IH: "permutes (a + 1) (b - 1) zs ys" "a + 1 \<le> c" "c \<le> b - 1" "\<forall>i. a + 1 \<le> i \<and> i < c \<longrightarrow> \<not> dent_bit (ys ! i) k"
        "\<forall>i. c \<le> i \<and> i < b - 1 \<longrightarrow> dent_bit (ys ! i) k"
        using 1(2) [OF _ _ True True] swap 1(5) unfolding zs_def by (auto simp: swap_def)
      have e: "ys ! a = zs ! a" "ys ! (b - 1) = zs ! (b - 1)" using IH(1) by (simp_all add: permutes_def)
      have "\<not> dent_bit (ys ! i) k" if "a \<le> i" "i < c" for i
        using that swap za e IH(4) by (cases "i = a") auto
      moreover have "dent_bit (ys ! i) k" if "c \<le> i" "i < b" for i
        using that swap za e IH(5) by (cases "i = b - 1") auto
      moreover have "permutes a b xs ys"
        by (rule permutes_trans [OF pz]) (rule permutes_mono [OF IH(1)], use 1(4) in auto)
      ultimately show ?thesis using IH(2,3) by auto
    next
      case False
      then have y: "ys = zs" "c = a + 1" using 1(6) swap unfolding zs_def by (subst (asm) part_loop.simps, simp)+
      have "dent_bit (ys ! i) k" if "c \<le> i" "i < b" for i
      proof -
        have "i = b - 1" using that y False by auto
        then show ?thesis using y za swap by simp
      qed
      moreover have "\<not> dent_bit (ys ! i) k" if "a \<le> i" "i < c" for i
        using that y za swap by (cases "i = a") auto
      ultimately show ?thesis using pz y 1(4) ne by auto
    qed
  next
    case high
    show ?thesis
    proof (cases "a < b - 1")
      case True
      have "part_loop k xs a (b - 1) = (ys, c)"
        using 1(6) high True by (subst (asm) part_loop.simps) simp
      then have IH: "permutes a (b - 1) xs ys" "a \<le> c" "c \<le> b - 1" "\<forall>i. a \<le> i \<and> i < c \<longrightarrow> \<not> dent_bit (ys ! i) k"
        "\<forall>i. c \<le> i \<and> i < b - 1 \<longrightarrow> dent_bit (ys ! i) k"
        using 1(3) [OF _ _ True True] high 1(5) by auto
      have "ys ! (b - 1) = xs ! (b - 1)" using IH(1) by (simp add: permutes_def)
      then have "dent_bit (ys ! i) k" if "c \<le> i" "i < b" for i
        using that high IH(5) by (cases "i = b - 1") auto
      then show ?thesis using IH by (auto intro: permutes_mono [of a "b - 1"])
    next
      case False
      then have y: "ys = xs" "c = a" using 1(6) high by (subst (asm) part_loop.simps, simp)+
      have "dent_bit (ys ! i) k" if "c \<le> i" "i < b" for i
      proof -
        have "i = a" using that y False 1(4) by auto
        then show ?thesis using y high by simp
      qed
      then show ?thesis using y 1(4) by (auto simp: permutes_refl)
    qed
  qed
qed

text \<open>The bits of the key, and which of them the array of bits lists.\<close>

lemma bit_key: "bit (key d) p = (if p < 64 then bit (inode d) p else bit (score d) (p - 64))"
proof -
  define i t where "i = unat (inode d)" "t = unat (score d)"
  have i: "i < 2 ^ 64" using unsigned_less [of "inode d"] by (simp add: i_t_def)
  have w: "bit i q = bit (inode d) q" "bit t q = bit (score d) q" for q
    by (simp_all add: i_t_def bit_unsigned_iff)
  have k: "key d = t * 2 ^ 64 + i" by (simp add: key_def i_t_def)
  show ?thesis
  proof (cases "p < 64")
    case True
    then obtain r where r: "64 = p + Suc r" using less_iff_Suc_add [of p 64] by auto
    have "(t * 2 ^ 64 + i) div 2 ^ p = (2 ^ p * (t * 2 ^ Suc r) + i) div 2 ^ p"
      unfolding r by (simp add: power_add ac_simps)
    also have "\<dots> = t * 2 ^ Suc r + i div 2 ^ p" by simp
    finally have "bit (key d) p = bit i p" by (simp add: bit_iff_odd k)
    then show ?thesis using True w by simp
  next
    case False
    then obtain r where r: "p = 64 + r" using le_Suc_ex [of 64 p] by auto
    have "(t * 2 ^ 64 + i) div 2 ^ p = ((t * 2 ^ 64 + i) div 2 ^ 64) div 2 ^ r"
      unfolding r by (simp only: power_add div_mult2_eq)
    also have "(t * 2 ^ 64 + i) div 2 ^ 64 = t" using i by simp
    finally have "bit (key d) p = bit t r" by (simp add: bit_iff_odd k)
    then show ?thesis using False w r by simp
  qed
qed

definition key_bits :: "u8 \<Rightarrow> u64 \<Rightarrow> nat list" where
  "key_bits sb ib = filter (bit ib) [0..<64] @ map (\<lambda>j. 64 + j) (filter (bit sb) [0..<8])"

lemma key_bits_sorted: "sorted_wrt (<) (key_bits sb ib)"
  by (auto simp: key_bits_def sorted_wrt_append sorted_wrt_map sorted_wrt_filter)

lemma length_sort_bits: "length (sort_bits sb ib) = Suc (length (key_bits sb ib))"
  by (simp add: sort_bits_def key_bits_def)

lemma length_key_bits: "length (key_bits sb ib) \<le> 72"
  using length_filter_le [of "bit ib" "[0..<64]"] length_filter_le [of "bit sb" "[0..<8]"] by (simp add: key_bits_def)

lemma dent_bit_key:
  assumes "0 < l" "l < length (sort_bits sb ib)"
  shows "dent_bit d (sort_bits sb ib ! l) = bit (key d) (key_bits sb ib ! (l - 1))" "sort_bits sb ib ! l \<noteq> 0"
proof -
  define A B where "A = filter (bit ib) [0..<64]" "B = filter (bit sb) [0..<8]"
  have mem: "p < 64" if "p \<in> set A" for p using that by (simp add: A_B_def)
  have memB: "p < 8" if "p \<in> set B" for p using that by (simp add: A_B_def)
  obtain m where l: "l = Suc m" using assms(1) by (cases l) auto
  have s: "sort_bits sb ib ! l = (map (\<lambda>k. 64 + k) A @ map (\<lambda>j. 56 + j) B) ! m"
    by (simp add: sort_bits_def A_B_def l)
  have k: "key_bits sb ib ! (l - 1) = (A @ map (\<lambda>j. 64 + j) B) ! m" by (simp add: key_bits_def A_B_def l)
  have len: "m < length A + length B" using assms by (simp add: sort_bits_def A_B_def l)
  show "dent_bit d (sort_bits sb ib ! l) = bit (key d) (key_bits sb ib ! (l - 1))" "sort_bits sb ib ! l \<noteq> 0"
  proof (atomize (full), cases "m < length A")
    case True
    then have "A ! m < 64" by (intro mem) simp
    then show "dent_bit d (sort_bits sb ib ! l) = bit (key d) (key_bits sb ib ! (l - 1)) \<and> sort_bits sb ib ! l \<noteq> 0"
      unfolding s k using True by (simp add: nth_append dent_bit_def bit_key)
  next
    case False
    then have "B ! (m - length A) < 8" using len by (intro memB) simp
    then show "dent_bit d (sort_bits sb ib ! l) = bit (key d) (key_bits sb ib ! (l - 1)) \<and> sort_bits sb ib ! l \<noteq> 0"
      unfolding s k using False len by (simp add: nth_append dent_bit_def bit_key)
  qed
qed

text \<open>The two bit masks must cover every bit in which two entries differ.\<close>

definition covers :: "u8 \<Rightarrow> u64 \<Rightarrow> eio_dirent set \<Rightarrow> bool" where
  "covers sb ib D \<longleftrightarrow> (\<forall>d \<in> D. \<forall>k < 64. bit (inode d) k \<longrightarrow> bit ib k) \<and>
     (\<forall>d \<in> D. \<forall>d' \<in> D. \<forall>k < 8. bit (score d) k \<noteq> bit (score d') k \<longrightarrow> bit sb k)"

lemma covers_key:
  assumes "covers sb ib D" "x \<in> D" "y \<in> D" "p \<notin> set (key_bits sb ib)"
  shows "bit (key x) p = bit (key y) p"
proof -
  consider "p < 64" | "64 \<le> p" "p - 64 < 8" | "64 \<le> p" "\<not> p - 64 < 8" by linarith
  then show ?thesis
  proof cases
    case 1
    then have "\<not> bit ib p" using assms(4) by (auto simp: key_bits_def)
    then show ?thesis using assms 1 by (auto simp: bit_key covers_def)
  next
    case 2
    then have "\<not> bit sb (p - 64)" using assms(4) by (auto simp: key_bits_def image_iff)
    then show ?thesis using assms 2 by (simp add: bit_key covers_def) blast
  next
    case 3
    then have "\<not> bit (score d) (p - 64)" for d :: eio_dirent by (auto dest: bit_imp_le_length)
    then show ?thesis using 3 by (simp add: bit_key)
  qed
qed

lemma bit_less:
  fixes x y :: nat
  assumes "\<And>p. q < p \<Longrightarrow> bit x p = bit y p" and "\<not> bit x q" "bit y q"
  shows "x < y"
proof -
  have high: "drop_bit (Suc q) x = drop_bit (Suc q) y"
    by (rule bit_eqI) (simp add: bit_drop_bit_eq assms(1))
  have split: "drop_bit q z = 2 * drop_bit (Suc q) z + of_bool (bit z q)" for z :: nat
    by (metis bit_iff_odd_drop_bit drop_bit_Suc drop_bit_half mult.commute div_mult_mod_eq mod2_eq_if of_bool_def)
  have "drop_bit q x < drop_bit q y" using split [of x] split [of y] high assms(2,3) by simp
  then have "x div 2 ^ q < y div 2 ^ q" by (simp only: drop_bit_eq_div)
  then show ?thesis using div_le_mono [of y x "2 ^ q"] by linarith
qed

lemma key_bits_above:
  assumes "p \<in> set (key_bits sb ib)" and "key_bits sb ib ! (b - 1) < p" "0 < b" "b < length (sort_bits sb ib)"
  obtains l where "b < l" "l < length (sort_bits sb ib)" "p = key_bits sb ib ! (l - 1)"
proof -
  obtain m where m: "m < length (key_bits sb ib)" "p = key_bits sb ib ! m" using assms(1) by (metis in_set_conv_nth)
  have "b - 1 < m"
  proof (rule ccontr)
    assume "\<not> b - 1 < m"
    then have "m = b - 1 \<or> m < b - 1" by auto
    moreover have "b - 1 < length (key_bits sb ib)" using assms(3,4) length_sort_bits [of sb ib] by simp
    ultimately have "p \<le> key_bits sb ib ! (b - 1)"
      using sorted_wrt_nth_less [OF key_bits_sorted, of m "b - 1" sb ib] m by (auto simp: less_imp_le)
    then show False using assms(2) by simp
  qed
  then show thesis using m length_sort_bits [of sb ib] assms(3) by (intro that [of "Suc m"]) auto
qed

lemma split_key:
  assumes "covers sb ib D" "x \<in> D" "y \<in> D" and b: "0 < b" "b < length (sort_bits sb ib)"
    and agree: "\<And>l. b < l \<Longrightarrow> l < length (sort_bits sb ib) \<Longrightarrow> dent_bit x (sort_bits sb ib ! l) = dent_bit y (sort_bits sb ib ! l)"
    and "\<not> dent_bit x (sort_bits sb ib ! b)" "dent_bit y (sort_bits sb ib ! b)"
  shows "key x < key y"
proof (rule bit_less [where q = "key_bits sb ib ! (b - 1)"])
  show "\<not> bit (key x) (key_bits sb ib ! (b - 1))" "bit (key y) (key_bits sb ib ! (b - 1))"
    using assms(7,8) by (simp_all add: dent_bit_key(1) [OF b])
  show "bit (key x) p = bit (key y) p" if p: "key_bits sb ib ! (b - 1) < p" for p
  proof (cases "p \<in> set (key_bits sb ib)")
    case True
    then obtain l where l: "b < l" "l < length (sort_bits sb ib)" "p = key_bits sb ib ! (l - 1)"
      using p b by (rule key_bits_above)
    then show ?thesis using agree [OF l(1,2)] b(1) by (simp add: dent_bit_key(1))
  qed (rule covers_key [OF assms(1-3)])
qed

lemma same_key:
  assumes "covers sb ib D" "x \<in> D" "y \<in> D"
    and agree: "\<And>l. 0 < l \<Longrightarrow> l < length (sort_bits sb ib) \<Longrightarrow> dent_bit x (sort_bits sb ib ! l) = dent_bit y (sort_bits sb ib ! l)"
  shows "key x = key y"
proof (rule bit_eqI)
  fix p
  show "bit (key x) p = bit (key y) p"
  proof (cases "p \<in> set (key_bits sb ib)")
    case True
    then obtain m where m: "m < length (key_bits sb ib)" "p = key_bits sb ib ! m" by (metis in_set_conv_nth)
    then show ?thesis using agree [of "Suc m"] length_sort_bits [of sb ib] dent_bit_key(1) [of "Suc m" sb ib] by simp
  qed (rule covers_key [OF assms(1-3)])
qed

text \<open>
  The invariant of the loop over the stack. The blocks on it, the current one first, cover the
  array from \<open>m\<close> to the end; across a block boundary the keys do not decrease, and within a
  block the entries agree on all bits already tested.
\<close>

definition cut :: "eio_dirent list \<Rightarrow> nat \<Rightarrow> bool" where
  "cut xs m \<longleftrightarrow> (\<forall>i j. i < m \<and> m \<le> j \<and> j < length xs \<longrightarrow> key (xs ! i) \<le> key (xs ! j))"

definition agree :: "nat list \<Rightarrow> eio_dirent list \<Rightarrow> nat \<Rightarrow> nat \<Rightarrow> nat \<Rightarrow> bool" where
  "agree bits xs s e b \<longleftrightarrow> (\<forall>i j l. s \<le> i \<and> i < e \<and> s \<le> j \<and> j < e \<and> b < l \<and> l < length bits \<longrightarrow>
     dent_bit (xs ! i) (bits ! l) = dent_bit (xs ! j) (bits ! l))"

fun blocks :: "nat list \<Rightarrow> eio_dirent list \<Rightarrow> nat \<Rightarrow> (nat \<times> nat \<times> nat) list \<Rightarrow> bool" where
  "blocks bits xs m [] \<longleftrightarrow> m = length xs"
| "blocks bits xs m ((s, e, b) # stk) \<longleftrightarrow> s = m \<and> s \<le> e \<and> cut xs s \<and> agree bits xs s e b \<and> 0 < b \<and> b < length bits \<and>
     length stk + b \<le> 72 \<and> blocks bits xs e stk"

definition front :: "eio_dirent list \<Rightarrow> nat \<Rightarrow> bool" where
  "front xs m \<longleftrightarrow> m = 0 \<or> (\<exists>i < 31. i < m \<and> (\<forall>d \<in> set xs. key (xs ! i) \<le> key d))"

lemma blocks_le: "blocks bits xs m stk \<Longrightarrow> m \<le> length xs"
  by (induction bits xs m stk rule: blocks.induct) auto

lemma blocks_cut: "blocks bits xs m stk \<Longrightarrow> cut xs m"
  by (cases stk) (auto simp: cut_def)

lemma permutes_length: "permutes a b xs ys \<Longrightarrow> length ys = length xs"
  by (simp add: permutes_def)

lemma permutes_set: "permutes a b xs ys \<Longrightarrow> set ys = set xs"
  unfolding permutes_def by (metis set_mset_mset)

lemma permutes_in:
  assumes "permutes a b xs ys" and "a \<le> i" "i < b"
  obtains i' where "a \<le> i'" "i' < b" "ys ! i = xs ! i'"
proof -
  have "ys ! i \<in> (!) ys ` {a..<b}" using assms(2,3) by auto
  then have "ys ! i \<in> (!) xs ` {a..<b}" using assms(1) by (simp add: permutes_def)
  then show thesis using that by auto
qed

lemma permutes_out: "permutes a b xs ys \<Longrightarrow> i < a \<or> b \<le> i \<Longrightarrow> ys ! i = xs ! i"
  unfolding permutes_def by blast

lemma cut_permutes:
  assumes "permutes a b xs ys" and "m \<le> a \<or> b \<le> m" and "b \<le> length xs" and "cut xs m"
  shows "cut ys m"
  unfolding cut_def
proof (intro allI impI)
  fix i j assume ij: "i < m \<and> m \<le> j \<and> j < length ys"
  obtain i' where i': "i' < m" "ys ! i = xs ! i'"
  proof (cases "a \<le> i \<and> i < b")
    case True
    with permutes_in [OF assms(1)] obtain i' where "a \<le> i'" "i' < b" "ys ! i = xs ! i'" by blast
    then show thesis using assms(2) True ij by (intro that [of i']) auto
  next
    case False
    then have "ys ! i = xs ! i" by (intro permutes_out [OF assms(1)]) auto
    then show thesis using ij by (intro that [of i]) auto
  qed
  obtain j' where j': "m \<le> j'" "j' < length xs" "ys ! j = xs ! j'"
  proof (cases "a \<le> j \<and> j < b")
    case True
    with permutes_in [OF assms(1)] obtain j' where "a \<le> j'" "j' < b" "ys ! j = xs ! j'" by blast
    then show thesis using assms(2,3) True ij by (intro that [of j']) auto
  next
    case False
    then have "ys ! j = xs ! j" by (intro permutes_out [OF assms(1)]) auto
    then show thesis using ij permutes_length [OF assms(1)] by (intro that [of j]) auto
  qed
  show "key (ys ! i) \<le> key (ys ! j)" using assms(4) i' j' unfolding cut_def by metis
qed

lemma agree_permutes:
  assumes "permutes a b xs ys" and "b \<le> s \<or> (s \<le> a \<and> b \<le> e)" and "agree bits xs s e c"
  shows "agree bits ys s e c"
proof -
  have "\<exists>i'. s \<le> i' \<and> i' < e \<and> ys ! i = xs ! i'" if "s \<le> i" "i < e" for i
  proof (cases "a \<le> i \<and> i < b")
    case True
    with permutes_in [OF assms(1)] obtain i' where "a \<le> i'" "i' < b" "ys ! i = xs ! i'" by blast
    then show ?thesis using assms(2) True that by (intro exI [of _ i']) auto
  next
    case False
    then have "ys ! i = xs ! i" by (intro permutes_out [OF assms(1)]) auto
    then show ?thesis using that by blast
  qed
  then show ?thesis using assms(3) unfolding agree_def by metis
qed

lemma blocks_permutes:
  "permutes a b xs ys \<Longrightarrow> b \<le> m \<Longrightarrow> b \<le> length xs \<Longrightarrow> blocks bits xs m stk \<Longrightarrow> blocks bits ys m stk"
proof (induction bits xs m stk rule: blocks.induct)
  case (2 bits xs m s e c stk)
  then show ?case using cut_permutes [OF 2(2), of m] agree_permutes [OF 2(2), of m e bits c] by auto
qed (auto simp: permutes_length)

lemma front_permutes: "permutes a b xs ys \<Longrightarrow> m \<le> a \<Longrightarrow> front xs m \<Longrightarrow> front ys m"
  unfolding front_def using permutes_out permutes_set by (metis less_le_trans)

text \<open>A finished block: small, or with its minimum at the front.\<close>

lemma front_block:
  assumes "front xs s" and "cut xs s" "cut xs e" and "s \<le> e" "e \<le> length xs"
    and min: "s < e \<Longrightarrow> e < s + 30 \<or> (\<forall>j. s \<le> j \<and> j < e \<longrightarrow> key (xs ! s) \<le> key (xs ! j))"
  shows "front xs e"
proof (cases "s = 0 \<and> 0 < e")
  case False
  then show ?thesis using assms(1,4) unfolding front_def by (metis le_zero_eq less_le_trans neq0_conv)
next
  case True
  obtain i where i: "i < 31" "i < e" "\<And>j. j < e \<Longrightarrow> key (xs ! i) \<le> key (xs ! j)"
  proof (cases "e < 30")
    case True
    define i where "i = arg_min_on (\<lambda>i. key (xs ! i)) {..<e}"
    have ne: "{..<e} \<noteq> {}" using \<open>s = 0 \<and> 0 < e\<close> by auto
    have "i \<in> {..<e}" unfolding i_def by (rule arg_min_if_finite(1)) (use ne in auto)
    moreover have "key (xs ! i) \<le> key (xs ! j)" if "j < e" for j
      unfolding i_def by (rule arg_min_least) (use ne that in auto)
    ultimately show thesis using True by (intro that [of i]) auto
  next
    case False
    then show thesis using min True by (intro that [of 0]) auto
  qed
  have "key (xs ! i) \<le> key (xs ! j)" if "j < length xs" for j
    using i that assms(3) unfolding cut_def by (metis not_le)
  then show ?thesis using i unfolding front_def by (metis in_set_conv_nth)
qed

fun stack_size :: "nat \<Rightarrow> (nat \<times> nat \<times> nat) list \<Rightarrow> nat" where
  "stack_size b stk = 3 ^ b + (\<Sum>(s, e, b') \<leftarrow> stk. 3 ^ b')"

lemma radix_run_ok:
  assumes "covers sb ib (set xs)" and bits: "bits = sort_bits sb ib"
    and "blocks bits xs base ((base, e, b) # stk)" and "front xs base"
  shows "\<exists>ys. radix_run bits xs base e b stk = Some ys \<and> mset ys = mset xs \<and> front ys (length ys)"
  using assms(1,3,4)
proof (induction "stack_size b stk" arbitrary: xs base e b stk rule: less_induct)
  case less
  have blk: "base \<le> e" "cut xs base" "agree bits xs base e b" "0 < b" "b < length bits" "length stk + b \<le> 72" "blocks bits xs e stk"
    using less.prems(2) by auto
  have e: "e \<le> length xs" by (rule blocks_le [OF blk(7)])
  note cute = blocks_cut [OF blk(7)]
  have pop: "\<exists>ys. (case stk of [] \<Rightarrow> Some zs | (s, e, b') # stk' \<Rightarrow> radix_run bits zs s e b' stk') = Some ys \<and>
      mset ys = mset xs \<and> front ys (length ys)"
    if z: "blocks bits zs e stk" "front zs e" "mset zs = mset xs" for zs
  proof (cases stk)
    case Nil
    then show ?thesis using z by auto
  next
    case (Cons q stk')
    obtain s' e' b' where q: "q = (s', e', b')" by (cases q)
    have "stack_size b' stk' < stack_size b stk" using Cons q by simp
    moreover have "set zs = set xs" using z(3) by (metis set_mset_mset)
    moreover have "s' = e" using z(1) Cons q by simp
    ultimately have "\<exists>ys. radix_run bits zs s' e' b' stk' = Some ys \<and> mset ys = mset zs \<and> front ys (length ys)"
      using less.hyps [of b' stk' zs s' e'] less.prems(1) z Cons q by simp
    then show ?thesis using Cons q z(3) by simp
  qed
  show ?case
  proof (cases "e < base + EIO_SORT_CUTOFF")
    case True
    then have "front xs e"
      by (intro front_block [OF less.prems(3) blk(2) cute blk(1) e]) (simp add: EIO_SORT_CUTOFF_def)
    then show ?thesis using pop [of xs] blk(7) True by (subst radix_run.simps) simp
  next
    case False
    then have lt: "base < e" by (simp add: EIO_SORT_CUTOFF_def)
    obtain zs a where za: "part_loop (bits ! b) xs base e = (zs, a)" by fastforce
    from part_loop_ok [OF lt e za]
    have p: "permutes base e xs zs" and a: "base \<le> a" "a \<le> e"
      and lo: "\<And>i. base \<le> i \<Longrightarrow> i < a \<Longrightarrow> \<not> dent_bit (zs ! i) (bits ! b)"
      and hi: "\<And>i. a \<le> i \<Longrightarrow> i < e \<Longrightarrow> dent_bit (zs ! i) (bits ! b)" by auto
    have sz: "set zs = set xs" "length zs = length xs" "mset zs = mset xs"
      using permutes_set [OF p] permutes_length [OF p] p unfolding permutes_def by blast+
    have ag: "agree bits zs base e b" by (rule agree_permutes [OF p _ blk(3)]) simp
    have fz: "front zs base" by (rule front_permutes [OF p _ less.prems(3)]) simp
    have cutb: "cut zs base" by (rule cut_permutes [OF p _ e blk(2)]) simp
    have cutz: "cut zs e" by (rule cut_permutes [OF p _ e cute]) simp
    have mem: "i < e \<Longrightarrow> zs ! i \<in> set xs" for i using sz e by (metis less_le_trans nth_mem)
    have below: "key (zs ! i) < key (zs ! j)" if "base \<le> i" "i < a" "a \<le> j" "j < e" for i j
    proof (rule split_key [OF less.prems(1)])
      show "0 < b" "b < length (sort_bits sb ib)" using blk bits by simp_all
      show "\<not> dent_bit (zs ! i) (sort_bits sb ib ! b)" "dent_bit (zs ! j) (sort_bits sb ib ! b)"
        using lo [of i] hi [of j] that bits by simp_all
      show "dent_bit (zs ! i) (sort_bits sb ib ! l) = dent_bit (zs ! j) (sort_bits sb ib ! l)"
        if "b < l" "l < length (sort_bits sb ib)" for l
        using ag that \<open>base \<le> i\<close> \<open>i < a\<close> \<open>a \<le> j\<close> \<open>j < e\<close> a bits unfolding agree_def by auto
    qed (use that a mem in auto)
    have agsub: "agree bits zs s' e' (b - 1)"
      if "base \<le> s'" "e' \<le> e" and same: "\<And>i j. s' \<le> i \<Longrightarrow> i < e' \<Longrightarrow> s' \<le> j \<Longrightarrow> j < e' \<Longrightarrow>
        dent_bit (zs ! i) (bits ! b) = dent_bit (zs ! j) (bits ! b)" for s' e'
      unfolding agree_def
    proof (intro allI impI, elim conjE)
      fix i j l assume h: "s' \<le> i" "i < e'" "s' \<le> j" "j < e'" "b - 1 < l" "l < length bits"
      show "dent_bit (zs ! i) (bits ! l) = dent_bit (zs ! j) (bits ! l)"
      proof (cases "l = b")
        case True
        show ?thesis unfolding True by (rule same [OF h(1-4)])
      next
        case False
        then have "b < l" using h(5) blk(4) by simp
        moreover have "base \<le> i" "i < e" "base \<le> j" "j < e" using h that(1,2) by simp_all
        ultimately show ?thesis using ag h(6) unfolding agree_def by blast
      qed
    qed
    have loag: "agree bits zs base a (b - 1)" by (rule agsub) (use a lo in auto)
    have hiag: "agree bits zs a e (b - 1)" by (rule agsub) (use a hi in auto)
    have cuta: "cut zs a"
      unfolding cut_def
    proof (intro allI impI, elim conjE)
      fix i j assume ij: "i < a" "a \<le> j" "j < length zs"
      show "key (zs ! i) \<le> key (zs ! j)"
      proof (cases "base \<le> i \<and> j < e")
        case True
        then show ?thesis using below [of i j] ij by simp
      next
        case False
        then have "i < base \<and> base \<le> j \<or> i < e \<and> e \<le> j" using ij a by linarith
        then show ?thesis using cutb cutz ij(3) unfolding cut_def by blast
      qed
    qed
    have bz: "blocks bits zs e stk" by (rule blocks_permutes [OF p _ e blk(7)]) simp
    show ?thesis
    proof (cases "bits ! (b - 1) = 0")
      case True
      have b1: "b = 1"
      proof (rule ccontr)
        assume "b \<noteq> 1"
        then have "0 < b - 1" "b - 1 < length (sort_bits sb ib)" using blk(4,5) bits by auto
        then show False using True dent_bit_key(2) bits by blast
      qed
      have eqk: "key (zs ! i) = key (zs ! j)" if ij: "i < e" "j < e" "(base \<le> i \<and> i < a \<and> base \<le> j \<and> j < a) \<or> (a \<le> i \<and> a \<le> j)" for i j
      proof (rule same_key [OF less.prems(1)])
        show "dent_bit (zs ! i) (sort_bits sb ib ! l) = dent_bit (zs ! j) (sort_bits sb ib ! l)"
          if "0 < l" "l < length (sort_bits sb ib)" for l
          using ij(3)
        proof
          assume "base \<le> i \<and> i < a \<and> base \<le> j \<and> j < a"
          then show ?thesis using loag that b1 bits unfolding agree_def by simp
        next
          assume "a \<le> i \<and> a \<le> j"
          then show ?thesis using hiag that b1 bits ij(1,2) unfolding agree_def by simp
        qed
      qed (use ij mem in auto)
      have "key (zs ! base) \<le> key (zs ! j)" if j: "base \<le> j" "j < e" for j
      proof (cases "base < a")
        case True
        then show ?thesis using eqk [of base j] below [of base j] j lt by (cases "j < a") auto
      next
        case False
        then show ?thesis using eqk [of base j] j lt a by simp
      qed
      then have "front zs e" by (intro front_block [OF fz cutb cutz blk(1)]) (use e sz in auto)
      then show ?thesis using pop [of zs] bz sz za False True blk(4) by (subst radix_run.simps) simp
    next
      case nz: False
      have b1: "0 < b - 1"
      proof (rule ccontr)
        assume "\<not> 0 < b - 1"
        then have "bits ! (b - 1) = 0" using bits by (simp add: sort_bits_def)
        then show False using nz by simp
      qed
      obtain b' where b': "b = Suc b'" using blk(4) by (cases b) auto
      have next_blocks: "blocks bits zs base ((base, a, b - 1) # (a, e, b - 1) # stk)"
        using a cutb cuta loag hiag bz b1 blk(5,6) by (simp, linarith)
      have "\<exists>ys. radix_run bits zs base a (b - 1) ((a, e, b - 1) # stk) = Some ys \<and> mset ys = mset zs \<and> front ys (length ys)"
      proof (rule less.hyps [OF _ _ next_blocks fz])
        show "stack_size (b - 1) ((a, e, b - 1) # stk) < stack_size b stk" by (simp add: b')
        show "covers sb ib (set zs)" using less.prems(1) sz by simp
      qed
      moreover have "radix_run bits xs base e b stk = radix_run bits zs base a (b - 1) ((a, e, b - 1) # stk)"
        using False za nz blk(4,6) by (subst radix_run.simps) simp
      ultimately show ?thesis using sz by simp
    qed
  qed
qed

section \<open>The whole sort\<close>

lemma radix_sort_ok:
  assumes "covers sb ib (set xs)" and "length xs \<le> EIO_SORT_FAST \<or> key_bits sb ib \<noteq> []"
  shows "\<exists>ys. eio_dent_radix_sort xs sb ib = Some ys \<and> mset ys = mset xs \<and>
    (EIO_SORT_FAST < length xs \<longrightarrow> front ys (length ys))"
proof (cases "length xs \<le> EIO_SORT_FAST")
  case False
  have len: "0 < length (key_bits sb ib)" "length (key_bits sb ib) \<le> 72"
    using assms(2) False length_key_bits by auto
  have "blocks (sort_bits sb ib) xs 0 ((0, length xs, length (sort_bits sb ib) - 1) # [])"
    using len by (auto simp: length_sort_bits cut_def agree_def)
  moreover have "front xs 0" by (simp add: front_def)
  ultimately show ?thesis
    using radix_run_ok [OF assms(1) refl, of 0 "length xs" "length (sort_bits sb ib) - 1" "[]"] False
    by (simp add: eio_dent_radix_sort_def Let_def)
qed (simp add: eio_dent_radix_sort_def)

lemma insertion_sort_ok:
  assumes "xs \<noteq> []" and "\<forall>d \<in> set xs. scored d" and "EIO_SORT_FAST < length xs \<longrightarrow> front xs (length xs)"
  shows "\<exists>ys. eio_dent_insertion_sort xs = Some ys \<and> mset ys = mset xs \<and> sorted_wrt (\<lambda>a b. key a \<le> key b) ys"
proof -
  define n where "n = (if EIO_SORT_FAST < length xs then EIO_SORT_CUTOFF + 1 else length xs)"
  define m where "m = min_loop xs (n - 1) 0"
  have n: "0 < n" "n \<le> length xs" using assms(1) by (auto simp: n_def EIO_SORT_FAST_def EIO_SORT_CUTOFF_def)
  have mm: "m \<in> insert 0 {1..n - 1}" "\<And>k. k \<in> insert 0 {1..n - 1} \<Longrightarrow> key (xs ! m) \<le> key (xs ! k)"
  proof -
    have "n - 1 < length xs" "0 < length xs" using n assms(1) by simp_all
    from min_loop_min [OF assms(2) this]
    show "m \<in> insert 0 {1..n - 1}" "\<And>k. k \<in> insert 0 {1..n - 1} \<Longrightarrow> key (xs ! m) \<le> key (xs ! k)"
      unfolding m_def by blast+
  qed
  have ml: "m < length xs" using mm(1) n by auto
  have min: "key (xs ! m) \<le> key d" if d: "d \<in> set xs" for d
  proof (cases "EIO_SORT_FAST < length xs")
    case True
    then obtain i where i: "i < 31" "key (xs ! i) \<le> key d" using assms(1,3) d by (auto simp: front_def)
    have "i \<in> insert 0 {1..n - 1}" using i(1) True by (auto simp: n_def EIO_SORT_CUTOFF_def)
    then show ?thesis using mm(2) i(2) by (meson le_trans)
  next
    case False
    obtain k where k: "k < length xs" "d = xs ! k" using d by (metis in_set_conv_nth)
    then have "k \<in> insert 0 {1..n - 1}" using False by (auto simp: n_def)
    then show ?thesis using mm(2) k by simp
  qed
  define zs where "zs = swap 0 m xs"
  have mz: "mset zs = mset xs" using ml assms(1) by (simp add: zs_def swap_def mset_swap)
  then have sz: "set zs = set xs" by (metis set_mset_mset)
  obtain z zs' where z: "zs = z # zs'" using mz assms(1) by (cases zs) auto
  have "z = xs ! m"
  proof -
    have "zs ! 0 = xs ! m" using ml assms(1) by (cases "m = 0") (auto simp: zs_def swap_def nth_list_update)
    then show ?thesis using z by simp
  qed
  then have "\<exists>ys. insert_loop [length [z]..<length [z] + length zs'] (rev [z] @ zs') = Some ys \<and>
      mset ys = mset (rev [z] @ zs') \<and> sorted_wrt (\<lambda>a b. key a \<le> key b) ys"
    using min assms(2) sz z by (intro insert_loop_sorts) auto
  moreover have "length xs = Suc (length zs')" using arg_cong [OF mz, of size] z by simp
  then have "[length [z]..<length [z] + length zs'] = [1..<length xs]" "rev [z] @ zs' = zs" using z by simp_all
  moreover have "eio_dent_insertion_sort xs = insert_loop [1..<length xs] zs"
    by (simp only: eio_dent_insertion_sort_def Let_def n_def m_def zs_def)
  ultimately show ?thesis by (simp only: mz)
qed

lemma dent_sort_ok:
  assumes "\<forall>d \<in> set xs. scored d" and "covers sb ib (set xs)" and "length xs \<le> EIO_SORT_FAST \<or> key_bits sb ib \<noteq> []"
  shows "\<exists>ys. eio_dent_sort xs sb ib = Some ys \<and> mset ys = mset xs \<and> sorted_wrt (\<lambda>a b. key a \<le> key b) ys"
proof (cases "length xs \<le> 1")
  case True
  then have "sorted_wrt (\<lambda>a b. key a \<le> key b) xs" by (cases xs) auto
  then show ?thesis using True by (simp add: eio_dent_sort_def)
next
  case False
  obtain ys where ys: "eio_dent_radix_sort xs sb ib = Some ys" "mset ys = mset xs"
    "EIO_SORT_FAST < length xs \<longrightarrow> front ys (length ys)"
    using radix_sort_ok [OF assms(2,3)] by blast
  have "length ys = length xs" "set ys = set xs" using ys(2) by (metis size_mset, metis set_mset_mset)
  then have "\<exists>zs. eio_dent_insertion_sort ys = Some zs \<and> mset zs = mset ys \<and> sorted_wrt (\<lambda>a b. key a \<le> key b) zs"
    using False assms(1) ys(3) by (intro insertion_sort_ok) auto
  then show ?thesis using False ys by (auto simp: eio_dent_sort_def)
qed

text \<open>
  C14: The sort returns the entries it was given in the order of the comparison function, never
  leaves its arrays and never overflows its stack, as long as the scores are the documented
  ones, the masks cover the bits in which entries differ, and a list of more than 60 entries has
  at least one bit to test.
\<close>

theorem eio_dent_sort_sorts:
  assumes "\<forall>d \<in> set xs. scored d" and "covers sb ib (set xs)" and "length xs \<le> EIO_SORT_FAST \<or> sb \<noteq> 0 \<or> ib \<noteq> 0"
  shows "\<exists>ys. eio_dent_sort xs sb ib = Some ys \<and> mset ys = mset xs \<and> sorted_wrt (\<lambda>a b. eio_dent_cmp a b \<le> 0) ys"
proof -
  have "key_bits sb ib \<noteq> []" if "sb \<noteq> 0 \<or> ib \<noteq> 0"
  proof -
    have "(\<exists>k. bit sb k) \<or> (\<exists>k. bit ib k)" using that by (auto simp: bit_eq_iff)
    moreover have "bit sb k \<Longrightarrow> k < 8" "bit ib k \<Longrightarrow> k < 64" for k using bit_imp_le_length [of sb k] bit_imp_le_length [of ib k] by simp_all
    ultimately have "(\<exists>k < 8. bit sb k) \<or> (\<exists>k < 64. bit ib k)" by blast
    then show ?thesis by (auto simp: key_bits_def filter_empty_conv)
  qed
  then obtain ys where ys: "eio_dent_sort xs sb ib = Some ys" "mset ys = mset xs" "sorted_wrt (\<lambda>a b. key a \<le> key b) ys"
    using dent_sort_ok [OF assms(1,2)] assms(3) by blast
  have "set ys = set xs" using ys(2) by (metis set_mset_mset)
  then have "sorted_wrt (\<lambda>a b. eio_dent_cmp a b \<le> 0) ys"
    using ys(3) assms(1) cmp_key(2) by (metis (no_types, lifting) linorder_not_less sorted_wrt_mono_rel)
  then show ?thesis using ys by blast
qed

text \<open>
  With more than 60 entries and no bit to test (no inode numbers and all scores equal), the radix
  pass decrements its bit pointer below the start of its array and reads there.
\<close>

theorem eio_dent_sort_no_bits:
  assumes "EIO_SORT_FAST < length xs"
  shows "eio_dent_sort xs 0 0 = None"
proof -
  have "sort_bits 0 0 = [0]" by (simp add: sort_bits_def)
  then have "eio_dent_radix_sort xs 0 0 = None" using assms
    by (simp add: eio_dent_radix_sort_def EIO_SORT_FAST_def) (subst radix_run.simps, simp add: EIO_SORT_CUTOFF_def split: prod.split)
  then show ?thesis using assms by (simp add: eio_dent_sort_def EIO_SORT_FAST_def)
qed

definition a_dent :: "u8 \<Rightarrow> u64 \<Rightarrow> eio_dirent" where
  "a_dent sc ino = \<lparr>nameofs = 0, namelen = 1, dtype = 8, score = sc, inode = ino\<rparr>"

theorem eio_dent_sort_sorts_witness:
  "\<exists>ys. eio_dent_sort [a_dent 7 2, a_dent 0 9, a_dent 7 1] 7 11 = Some ys \<and>
    mset ys = {#a_dent 0 9, a_dent 7 1, a_dent 7 2#} \<and> sorted_wrt (\<lambda>a b. eio_dent_cmp a b \<le> 0) ys"
proof -
  have "bit (7 :: u8) k" if "k < 3" for k using that by (auto simp: numeral_eq_Suc less_Suc_eq)
  moreover have "bit (2 :: u64) k \<or> bit (9 :: u64) k \<or> bit (1 :: u64) k \<Longrightarrow> bit (11 :: u64) k" for k
    by (auto simp: bit_numeral_rec bit_1_iff split: nat.splits)
  ultimately have cov: "covers 7 11 (set [a_dent 7 2, a_dent 0 9, a_dent 7 1])"
    by (auto simp: covers_def a_dent_def)
  have "\<exists>ys. eio_dent_sort [a_dent 7 2, a_dent 0 9, a_dent 7 1] 7 11 = Some ys \<and>
    mset ys = mset [a_dent 7 2, a_dent 0 9, a_dent 7 1] \<and> sorted_wrt (\<lambda>a b. eio_dent_cmp a b \<le> 0) ys"
    by (rule eio_dent_sort_sorts [OF _ cov]) (simp_all add: scored_def a_dent_def EIO_SORT_FAST_def)
  then show ?thesis by (simp add: ac_simps add_mset_commute)
qed

theorem eio_dent_sort_no_bits_witness: "eio_dent_sort (replicate 61 (a_dent 7 0)) 0 0 = None"
  by (rule eio_dent_sort_no_bits) (simp add: EIO_SORT_FAST_def)

end
