(* ===== verification/Scandir.thy ===== *)
theory Scandir
  imports Dent_Sort
begin

text \<open>
  Reading a directory, \<open>eio__scandir\<close> of \<open>src/libeio/eio.c\<close>, for a platform with \<open>readdir\<close>. The
  entries that \<open>readdir\<close> will return, the \<open>errno\<close> at the end, the outcome of every \<open>realloc\<close> and
  whether the request has been cancelled after each entry are arguments. The sizes and offsets of the
  two buffers are \<open>int\<close> as in the code. \<open>None\<close> is the fault, an overflow of one of them included.
\<close>

section \<open>The code\<close>

definition EIO_READDIR_DENTS :: u32 where "EIO_READDIR_DENTS = 0x01"
definition EIO_READDIR_DIRS_FIRST :: u32 where "EIO_READDIR_DIRS_FIRST = 0x02"
definition EIO_READDIR_STAT_ORDER :: u32 where "EIO_READDIR_STAT_ORDER = 0x04"
definition EIO_READDIR_FOUND_UNKNOWN :: u32 where "EIO_READDIR_FOUND_UNKNOWN = 0x80"

definition EIO_DT_UNKNOWN :: u8 where "EIO_DT_UNKNOWN = 0"
definition EIO_DT_DIR :: u8 where "EIO_DT_DIR = 4"

lemmas readdir_flags = EIO_READDIR_DENTS_def EIO_READDIR_DIRS_FIRST_def EIO_READDIR_STAT_ORDER_def
  EIO_READDIR_FOUND_UNKNOWN_def

text \<open>What \<open>readdir\<close> returns: the name without its final zero byte, the type and the inode.\<close>

record dir_entry =
  dname :: "u8 list"
  d_type :: u8
  d_ino :: u64

record scan =
  names :: "u8 list"
  namesalloc :: int
  namesoffs :: int
  dents :: "eio_dirent list option"
  dentalloc :: int
  dentoffs :: int
  rflags_dir :: u32
  inode_bits :: u64
  req_flags :: u32

text \<open>The file types that \<open>dirent.h\<close> defines on Linux have the values of the \<open>EIO_DT\<close> constants.\<close>

definition dent_type :: "u8 \<Rightarrow> u8 \<times> bool" where
  "dent_type t = (if t \<in> {1, 2, 4, 6, 8, 10, 12, 14} then (t, False) else (EIO_DT_UNKNOWN, True))"

text \<open>\<open>len\<close> counts the final zero byte; 46 is the dot.\<close>

definition dent_score :: "u32 \<Rightarrow> u8 \<Rightarrow> u8 list \<Rightarrow> u8" where
  "dent_score flags t name =
     (let len = length name + 1 in
      if flags AND EIO_READDIR_DIRS_FIRST \<noteq> 0 then
        if t = EIO_DT_UNKNOWN then
          if take 1 name = [46] then 1
          else if 46 \<notin> set name then
            (if len \<le> 2 then of_nat (4 - len) else if len \<le> 4 then 4 else if len \<le> 7 then 5 else 6)
          else 7
        else if t = EIO_DT_DIR then 0 else 7
      else 7)"

definition skipped :: "u8 list \<Rightarrow> bool" where
  "skipped name \<longleftrightarrow> \<not> (take 1 name \<noteq> [46] \<or> (length name \<noteq> 1 \<and> (take 1 (drop 1 name) \<noteq> [46] \<or> length name \<noteq> 2)))"

definition c_int :: "int \<Rightarrow> int option" where
  "c_int i = (if - (2 ^ 31) \<le> i \<and> i < 2 ^ 31 then Some i else None)"

text \<open>Doubling the name buffer; a failed \<open>realloc\<close> leaves NULL, to which the name is then copied.\<close>

function grow_names :: "int \<Rightarrow> int \<Rightarrow> bool list \<Rightarrow> (int \<times> bool list) option" where
  "grow_names need alloc rs =
     (if need \<le> alloc then Some (alloc, rs)
      else if alloc \<le> 0 \<or> 2 ^ 31 \<le> 2 * alloc then None
      else case rs of
        False # _ \<Rightarrow> None
      | _ \<Rightarrow> grow_names need (2 * alloc) (tl rs))"
  by pat_completeness auto
termination by (relation "measure (\<lambda>(need, alloc, rs). nat (need - alloc))") auto

declare grow_names.simps [simp del]

text \<open>
  One entry. \<open>Inr\<close> is the end of the scan with the array of entries lost; the offset in the name buffer
  and the entry count are brought up to date only after it.
\<close>

definition add_entry :: "dir_entry \<Rightarrow> scan \<Rightarrow> bool list \<Rightarrow> ((scan \<times> bool list) + scan) option" where
  "add_entry e s rs =
     (if skipped (dname e) then Some (Inl (s, rs))
      else do {
        len \<leftarrow> c_int (int (length (dname e)) + 1);
        need \<leftarrow> c_int (namesoffs s + len);
        (alloc, rs) \<leftarrow> grow_names need (namesalloc s) rs;
        let ofs = namesoffs s;
        let s = s\<lparr>names := take (nat ofs) (names s) @ dname e @ [0], namesalloc := alloc\<rparr>;
        (case dents s of
           None \<Rightarrow> do {
             n \<leftarrow> c_int (dentoffs s + 1);
             Some (Inl (s\<lparr>namesoffs := need, dentoffs := n\<rparr>, rs))
           }
         | Some ds \<Rightarrow> do {
             let full = (dentoffs s = dentalloc s);
             dalloc \<leftarrow> (if full then c_int (2 * dentalloc s) else Some (dentalloc s));
             let s = s\<lparr>dentalloc := dalloc\<rparr>;
             if full \<and> rs \<noteq> [] \<and> \<not> hd rs then Some (Inr (s\<lparr>dents := None\<rparr>))
             else do {
               let rs = (if full then tl rs else rs);
               let (t, unknown) = dent_type (d_type e);
               let flags = (if unknown then rflags_dir s OR EIO_READDIR_FOUND_UNKNOWN else rflags_dir s);
               let ent = \<lparr>nameofs = of_int ofs, namelen = of_int (len - 1), dtype = t,
                          score = dent_score flags t (dname e), inode = d_ino e\<rparr>;
               n \<leftarrow> c_int (dentoffs s + 1);
               Some (Inl (s\<lparr>dents := Some (take (nat (dentoffs s)) ds @ [ent]), rflags_dir := flags,
                 inode_bits := inode_bits s OR d_ino e, namesoffs := need, dentoffs := n\<rparr>, rs))
             }
           })
      })"

text \<open>Directories to the front, from both sides.\<close>

function dirs_loop :: "eio_dirent list \<Rightarrow> nat \<Rightarrow> nat \<Rightarrow> eio_dirent list \<times> nat" where
  "dirs_loop xs dir oth =
     (if dir < oth then
        if dtype (xs ! dir) = EIO_DT_DIR then dirs_loop xs (dir + 1) oth
        else if dtype (xs ! (oth - 1)) = EIO_DT_DIR then dirs_loop (swap dir (oth - 1) xs) (dir + 1) (oth - 1)
        else dirs_loop xs dir (oth - 1)
      else (xs, dir))"
  by pat_completeness auto
termination by (relation "measure (\<lambda>(xs, dir, oth). oth - dir)") auto

declare dirs_loop.simps [simp del]

definition scandir_sort :: "u32 \<Rightarrow> eio_dirent list \<Rightarrow> u64 \<Rightarrow> eio_dirent list option" where
  "scandir_sort flags ds ib =
     (if flags AND EIO_READDIR_STAT_ORDER \<noteq> 0 then
        eio_dent_sort ds (if flags AND EIO_READDIR_DIRS_FIRST \<noteq> 0 then 7 else 0) ib
      else if flags AND EIO_READDIR_DIRS_FIRST \<noteq> 0 then
        if flags AND EIO_READDIR_FOUND_UNKNOWN \<noteq> 0 then eio_dent_sort ds 7 ib
        else case dirs_loop ds 0 (length ds) of (xs, dir) \<Rightarrow>
          map_option (\<lambda>ys. ys @ drop dir xs) (eio_dent_sort (take dir xs) 0 ib)
      else Some ds)"

text \<open>How a scan ends: its result, the buffers left in the request, and whether the directory was closed.\<close>

record scan_end =
  scan_result :: int
  scan_flags :: u32
  scan_names :: "u8 list"
  scan_dents :: "eio_dirent list"
  scan_closed :: bool

definition scan_failed :: "bool \<Rightarrow> scan \<Rightarrow> scan_end" where
  "scan_failed closed s = \<lparr>scan_result = - 1, scan_flags = req_flags s, scan_names = names s,
     scan_dents = (case dents s of None \<Rightarrow> [] | Some ds \<Rightarrow> ds), scan_closed = closed\<rparr>"

fun scan_loop :: "dir_entry list \<Rightarrow> int \<Rightarrow> bool list \<Rightarrow> bool list \<Rightarrow> scan \<Rightarrow> scan_end option" where
  "scan_loop [] err cs rs s =
     (if err \<noteq> 0 then Some (scan_failed True s)
      else do {
        let ds = (case dents s of None \<Rightarrow> [] | Some ds \<Rightarrow> ds);
        ds \<leftarrow> scandir_sort (rflags_dir s) ds (inode_bits s);
        Some \<lparr>scan_result = dentoffs s, scan_flags = rflags_dir s, scan_names = names s, scan_dents = ds,
          scan_closed = True\<rparr>
      })"
| "scan_loop (e # es) err cs rs s = do {
     r \<leftarrow> add_entry e s rs;
     (case r of
        Inr s \<Rightarrow> Some (scan_failed False s)
      | Inl (s, rs) \<Rightarrow>
          if cs \<noteq> [] \<and> hd cs then Some (scan_failed False s) else scan_loop es err (tl cs) rs s)
   }"

text \<open>The two buffers are allocated first; \<open>dents_ok\<close> and \<open>names_ok\<close> say whether \<open>malloc\<close> succeeds.\<close>

definition eio__scandir ::
  "u32 \<Rightarrow> bool \<Rightarrow> bool \<Rightarrow> bool \<Rightarrow> dir_entry list \<Rightarrow> int \<Rightarrow> bool list \<Rightarrow> bool list \<Rightarrow> scan_end option" where
  "eio__scandir flags opened dents_ok names_ok es err cs rs =
     (let int1 = flags;
          flags = (if flags AND EIO_READDIR_DENTS = 0
            then flags AND NOT (EIO_READDIR_DIRS_FIRST OR EIO_READDIR_STAT_ORDER) else flags);
          s = \<lparr>names = [], namesalloc = 4096 - 8 * 4, namesoffs = 0,
               dents = (if flags \<noteq> 0 \<and> dents_ok then Some [] else None), dentalloc = 128, dentoffs = 0, rflags_dir = flags, inode_bits = 0,
               req_flags = int1\<rparr>
      in if \<not> opened then Some (scan_failed True s)
         else if \<not> names_ok \<or> (flags \<noteq> 0 \<and> dents s = None) then Some (scan_failed False s)
         else scan_loop es err cs rs s)"

section \<open>Ordering\<close>

lemma dirs_loop_ok:
  assumes "dirs_loop xs dir oth = (ys, c)" and "dir \<le> oth" "oth \<le> length xs"
  shows "permutes dir oth xs ys \<and> dir \<le> c \<and> c \<le> oth \<and> (\<forall>i. dir \<le> i \<and> i < c \<longrightarrow> dtype (ys ! i) = EIO_DT_DIR) \<and>
    (\<forall>i. c \<le> i \<and> i < oth \<longrightarrow> dtype (ys ! i) \<noteq> EIO_DT_DIR)"
  using assms
proof (induction xs dir oth rule: dirs_loop.induct)
  case (1 xs dir oth)
  consider (finished) "\<not> dir < oth" | (dir) "dir < oth" "dtype (xs ! dir) = EIO_DT_DIR"
    | (swap) "dir < oth" "dtype (xs ! dir) \<noteq> EIO_DT_DIR" "dtype (xs ! (oth - 1)) = EIO_DT_DIR"
    | (other) "dir < oth" "dtype (xs ! dir) \<noteq> EIO_DT_DIR" "dtype (xs ! (oth - 1)) \<noteq> EIO_DT_DIR" by blast
  then show ?case
  proof cases
    case finished
    then have "ys = xs" "c = dir" using 1(4) by (subst (asm) dirs_loop.simps, simp)+
    then show ?thesis using finished 1(5) by (auto simp: permutes_refl)
  next
    case dir
    have "dirs_loop xs (dir + 1) oth = (ys, c)" using 1(4) dir by (subst (asm) dirs_loop.simps) simp
    then have IH: "permutes (dir + 1) oth xs ys" "dir + 1 \<le> c" "c \<le> oth" "\<forall>i. dir + 1 \<le> i \<and> i < c \<longrightarrow> dtype (ys ! i) = EIO_DT_DIR"
      "\<forall>i. c \<le> i \<and> i < oth \<longrightarrow> dtype (ys ! i) \<noteq> EIO_DT_DIR"
      using 1(1) [OF dir] dir 1(6) by auto
    have "ys ! dir = xs ! dir" by (rule permutes_out [OF IH(1)]) simp
    then have "dtype (ys ! i) = EIO_DT_DIR" if "dir \<le> i" "i < c" for i
      using that dir IH(4) by (cases "i = dir") auto
    then show ?thesis using IH by (auto intro: permutes_mono [of "dir + 1" oth])
  next
    case swap
    define zs where "zs = swap dir (oth - 1) xs"
    have pz: "permutes dir oth xs zs" unfolding zs_def by (rule permutes_swap) (use swap 1(6) in auto)
    have ne: "dir \<noteq> oth - 1" using swap by metis
    have za: "zs ! dir = xs ! (oth - 1)" "zs ! (oth - 1) = xs ! dir" using 1(6) swap(1) ne by (auto simp: zs_def swap_def)
    have "dirs_loop zs (dir + 1) (oth - 1) = (ys, c)" using 1(4) swap unfolding zs_def by (subst (asm) dirs_loop.simps) simp
    then have IH: "permutes (dir + 1) (oth - 1) zs ys" "dir + 1 \<le> c" "c \<le> oth - 1"
      "\<forall>i. dir + 1 \<le> i \<and> i < c \<longrightarrow> dtype (ys ! i) = EIO_DT_DIR"
      "\<forall>i. c \<le> i \<and> i < oth - 1 \<longrightarrow> dtype (ys ! i) \<noteq> EIO_DT_DIR"
      using 1(2) [OF swap] ne swap(1) 1(6) permutes_length [OF pz] unfolding zs_def by auto
    have e: "ys ! dir = zs ! dir" "ys ! (oth - 1) = zs ! (oth - 1)" by (rule permutes_out [OF IH(1)], simp)+
    have "dtype (ys ! i) = EIO_DT_DIR" if "dir \<le> i" "i < c" for i
      using that swap za e IH(4) by (cases "i = dir") auto
    moreover have "dtype (ys ! i) \<noteq> EIO_DT_DIR" if "c \<le> i" "i < oth" for i
      using that swap za e IH(5) by (cases "i = oth - 1") auto
    moreover have "permutes dir oth xs ys"
      by (rule permutes_trans [OF pz]) (rule permutes_mono [OF IH(1)], auto)
    ultimately show ?thesis using IH(2,3) by auto
  next
    case other
    have "dirs_loop xs dir (oth - 1) = (ys, c)" using 1(4) other by (subst (asm) dirs_loop.simps) simp
    then have IH: "permutes dir (oth - 1) xs ys" "dir \<le> c" "c \<le> oth - 1" "\<forall>i. dir \<le> i \<and> i < c \<longrightarrow> dtype (ys ! i) = EIO_DT_DIR"
      "\<forall>i. c \<le> i \<and> i < oth - 1 \<longrightarrow> dtype (ys ! i) \<noteq> EIO_DT_DIR"
      using 1(3) [OF other] other(1) 1(6) by auto
    have "ys ! (oth - 1) = xs ! (oth - 1)" by (rule permutes_out [OF IH(1)]) simp
    then have "dtype (ys ! i) \<noteq> EIO_DT_DIR" if "c \<le> i" "i < oth" for i
      using that other IH(5) by (cases "i = oth - 1") auto
    then show ?thesis using IH by (auto intro: permutes_mono [of dir "oth - 1"])
  qed
qed

text \<open>What the scan guarantees for the entries it collects with given flags.\<close>

definition scan_scores :: "u32 \<Rightarrow> u64 \<Rightarrow> eio_dirent list \<Rightarrow> bool" where
  "scan_scores flags ib ds \<longleftrightarrow>
     (\<forall>d \<in> set ds. unat (score d) \<le> 7 \<and> (flags AND EIO_READDIR_DIRS_FIRST = 0 \<longrightarrow> score d = 7) \<and>
        (flags AND EIO_READDIR_DIRS_FIRST \<noteq> 0 \<and> dtype d = EIO_DT_DIR \<longrightarrow> score d = 0) \<and>
        (\<forall>k < 64. bit (inode d) k \<longrightarrow> bit ib k)) \<and> (ds \<noteq> [] \<longrightarrow> ib \<noteq> 0)"

lemma covers_all: "scan_scores flags ib ds \<Longrightarrow> covers 7 ib (set ds)"
proof -
  assume sc: "scan_scores flags ib ds"
  have "bit (7 :: u8) k" if "bit (score d) k \<noteq> bit (score d') k" "d \<in> set ds" "d' \<in> set ds" for d d' k
  proof -
    have "\<not> bit (score e) k" if "3 \<le> k" "e \<in> set ds" for e
    proof -
      have "unat (score e) < 2 ^ 3" using sc \<open>e \<in> set ds\<close> by (auto simp: scan_scores_def)
      also have "\<dots> \<le> 2 ^ k" by (rule power_increasing) (use that in simp_all)
      finally have "\<not> bit (unat (score e)) k" by (simp add: bit_iff_odd)
      then show ?thesis by (simp add: bit_unsigned_iff)
    qed
    then have "k < 3" using that by (metis not_le)
    then show ?thesis by (auto simp: numeral_eq_Suc less_Suc_eq)
  qed
  then show ?thesis using sc by (auto simp: covers_def scan_scores_def)
qed

lemma covers_equal:
  assumes "scan_scores flags ib ds" and "\<And>d d'. d \<in> D \<Longrightarrow> d' \<in> D \<Longrightarrow> score d = score d'" and "D \<subseteq> set ds"
  shows "covers 0 ib D"
proof -
  have "bit (score d) k = bit (score d') k" if "d \<in> D" "d' \<in> D" for d d' k
    unfolding assms(2) [OF that] by (rule refl)
  moreover have "bit (inode d) k \<longrightarrow> bit ib k" if "d \<in> D" "k < 64" for d k
    using assms(1,3) that unfolding scan_scores_def by blast
  ultimately show ?thesis unfolding covers_def by blast
qed

lemma key_bits_nonzero: "ib \<noteq> 0 \<Longrightarrow> key_bits sb ib \<noteq> []"
proof -
  assume "ib \<noteq> 0"
  then obtain k where k: "bit ib k" by (auto simp: bit_eq_iff)
  then have "k < 64" using bit_imp_le_length [of ib k] by simp
  then show ?thesis using k by (auto simp: key_bits_def filter_empty_conv)
qed

lemma sort_scanned:
  assumes "scan_scores flags ib ds" and "covers sb ib (set xs)" "set xs \<subseteq> set ds"
  shows "\<exists>ys. eio_dent_sort xs sb ib = Some ys \<and> mset ys = mset xs \<and> sorted_wrt (\<lambda>a b. eio_dent_cmp a b \<le> 0) ys"
proof -
  have sc: "\<forall>d \<in> set xs. scored d" using assms(1,3) by (fastforce simp: scan_scores_def scored_def)
  have "length xs \<le> EIO_SORT_FAST \<or> key_bits sb ib \<noteq> []"
  proof (cases "xs = []")
    case False
    then have "ib \<noteq> 0" using assms(1,3) by (auto simp: scan_scores_def)
    then show ?thesis using key_bits_nonzero by blast
  qed simp
  then obtain ys where ys: "eio_dent_sort xs sb ib = Some ys" "mset ys = mset xs" "sorted_wrt (\<lambda>a b. key a \<le> key b) ys"
    using dent_sort_ok [OF sc assms(2)] by blast
  have "set ys = set xs" using ys(2) by (metis set_mset_mset)
  then have "sorted_wrt (\<lambda>a b. eio_dent_cmp a b \<le> 0) ys"
    using ys(3) sc cmp_key(2) by (metis (no_types, lifting) linorder_not_less sorted_wrt_mono_rel)
  then show ?thesis using ys by blast
qed

text \<open>The order asked for: by score and inode, or the directories first and in inode order.\<close>

definition scan_ordered :: "u32 \<Rightarrow> eio_dirent list \<Rightarrow> bool" where
  "scan_ordered flags ys \<longleftrightarrow>
     (if flags AND EIO_READDIR_STAT_ORDER \<noteq> 0 \<or>
         flags AND EIO_READDIR_DIRS_FIRST \<noteq> 0 \<and> flags AND EIO_READDIR_FOUND_UNKNOWN \<noteq> 0
      then sorted_wrt (\<lambda>a b. eio_dent_cmp a b \<le> 0) ys
      else if flags AND EIO_READDIR_DIRS_FIRST \<noteq> 0
      then \<exists>c \<le> length ys. (\<forall>d \<in> set (take c ys). dtype d = EIO_DT_DIR) \<and> (\<forall>d \<in> set (drop c ys). dtype d \<noteq> EIO_DT_DIR) \<and>
        sorted_wrt (\<lambda>a b. eio_dent_cmp a b \<le> 0) (take c ys)
      else True)"

lemma scandir_sort_ok:
  assumes sc: "scan_scores flags ib ds"
  shows "\<exists>ys. scandir_sort flags ds ib = Some ys \<and> mset ys = mset ds \<and> scan_ordered flags ys"
proof -
  consider (stat) "flags AND EIO_READDIR_STAT_ORDER \<noteq> 0"
    | (unknown) "flags AND EIO_READDIR_STAT_ORDER = 0" "flags AND EIO_READDIR_DIRS_FIRST \<noteq> 0" "flags AND EIO_READDIR_FOUND_UNKNOWN \<noteq> 0"
    | (known) "flags AND EIO_READDIR_STAT_ORDER = 0" "flags AND EIO_READDIR_DIRS_FIRST \<noteq> 0" "flags AND EIO_READDIR_FOUND_UNKNOWN = 0"
    | (none) "flags AND EIO_READDIR_STAT_ORDER = 0" "flags AND EIO_READDIR_DIRS_FIRST = 0" by blast
  then show ?thesis
  proof cases
    case stat
    have "covers (if flags AND EIO_READDIR_DIRS_FIRST \<noteq> 0 then 7 else 0) ib (set ds)"
      using covers_all [OF sc] covers_equal [OF sc, of "set ds"] sc by (auto simp: scan_scores_def)
    from sort_scanned [OF sc this] show ?thesis using stat by (auto simp: scandir_sort_def scan_ordered_def)
  next
    case unknown
    from sort_scanned [OF sc covers_all [OF sc]] show ?thesis
      using unknown by (auto simp: scandir_sort_def scan_ordered_def)
  next
    case known
    obtain xs c where loop: "dirs_loop ds 0 (length ds) = (xs, c)" by fastforce
    from dirs_loop_ok [OF loop] have p: "permutes 0 (length ds) ds xs" and c: "c \<le> length ds"
      and lo: "\<And>i. i < c \<Longrightarrow> dtype (xs ! i) = EIO_DT_DIR" and hi: "\<And>i. c \<le> i \<Longrightarrow> i < length ds \<Longrightarrow> dtype (xs ! i) \<noteq> EIO_DT_DIR"
      by auto
    have len: "length xs = length ds" by (rule permutes_length [OF p])
    have ms: "mset xs = mset ds" using p unfolding permutes_def by blast
    have dirs: "\<forall>d \<in> set (take c xs). dtype d = EIO_DT_DIR" "\<forall>d \<in> set (drop c xs). dtype d \<noteq> EIO_DT_DIR"
    proof -
      show "\<forall>d \<in> set (take c xs). dtype d = EIO_DT_DIR" using lo c len by (auto simp: in_set_conv_nth)
      show "\<forall>d \<in> set (drop c xs). dtype d \<noteq> EIO_DT_DIR" using hi c len by (auto simp: in_set_conv_nth)
    qed
    have sub: "set (take c xs) \<subseteq> set ds" using permutes_set [OF p] set_take_subset [of c xs] by simp
    have "score d = 0" if "d \<in> set (take c xs)" for d
      using that sub dirs(1) sc known by (auto simp: scan_scores_def)
    then have "covers 0 ib (set (take c xs))" by (intro covers_equal [OF sc _ sub]) simp
    from sort_scanned [OF sc this sub] obtain ys where ys: "eio_dent_sort (take c xs) 0 ib = Some ys"
      "mset ys = mset (take c xs)" "sorted_wrt (\<lambda>a b. eio_dent_cmp a b \<le> 0) ys" by blast
    have ly: "length ys = c" using arg_cong [OF ys(2), of size] c len by simp
    have sy: "set ys = set (take c xs)" using ys(2) by (metis set_mset_mset)
    have "mset (ys @ drop c xs) = mset (take c xs @ drop c xs)" by (simp only: mset_append ys(2))
    then have "mset (ys @ drop c xs) = mset ds" using ms by (simp only: append_take_drop_id)
    moreover have "scan_ordered flags (ys @ drop c xs)"
      unfolding scan_ordered_def using known ys(3) dirs sy ly by (auto intro!: exI [of _ c])
    ultimately show ?thesis using known loop ys(1) by (auto simp: scandir_sort_def)
  next
    case none
    then show ?thesis by (simp add: scandir_sort_def scan_ordered_def)
  qed
qed

section \<open>What a scan returns\<close>

text \<open>The names of the entries one after the other, and the entries that go with them.\<close>

definition packed :: "dir_entry list \<Rightarrow> u8 list" where
  "packed es = concat (map (\<lambda>e. dname e @ [0]) es)"

definition dirent_at :: "u32 \<Rightarrow> nat \<Rightarrow> dir_entry \<Rightarrow> eio_dirent" where
  "dirent_at flags ofs e = \<lparr>nameofs = of_nat ofs, namelen = of_nat (length (dname e)), dtype = fst (dent_type (d_type e)),
     score = dent_score flags (fst (dent_type (d_type e))) (dname e), inode = d_ino e\<rparr>"

fun dirents_of :: "u32 \<Rightarrow> nat \<Rightarrow> dir_entry list \<Rightarrow> eio_dirent list" where
  "dirents_of flags ofs [] = []"
| "dirents_of flags ofs (e # es) = dirent_at flags ofs e # dirents_of flags (ofs + length (dname e) + 1) es"

definition visible :: "dir_entry list \<Rightarrow> dir_entry list" where
  "visible es = filter (\<lambda>e. \<not> skipped (dname e)) es"

lemma dirents_of_append:
  "dirents_of flags ofs (es @ [e]) = dirents_of flags ofs es @ [dirent_at flags (ofs + length (packed es)) e]"
  by (induction flags ofs es rule: dirents_of.induct) (simp_all add: packed_def add.assoc)

lemma dirents_of_length [simp]: "length (dirents_of flags ofs es) = length es"
  by (induction flags ofs es rule: dirents_of.induct) simp_all

text \<open>The name buffer can be doubled 19 times before its size leaves an \<open>int\<close>.\<close>

definition NAMES_MAX :: int where "NAMES_MAX = 2130706432"

lemma doubled_size:
  assumes "alloc = 4064 * 2 ^ i" and "i \<le> 19"
  shows "0 < alloc" "2 ^ 31 \<le> 2 * alloc \<longleftrightarrow> i = 19" "i = 19 \<longrightarrow> alloc = NAMES_MAX" "alloc \<le> NAMES_MAX"
proof -
  have "(2 :: int) ^ i \<le> 2 ^ 19" by (rule power_increasing) (use assms(2) in simp_all)
  then show "alloc \<le> NAMES_MAX" by (simp add: assms(1) NAMES_MAX_def)
  show "2 ^ 31 \<le> 2 * alloc \<longleftrightarrow> i = 19"
  proof (cases "i = 19")
    case False
    then have "(2 :: int) ^ i \<le> 2 ^ 18" by (intro power_increasing) (use assms(2) in simp_all)
    then show ?thesis using False by (simp add: assms(1))
  qed (simp add: assms(1))
qed (simp_all add: assms(1) NAMES_MAX_def)

lemma grow_names_exact:
  assumes "False \<notin> set rs" and "alloc = 4064 * 2 ^ i" "i \<le> 19"
  shows "if need \<le> NAMES_MAX
    then \<exists>j rs'. j \<le> 19 \<and> grow_names need alloc rs = Some (4064 * 2 ^ j, rs') \<and> False \<notin> set rs'
    else grow_names need alloc rs = None"
  using assms
proof (induction need alloc rs arbitrary: i rule: grow_names.induct)
  case (1 need alloc rs)
  note size = doubled_size [OF "1.prems"(2,3)]
  show ?case
  proof (cases "need \<le> alloc")
    case True
    then have "grow_names need alloc rs = Some (4064 * 2 ^ i, rs)" using "1.prems"(2) by (subst grow_names.simps) simp
    then show ?thesis using "1.prems" True size(4) by auto
  next
    case big: False
    show ?thesis
    proof (cases "i = 19")
      case True
      then have "grow_names need alloc rs = None" using big size(2) by (subst grow_names.simps) simp
      then show ?thesis using big size(3) True by simp
    next
      case False
      then have ok: "\<not> (alloc \<le> 0 \<or> 2 ^ 31 \<le> 2 * alloc)" using size(1,2) by simp
      have rs: "\<not> (rs \<noteq> [] \<and> \<not> hd rs)" "False \<notin> set (tl rs)" using "1.prems"(1) by (cases rs; auto)+
      have step: "grow_names need alloc rs = grow_names need (2 * alloc) (tl rs)"
        using big ok rs(1) by (subst grow_names.simps) (auto split: list.split bool.split)
      have next': "2 * alloc = 4064 * 2 ^ Suc i" "Suc i \<le> 19" using "1.prems"(2,3) False by simp_all
      consider (nil) "rs = []" | (cons) ts where "rs = True # ts" using "1.prems"(1) by (cases rs) auto
      then show ?thesis unfolding step
      proof cases
        case nil
        from "1.IH"(1) [OF big ok nil rs(2) next'] show "if need \<le> NAMES_MAX
          then \<exists>j rs'. j \<le> 19 \<and> grow_names need (2 * alloc) (tl rs) = Some (4064 * 2 ^ j, rs') \<and> False \<notin> set rs'
          else grow_names need (2 * alloc) (tl rs) = None" .
      next
        case cons
        from "1.IH"(2) [OF big ok cons refl rs(2) next'] show "if need \<le> NAMES_MAX
          then \<exists>j rs'. j \<le> 19 \<and> grow_names need (2 * alloc) (tl rs) = Some (4064 * 2 ^ j, rs') \<and> False \<notin> set rs'
          else grow_names need (2 * alloc) (tl rs) = None" .
      qed
    qed
  qed
qed

text \<open>What has been gathered after the visible entries \<open>vs\<close>; how much can be.\<close>

definition flags_found :: "u32 \<Rightarrow> dir_entry list \<Rightarrow> u32" where
  "flags_found flags vs = (if \<exists>e \<in> set vs. snd (dent_type (d_type e)) then flags OR EIO_READDIR_FOUND_UNKNOWN else flags)"

definition scan_fits :: "dir_entry list \<Rightarrow> bool" where
  "scan_fits vs \<longleftrightarrow> int (length (packed vs)) \<le> NAMES_MAX \<and> int (length vs) \<le> 2 ^ 30"

definition scanned :: "u32 \<Rightarrow> dir_entry list \<Rightarrow> scan \<Rightarrow> bool" where
  "scanned flags vs s \<longleftrightarrow> names s = packed vs \<and> namesoffs s = int (length (packed vs)) \<and> dentoffs s = int (length vs) \<and>
     dents s = Some (dirents_of flags 0 vs) \<and> rflags_dir s = flags_found flags vs \<and>
     (\<exists>i \<le> 19. namesalloc s = 4064 * 2 ^ i) \<and> (\<exists>i \<le> 23. dentalloc s = 128 * 2 ^ i) \<and> dentoffs s \<le> dentalloc s \<and>
     (\<forall>e \<in> set vs. \<forall>k < 64. bit (d_ino e) k \<longrightarrow> bit (inode_bits s) k)"

lemma flags_found_snoc: "flags_found flags (vs @ [e]) =
    (if snd (dent_type (d_type e)) then flags_found flags vs OR EIO_READDIR_FOUND_UNKNOWN else flags_found flags vs)"
  by (auto simp: flags_found_def or.assoc)

lemma dirs_first_kept: "(flags OR EIO_READDIR_FOUND_UNKNOWN) AND EIO_READDIR_DIRS_FIRST = flags AND EIO_READDIR_DIRS_FIRST"
  by (simp add: readdir_flags bit.conj_disj_distrib2)

lemma dent_score_unknown: "dent_score (flags OR EIO_READDIR_FOUND_UNKNOWN) t n = dent_score flags t n"
  unfolding dent_score_def dirs_first_kept by (rule refl)

lemma dents_double:
  assumes "dentalloc s = 128 * 2 ^ i" "i \<le> 23" and "dentoffs s \<le> dentalloc s"
  shows "if dentoffs s + 1 \<le> 2 ^ 30
    then \<exists>j. j \<le> 23 \<and> (if dentoffs s = dentalloc s then c_int (2 * dentalloc s) else Some (dentalloc s)) = Some (128 * 2 ^ j) \<and>
      dentoffs s + 1 \<le> 128 * 2 ^ j
    else (if dentoffs s = dentalloc s then c_int (2 * dentalloc s) else Some (dentalloc s)) = None"
proof (cases "i = 23")
  case True
  then show ?thesis using assms by (auto simp: c_int_def intro!: exI [of _ 23])
next
  case False
  have "(2 :: int) ^ i \<le> 2 ^ 22" by (rule power_increasing) (use assms(2) False in simp_all)
  moreover have "(1 :: int) \<le> 2 ^ i" by simp
  ultimately have size: "dentalloc s \<le> 2 ^ 29" "128 \<le> dentalloc s" by (simp_all add: assms(1))
  define j where "j = (if dentoffs s = dentalloc s then i + 1 else i)"
  have "c_int (2 * dentalloc s) = Some (2 * dentalloc s)" using size by (simp add: c_int_def)
  then have "(if dentoffs s = dentalloc s then c_int (2 * dentalloc s) else Some (dentalloc s)) = Some (128 * 2 ^ j)"
    using assms(1) by (simp add: j_def)
  moreover have "128 * 2 ^ j = (if dentoffs s = dentalloc s then 2 * dentalloc s else dentalloc s)"
    by (simp add: j_def assms(1))
  then have "dentoffs s + 1 \<le> 128 * 2 ^ j" using size assms(3) by simp
  moreover have "j \<le> 23" using assms(2) False by (simp add: j_def)
  ultimately show ?thesis using size assms(3) by auto
qed

lemma packed_snoc: "packed (vs @ [e]) = packed vs @ dname e @ [0]"
  by (simp add: packed_def)

lemma add_entry_ok:
  assumes sc: "scanned flags vs s" and rs: "False \<notin> set rs" and fits: "scan_fits vs"
  shows "if scan_fits (vs @ visible [e])
    then \<exists>s' rs'. add_entry e s rs = Some (Inl (s', rs')) \<and> False \<notin> set rs' \<and> scanned flags (vs @ visible [e]) s'
    else add_entry e s rs = None"
proof (cases "skipped (dname e)")
  case True
  then show ?thesis using assms by (simp add: add_entry_def visible_def)
next
  case False
  then have vis: "visible [e] = [e]" by (simp add: visible_def)
  define len where "len = int (length (dname e)) + 1"
  define need where "need = namesoffs s + len"
  have need: "need = int (length (packed (vs @ [e])))" "len \<le> need" "0 \<le> len"
    using sc by (simp_all add: need_def len_def scanned_def packed_snoc)
  have offs: "dentoffs s = int (length vs)" "namesoffs s = int (length (packed vs))" "names s = packed vs"
    and ds: "dents s = Some (dirents_of flags 0 vs)" and fl: "rflags_dir s = flags_found flags vs"
    using sc by (simp_all add: scanned_def)
  obtain i where i: "namesalloc s = 4064 * 2 ^ i" "i \<le> 19" using sc by (auto simp: scanned_def)
  obtain k where k: "dentalloc s = 128 * 2 ^ k" "k \<le> 23" "dentoffs s \<le> dentalloc s" using sc by (auto simp: scanned_def)
  show ?thesis
  proof (cases "need \<le> NAMES_MAX")
    case big: False
    have "c_int need = None \<or> grow_names need (namesalloc s) rs = None"
      using grow_names_exact [OF rs i, of need] big by (auto split: if_splits)
    moreover have "\<not> scan_fits (vs @ [e])" using big need(1) by (simp add: scan_fits_def)
    moreover have "c_int x = None \<or> c_int x = Some x" for x by (simp add: c_int_def)
    from this [of len] this [of need] have "c_int len = None \<or> c_int len = Some len \<and> (c_int need = None \<or> c_int need = Some need)"
      by blast
    ultimately show ?thesis using False by (auto simp: add_entry_def vis simp flip: len_def need_def)
  next
    case small: True
    obtain j rs1 where g: "j \<le> 19" "grow_names need (namesalloc s) rs = Some (4064 * 2 ^ j, rs1)" "False \<notin> set rs1"
      using grow_names_exact [OF rs i, of need] small by auto
    have ci: "c_int len = Some len" "c_int need = Some need"
      using small need(2,3) by (simp_all add: c_int_def NAMES_MAX_def)
    have rs1: "\<not> (rs1 \<noteq> [] \<and> \<not> hd rs1)" "False \<notin> set (tl rs1)" using g(3) by (cases rs1; auto)+
    note dd = dents_double [OF k]
    define full where "full \<longleftrightarrow> dentoffs s = dentalloc s"
    have start: "add_entry e s rs = do {
        dalloc \<leftarrow> (if full then c_int (2 * dentalloc s) else Some (dentalloc s));
        n \<leftarrow> c_int (dentoffs s + 1);
        Some (Inl (s\<lparr>names := packed vs @ dname e @ [0], namesalloc := 4064 * 2 ^ j, dentalloc := dalloc,
          dents := Some (dirents_of flags 0 vs @ [dirent_at flags (length (packed vs)) e]),
          rflags_dir := flags_found flags (vs @ [e]), inode_bits := inode_bits s OR d_ino e, namesoffs := need, dentoffs := n\<rparr>,
          if full then tl rs1 else rs1))}"
    proof -
      have score: "dent_score (flags_found flags us) t n = dent_score flags t n" for us t n
        by (simp add: flags_found_def dent_score_unknown)
      obtain t u where t: "dent_type (d_type e) = (t, u)" by fastforce
      show ?thesis
        unfolding add_entry_def len_def [symmetric] ci(1) Option.bind.simps need_def [symmetric] ci(2) g(2)
        using False ds rs1(1) t fl offs score [of "vs @ [e]"] full_def [unfolded offs(1)]
        by (cases full; cases rs1; cases u) (simp_all add: Let_def dirent_at_def flags_found_snoc len_def)
    qed
    show ?thesis
    proof (cases "dentoffs s + 1 \<le> 2 ^ 30")
      case True
      then obtain l where l: "l \<le> 23" "(if full then c_int (2 * dentalloc s) else Some (dentalloc s)) = Some (128 * 2 ^ l)"
        "dentoffs s + 1 \<le> 128 * 2 ^ l" using dd by (auto simp: full_def)
      have "c_int (dentoffs s + 1) = Some (dentoffs s + 1)" using True offs(1) by (simp add: c_int_def)
      moreover have "scan_fits (vs @ [e])" using small True need(1) offs(1) by (simp add: scan_fits_def)
      ultimately show ?thesis
        using sc g(1,3) rs1(2) l need(1) offs(1)
        by (auto simp: start vis scanned_def packed_snoc dirents_of_append bit_or_iff intro!: exI [of _ j] exI [of _ l])
    next
      case False
      then have "\<not> scan_fits (vs @ [e])" using offs(1) by (simp add: scan_fits_def)
      then show ?thesis using dd False by (simp add: start vis full_def)
    qed
  qed
qed

lemma scan_fits_prefix: "scan_fits (us @ vs) \<Longrightarrow> scan_fits us"
  by (auto simp: scan_fits_def packed_def)

lemma scan_loop_ok:
  assumes "scanned flags vs s" and "False \<notin> set rs" and "True \<notin> set cs" and "scan_fits vs"
  shows "if scan_fits (vs @ visible es)
    then \<exists>s'. scan_loop es err cs rs s = scan_loop [] err [] [] s' \<and> scanned flags (vs @ visible es) s'
    else scan_loop es err cs rs s = None"
  using assms
proof (induction es arbitrary: vs s rs cs)
  case Nil
  then show ?case by (auto simp: visible_def)
next
  case (Cons e es)
  have cs: "\<not> (cs \<noteq> [] \<and> hd cs)" "True \<notin> set (tl cs)" using Cons.prems(3) by (cases cs; auto)+
  have v: "(vs @ visible [e]) @ visible es = vs @ visible (e # es)" by (simp add: visible_def)
  note add = add_entry_ok [OF Cons.prems(1,2,4), of e]
  show ?case
  proof (cases "scan_fits (vs @ visible [e])")
    case True
    then obtain s' rs' where s': "add_entry e s rs = Some (Inl (s', rs'))" "False \<notin> set rs'" "scanned flags (vs @ visible [e]) s'"
      using add by auto
    have "scan_loop (e # es) err cs rs s = scan_loop es err (tl cs) rs' s'" using s'(1) cs(1) by auto
    then show ?thesis using Cons.IH [OF s'(3,2) cs(2) True] unfolding v by metis
  next
    case False
    then have "\<not> scan_fits (vs @ visible (e # es))" using scan_fits_prefix [of "vs @ visible [e]" "visible es"] v by metis
    then show ?thesis using add False by simp
  qed
qed

lemma visible_sub: "set (visible es) \<subseteq> set es" by (auto simp: visible_def)

lemma dent_score_le:
  "unat (dent_score flags t n) \<le> 7" "flags AND EIO_READDIR_DIRS_FIRST = 0 \<Longrightarrow> dent_score flags t n = 7"
  "flags AND EIO_READDIR_DIRS_FIRST \<noteq> 0 \<Longrightarrow> t = EIO_DT_DIR \<Longrightarrow> dent_score flags t n = 0"
proof -
  have "length n + 1 \<le> 2 \<Longrightarrow> length n = 0 \<or> length n = 1" by arith
  then show "unat (dent_score flags t n) \<le> 7" by (auto simp: dent_score_def Let_def)
qed (simp_all add: dent_score_def EIO_DT_UNKNOWN_def EIO_DT_DIR_def)

lemma dirents_of_set: "d \<in> set (dirents_of flags ofs es) \<Longrightarrow> \<exists>e \<in> set es. \<exists>o'. d = dirent_at flags o' e"
  by (induction flags ofs es rule: dirents_of.induct) auto

lemma scanned_scores:
  assumes sc: "scanned flags (visible es) s" and ino: "\<forall>e \<in> set es. d_ino e \<noteq> 0"
  shows "scan_scores (rflags_dir s) (inode_bits s) (dirents_of flags 0 (visible es))"
proof -
  have df: "rflags_dir s AND EIO_READDIR_DIRS_FIRST = flags AND EIO_READDIR_DIRS_FIRST"
    using sc dirs_first_kept by (auto simp: scanned_def flags_found_def)
  have bits: "bit (inode_bits s) k" if "e \<in> set (visible es)" "k < 64" "bit (d_ino e) k" for e k
    using sc that unfolding scanned_def by blast
  have "inode_bits s \<noteq> 0" if v: "visible es \<noteq> []"
  proof -
    obtain e where e: "e \<in> set (visible es)" using v by (cases "visible es") auto
    then obtain k where k: "bit (d_ino e) k" using ino visible_sub by (fastforce simp: bit_eq_iff)
    then have "k < 64" using bit_imp_le_length [of "d_ino e" k] by simp
    then have "bit (inode_bits s) k" by (rule bits [OF e _ k])
    then show ?thesis by auto
  qed
  moreover have "dirents_of flags 0 (visible es) \<noteq> [] \<longleftrightarrow> visible es \<noteq> []" by (cases "visible es") simp_all
  moreover have "unat (score d) \<le> 7 \<and> (flags AND EIO_READDIR_DIRS_FIRST = 0 \<longrightarrow> score d = 7) \<and>
      (flags AND EIO_READDIR_DIRS_FIRST \<noteq> 0 \<and> dtype d = EIO_DT_DIR \<longrightarrow> score d = 0) \<and>
      (\<forall>k < 64. bit (inode d) k \<longrightarrow> bit (inode_bits s) k)" if d_in: "d \<in> set (dirents_of flags 0 (visible es))" for d
  proof -
    obtain e o' where e: "e \<in> set (visible es)" and d: "d = dirent_at flags o' e" using dirents_of_set [OF d_in] by blast
    show ?thesis using bits [OF e] dent_score_le by (simp add: d dirent_at_def)
  qed
  ultimately show ?thesis unfolding scan_scores_def df by blast
qed

lemma scandir_run:
  assumes "flags AND EIO_READDIR_DENTS \<noteq> 0" and "\<forall>e \<in> set es. d_ino e \<noteq> 0"
    and "False \<notin> set rs" and "True \<notin> set cs"
  shows "if scan_fits (visible es)
    then \<exists>r. eio__scandir flags True True True es 0 cs rs = Some r \<and> scan_result r = int (length (visible es)) \<and>
      scan_names r = packed (visible es) \<and> mset (scan_dents r) = mset (dirents_of flags 0 (visible es)) \<and>
      scan_flags r = flags_found flags (visible es) \<and> scan_ordered (flags_found flags (visible es)) (scan_dents r) \<and> scan_closed r
    else eio__scandir flags True True True es 0 cs rs = None"
proof -
  have nz: "flags \<noteq> 0" using assms(1) by auto
  define s0 where "s0 = \<lparr>names = [], namesalloc = 4096 - 8 * 4, namesoffs = 0, dents = Some [], dentalloc = 128, dentoffs = 0,
    rflags_dir = flags, inode_bits = 0, req_flags = flags\<rparr>"
  have run: "eio__scandir flags True True True es 0 cs rs = scan_loop es 0 cs rs s0"
    using assms(1) nz by (simp add: eio__scandir_def s0_def)
  have "scanned flags [] s0" by (auto simp: scanned_def s0_def packed_def flags_found_def intro!: exI [of _ 0])
  moreover have "scan_fits []" by (simp add: scan_fits_def packed_def NAMES_MAX_def)
  ultimately have loop: "if scan_fits (visible es)
      then \<exists>s. scan_loop es 0 cs rs s0 = scan_loop [] 0 [] [] s \<and> scanned flags (visible es) s
      else scan_loop es 0 cs rs s0 = None"
    using scan_loop_ok [OF _ assms(3,4), of flags "[]" s0 es 0] unfolding append_Nil by blast
  show ?thesis
  proof (cases "scan_fits (visible es)")
    case True
    then obtain s where s: "eio__scandir flags True True True es 0 cs rs = scan_loop [] 0 [] [] s" "scanned flags (visible es) s"
      using loop run by auto
    obtain ys where ys: "scandir_sort (rflags_dir s) (dirents_of flags 0 (visible es)) (inode_bits s) = Some ys"
      "mset ys = mset (dirents_of flags 0 (visible es))" "scan_ordered (rflags_dir s) ys"
      using scandir_sort_ok [OF scanned_scores [OF s(2) assms(2)]] by blast
    have "dents s = Some (dirents_of flags 0 (visible es))" "names s = packed (visible es)" "dentoffs s = int (length (visible es))"
      "rflags_dir s = flags_found flags (visible es)"
      using s(2) by (auto simp: scanned_def)
    then show ?thesis using s(1) ys True by simp
  qed (use loop run in simp)
qed

lemma dirents_name_offsets:
  assumes "length (packed es) < 2 ^ 31" and "\<forall>e \<in> set es. length (dname e) < 2 ^ 16" and "d \<in> set (dirents_of flags 0 es)"
  shows "\<exists>e \<in> set es. take (unat (namelen d)) (drop (unat (nameofs d)) (packed es)) = dname e \<and>
    packed es ! (unat (nameofs d) + unat (namelen d)) = 0 \<and> inode d = d_ino e"
proof -
  have "\<exists>us e vs. es = us @ e # vs \<and> d = dirent_at flags (length ps + length (packed us)) e"
    if "d \<in> set (dirents_of flags (length ps) es)" for ps :: "u8 list"
    using that
  proof (induction es arbitrary: ps)
    case (Cons e es)
    show ?case
    proof (cases "d = dirent_at flags (length ps) e")
      case True
      then show ?thesis by (intro exI [of _ "[]"]) (simp add: packed_def)
    next
      case False
      then have "d \<in> set (dirents_of flags (length (ps @ dname e @ [0])) es)" using Cons.prems by (simp add: add.assoc)
      from Cons.IH [OF this] obtain us e' vs where
        "es = us @ e' # vs" "d = dirent_at flags (length (ps @ dname e @ [0]) + length (packed us)) e'" by blast
      then show ?thesis by (intro exI [of _ "e # us"] exI [of _ e'] exI [of _ vs]) (simp add: packed_def add.assoc)
    qed
  qed simp
  from this [of "[]"] assms(3) obtain us e vs where es: "es = us @ e # vs" and d: "d = dirent_at flags (length (packed us)) e"
    by auto
  have p: "packed es = packed us @ dname e @ 0 # packed vs" by (simp add: es packed_def)
  have "length (packed us) < 2 ^ 31" using assms(1) p by simp
  then have "unat (nameofs d) = length (packed us)" "unat (namelen d) = length (dname e)"
    using assms(2) by (simp_all add: d dirent_at_def es unat_of_nat)
  moreover have "inode d = d_ino e" by (simp add: d dirent_at_def)
  moreover have "e \<in> set es" by (simp add: es)
  ultimately show ?thesis by (intro bexI [of _ e]) (simp_all add: p nth_append)
qed

text \<open>C13: a directory that can be read to its end is reported in full. When every buffer is allocated, the request is not
  cancelled and no inode number is zero, the call returns the number of entries other than \<open>.\<close> and \<open>..\<close>, the name buffer
  holds their names in the order read, each closed by a zero byte, the array holds exactly one element for each with its
  offset, length, type, score and inode, in the order the caller's flags ask for (by score and inode number, or the
  directories first and sorted; entries of unknown type change the second into the first, and only they add their flag to
  the caller's), and the directory is closed. This holds up to 2130706432 bytes of names and 2^30 entries; beyond them an
  \<open>int\<close> overflows.\<close>
theorem scandir_lists:
  assumes "flags AND EIO_READDIR_DENTS \<noteq> 0" and "\<forall>e \<in> set es. d_ino e \<noteq> 0"
    and "False \<notin> set rs" and "True \<notin> set cs"
  shows "if int (length (packed (visible es))) \<le> 2130706432 \<and> length (visible es) \<le> 2 ^ 30
    then \<exists>r. eio__scandir flags True True True es 0 cs rs = Some r \<and> scan_result r = int (length (visible es)) \<and>
      scan_names r = packed (visible es) \<and> mset (scan_dents r) = mset (dirents_of flags 0 (visible es)) \<and>
      scan_flags r = flags_found flags (visible es) \<and> scan_ordered (flags_found flags (visible es)) (scan_dents r) \<and> scan_closed r
    else eio__scandir flags True True True es 0 cs rs = None"
  using scandir_run [OF assms] by (simp add: scan_fits_def NAMES_MAX_def)

theorem scandir_lists_witness:
  "\<exists>r. eio__scandir 3 True True True [\<lparr>dname = [97], d_type = 8, d_ino = 5\<rparr>, \<lparr>dname = [46], d_type = 4, d_ino = 2\<rparr>] 0 [] [] = Some r \<and>
    scan_result r = 1 \<and> scan_names r = [97, 0] \<and> scan_flags r = 3 \<and> scan_closed r"
proof -
  have "visible [\<lparr>dname = [97], d_type = 8, d_ino = 5\<rparr>, \<lparr>dname = [46], d_type = 4, d_ino = 2\<rparr>] = [\<lparr>dname = [97], d_type = 8, d_ino = 5\<rparr>]"
    by (simp add: visible_def skipped_def)
  then show ?thesis
    using scandir_lists [of 3 "[\<lparr>dname = [97], d_type = 8, d_ino = 5\<rparr>, \<lparr>dname = [46], d_type = 4, d_ino = 2\<rparr>]" "[]" "[]"]
    by (auto simp: packed_def readdir_flags flags_found_def dent_type_def)
qed

text \<open>Every offset leads to a name. As long as the names and entries fit and no name is longer than the
  16-bit length can hold, the offset and length of each element that the scan returns pick exactly the name of an entry
  of the directory out of the name buffer, and a zero byte follows it there; the inode is that entry's.\<close>
theorem scandir_name_offsets:
  assumes "flags AND EIO_READDIR_DENTS \<noteq> 0" and "\<forall>e \<in> set es. d_ino e \<noteq> 0"
    and "False \<notin> set rs" and "True \<notin> set cs"
    and "scan_fits (visible es)" and "\<forall>e \<in> set es. length (dname e) < 2 ^ 16"
  shows "\<exists>r. eio__scandir flags True True True es 0 cs rs = Some r \<and>
    (\<forall>d \<in> set (scan_dents r). \<exists>e \<in> set (visible es).
       take (unat (namelen d)) (drop (unat (nameofs d)) (scan_names r)) = dname e \<and>
       scan_names r ! (unat (nameofs d) + unat (namelen d)) = 0 \<and> inode d = d_ino e)"
proof -
  obtain r where r: "eio__scandir flags True True True es 0 cs rs = Some r" "scan_names r = packed (visible es)"
    "mset (scan_dents r) = mset (dirents_of flags 0 (visible es))"
    using scandir_run [OF assms(1-4)] assms(5) by auto
  have short: "length (packed (visible es)) < 2 ^ 31" using assms(5) by (simp add: scan_fits_def NAMES_MAX_def)
  have "set (scan_dents r) = set (dirents_of flags 0 (visible es))" using r(3) by (metis set_mset_mset)
  moreover have "\<forall>e \<in> set (visible es). length (dname e) < 2 ^ 16" using assms(6) visible_sub by blast
  ultimately show ?thesis using r(1,2) dirents_name_offsets [OF short] by simp
qed

theorem scandir_name_offsets_witness:
  "\<exists>r. eio__scandir 1 True True True [\<lparr>dname = [97, 98], d_type = 8, d_ino = 5\<rparr>] 0 [] [] = Some r \<and>
    (\<forall>d \<in> set (scan_dents r). take (unat (namelen d)) (drop (unat (nameofs d)) (scan_names r)) = [97, 98])"
proof -
  have v: "visible [\<lparr>dname = [97, 98], d_type = 8, d_ino = 5\<rparr>] = [\<lparr>dname = [97, 98], d_type = 8, d_ino = 5\<rparr>]"
    by (simp add: visible_def skipped_def)
  show ?thesis
    using scandir_name_offsets [of 1 "[\<lparr>dname = [97, 98], d_type = 8, d_ino = 5\<rparr>]" "[]" "[]"]
    by (auto simp: v packed_def readdir_flags scan_fits_def NAMES_MAX_def)
qed

end
