(* ===== verification/Ecb_Bits.thy ===== *)
theory Ecb_Bits
  imports Prelude "HOL-Library.Signed_Division"
begin

text \<open>
  The bit and division helpers of \<open>src/libeio/ecb.h\<close>, in the portable versions used when the
  compiler has no builtins: trailing zeros, population count, binary logarithm, powers of two, bit
  reversal, rotation, byte swapping, byte order, and division with a chosen rounding. A shift by the
  width of its promoted operand or more is undefined in C and is the fault \<open>None\<close>.
\<close>

section \<open>The code\<close>

definition ecb_ctz32 :: "u32 \<Rightarrow> int" where
  "ecb_ctz32 x =
     (let x = x AND (NOT x + 1)
      in (if x AND 0xaaaaaaaa \<noteq> 0 then 1 else 0) + (if x AND 0xcccccccc \<noteq> 0 then 2 else 0) +
         (if x AND 0xf0f0f0f0 \<noteq> 0 then 4 else 0) + (if x AND 0xff00ff00 \<noteq> 0 then 8 else 0) +
         (if x AND 0xffff0000 \<noteq> 0 then 16 else 0))"

definition ecb_ctz64 :: "u64 \<Rightarrow> int" where
  "ecb_ctz64 x =
     (let shift = (if x AND 0xffffffff \<noteq> 0 then 0 else 32)
      in ecb_ctz32 (ucast (drop_bit shift x)) + int shift)"

definition ecb_popcount32 :: "u32 \<Rightarrow> int" where
  "ecb_popcount32 x =
     (let x = x - (drop_bit 1 x AND 0x55555555);
          x = (drop_bit 2 x AND 0x33333333) + (x AND 0x33333333);
          x = (drop_bit 4 x + x) AND 0x0f0f0f0f;
          x = x * 0x01010101
      in uint (drop_bit 24 x))"

definition ecb_popcount64 :: "u64 \<Rightarrow> int" where
  "ecb_popcount64 x = ecb_popcount32 (ucast x) + ecb_popcount32 (ucast (drop_bit 32 x))"

definition ecb_ld32 :: "u32 \<Rightarrow> int" where
  "ecb_ld32 x =
     (let r = 0;
          (x, r) = (if drop_bit 16 x \<noteq> 0 then (drop_bit 16 x, r + 16) else (x, r));
          (x, r) = (if drop_bit 8 x \<noteq> 0 then (drop_bit 8 x, r + 8) else (x, r));
          (x, r) = (if drop_bit 4 x \<noteq> 0 then (drop_bit 4 x, r + 4) else (x, r));
          (x, r) = (if drop_bit 2 x \<noteq> 0 then (drop_bit 2 x, r + 2) else (x, r))
      in if drop_bit 1 x \<noteq> 0 then r + 1 else r)"

definition ecb_ld64 :: "u64 \<Rightarrow> int" where
  "ecb_ld64 x =
     (let (x, r) = (if drop_bit 32 x \<noteq> 0 then (drop_bit 32 x, 32) else (x, 0))
      in r + ecb_ld32 (ucast x))"

definition ecb_is_pot32 :: "u32 \<Rightarrow> bool" where "ecb_is_pot32 x \<longleftrightarrow> (x AND (x - 1)) = 0"
definition ecb_is_pot64 :: "u64 \<Rightarrow> bool" where "ecb_is_pot64 x \<longleftrightarrow> (x AND (x - 1)) = 0"

text \<open>The 8-bit reversal computes in 32 bits.\<close>

definition ecb_bitrev8 :: "u8 \<Rightarrow> u8" where
  "ecb_bitrev8 x =
     (let x = ucast x :: u32
      in ucast (drop_bit 16 (((x * 0x0802 AND 0x22110) OR (x * 0x8020 AND 0x88440)) * 0x10101)))"

definition ecb_bitrev16 :: "u16 \<Rightarrow> u16" where
  "ecb_bitrev16 x =
     (let x = (drop_bit 1 x AND 0x5555) OR push_bit 1 (x AND 0x5555);
          x = (drop_bit 2 x AND 0x3333) OR push_bit 2 (x AND 0x3333);
          x = (drop_bit 4 x AND 0x0f0f) OR push_bit 4 (x AND 0x0f0f)
      in drop_bit 8 x OR push_bit 8 x)"

definition ecb_bitrev32 :: "u32 \<Rightarrow> u32" where
  "ecb_bitrev32 x =
     (let x = (drop_bit 1 x AND 0x55555555) OR push_bit 1 (x AND 0x55555555);
          x = (drop_bit 2 x AND 0x33333333) OR push_bit 2 (x AND 0x33333333);
          x = (drop_bit 4 x AND 0x0f0f0f0f) OR push_bit 4 (x AND 0x0f0f0f0f);
          x = (drop_bit 8 x AND 0x00ff00ff) OR push_bit 8 (x AND 0x00ff00ff)
      in drop_bit 16 x OR push_bit 16 x)"

text \<open>
  The narrow operands are promoted to 32 bits, so that a rotation by the full width is defined; the
  wide ones are not, so that neither it nor a rotation by 0 is.
\<close>

definition ecb_rotl8 :: "u8 \<Rightarrow> nat \<Rightarrow> u8 option" where
  "ecb_rotl8 x count = (if count \<le> 8 then Some (drop_bit (8 - count) x OR push_bit count x) else None)"
definition ecb_rotr8 :: "u8 \<Rightarrow> nat \<Rightarrow> u8 option" where
  "ecb_rotr8 x count = (if count \<le> 8 then Some (push_bit (8 - count) x OR drop_bit count x) else None)"
definition ecb_rotl16 :: "u16 \<Rightarrow> nat \<Rightarrow> u16 option" where
  "ecb_rotl16 x count = (if count \<le> 16 then Some (drop_bit (16 - count) x OR push_bit count x) else None)"
definition ecb_rotr16 :: "u16 \<Rightarrow> nat \<Rightarrow> u16 option" where
  "ecb_rotr16 x count = (if count \<le> 16 then Some (push_bit (16 - count) x OR drop_bit count x) else None)"
definition ecb_rotl32 :: "u32 \<Rightarrow> nat \<Rightarrow> u32 option" where
  "ecb_rotl32 x count = (if 0 < count \<and> count < 32 then Some (drop_bit (32 - count) x OR push_bit count x) else None)"
definition ecb_rotr32 :: "u32 \<Rightarrow> nat \<Rightarrow> u32 option" where
  "ecb_rotr32 x count = (if 0 < count \<and> count < 32 then Some (push_bit (32 - count) x OR drop_bit count x) else None)"
definition ecb_rotl64 :: "u64 \<Rightarrow> nat \<Rightarrow> u64 option" where
  "ecb_rotl64 x count = (if 0 < count \<and> count < 64 then Some (drop_bit (64 - count) x OR push_bit count x) else None)"
definition ecb_rotr64 :: "u64 \<Rightarrow> nat \<Rightarrow> u64 option" where
  "ecb_rotr64 x count = (if 0 < count \<and> count < 64 then Some (push_bit (64 - count) x OR drop_bit count x) else None)"

definition ecb_bswap16 :: "u16 \<Rightarrow> u16 option" where "ecb_bswap16 x = ecb_rotl16 x 8"

definition ecb_bswap32 :: "u32 \<Rightarrow> u32 option" where
  "ecb_bswap32 x = do {
     lo \<leftarrow> ecb_bswap16 (ucast x);
     hi \<leftarrow> ecb_bswap16 (ucast (drop_bit 16 x));
     Some (push_bit 16 (ucast lo) OR ucast hi)
   }"

definition ecb_bswap64 :: "u64 \<Rightarrow> u64 option" where
  "ecb_bswap64 x = do {
     lo \<leftarrow> ecb_bswap32 (ucast x);
     hi \<leftarrow> ecb_bswap32 (ucast (drop_bit 32 x));
     Some (push_bit 32 (ucast lo) OR ucast hi)
   }"

text \<open>Operands for which no intermediate result overflows; \<open>sdiv\<close> and \<open>smod\<close> truncate as C does.\<close>

definition ecb_mod :: "int \<Rightarrow> int \<Rightarrow> int" where
  "ecb_mod m n = m smod n + (if m smod n < 0 then n else 0)"

definition ecb_mod_old :: "int \<Rightarrow> int \<Rightarrow> int" where
  "ecb_mod_old m n = (if m < 0 then n - 1 - (- 1 - m) smod n else m smod n)"

definition ecb_div_rd :: "int \<Rightarrow> int \<Rightarrow> int" where
  "ecb_div_rd val d = (if val < 0 then - ((- val + d - 1) sdiv d) else val sdiv d)"

definition ecb_div_ru :: "int \<Rightarrow> int \<Rightarrow> int" where
  "ecb_div_ru val d = (if val < 0 then - ((- val) sdiv d) else (val + d - 1) sdiv d)"

section \<open>Isolated bits\<close>

lemma word_bits_eq: "a = b \<longleftrightarrow> (\<forall>n < LENGTH('a). bit a n = bit b n)" for a b :: "'a::len word"
  by (auto intro: bit_word_eqI)

lemma mask_32: "0xffffffff = (mask 32 :: 'a::len word)"
  by (simp add: mask_eq_exp_minus_1)

lemma lowest_bit:
  fixes x :: "'a::len word"
  assumes k: "bit x k" and low: "\<And>i. i < k \<Longrightarrow> \<not> bit x i"
  shows "x AND (NOT x + 1) = push_bit k 1"
proof -
  have kl: "k < LENGTH('a)" using k by (rule bit_imp_le_length)
  have "a - 1 = b + m" if "a = b + c" "m = c - 1" for a b c m :: "'a word" using that by simp
  moreover have "x = unset_bit k x + push_bit k 1" using k by (simp add: unset_bit_eq push_bit_eq_mult)
  moreover have "mask k = push_bit k 1 - (1 :: 'a word)" by (simp add: mask_eq_exp_minus_1 push_bit_eq_mult)
  ultimately have "x - 1 = unset_bit k x + mask k" by blast
  also have "\<dots> = unset_bit k x OR mask k"
    by (rule disjunctive_add) (auto simp: bit_simps low)
  finally have m: "x - 1 = unset_bit k x OR mask k" .
  have "NOT x + 1 = NOT (x - 1)" by (simp add: not_eq_complement)
  then show ?thesis using k kl low unfolding m by (auto simp: word_bits_eq bit_simps)
qed

lemma push_bit_and: "k < LENGTH('a) \<Longrightarrow> push_bit k 1 AND (m :: 'a::len word) \<noteq> 0 \<longleftrightarrow> bit m k"
  by (auto simp: word_bits_eq bit_simps)

lemma ctz32_lowest:
  assumes "bit x k" and "\<And>i. i < k \<Longrightarrow> \<not> bit x i"
  shows "ecb_ctz32 x = int k"
proof -
  have "k < 32" using bit_imp_le_length [OF assms(1)] by simp
  moreover have "\<forall>k \<in> {..<32}. (if push_bit k 1 AND (0xaaaaaaaa :: u32) \<noteq> 0 then 1 else 0) +
     (if push_bit k 1 AND (0xcccccccc :: u32) \<noteq> 0 then 2 else 0) + (if push_bit k 1 AND (0xf0f0f0f0 :: u32) \<noteq> 0 then 4 else 0) +
     (if push_bit k 1 AND (0xff00ff00 :: u32) \<noteq> 0 then 8 else 0) + (if push_bit k 1 AND (0xffff0000 :: u32) \<noteq> 0 then 16 else 0) = int k"
    by (simp add: lessThan_nat_numeral lessThan_Suc push_bit_and)
  moreover have "x AND (NOT x + 1) = push_bit k 1" by (rule lowest_bit) (fact assms)+
  ultimately show ?thesis unfolding ecb_ctz32_def by simp
qed

text \<open>A word other than 0 has a lowest and a highest bit.\<close>

lemma has_lowest: "x \<noteq> 0 \<Longrightarrow> \<exists>k. bit x k \<and> (\<forall>i < k. \<not> bit x i)" for x :: "'a::len word"
  using exists_least_iff [of "bit x"] by (auto simp: word_bits_eq)

lemma ctz64_lowest:
  assumes "bit x k" and low: "\<forall>i < k. \<not> bit x i"
  shows "ecb_ctz64 x = int k"
proof (cases "k < 32")
  case True
  have "bit (x AND 0xffffffff) k" using assms(1) True by (simp add: mask_32 bit_simps)
  then have "x AND 0xffffffff \<noteq> 0" by auto
  moreover have "ecb_ctz32 (ucast (drop_bit 0 x)) = int k"
    by (rule ctz32_lowest) (use assms True in \<open>auto simp: bit_simps\<close>)
  ultimately show ?thesis by (simp add: ecb_ctz64_def)
next
  case False
  have k: "k < 64" using bit_imp_le_length [OF assms(1)] by simp
  have "x AND 0xffffffff = 0" using low False by (auto simp: mask_32 word_bits_eq bit_simps)
  moreover have "ecb_ctz32 (ucast (drop_bit 32 x)) = int (k - 32)"
    by (rule ctz32_lowest) (use assms False k in \<open>auto simp: bit_simps\<close>)
  ultimately show ?thesis using False by (simp add: ecb_ctz64_def)
qed

text \<open>The highest bit of a word.\<close>

definition top_bit :: "'a::len word \<Rightarrow> nat \<Rightarrow> bool" where
  "top_bit x k \<longleftrightarrow> bit x k \<and> (\<forall>i > k. \<not> bit x i)"

lemma drop_below_top: "top_bit x k \<Longrightarrow> drop_bit s x \<noteq> 0 \<longleftrightarrow> s \<le> k"
proof -
  assume t: "top_bit x k"
  have "bit (drop_bit s x) (k - s)" if "s \<le> k" using t that by (simp add: top_bit_def bit_simps)
  moreover have "\<not> bit (drop_bit s x) i" if "\<not> s \<le> k" for i using t that by (simp add: top_bit_def bit_simps)
  ultimately show ?thesis by (metis bit_0_eq bot_apply bot_bool_def bit_word_eqI)
qed

lemma has_highest: "x \<noteq> 0 \<Longrightarrow> \<exists>k. top_bit x k" for x :: "'a::len word"
proof -
  assume "x \<noteq> 0"
  then have ne: "{i. bit x i} \<noteq> {}" by (auto simp: word_bits_eq)
  have "{i. bit x i} \<subseteq> {..<LENGTH('a)}" using bit_imp_le_length [of x] by auto
  then have fin: "finite {i. bit x i}" using finite_subset by blast
  have "top_bit x (Max {i. bit x i})"
    using Max_in [OF fin ne] Max_ge [OF fin] by (auto simp: top_bit_def leD)
  then show ?thesis by blast
qed

lemma ld32_highest: "top_bit x k \<Longrightarrow> ecb_ld32 x = int k"
proof -
  assume t: "top_bit x k"
  then have "k < 32" using bit_imp_le_length [of x k] by (simp add: top_bit_def)
  then show ?thesis using drop_below_top [OF t] by (simp add: ecb_ld32_def)
qed

lemma ld64_highest: "top_bit x k \<Longrightarrow> ecb_ld64 x = int k"
proof -
  assume t: "top_bit x k"
  then have k: "k < 64" using bit_imp_le_length [of x k] by (simp add: top_bit_def)
  show ?thesis
  proof (cases "32 \<le> k")
    case True
    have "top_bit (ucast (drop_bit 32 x) :: u32) (k - 32)" using t True k by (auto simp: top_bit_def bit_simps)
    then show ?thesis using drop_below_top [OF t, of 32] True ld32_highest by (simp add: ecb_ld64_def)
  next
    case False
    have "top_bit (ucast x :: u32) k" using t False by (auto simp: top_bit_def bit_simps)
    then show ?thesis using drop_below_top [OF t, of 32] False ld32_highest by (simp add: ecb_ld64_def)
  qed
qed

section \<open>Reversal, rotation and swapping\<close>

lemma below_all: "(\<forall>i < n. P i) \<longleftrightarrow> (\<forall>i \<in> {..<n}. P i)" for n :: nat
  by auto

lemma bit_twice: "bit (a * 2) n \<longleftrightarrow> n \<noteq> 0 \<and> n < LENGTH('a) \<and> bit a (n - 1)" for a :: "'a::len word"
  using bit_double_iff [of a n] by (auto simp: mult.commute)

lemma suc_suc_0: "Suc (Suc 0) = 2" by simp

lemma bitrev32_bits: "\<forall>i < 32. bit (ecb_bitrev32 x) i \<longleftrightarrow> bit x (31 - i)"
  unfolding below_all by (simp add: lessThan_nat_numeral lessThan_Suc ecb_bitrev32_def Let_def bit_simps bit_twice suc_suc_0)

lemma bitrev16_bits: "\<forall>i < 16. bit (ecb_bitrev16 x) i \<longleftrightarrow> bit x (15 - i)"
  unfolding below_all by (simp add: lessThan_nat_numeral lessThan_Suc ecb_bitrev16_def Let_def bit_simps bit_twice suc_suc_0)

lemma rotl_generic:
  fixes x :: "'a::len word"
  assumes "c \<le> LENGTH('a)"
  shows "drop_bit (LENGTH('a) - c) x OR push_bit c x = word_rotl c x"
    and "push_bit (LENGTH('a) - c) x OR drop_bit c x = word_rotr c x"
proof -
  have "bit (drop_bit (LENGTH('a) - c) x OR push_bit c x) i = bit (word_rotl c x) i" if i: "i < LENGTH('a)" for i
  proof (cases "i < c")
    case True
    then show ?thesis using i assms by (cases "c = LENGTH('a)") (auto simp: bit_simps bit_word_rotl_iff add.commute)
  next
    case False
    have c: "c mod LENGTH('a) = c" using False i by simp
    have "i + (LENGTH('a) - c) = LENGTH('a) + (i - c)" using False assms by simp
    then have "(i + (LENGTH('a) - c mod LENGTH('a))) mod LENGTH('a) = (LENGTH('a) + (i - c)) mod LENGTH('a)"
      by (simp only: c)
    also have "\<dots> = i - c" using i by (simp only: mod_add_self1) simp
    finally have "(i + (LENGTH('a) - c mod LENGTH('a))) mod LENGTH('a) = i - c" .
    then show ?thesis using i False assms bit_imp_le_length [of x "LENGTH('a) - c + i"]
      by (auto simp: bit_simps bit_word_rotl_iff)
  qed
  then show "drop_bit (LENGTH('a) - c) x OR push_bit c x = word_rotl c x" by (simp add: word_bits_eq)
  have "bit (push_bit (LENGTH('a) - c) x OR drop_bit c x) i = bit (word_rotr c x) i" if i: "i < LENGTH('a)" for i
  proof (cases "i + c < LENGTH('a)")
    case True
    then show ?thesis using i assms by (auto simp: bit_simps bit_word_rotr_iff add.commute)
  next
    case False
    have "i + c = LENGTH('a) + (i - (LENGTH('a) - c))" using False assms by simp
    then have "(i + c) mod LENGTH('a) = i - (LENGTH('a) - c)" using i assms by (metis le_mod_geq le_add1 less_imp_diff_less mod_less add_diff_cancel_left')
    then show ?thesis using i False assms bit_imp_le_length [of x "c + i"]
      by (auto simp: bit_simps bit_word_rotr_iff)
  qed
  then show "push_bit (LENGTH('a) - c) x OR drop_bit c x = word_rotr c x" by (simp add: word_bits_eq)
qed

text \<open>Byte \<open>j\<close> of the result is byte \<open>n - 1 - j\<close> of the operand.\<close>

lemma beyond_16: "16 \<le> n \<Longrightarrow> \<not> bit x n" for x :: u16
  using bit_imp_le_length [of x n] by auto

lemma bswap16_bits: "\<exists>y. ecb_bswap16 x = Some y \<and> (\<forall>i < 16. bit y i \<longleftrightarrow> bit x (8 * (1 - i div 8) + i mod 8))"
  unfolding below_all
  by (simp add: lessThan_nat_numeral lessThan_Suc ecb_bswap16_def ecb_rotl16_def bit_simps beyond_16 suc_suc_0)

lemma bswap32_bits: "\<exists>y. ecb_bswap32 x = Some y \<and> (\<forall>i < 32. bit y i \<longleftrightarrow> bit x (8 * (3 - i div 8) + i mod 8))"
proof -
  obtain lo hi where *: "ecb_bswap16 (ucast x) = Some lo" "ecb_bswap16 (ucast (drop_bit 16 x)) = Some hi"
    "\<And>i. i < 16 \<Longrightarrow> bit lo i \<longleftrightarrow> bit (ucast x :: u16) (8 * (1 - i div 8) + i mod 8)"
    "\<And>i. i < 16 \<Longrightarrow> bit hi i \<longleftrightarrow> bit (ucast (drop_bit 16 x) :: u16) (8 * (1 - i div 8) + i mod 8)"
    using bswap16_bits [of "ucast x"] bswap16_bits [of "ucast (drop_bit 16 x)"] by blast
  have "\<forall>i \<in> {..<32}. bit (push_bit 16 (ucast lo) OR ucast hi :: u32) i \<longleftrightarrow> bit x (8 * (3 - i div 8) + i mod 8)"
    by (simp add: lessThan_nat_numeral lessThan_Suc bit_simps *(3,4) beyond_16 suc_suc_0)
  then show ?thesis using *(1,2) by (auto simp: ecb_bswap32_def)
qed

lemma beyond_32: "32 \<le> n \<Longrightarrow> \<not> bit x n" for x :: u32
  using bit_imp_le_length [of x n] by auto

lemma bswap64_bits: "\<exists>y. ecb_bswap64 x = Some y \<and> (\<forall>i < 64. bit y i \<longleftrightarrow> bit x (8 * (7 - i div 8) + i mod 8))"
proof -
  obtain lo hi where *: "ecb_bswap32 (ucast x) = Some lo" "ecb_bswap32 (ucast (drop_bit 32 x)) = Some hi"
    "\<And>i. i < 32 \<Longrightarrow> bit lo i \<longleftrightarrow> bit (ucast x :: u32) (8 * (3 - i div 8) + i mod 8)"
    "\<And>i. i < 32 \<Longrightarrow> bit hi i \<longleftrightarrow> bit (ucast (drop_bit 32 x) :: u32) (8 * (3 - i div 8) + i mod 8)"
    using bswap32_bits [of "ucast x"] bswap32_bits [of "ucast (drop_bit 32 x)"] by blast
  have "\<forall>i \<in> {..<64}. bit (push_bit 32 (ucast lo) OR ucast hi :: u64) i \<longleftrightarrow> bit x (8 * (7 - i div 8) + i mod 8)"
    by (simp add: lessThan_nat_numeral lessThan_Suc bit_simps *(3,4) beyond_32 suc_suc_0)
  then show ?thesis using *(1,2) by (auto simp: ecb_bswap64_def)
qed

section \<open>Counting bits\<close>

text \<open>The field \<open>j\<close> of a word cut into fields of \<open>k\<close> bits.\<close>

definition fld :: "nat \<Rightarrow> 'a::len word \<Rightarrow> nat \<Rightarrow> nat" where
  "fld k w j = take_bit k (drop_bit (k * j) (unat w))"

lemma fld_less: "fld k w j < 2 ^ k"
  by (simp add: fld_def)

lemma fields_sum:
  fixes x :: nat
  shows "(\<Sum>j<n. take_bit k (drop_bit (k * j) x) * 2 ^ (k * j)) = take_bit (k * n) x"
proof (induction n)
  case (Suc n)
  have "take_bit (k * Suc n) x = take_bit (k * n) x + take_bit k (drop_bit (k * n) x) * 2 ^ (k * n)"
    using bits_ident [of "k * n" "take_bit (k * Suc n) x"]
    by (simp add: push_bit_eq_mult drop_bit_take_bit add.commute mult.commute)
  then show ?case using Suc by simp
qed simp

lemma unat_fields: "k * n = LENGTH('a) \<Longrightarrow> unat (w :: 'a::len word) = (\<Sum>j<n. fld k w j * 2 ^ (k * j))"
  using fields_sum [of k "unat w" n] by (simp add: fld_def) (metis take_bit_of_nat unsigned_take_bit_eq take_bit_length_eq)

lemma fields_unique:
  fixes c :: "nat \<Rightarrow> nat"
  assumes "\<And>j. j < n \<Longrightarrow> c j < 2 ^ k" and "m < n"
  shows "take_bit k (drop_bit (k * m) (\<Sum>j<n. c j * 2 ^ (k * j))) = c m"
  using assms
proof (induction n arbitrary: m c)
  case (Suc n)
  have split: "(\<Sum>j<Suc n. c j * 2 ^ (k * j)) = c 0 + 2 ^ k * (\<Sum>j<n. c (Suc j) * 2 ^ (k * j))"
    unfolding sum.lessThan_Suc_shift by (simp add: sum_distrib_left power_add mult_ac)
  show ?case
  proof (cases m)
    case 0
    then show ?thesis using Suc.prems(1) [of 0] unfolding split by (simp add: take_bit_eq_mod)
  next
    case (Suc m')
    have "drop_bit (k * m) (\<Sum>j<Suc n. c j * 2 ^ (k * j)) = drop_bit (k * m') (drop_bit k (\<Sum>j<Suc n. c j * 2 ^ (k * j)))"
      using Suc by (simp add: add.commute)
    also have "drop_bit k (\<Sum>j<Suc n. c j * 2 ^ (k * j)) = (\<Sum>j<n. c (Suc j) * 2 ^ (k * j))"
      using Suc.prems(1) [of 0] unfolding split by (simp add: drop_bit_eq_div)
    finally show ?thesis using Suc.IH [of "\<lambda>j. c (Suc j)" m'] Suc.prems Suc by simp
  qed
qed simp

text \<open>Every second field of a word, and the one after it, in fields twice as wide.\<close>

lemma fld_even:
  fixes w M :: "'a::len word"
  assumes M: "\<forall>i < LENGTH('a). bit M i \<longleftrightarrow> even (i div k)" and k: "0 < k" "2 * k * n = LENGTH('a)" and j: "j < n"
  shows "fld (2 * k) (w AND M) j = fld k w (2 * j)" "fld (2 * k) (drop_bit k w AND M) j = fld k w (2 * j + 1)"
proof -
  have in_range: "2 * k * j + i < LENGTH('a)" if "i < 2 * k" for i
  proof -
    have "2 * k * j + i < 2 * k * (j + 1)" using that by simp
    also have "\<dots> \<le> 2 * k * n" using j by (intro mult_le_mono2) simp
    finally show ?thesis using k by simp
  qed
  have div: "(2 * k * j + i) div k = 2 * j + i div k" for i
    using k(1) by (simp add: mult.assoc mult.left_commute [of 2 k])
  have low: "even (2 * j + i div k) \<longleftrightarrow> i < k" if "i < 2 * k" for i
  proof (cases "i < k")
    case False
    then have "i div k = 1" using that by (intro div_nat_eqI) simp_all
    then show ?thesis using False by simp
  qed simp
  have bM: "bit M (2 * k * j + i) \<longleftrightarrow> i < k" if "i < 2 * k" for i
    using M in_range [OF that] div low [OF that] by auto
  show "fld (2 * k) (w AND M) j = fld k w (2 * j)"
    unfolding fld_def using bM in_range by (intro bit_eqI) (auto simp: bit_simps mult_ac)
  show "fld (2 * k) (drop_bit k w AND M) j = fld k w (2 * j + 1)"
    unfolding fld_def using bM in_range by (intro bit_eqI) (auto simp: bit_simps algebra_simps)
qed

text \<open>A word whose number is a sum of small fields has these fields.\<close>

lemma fld_of_sum:
  fixes w :: "'a::len word"
  assumes "unat w = (\<Sum>j<n. c j * 2 ^ (k * j))" and "\<And>j. j < n \<Longrightarrow> c j < 2 ^ k" and "j < n"
  shows "fld k w j = c j"
  unfolding fld_def assms(1) by (rule fields_unique) (use assms in auto)

lemma sum_fields_less:
  fixes c :: "nat \<Rightarrow> nat"
  assumes "\<And>j. j < n \<Longrightarrow> c j < 2 ^ k"
  shows "(\<Sum>j<n. c j * 2 ^ (k * j)) < 2 ^ (k * n)"
  using assms
proof (induction n)
  case (Suc n)
  have "c n * 2 ^ (k * n) \<le> (2 ^ k - 1) * 2 ^ (k * n)" using Suc.prems [of n] by (intro mult_right_mono) auto
  moreover have "(2 ^ k - 1) * 2 ^ (k * n) + 2 ^ (k * n) = (2 :: nat) ^ (k * Suc n)"
    by (simp add: diff_mult_distrib power_add)
  moreover have "(\<Sum>j<n. c j * 2 ^ (k * j)) < 2 ^ (k * n)" using Suc by simp
  ultimately show ?case unfolding sum.lessThan_Suc by linarith
qed simp

lemma fld_add:
  fixes a b :: "'a::len word"
  assumes "k * n = LENGTH('a)" and "\<And>j. j < n \<Longrightarrow> fld k a j + fld k b j < 2 ^ k" and "j < n"
  shows "fld k (a + b) j = fld k a j + fld k b j"
proof -
  have e: "unat a + unat b = (\<Sum>j<n. (fld k a j + fld k b j) * 2 ^ (k * j))"
    unfolding unat_fields [OF assms(1), of a] unat_fields [OF assms(1), of b]
    by (simp add: sum.distrib add_mult_distrib)
  also have "\<dots> < 2 ^ LENGTH('a)" unfolding assms(1) [symmetric] by (rule sum_fields_less) (rule assms(2))
  finally have "unat (a + b) = unat a + unat b" by (rule unat_add_no_wrap)
  then show ?thesis unfolding e by (rule fld_of_sum) (use assms in auto)
qed

text \<open>One step of the count: the fields of the sum are the sums of neighbours.\<close>

lemma count_step:
  fixes w M :: "'a::len word"
  assumes M: "\<forall>i < LENGTH('a). bit M i \<longleftrightarrow> even (i div k)" and k: "0 < k" "2 * k * n = LENGTH('a)" and j: "j < n"
  shows "fld (2 * k) ((drop_bit k w AND M) + (w AND M)) j = fld k w (2 * j + 1) + fld k w (2 * j)"
proof -
  have "fld k w (2 * i + 1) + fld k w (2 * i) < 2 ^ (2 * k)" for i
  proof -
    have "(2::nat) ^ k * 2 \<le> 2 ^ k * 2 ^ k" using k(1) by (intro mult_left_mono) (cases k, simp_all)
    moreover have "(2::nat) ^ (2 * k) = 2 ^ k * 2 ^ k" by (simp add: mult_2 power_add)
    ultimately show ?thesis using fld_less [of k w "2 * i + 1"] fld_less [of k w "2 * i"] by linarith
  qed
  then have small: "fld (2 * k) (drop_bit k w AND M) i + fld (2 * k) (w AND M) i < 2 ^ (2 * k)" if "i < n" for i
    by (simp only: fld_even(2) [OF M k that] fld_even(1) [OF M k that, of w])
  have "fld (2 * k) ((drop_bit k w AND M) + (w AND M)) j = fld (2 * k) (drop_bit k w AND M) j + fld (2 * k) (w AND M) j"
    by (rule fld_add [OF k(2) _ j]) (rule small)
  then show ?thesis by (simp only: fld_even(2) [OF M k j] fld_even(1) [OF M k j, of w])
qed

lemma count_masks:
  "\<forall>i < LENGTH(32). bit (0x55555555 :: u32) i \<longleftrightarrow> even (i div 1)"
  "\<forall>i < LENGTH(32). bit (0x33333333 :: u32) i \<longleftrightarrow> even (i div 2)"
  "\<forall>i < LENGTH(32). bit (0x0f0f0f0f :: u32) i \<longleftrightarrow> even (i div 4)"
  unfolding below_all by (simp_all add: lessThan_nat_numeral lessThan_Suc)

lemma fld_bit: "fld 1 w j = of_bool (bit w j)"
  by (simp add: fld_def take_bit_eq_mod mod_2_eq_odd bit_unsigned_iff flip: bit_iff_odd_drop_bit)

lemma even_and_odd:
  fixes x M :: "'a::len word"
  assumes M: "\<forall>i < LENGTH('a). bit M i \<longleftrightarrow> even (i div 1)"
  shows "x = push_bit 1 (drop_bit 1 x AND M) + (x AND M)"
proof -
  have "bit (push_bit 1 (drop_bit 1 x AND M) OR (x AND M)) i = bit x i" if "i < LENGTH('a)" for i
    using that M by (cases i) (auto simp: bit_simps bit_twice)
  then have "push_bit 1 (drop_bit 1 x AND M) OR (x AND M) = x" by (simp add: word_bits_eq)
  moreover have "push_bit 1 (drop_bit 1 x AND M) + (x AND M) = push_bit 1 (drop_bit 1 x AND M) OR (x AND M)"
  proof (rule disjunctive_add)
    fix n show "\<not> bit (push_bit 1 (drop_bit 1 x AND M)) n \<or> \<not> bit (x AND M) n"
      using M bit_imp_le_length [of x n] by (cases n) (auto simp: bit_simps bit_twice)
  qed
  ultimately show ?thesis by simp
qed

lemma fld_drop: "fld k (drop_bit k w) j = fld k w (Suc j)"
  by (simp add: fld_def unat_drop_bit_eq add.commute)

text \<open>The multiplication adds the four bytes up in the highest one.\<close>

lemma byte_sum:
  assumes "unat w = a + b * 256 + c * 65536 + d * 16777216" and "a \<le> 8" "b \<le> 8" "c \<le> 8" "d \<le> 8"
  shows "uint (drop_bit 24 (w * 0x01010101 :: u32)) = int (a + b + c + d)"
proof -
  define low where "low = a + (a + b) * 256 + (a + b + c) * 65536"
  define high where "high = (b + c + d) + (c + d) * 256 + d * 65536"
  have low: "low < 16777216" using assms by (simp add: low_def)
  have "unat w * 0x01010101 = (low + (a + b + c + d) * 16777216) + high * 4294967296"
    unfolding assms(1) low_def high_def by simp
  then have "unat (w * 0x01010101) = (low + (a + b + c + d) * 16777216) mod 4294967296"
    by (simp add: unat_word_ariths)
  also have "\<dots> = low + (a + b + c + d) * 16777216" using low assms by simp
  finally have "unat (w * 0x01010101) = low + (a + b + c + d) * 16777216" .
  then have "unat (drop_bit 24 (w * 0x01010101)) = (low + (a + b + c + d) * 16777216) div 2 ^ 24"
    unfolding unat_drop_bit_eq by (simp only: drop_bit_eq_div)
  also have "\<dots> = a + b + c + d" using low by simp
  finally have "int (unat (drop_bit 24 (w * 0x01010101))) = int (a + b + c + d)" by (rule arg_cong)
  then show ?thesis by (simp only: uint_nat)
qed

lemma popcount32_counts: "ecb_popcount32 x = (\<Sum>i<32. of_bool (bit x i))"
proof -
  define b where "b i = (of_bool (bit x i) :: nat)" for i
  have b1: "b i \<le> 1" for i by (simp add: b_def)
  define x1 where "x1 = x - (drop_bit 1 x AND 0x55555555)"
  define x2 where "x2 = (drop_bit 2 x1 AND 0x33333333) + (x1 AND 0x33333333)"
  define x3 where "x3 = (drop_bit 4 x2 + x2) AND 0x0f0f0f0f"
  have "x1 = (drop_bit 1 x AND 0x55555555) + (x AND 0x55555555)"
  proof -
    have "y - q = q + r" if "y = push_bit 1 q + r" for y q r :: u32 using that by simp
    from this [OF even_and_odd] show ?thesis using count_masks(1) unfolding x1_def by blast
  qed
  then have f1: "fld 2 x1 j = b (2 * j + 1) + b (2 * j)" if "j < 16" for j
    using count_step [OF count_masks(1), of 16 j x] that by (simp add: fld_bit [unfolded One_nat_def] b_def)
  then have f2: "fld 4 x2 j = fld 2 x1 (2 * j + 1) + fld 2 x1 (2 * j)" if "j < 8" for j
    using count_step [OF count_masks(2), of 8 j x1] that by (simp add: x2_def)
  have le2: "fld 2 x1 j \<le> 2" if "j < 16" for j
    using f1 [OF that] b1 [of "2 * j + 1"] b1 [of "2 * j"] by simp
  have le4: "fld 4 x2 j \<le> 4" if "j < 8" for j
    using f2 [OF that] le2 [of "2 * j + 1"] le2 [of "2 * j"] that by simp
  have "unat x2 < 2 ^ 32" using unsigned_less [of x2] by simp
  then have f0: "fld 4 x2 8 = 0" by (simp add: fld_def drop_bit_eq_div)
  have le4': "fld 4 x2 j \<le> 4" if "j \<le> 8" for j using le4 [of j] that f0 by (cases "j = 8") auto
  have fs: "fld 4 (drop_bit 4 x2 + x2) j = fld 4 x2 (Suc j) + fld 4 x2 j" if "j < 8" for j
    unfolding fld_drop [symmetric]
  proof (rule fld_add [OF _ _ that])
    show "fld 4 (drop_bit 4 x2) i + fld 4 x2 i < 2 ^ 4" if "i < 8" for i
      using le4' [of "Suc i"] le4 [OF that] that by (simp add: fld_drop)
  qed simp
  have f3: "fld 8 x3 j = fld 4 x2 (2 * j + 1) + fld 4 x2 (2 * j)" if "j < 4" for j
    using fld_even(1) [OF count_masks(3), of 4 j "drop_bit 4 x2 + x2"] fs [of "2 * j"] that by (simp add: x3_def)
  have le8: "fld 8 x3 j \<le> 8" if "j < 4" for j
    using f3 [OF that] le4 [of "2 * j + 1"] le4 [of "2 * j"] that by simp
  have "unat x3 = (\<Sum>j<4. fld 8 x3 j * 2 ^ (8 * j))" by (rule unat_fields) simp
  then have x3v: "unat x3 = fld 8 x3 0 + fld 8 x3 1 * 256 + fld 8 x3 2 * 65536 + fld 8 x3 3 * 16777216"
    by (simp add: lessThan_nat_numeral lessThan_Suc)
  have "uint (drop_bit 24 (x3 * 0x01010101)) = int (fld 8 x3 0 + fld 8 x3 1 + fld 8 x3 2 + fld 8 x3 3)"
    using byte_sum [OF x3v] le8 by simp
  also have "fld 8 x3 0 + fld 8 x3 1 + fld 8 x3 2 + fld 8 x3 3 = (\<Sum>i<32. b i)"
    by (simp add: f3 f2 f1 lessThan_nat_numeral lessThan_Suc)
  finally have "uint (drop_bit 24 (x3 * 0x01010101)) = int (\<Sum>i<32. b i)" .
  moreover have "ecb_popcount32 x = uint (drop_bit 24 (x3 * 0x01010101))"
    by (simp only: ecb_popcount32_def Let_def x1_def x2_def x3_def)
  ultimately show ?thesis by (simp add: b_def)
qed

lemma popcount64_counts: "ecb_popcount64 x = (\<Sum>i<64. of_bool (bit x i))"
proof -
  have "ecb_popcount64 x = (\<Sum>i<32. of_bool (bit x i)) + (\<Sum>i<32. of_bool (bit x (32 + i)))"
    by (simp add: ecb_popcount64_def popcount32_counts bit_simps)
  also have "(\<Sum>i<32. of_bool (bit x (32 + i)) :: int) = (\<Sum>i = 32..<64. of_bool (bit x i))"
    by (rule sum.reindex_bij_witness [of _ "\<lambda>i. i - 32" "\<lambda>i. 32 + i"]) auto
  also have "(\<Sum>i<32. of_bool (bit x i) :: int) + (\<Sum>i = 32..<64. of_bool (bit x i)) = (\<Sum>i<64. of_bool (bit x i))"
    unfolding lessThan_atLeast0 by (rule sum.atLeastLessThan_concat) simp_all
  finally show ?thesis .
qed

text \<open>The 8-bit version, for each of the 256 bytes.\<close>

lemma bitrev8_all: "list_all (\<lambda>n. list_all (\<lambda>i. bit (ecb_bitrev8 (word_of_nat n)) i = bit (word_of_nat n :: u8) (7 - i)) [0..<8]) [0..<256]"
  by code_simp

lemma bitrev8_bits: "\<forall>i < 8. bit (ecb_bitrev8 x) i \<longleftrightarrow> bit x (7 - i)"
proof -
  have "unat x < 256" using unsigned_less [of x] by simp
  moreover have "word_of_nat (unat x) = x" by simp
  ultimately show ?thesis using bitrev8_all unfolding list_all_iff set_upt by (metis atLeastLessThan_iff zero_le)
qed

section \<open>Rounding\<close>

lemma smod_pos: "0 \<le> a \<Longrightarrow> 0 < d \<Longrightarrow> a smod d = a mod d \<and> a sdiv d = a div d" for a d :: int
  by (cases "a = 0") (simp_all add: signed_modulo_int_def signed_divide_int_def)

lemma smod_neg: "a < 0 \<Longrightarrow> 0 < d \<Longrightarrow> a smod d = - ((- a) mod d)" for a d :: int
  by (simp add: signed_modulo_int_def signed_divide_int_def minus_mult_div_eq_mod)

lemma round_up_down:
  fixes w d :: int
  assumes "0 < d"
  shows "(w + d - 1) div d = - ((- w) div d)" "d - 1 - w mod d = (- 1 - w) mod d"
proof -
  have r: "0 \<le> w mod d" "w mod d < d" "w = d * (w div d) + w mod d" using assms by simp_all
  show "(w + d - 1) div d = - ((- w) div d)"
  proof (cases "w mod d = 0")
    case True
    have "(w + d - 1) div d = w div d" by (rule int_div_pos_eq [of _ _ _ "d - 1"]) (use r True assms in simp_all)
    then show ?thesis using True assms by (simp add: zdiv_zminus1_eq_if)
  next
    case False
    have "0 < w mod d" using r(1) False by linarith
    then have "0 \<le> w mod d - 1" "w mod d - 1 < d" using r(2) by linarith+
    moreover have "w + d - 1 = d * (w div d + 1) + (w mod d - 1)" using r(3) by (simp add: algebra_simps)
    ultimately have "(w + d - 1) div d = w div d + 1" by (intro int_div_pos_eq)
    then show ?thesis using False assms by (simp add: zdiv_zminus1_eq_if)
  qed
  show "d - 1 - w mod d = (- 1 - w) mod d"
    by (rule int_mod_pos_eq [symmetric, of _ _ "- 1 - w div d"]) (use r in \<open>simp_all add: algebra_simps\<close>)
qed

section \<open>Properties\<close>

text \<open>\<open>ecb_ctz32\<close> and \<open>ecb_ctz64\<close> give the position of the lowest set bit and \<open>ecb_ld32\<close> and \<open>ecb_ld64\<close> that of
  the highest, for every word other than 0.\<close>
theorem ecb_ctz_ld_positions:
  fixes x :: u32 and y :: u64
  assumes "x \<noteq> 0" "y \<noteq> 0"
  shows "(\<exists>k. ecb_ctz32 x = int k \<and> bit x k \<and> (\<forall>i < k. \<not> bit x i)) \<and>
    (\<exists>k. ecb_ctz64 y = int k \<and> bit y k \<and> (\<forall>i < k. \<not> bit y i)) \<and>
    (\<exists>k. ecb_ld32 x = int k \<and> bit x k \<and> (\<forall>i > k. \<not> bit x i)) \<and>
    (\<exists>k. ecb_ld64 y = int k \<and> bit y k \<and> (\<forall>i > k. \<not> bit y i))"
proof -
  obtain k where "bit x k" "\<forall>i < k. \<not> bit x i" using has_lowest [OF assms(1)] by blast
  moreover from this have "ecb_ctz32 x = int k" by (intro ctz32_lowest) blast+
  moreover obtain k' where "bit y k'" "\<forall>i < k'. \<not> bit y i" using has_lowest [OF assms(2)] by blast
  moreover from this have "ecb_ctz64 y = int k'" by (rule ctz64_lowest)
  moreover obtain h where "top_bit x h" using has_highest [OF assms(1)] by blast
  moreover obtain h' where "top_bit y h'" using has_highest [OF assms(2)] by blast
  ultimately show ?thesis using ld32_highest ld64_highest unfolding top_bit_def by blast
qed

theorem ecb_ctz_ld_positions_witness: "\<exists>k. ecb_ctz32 40 = int k \<and> bit (40 :: u32) k \<and> (\<forall>i < k. \<not> bit (40 :: u32) i)"
  using ecb_ctz_ld_positions [of 40 40] by simp

text \<open>The population counts, which add neighbouring fields in parallel and multiply the bytes together, give the
  number of bits that are set.\<close>
theorem ecb_popcount_counts:
  "ecb_popcount32 x = int (card {i. bit x i}) \<and> ecb_popcount64 y = int (card {i. bit y i})"
proof -
  have count: "(\<Sum>i<LENGTH('a). of_bool (bit w i)) = int (card {i. bit w i})" for w :: "'a::len word"
  proof -
    have "{i. bit w i} = {i \<in> {..<LENGTH('a)}. bit w i}" using bit_imp_le_length [of w] by auto
    then show ?thesis by (simp add: of_bool_def sum.If_cases Int_def)
  qed
  show ?thesis using count [of x] count [of y] by (simp add: popcount32_counts popcount64_counts)
qed

text \<open>The bit reversals put bit \<open>i\<close> at the mirrored position, byte swapping puts the bytes in the opposite
  order.\<close>
theorem ecb_reversals:
  "(\<forall>i < 8. bit (ecb_bitrev8 a) i \<longleftrightarrow> bit a (7 - i)) \<and> (\<forall>i < 16. bit (ecb_bitrev16 b) i \<longleftrightarrow> bit b (15 - i)) \<and>
   (\<forall>i < 32. bit (ecb_bitrev32 c) i \<longleftrightarrow> bit c (31 - i)) \<and>
   (\<exists>b'. ecb_bswap16 b = Some b' \<and> (\<forall>i < 16. bit b' i \<longleftrightarrow> bit b (8 * (1 - i div 8) + i mod 8))) \<and>
   (\<exists>c'. ecb_bswap32 c = Some c' \<and> (\<forall>i < 32. bit c' i \<longleftrightarrow> bit c (8 * (3 - i div 8) + i mod 8))) \<and>
   (\<exists>d'. ecb_bswap64 d = Some d' \<and> (\<forall>i < 64. bit d' i \<longleftrightarrow> bit d (8 * (7 - i div 8) + i mod 8)))"
  using bitrev8_bits bitrev16_bits bitrev32_bits bswap16_bits bswap32_bits bswap64_bits by blast

theorem ecb_reversals_witness: "bit (ecb_bitrev8 1) 7 \<and> \<not> bit (ecb_bitrev16 3) 13 \<and> bit (ecb_bitrev32 3) 30"
  using ecb_reversals [of 1 3 3 0] by (force simp: bit_simps)

text \<open>The rotations are rotations for every count below the width. A rotation by 0 or by the full width is
  undefined for 32 and 64 bits, although it is defined for 8 and 16.\<close>
theorem ecb_rotations:
  "ecb_rotl8 a n = (if n \<le> 8 then Some (word_rotl n a) else None) \<and> ecb_rotr8 a n = (if n \<le> 8 then Some (word_rotr n a) else None) \<and>
   ecb_rotl16 b n = (if n \<le> 16 then Some (word_rotl n b) else None) \<and> ecb_rotr16 b n = (if n \<le> 16 then Some (word_rotr n b) else None) \<and>
   ecb_rotl32 c n = (if 0 < n \<and> n < 32 then Some (word_rotl n c) else None) \<and>
   ecb_rotr32 c n = (if 0 < n \<and> n < 32 then Some (word_rotr n c) else None) \<and>
   ecb_rotl64 d n = (if 0 < n \<and> n < 64 then Some (word_rotl n d) else None) \<and>
   ecb_rotr64 d n = (if 0 < n \<and> n < 64 then Some (word_rotr n d) else None)"
  using rotl_generic [of n a] rotl_generic [of n b] rotl_generic [of n c] rotl_generic [of n d]
  by (simp add: ecb_rotl8_def ecb_rotr8_def ecb_rotl16_def ecb_rotr16_def ecb_rotl32_def ecb_rotr32_def ecb_rotl64_def ecb_rotr64_def)

text \<open>\<open>ecb_mod\<close> is the remainder that is never negative, in both of its versions, and the two divisions round
  down and up, whatever the sign of the dividend, for a positive divisor.\<close>
theorem ecb_division:
  assumes "0 < d"
  shows "ecb_mod v d = v mod d \<and> ecb_mod_old v d = v mod d \<and> ecb_div_rd v d = v div d \<and> ecb_div_ru v d = - ((- v) div d)"
proof (cases "v < 0")
  case True
  have "v mod d = (if (- v) mod d = 0 then 0 else d - (- v) mod d)"
    using zmod_zminus1_eq_if [of "- v" d] by simp
  moreover have "(- v) mod d = 0 \<or> 0 < (- v) mod d" using pos_mod_sign [OF assms, of "- v"] by linarith
  ultimately have "ecb_mod v d = v mod d" using True assms by (auto simp: ecb_mod_def smod_neg)
  moreover have "ecb_mod_old v d = v mod d"
    using True assms round_up_down(2) [OF assms, of "- 1 - v"] by (simp add: ecb_mod_old_def smod_pos)
  moreover have "ecb_div_rd v d = v div d"
    using True assms round_up_down(1) [OF assms, of "- v"] by (simp add: ecb_div_rd_def smod_pos)
  moreover have "ecb_div_ru v d = - ((- v) div d)" using smod_pos [of "- v" d] True assms by (simp add: ecb_div_ru_def)
  ultimately show ?thesis by blast
next
  case False
  then have "ecb_mod v d = v mod d" using assms by (simp add: ecb_mod_def smod_pos leD)
  moreover have "ecb_mod_old v d = v mod d" "ecb_div_rd v d = v div d"
    using False assms by (simp_all add: ecb_mod_old_def ecb_div_rd_def smod_pos)
  moreover have "ecb_div_ru v d = - ((- v) div d)"
    using False assms round_up_down(1) [OF assms, of v] by (simp add: ecb_div_ru_def smod_pos)
  ultimately show ?thesis by blast
qed

theorem ecb_division_witness: "ecb_mod (- 7) 3 = 2 \<and> ecb_div_rd (- 7) 3 = - 3 \<and> ecb_div_ru (- 7) 3 = - 2"
  using ecb_division [of 3 "- 7"] by simp

end
