(* ===== verification/Ecb_Float.thy ===== *)
theory Ecb_Float
  imports Prelude Complex_Main
begin

text \<open>
  The floating point conversions of \<open>src/libeio/ecb.h\<close>: \<open>ecb_binary16_to_float\<close>, and the emulations of
  the other four, which are for systems whose floats are not the IEEE formats (elsewhere these
  functions copy the bytes). A float is its value; the sign of zero is lost, as the comments there say.
  \<open>frexp\<close> and \<open>ldexp\<close> are those of the C library; the values that occur fit the format, so that
  nothing is rounded. C leaves the conversion of a negative value to an unsigned type undefined: it is
  \<open>None\<close>, the fault. (The code expects it to wrap; there are systems on which it gives 0.)

  The two emulated formats are instances of one (\<open>decode_bits\<close>, \<open>encode_bits\<close>), for which the round trip
  is proved once; the reference is the value that IEEE 754 defines (\<open>ieee_value\<close>).
\<close>

section \<open>Floats\<close>

datatype cfloat = Finite rat | Infinite bool | Not_a_number

fun neg_float :: "cfloat \<Rightarrow> cfloat" where
  "neg_float (Finite x) = Finite (- x)"
| "neg_float (Infinite neg) = Infinite (\<not> neg)"
| "neg_float Not_a_number = Not_a_number"

definition two_to :: "int \<Rightarrow> rat" where
  "two_to e = (if 0 \<le> e then 2 ^ nat e else 1 / 2 ^ nat (- e))"

definition ldexp :: "rat \<Rightarrow> int \<Rightarrow> rat" where
  "ldexp x e = x * two_to e"

text \<open>The exponent of \<open>frexp\<close>, from the lengths of numerator and denominator.\<close>

definition frexp_exp :: "rat \<Rightarrow> int" where
  "frexp_exp x =
     (if x = 0 then 0
      else case quotient_of \<bar>x\<bar> of (a, b) \<Rightarrow>
        (let k = int (bitlen (nat a)) - int (bitlen (nat b)) in if \<bar>x\<bar> < two_to k then k else k + 1))"

definition frexp :: "rat \<Rightarrow> rat \<times> int" where
  "frexp x = (ldexp x (- frexp_exp x), frexp_exp x)"

text \<open>Conversion to an integer truncates.\<close>

definition trunc :: "rat \<Rightarrow> int" where
  "trunc x = (if x < 0 then - \<lfloor>- x\<rfloor> else \<lfloor>x\<rfloor>)"

definition to_unsigned :: "rat \<Rightarrow> 'a::len word option" where
  "to_unsigned x = (if 0 \<le> trunc x \<and> trunc x < 2 ^ LENGTH('a) then Some (word_of_int (trunc x)) else None)"

section \<open>The conversions\<close>

definition ecb_binary16_to_float :: "u16 \<Rightarrow> cfloat" where
  "ecb_binary16_to_float x =
     (let e = drop_bit 10 x AND 0x1f; m = x AND 0x3ff;
          r = (if e = 0 then Finite (ldexp (of_nat (unat m)) (- 24))
               else if e \<noteq> 31 then Finite (ldexp (of_nat (unat (m + 0x400))) (uint e - 25))
               else if m \<noteq> 0 then Not_a_number else Infinite False)
      in if x AND 0x8000 \<noteq> 0 then neg_float r else r)"

text \<open>A finite float is not larger than the largest one, so that the two comparisons find the infinite ones.\<close>

definition ecb_float_to_binary32 :: "cfloat \<Rightarrow> u32 option" where
  "ecb_float_to_binary32 x = (case x of
     Infinite neg \<Rightarrow> Some (if neg then 0xff800000 else 0x7f800000)
   | Not_a_number \<Rightarrow> Some 0x7fbfffff
   | Finite v \<Rightarrow>
       if v = 0 then Some 0
       else do {
         let (f, e) = frexp v;
         m \<leftarrow> to_unsigned (f * 0x1000000);
         let r = m AND 0x80000000;
         let m = (if r \<noteq> 0 then - m else m);
         let (m, e) = (if e \<le> - 126 then (drop_bit (nat (- 125 - e)) (m AND 0xffffff), - 126) else (m, e));
         let r = r OR push_bit 23 (word_of_int (e + 126));
         Some (r OR (m AND 0x7fffff))
       })"

definition ecb_binary32_to_float :: "u32 \<Rightarrow> cfloat" where
  "ecb_binary32_to_float x =
     (let neg = drop_bit 31 x; e = uint (drop_bit 23 x AND 0xff); x = x AND 0x7fffff;
          (x, e) = (if e \<noteq> 0 then (x OR 0x800000, e) else (x, 1));
          r = ldexp (of_nat (unat x) * (1 / 2 / 0x800000)) (e - 126)
      in Finite (if neg \<noteq> 0 then - r else r))"

definition ecb_double_to_binary64 :: "cfloat \<Rightarrow> u64 option" where
  "ecb_double_to_binary64 x = (case x of
     Infinite neg \<Rightarrow> Some (if neg then 0xfff0000000000000 else 0x7ff0000000000000)
   | Not_a_number \<Rightarrow> Some 0x7ff7ffffffffffff
   | Finite v \<Rightarrow>
       if v = 0 then Some 0
       else do {
         let (f, e) = frexp v;
         m \<leftarrow> to_unsigned (f * 0x20000000000000);
         let r = m AND 0x8000000000000000;
         let m = (if r \<noteq> 0 then - m else m);
         let (m, e) = (if e \<le> - 1022 then (drop_bit (nat (- 1021 - e)) (m AND 0x1fffffffffffff), - 1022) else (m, e));
         let r = r OR push_bit 52 (word_of_int (e + 1022));
         Some (r OR (m AND 0xfffffffffffff))
       })"

definition ecb_binary64_to_double :: "u64 \<Rightarrow> cfloat" where
  "ecb_binary64_to_double x =
     (let neg = drop_bit 63 x; e = uint (drop_bit 52 x AND 0x7ff); x = x AND 0xfffffffffffff;
          (x, e) = (if e \<noteq> 0 then (x OR 0x10000000000000, e) else (x, 1));
          r = ldexp (of_nat (unat x) * (1 / 2 / 0x10000000000000)) (e - 1022)
      in Finite (if neg \<noteq> 0 then - r else r))"

section \<open>The library functions\<close>

lemma two_to_pos [simp]: "0 < two_to e"
  by (simp add: two_to_def)

lemma two_to_neq_0 [simp]: "two_to e \<noteq> 0"
  by (metis less_irrefl two_to_pos)

lemma two_to_powi: "two_to e = 2 powi e"
  by (simp add: two_to_def power_int_def inverse_eq_divide power_one_over)

lemma two_to_add: "two_to (a + b) = two_to a * two_to b"
  by (simp add: two_to_powi power_int_add)

lemma two_to_mono: "two_to a < two_to b \<longleftrightarrow> a < b"
proof -
  have "a < b \<Longrightarrow> two_to a < two_to b" for a b
    unfolding two_to_powi by (rule power_int_strict_increasing) simp_all
  then show ?thesis by (metis less_asym' not_less_iff_gr_or_eq)
qed

lemma two_to_nat: "two_to (int n) = 2 ^ n"
  by (simp add: two_to_def)

lemma of_bitlen:
  assumes "0 < n"
  shows "two_to (int (bitlen n) - 1) \<le> of_nat n" and "of_nat n < two_to (int (bitlen n))"
proof -
  have "int (bitlen n) - 1 = int (bitlen n - 1)" using assms by (simp add: Suc_leI of_nat_diff)
  moreover have "(of_nat (2 ^ (bitlen n - 1)) :: rat) \<le> of_nat n" "(of_nat n :: rat) < of_nat (2 ^ bitlen n)"
    using bitlen_lower [OF assms] bitlen_upper [of n] by (simp_all only: of_nat_le_iff of_nat_less_iff)
  ultimately show "two_to (int (bitlen n) - 1) \<le> of_nat n" "of_nat n < two_to (int (bitlen n))"
    by (simp_all only: two_to_nat of_nat_power of_nat_numeral)
qed

text \<open>The exponent is the one with the fraction between a half and one.\<close>

lemma frexp_exp_bounds:
  assumes "x \<noteq> 0"
  shows "two_to (frexp_exp x - 1) \<le> \<bar>x\<bar> \<and> \<bar>x\<bar> < two_to (frexp_exp x)"
proof -
  obtain a b where q: "quotient_of \<bar>x\<bar> = (a, b)" by fastforce
  have b: "0 < b" using quotient_of_denom_pos [OF q] .
  have x: "\<bar>x\<bar> = of_int a / of_int b" using quotient_of_div [OF q] .
  have "0 < of_int a / (of_int b :: rat)" using assms by (simp flip: x)
  then have a: "0 < a" using b by (simp add: zero_less_divide_iff)
  define la lb where "la = bitlen (nat a)" and "lb = bitlen (nat b)"
  note A' = of_bitlen [of "nat a", folded la_def] and B' = of_bitlen [of "nat b", folded lb_def]
  have A': "two_to (int la - 1) \<le> of_int a" "of_int a < two_to (int la)"
    using A' a by simp_all
  have B': "two_to (int lb - 1) \<le> of_int b" "of_int b < two_to (int lb)"
    using B' b by simp_all
  define k where "k = int la - int lb"
  have "\<bar>x\<bar> < two_to (k + 1)"
  proof -
    have "of_int a < two_to (k + 1) * two_to (int lb - 1)" using A'(2) by (simp add: k_def flip: two_to_add)
    also have "\<dots> \<le> two_to (k + 1) * of_int b" using B'(1) by (simp add: less_imp_le)
    finally show ?thesis using b by (simp add: x pos_divide_less_eq)
  qed
  moreover have "two_to (k - 1) \<le> \<bar>x\<bar>"
  proof -
    have "two_to (k - 1) * of_int b \<le> two_to (k - 1) * two_to (int lb)" using B'(2) by (simp add: less_imp_le)
    also have "\<dots> = two_to (int la - 1)" by (simp add: k_def flip: two_to_add)
    also have "\<dots> \<le> of_int a" by (rule A'(1))
    finally show ?thesis using b by (simp add: x pos_le_divide_eq)
  qed
  moreover have "frexp_exp x = (if \<bar>x\<bar> < two_to k then k else k + 1)"
    using assms q by (simp add: frexp_exp_def k_def la_def lb_def Let_def)
  ultimately show ?thesis by auto
qed

lemma frexp_exp_unique:
  assumes "two_to (e - 1) \<le> \<bar>x\<bar>" "\<bar>x\<bar> < two_to e"
  shows "frexp_exp x = e"
proof -
  have "x \<noteq> 0" using assms(1) two_to_pos [of "e - 1"] by (metis abs_zero not_less)
  note F = frexp_exp_bounds [OF this]
  have "two_to (frexp_exp x - 1) < two_to e" "two_to (e - 1) < two_to (frexp_exp x)" using F assms by auto
  then show ?thesis by (simp add: two_to_mono)
qed

lemma frexp_exp_dyadic:
  assumes "0 < n" and "\<bar>x\<bar> = of_nat n * two_to k"
  shows "frexp_exp x = int (bitlen n) + k"
proof (rule frexp_exp_unique)
  have "two_to (int (bitlen n) + k - 1) = two_to (int (bitlen n) - 1) * two_to k"
    by (simp flip: two_to_add add: algebra_simps)
  then show "two_to (int (bitlen n) + k - 1) \<le> \<bar>x\<bar>" "\<bar>x\<bar> < two_to (int (bitlen n) + k)"
    unfolding assms(2) two_to_add using of_bitlen [OF assms(1)] by (simp_all add: mult_right_mono)
qed

text \<open>What the conversions compute from a value that is an integer times a power of two.\<close>

lemma trunc_of_int [simp]: "trunc (of_int i) = i"
  by (simp add: trunc_def)

lemma frexp_dyadic:
  assumes "0 < n" and "bitlen n \<le> p"
    and v: "v = (if neg then - (of_nat n * two_to k) else of_nat n * two_to k)"
  obtains f where "frexp v = (f, int (bitlen n) + k)"
    and "trunc (f * 2 ^ p) = (if neg then - int (n * 2 ^ (p - bitlen n)) else int (n * 2 ^ (p - bitlen n)))"
proof -
  have abs: "\<bar>v\<bar> = of_nat n * two_to k" by (simp add: v abs_mult abs_of_pos)
  define c where "c = (of_nat n :: rat) * two_to k"
  have e: "frexp_exp v = int (bitlen n) + k" using assms(1) abs by (rule frexp_exp_dyadic)
  have "c * two_to (- (int (bitlen n) + k)) * two_to (int p) = of_nat n * two_to (int (p - bitlen n))"
    using assms(2) by (simp add: c_def algebra_simps of_nat_diff flip: two_to_add)
  also have "\<dots> = of_int (int (n * 2 ^ (p - bitlen n)))" by (simp add: two_to_nat)
  finally have c: "c * two_to (- (int (bitlen n) + k)) * 2 ^ p = of_int (int (n * 2 ^ (p - bitlen n)))"
    by (simp add: two_to_nat)
  have "ldexp v (- frexp_exp v) * 2 ^ p
      = of_int (if neg then - int (n * 2 ^ (p - bitlen n)) else int (n * 2 ^ (p - bitlen n)))"
    unfolding ldexp_def e unfolding v using c [unfolded c_def] by (cases neg) simp_all
  then show thesis using that [of "ldexp v (- frexp_exp v)"] by (simp only: frexp_def e trunc_of_int)
qed

section \<open>The interchange formats\<close>

text \<open>
  The value that IEEE 754 gives a number with \<open>eb\<close> bits of exponent and \<open>fb\<close> bits of fraction.
\<close>

definition ieee_value :: "nat \<Rightarrow> nat \<Rightarrow> nat \<Rightarrow> cfloat" where
  "ieee_value eb fb x =
     (let f = x mod 2 ^ fb; e = x div 2 ^ fb mod 2 ^ eb; neg = odd (x div 2 ^ (fb + eb)); bias = 2 ^ (eb - 1) - 1
      in if e = 2 ^ eb - 1 then (if f = 0 then Infinite neg else Not_a_number)
         else Finite ((if neg then - 1 else 1)
           * (if e = 0 then of_nat f / 2 ^ fb * two_to (1 - bias) else (1 + of_nat f / 2 ^ fb) * two_to (int e - bias))))"

section \<open>Fields of a word\<close>

lemma field16 [word_nat]:
  "unat (x AND 0x3ff) = unat x mod 2 ^ 10" "unat (x AND 0x1f) = unat x mod 2 ^ 5" for x :: u16
  using unat_and_pow2_mask [of 10 x] unat_and_pow2_mask [of 5 x] by simp_all

lemma bit_odd_unat: "n < LENGTH('a) \<Longrightarrow> bit x n \<longleftrightarrow> odd (unat x div 2 ^ n)" for x :: "'a::len word"
  using bit_iff_odd [of "unat x" n] by (simp add: bit_unsigned_iff)

lemma unat_or_pow2:
  fixes x :: "'a::len word"
  assumes "unat x < 2 ^ k" and "k < LENGTH('a)"
  shows "unat (x OR 2 ^ k) = unat x + 2 ^ k"
proof -
  have "x AND 2 ^ k = 0"
  proof (rule bit_word_eqI)
    fix n assume "n < LENGTH('a)"
    have "\<not> bit (unat x) k" using assms(1) by (simp add: bit_iff_odd)
    then have "\<not> bit x k" using assms(2) by (simp add: bit_unsigned_iff)
    then show "bit (x AND 2 ^ k) n = bit (0 :: 'a word) n" by (auto simp: bit_simps)
  qed
  then have "x OR 2 ^ k = x + 2 ^ k" using word_plus_and_or [of x "2 ^ k"] by simp
  moreover have "unat x + 2 ^ k < 2 ^ LENGTH('a)"
  proof -
    have "unat x + 2 ^ k < 2 ^ Suc k" using assms(1) by simp
    also have "\<dots> \<le> 2 ^ LENGTH('a)" using assms(2) by (intro power_increasing) simp_all
    finally show ?thesis .
  qed
  ultimately show ?thesis using assms(2) by (simp add: word_nat)
qed

lemma top_bit:
  fixes x :: "'a::len word"
  assumes "Suc n = LENGTH('a)"
  shows "drop_bit n x \<noteq> 0 \<longleftrightarrow> odd (unat x div 2 ^ n)"
proof -
  have "unat x < 2 ^ Suc n" unfolding assms by (rule unsigned_less)
  then have "unat x div 2 ^ n < 2" by (simp add: div_less_iff_less_mult)
  then have "odd (unat x div 2 ^ n) \<longleftrightarrow> unat x div 2 ^ n \<noteq> 0" by (auto simp: less_2_cases_iff)
  also have "\<dots> \<longleftrightarrow> drop_bit n x \<noteq> 0" by (metis unat_drop_bit unat_eq_zero)
  finally show ?thesis by simp
qed

lemma recompose:
  fixes x :: "'a::len word"
  assumes "LENGTH('a) = Suc k" and "k = a + b"
  shows "(x AND 2 ^ k) OR push_bit b (drop_bit b x AND mask a) OR (x AND mask b) = x"
  by (rule bit_word_eqI) (use assms in \<open>auto simp: bit_simps\<close>)

lemma sign_pos:
  assumes "LENGTH('a) = Suc k" and "n < 2 ^ k"
  shows "of_nat n AND 2 ^ k = (0 :: 'a::len word)"
  unfolding and_exp_eq_0_iff_not_bit using assms by (simp add: bit_odd_unat unat_of_nat)

lemma sign_neg:
  assumes "LENGTH('a) = Suc k" and "0 < n" and "n \<le> 2 ^ k"
  shows "(- of_nat n) AND 2 ^ k = (2 ^ k :: 'a::len word)"
proof -
  obtain m where m: "n = Suc m" using assms(2) by (cases n) auto
  have "\<not> bit (of_nat m :: 'a word) k" using assms m by (simp add: bit_odd_unat unat_of_nat)
  moreover have "(of_nat m :: 'a word) = of_nat n - 1" by (simp add: m)
  ultimately have "bit (- of_nat n :: 'a word) k" using assms(1) by (simp add: bit_minus_iff)
  then show ?thesis by (intro bit_word_eqI) (auto simp: bit_simps)
qed

section \<open>One format for both\<close>

definition decode_bits :: "nat \<Rightarrow> nat \<Rightarrow> 'a::len word \<Rightarrow> rat" where
  "decode_bits fb eb x =
     (let e = uint (drop_bit fb x AND mask eb); m = x AND mask fb;
          (m, e) = (if e \<noteq> 0 then (m OR 2 ^ fb, e) else (m, 1));
          r = ldexp (of_nat (unat m) * (1 / 2 / 2 ^ fb)) (e - (2 ^ (eb - 1) - 2))
      in if drop_bit (fb + eb) x \<noteq> 0 then - r else r)"

definition encode_bits :: "nat \<Rightarrow> nat \<Rightarrow> rat \<Rightarrow> 'a::len word option" where
  "encode_bits fb eb v =
     (if v = 0 then Some 0
      else do {
        let (f, e) = frexp v;
        m \<leftarrow> to_unsigned (f * 2 ^ Suc fb);
        let b = 2 ^ (eb - 1) - 2;
        let r = m AND 2 ^ (fb + eb);
        let m = (if r \<noteq> 0 then - m else m);
        let (m, e) = (if e \<le> - b then (drop_bit (nat (1 - b - e)) (m AND mask (Suc fb)), - b) else (m, e));
        let r = r OR push_bit fb (word_of_int (e + b));
        Some (r OR (m AND mask fb))
      })"

lemma decode_bits_32: "ecb_binary32_to_float x = Finite (decode_bits 23 8 x)"
  by (simp add: ecb_binary32_to_float_def decode_bits_def mask_eq_exp_minus_1 Let_def split: prod.splits)

lemma decode_bits_64: "ecb_binary64_to_double x = Finite (decode_bits 52 11 x)"
  by (simp add: ecb_binary64_to_double_def decode_bits_def mask_eq_exp_minus_1 Let_def split: prod.splits)

lemma encode_bits_32: "ecb_float_to_binary32 (Finite v) = encode_bits 23 8 v"
  by (simp add: ecb_float_to_binary32_def encode_bits_def mask_eq_exp_minus_1 Let_def cong: if_cong split: prod.splits)

lemma encode_bits_64: "ecb_double_to_binary64 (Finite v) = encode_bits 52 11 v"
  by (simp add: ecb_double_to_binary64_def encode_bits_def mask_eq_exp_minus_1 Let_def cong: if_cong split: prod.splits)

text \<open>The fields of a word as numbers.\<close>

lemma fields:
  fixes x :: "'a::len word"
  assumes L: "LENGTH('a) = Suc (fb + eb)"
  defines "f \<equiv> unat x mod 2 ^ fb" and "e \<equiv> unat x div 2 ^ fb mod 2 ^ eb" and "neg \<equiv> odd (unat x div 2 ^ (fb + eb))"
  shows "x AND mask fb = of_nat f" "drop_bit fb x AND mask eb = of_nat e" "drop_bit (fb + eb) x \<noteq> 0 \<longleftrightarrow> neg"
    and "unat (of_nat f :: 'a word) = f" "uint (of_nat e :: 'a word) = int e" "f < 2 ^ fb" "e < 2 ^ eb"
    and "x = (if neg then 2 ^ (fb + eb) else 0) OR push_bit fb (of_nat e) OR of_nat f"
proof -
  have F: "unat (x AND mask fb) = f" and E: "unat (drop_bit fb x AND mask eb) = e"
    using L by (simp_all add: mask_eq_exp_minus_1 word_nat f_def e_def)
  show f: "x AND mask fb = of_nat f" and e: "drop_bit fb x AND mask eb = of_nat e"
    by (simp_all flip: F E)
  show "drop_bit (fb + eb) x \<noteq> 0 \<longleftrightarrow> neg" unfolding neg_def by (rule top_bit) (simp add: L)
  show "unat (of_nat f :: 'a word) = f" using F f by simp
  show "uint (of_nat e :: 'a word) = int e" using E e by (metis uint_nat)
  show "f < 2 ^ fb" "e < 2 ^ eb" by (simp_all add: f_def e_def)
  have "x AND 2 ^ (fb + eb) = (if neg then 2 ^ (fb + eb) else 0)"
  proof (cases neg)
    case True
    then have "bit x (fb + eb)" using L by (simp add: neg_def bit_odd_unat)
    then show ?thesis using True by (intro bit_word_eqI) (auto simp: bit_simps)
  next
    case False
    then have "\<not> bit x (fb + eb)" using L by (simp add: neg_def bit_odd_unat)
    then show ?thesis using False by (simp add: and_exp_eq_0_iff_not_bit)
  qed
  then show "x = (if neg then 2 ^ (fb + eb) else 0) OR push_bit fb (of_nat e) OR of_nat f"
    using recompose [of "fb + eb" eb fb, where x = x] L by (simp add: f e add.commute)
qed

lemma decode_bits_value:
  fixes x :: "'a::len word"
  assumes L: "LENGTH('a) = Suc (fb + eb)"
  defines "f \<equiv> unat x mod 2 ^ fb" and "e \<equiv> unat x div 2 ^ fb mod 2 ^ eb" and "neg \<equiv> odd (unat x div 2 ^ (fb + eb))"
  defines "n \<equiv> (if e = 0 then f else f + 2 ^ fb)" and "k \<equiv> int (max 1 e) - (2 ^ (eb - 1) - 2) - int (Suc fb)"
  shows "decode_bits fb eb x = (if neg then - (of_nat n * two_to k) else of_nat n * two_to k)"
proof -
  note P = fields [OF L, of x, folded f_def e_def neg_def]
  have n: "unat (of_nat f OR 2 ^ fb :: 'a word) = f + 2 ^ fb"
    using P(4,6) L unat_or_pow2 [of "of_nat f :: 'a word" fb] by simp
  have "two_to (a - int (Suc fb)) = two_to a * (1 / 2 / 2 ^ fb)" for a
  proof -
    have "two_to a = two_to (a - int (Suc fb)) * two_to (int (Suc fb))" by (simp flip: two_to_add)
    then show ?thesis by (simp only: two_to_nat) simp
  qed
  then have two: "two_to (a - int (Suc fb)) = two_to a * (1 / 2 / 2 ^ fb)" for a .
  have "decode_bits fb eb x =
      (if neg then - r else r)" if "r = of_nat n * two_to k" for r
  proof -
    have "r = ldexp (of_nat n * (1 / 2 / 2 ^ fb)) (int (max 1 e) - (2 ^ (eb - 1) - 2))"
      unfolding that k_def two ldexp_def by (simp only: ac_simps)
    then show ?thesis
      unfolding decode_bits_def P(1-3) P(5) Let_def n_def by (cases "e = 0") (simp_all add: P(4) n max_def del: of_nat_add)
  qed
  then show ?thesis by blast
qed

lemma decode_bits_ieee:
  fixes x :: "'a::len word"
  assumes L: "LENGTH('a) = Suc (fb + eb)" and eb: "2 \<le> eb" and e: "drop_bit fb x AND mask eb \<noteq> mask eb"
  shows "Finite (decode_bits fb eb x) = ieee_value eb fb (unat x)"
proof -
  define f e neg where "f = unat x mod 2 ^ fb" and "e = unat x div 2 ^ fb mod 2 ^ eb" and "neg = odd (unat x div 2 ^ (fb + eb))"
  note D = decode_bits_value [OF L, of x, folded f_def e_def neg_def]
  have "e \<noteq> 2 ^ eb - 1"
  proof
    assume "e = 2 ^ eb - 1"
    then have "drop_bit fb x AND mask eb = of_nat (2 ^ eb - 1)"
      using fields(2) [OF L, of x, folded e_def] by simp
    then show False using assms(3) by (simp add: mask_eq_exp_minus_1 of_nat_diff)
  qed
  have two: "two_to (a - (2 ^ (eb - 1) - 2) - int (Suc fb)) = two_to (a - (2 ^ (eb - 1) - 1)) / 2 ^ fb" for a
  proof -
    have "two_to (a - (2 ^ (eb - 1) - 1)) = two_to (a - (2 ^ (eb - 1) - 2) - int (Suc fb)) * two_to (int fb)"
      by (simp add: algebra_simps flip: two_to_add)
    then show ?thesis by (simp only: two_to_nat) simp
  qed
  have ring: "of_nat (if e = 0 then f else f + 2 ^ fb) * (t / 2 ^ fb)
      = (if e = 0 then of_nat f / 2 ^ fb * t else (1 + of_nat f / 2 ^ fb) * t)" for t :: rat
    by (simp add: field_simps)
  show ?thesis
    unfolding ieee_value_def f_def [symmetric] e_def [symmetric] neg_def [symmetric] Let_def D two ring
      add.commute [of eb fb]
    using \<open>e \<noteq> 2 ^ eb - 1\<close> by (cases "e = 0") (simp_all add: max_def)
qed

lemma encode_decode_bits:
  fixes x :: "'a::len word"
  assumes L: "LENGTH('a) = Suc (fb + eb)" and eb: "2 \<le> eb" and fb: "0 < fb" and x: "x \<noteq> 2 ^ (fb + eb)"
  shows "(encode_bits fb eb (decode_bits fb eb x) :: 'a word option) = (if decode_bits fb eb x < 0 then None else Some x)"
proof -
  define f e neg where "f = unat x mod 2 ^ fb" and "e = unat x div 2 ^ fb mod 2 ^ eb" and "neg = odd (unat x div 2 ^ (fb + eb))"
  note P = fields [OF L, of x, folded f_def e_def neg_def]
  define b n k where "b = (2 :: int) ^ (eb - 1) - 2" and "n = (if e = 0 then f else f + 2 ^ fb)"
    and "k = int (max 1 e) - b - int (Suc fb)"
  define v where "v = decode_bits fb eb x"
  have v: "v = (if neg then - (of_nat n * two_to k) else of_nat n * two_to k)"
    using decode_bits_value [OF L, of x] by (simp add: v_def n_def k_def b_def f_def e_def neg_def)
  show ?thesis
  proof (cases "n = 0")
    case True
    then have "e = 0" "f = 0" by (auto simp: n_def split: if_splits)
    with P(8) x have "x = 0" by (auto split: if_splits)
    moreover have "v = 0" by (simp add: v True)
    ultimately show ?thesis unfolding v_def [symmetric] by (simp add: encode_bits_def)
  next
    case False
    have "n < 2 ^ Suc fb" using P(6) by (simp add: n_def)
    then have len: "bitlen n \<le> Suc fb" by (simp only: bitlen_le_iff)
    define n' where "n' = n * 2 ^ (Suc fb - bitlen n)"
    have n': "0 < n'" using False by (simp add: n'_def)
    have "n' < 2 ^ bitlen n * 2 ^ (Suc fb - bitlen n)" using bitlen_upper [of n] by (simp add: n'_def)
    also have "\<dots> = 2 ^ (bitlen n + (Suc fb - bitlen n))" by (rule power_add [symmetric])
    also have "bitlen n + (Suc fb - bitlen n) = Suc fb" using len by (rule le_add_diff_inverse)
    finally have n'_le: "n' < 2 ^ Suc fb" .
    have "(2 :: nat) ^ Suc fb \<le> 2 ^ (fb + eb)" using eb by (intro power_increasing) simp_all
    with n'_le have n'_L: "n' < 2 ^ (fb + eb)" by (rule less_le_trans)
    obtain g where g: "frexp v = (g, int (bitlen n) + k)"
        "trunc (g * 2 ^ Suc fb) = (if neg then - int n' else int n')"
      using frexp_dyadic [OF _ len v, folded n'_def] False by (metis gr0I)
    have v0: "v \<noteq> 0" "v < 0 \<longleftrightarrow> neg" using False two_to_pos [of k] by (auto simp: v mult_less_0_iff simp del: two_to_pos)
    show ?thesis
    proof (cases neg)
      case True
      then have "(to_unsigned (g * 2 ^ Suc fb) :: 'a word option) = None" unfolding to_unsigned_def g(2) using n' by simp
      then show ?thesis unfolding v_def [symmetric] using True v0 by (simp add: encode_bits_def g(1) v0(2) del: power_Suc)
    next
      case pos: False
      define m where "m = (of_nat n' :: 'a word)"
      have "n' < 2 ^ LENGTH('a)" using n'_L L by simp
      then have "int n' < 2 ^ LENGTH('a)" by (metis of_nat_less_iff of_nat_numeral of_nat_power)
      then have conv: "to_unsigned (g * 2 ^ Suc fb) = Some m" unfolding to_unsigned_def g(2) using pos by (simp add: m_def)
      have r: "m AND 2 ^ (fb + eb) = 0" unfolding m_def using sign_pos [OF L n'_L] .
      have u: "unat (of_nat n' AND mask (Suc fb) :: 'a word) = n'"
        using unat_and_pow2_mask [of "Suc fb" "of_nat n' :: 'a word"] L eb n'_le n'_L
        by (simp add: mask_eq_exp_minus_1 unat_of_nat)
      have enc: "(encode_bits fb eb v :: 'a word option) =
          Some (case (if int (bitlen n) + k \<le> - b
                 then (drop_bit (nat (1 - b - (int (bitlen n) + k))) (of_nat n' AND mask (Suc fb)), - b)
                 else (of_nat n', int (bitlen n) + k)) of
             (m, e) \<Rightarrow> (0 OR push_bit fb (word_of_int (e + b))) OR (m AND mask fb))"
        unfolding encode_bits_def g(1) prod.case Let_def conv Option.bind.simps b_def [symmetric] r
        unfolding m_def using v0(1) by (auto split: prod.split)
      have dec: "(encode_bits fb eb v = Some x) \<Longrightarrow> ?thesis" using pos v0(2) by (simp add: v_def)
      show ?thesis
      proof (rule dec, cases "e = 0")
        case True
        then have nf: "n = f" and k: "k = 1 - b - int (Suc fb)" by (simp_all add: n_def k_def)
        have "bitlen n \<le> fb" using P(6) by (simp add: nf bitlen_le_iff)
        then have le: "int (bitlen n) + k \<le> - b" and sh: "nat (1 - b - (int (bitlen n) + k)) = Suc fb - bitlen n"
          by (simp_all add: k nat_eq_iff)
        have "unat (drop_bit (Suc fb - bitlen n) (of_nat n' AND mask (Suc fb) :: 'a word)) = f"
          by (simp only: unat_drop_bit u) (simp add: n'_def nf)
        then have d: "drop_bit (Suc fb - bitlen n) (of_nat n' AND mask (Suc fb)) = (of_nat f :: 'a word)"
          by (metis of_nat_unat unsigned_of_nat word_unat_eq_iff P(4))
        have "(encode_bits fb eb v :: 'a word option) = Some (of_nat f AND mask fb)"
          unfolding enc sh d using le by simp
        also have "of_nat f AND mask fb = (of_nat f :: 'a word)"
          using P(1) by (metis and.assoc and.idem)
        finally show "encode_bits fb eb v = Some x" using P(8) True pos by simp
      next
        case False
        then have nf: "n = f + 2 ^ fb" and k: "k = int e - b - int (Suc fb)" by (simp_all add: n_def k_def max_def)
        have "bitlen n = Suc fb"
          using len bitlen_le_iff [of n fb] by (simp add: nf)
        then have e': "int (bitlen n) + k = int e - b" and "n' = f + 2 ^ fb" by (simp_all add: k n'_def nf)
        have "(of_nat n' :: 'a word) AND mask fb = of_nat f"
        proof -
          have "unat ((of_nat n' :: 'a word) AND mask fb) = n' mod 2 ^ fb"
            using unat_and_pow2_mask [of fb "of_nat n' :: 'a word"] L n'_L
            by (simp add: mask_eq_exp_minus_1 unat_of_nat)
          then show ?thesis using P(4,6) \<open>n' = f + 2 ^ fb\<close> by (simp add: word_unat_eq_iff)
        qed
        then show "encode_bits fb eb v = Some x" using P(8) False pos unfolding enc e' by (simp add: or.assoc)
      qed
    qed
  qed
qed

lemma ecb_binary16_decodes: "ecb_binary16_to_float x = ieee_value 5 10 (unat x)"
proof -
  define f e where "f = unat x mod 2 ^ 10" and "e = unat x div 2 ^ 10 mod 2 ^ 5"
  have E: "unat (drop_bit 10 x AND 0x1f) = e" by (simp only: word_nat e_def)
  have F: "unat (x AND 0x3ff) = f" by (simp only: word_nat f_def)
  have C: "drop_bit 10 x AND 0x1f = 0 \<longleftrightarrow> e = 0" "drop_bit 10 x AND 0x1f = 31 \<longleftrightarrow> e = 31" "x AND 0x3ff = 0 \<longleftrightarrow> f = 0"
    using E F by (simp_all add: word_unat_eq_iff)
  have f: "f < 1024" by (simp add: f_def)
  have F1: "unat ((x AND 0x3ff) + 0x400) = f + 0x400" using F f by (simp add: word_nat)
  have R: "(unsigned (x AND 0x3ff) :: rat) = of_nat f"
      "(unsigned (0x400 + (x AND 0x3ff)) :: rat) = of_nat (f + 0x400)"
    by (metis F of_nat_unat) (metis F1 add.commute of_nat_unat)
  have E0: "uint (drop_bit 10 x AND 0x1f) = int e" using E by (metis uint_nat)
  have "x AND 2 ^ 15 \<noteq> 0 \<longleftrightarrow> bit x 15" by (simp only: and_exp_eq_0_iff_not_bit not_not)
  also have "\<dots> \<longleftrightarrow> odd (unat x div 2 ^ 15)" by (rule bit_odd_unat) simp
  finally have "x AND 0x8000 \<noteq> 0 \<longleftrightarrow> odd (unat x div 2 ^ 15)" by simp
  moreover have "two_to (int e - 15) = 2 ^ 10 * two_to (int e - 25)" "two_to (- 14) = 2 ^ 10 * two_to (- 24)"
    using two_to_add [of 10 "int e - 25"] by (simp_all add: two_to_def)
  ultimately show ?thesis
    unfolding ecb_binary16_to_float_def ieee_value_def f_def [symmetric] e_def [symmetric]
    by (simp add: E0 R C ldexp_def field_simps f_def [symmetric] e_def [symmetric] Let_def)
qed

lemma ecb_binary32_decodes:
  "drop_bit 23 x AND 0xff \<noteq> 0xff \<Longrightarrow> ecb_binary32_to_float x = ieee_value 8 23 (unat x)"
  unfolding decode_bits_32 by (rule decode_bits_ieee) (simp_all add: mask_eq_exp_minus_1)

lemma ecb_binary64_decodes:
  "drop_bit 52 x AND 0x7ff \<noteq> 0x7ff \<Longrightarrow> ecb_binary64_to_double x = ieee_value 11 52 (unat x)"
  unfolding decode_bits_64 by (rule decode_bits_ieee) (simp_all add: mask_eq_exp_minus_1)

text \<open>The infinities and NaN have a name of their own.\<close>

lemma ieee_special:
  fixes x :: "'a::len word"
  assumes "drop_bit fb x AND mask eb = mask eb" and L: "LENGTH('a) = Suc (fb + eb)"
  shows "ieee_value eb fb (unat x) = Not_a_number \<or> (\<exists>neg. ieee_value eb fb (unat x) = Infinite neg)"
proof -
  have "unat x div 2 ^ fb mod 2 ^ eb = unat (drop_bit fb x AND mask eb)"
    using L by (simp add: mask_eq_exp_minus_1 word_nat)
  also have "\<dots> = 2 ^ eb - 1"
    unfolding assms(1) using L by (simp add: mask_eq_exp_minus_1 unat_sub_le word_nat)
  finally show ?thesis by (simp add: ieee_value_def Let_def)
qed

definition negative_number :: "cfloat \<Rightarrow> bool" where
  "negative_number x = (case x of Finite v \<Rightarrow> v < 0 | _ \<Rightarrow> False)"

text \<open>What an encoder makes of a float.\<close>

definition encodes :: "nat \<Rightarrow> nat \<Rightarrow> 'a::len word option \<Rightarrow> cfloat \<Rightarrow> bool" where
  "encodes eb fb enc x \<longleftrightarrow>
     (if negative_number x then enc = None else \<exists>r. enc = Some r \<and> ieee_value eb fb (unat r) = x)"

lemma special_32: "encodes 8 23 (ecb_float_to_binary32 (Infinite neg)) (Infinite neg)"
  "encodes 8 23 (ecb_float_to_binary32 Not_a_number) Not_a_number"
  by (cases neg) (simp_all add: ecb_float_to_binary32_def ieee_value_def encodes_def negative_number_def Let_def)

lemma special_64: "encodes 11 52 (ecb_double_to_binary64 (Infinite neg)) (Infinite neg)"
  "encodes 11 52 (ecb_double_to_binary64 Not_a_number) Not_a_number"
  by (cases neg) (simp_all add: ecb_double_to_binary64_def ieee_value_def encodes_def negative_number_def Let_def)

lemma encodes_number:
  fixes x :: "'a::len word"
  assumes "encode_bits fb eb (decode_bits fb eb x) = (if decode_bits fb eb x < 0 then None else Some x)"
    and "Finite (decode_bits fb eb x) = ieee_value eb fb (unat x)"
  shows "encodes eb fb (encode_bits fb eb (decode_bits fb eb x) :: 'a word option) (Finite (decode_bits fb eb x))"
proof (cases "decode_bits fb eb x < 0")
  case True
  then show ?thesis using assms(1) by (simp add: encodes_def negative_number_def)
next
  case False
  then have "encode_bits fb eb (decode_bits fb eb x) = Some x" using assms(1) by simp
  then show ?thesis using False assms(2) [symmetric] by (auto simp: encodes_def negative_number_def)
qed

section \<open>Properties\<close>

text \<open>
  C29: the three decoders compute the value that IEEE 754 gives the bits: the one for 16 bits always,
  infinities and NaN included, the emulations for 32 and 64 bits of every number.
\<close>

theorem ecb_decoders_ieee:
  "ecb_binary16_to_float h = ieee_value 5 10 (unat h)
   \<and> (drop_bit 23 x AND 0xff \<noteq> 0xff \<longrightarrow> ecb_binary32_to_float x = ieee_value 8 23 (unat x))
   \<and> (drop_bit 52 y AND 0x7ff \<noteq> 0x7ff \<longrightarrow> ecb_binary64_to_double y = ieee_value 11 52 (unat y))"
  by (intro conjI impI ecb_binary16_decodes ecb_binary32_decodes ecb_binary64_decodes)

theorem ecb_decoders_ieee_witness:
  "ecb_binary32_to_float 0xc0200000 = Finite (- 5 / 2)"
  using ecb_decoders_ieee [of 0 "0xc0200000" 0]
  by (simp add: ieee_value_def two_to_def Let_def)

text \<open>
  C28: the encoders write every float that is not a negative number in its format: the bits they return
  have the value that was given, for zero, the positive numbers, the subnormal ones included, both
  infinities and NaN. For a negative number the result is undefined, without exception.
\<close>

theorem ecb_encoders_ieee:
  fixes x :: u32 and y :: u64
  shows "(if negative_number (ieee_value 8 23 (unat x)) then ecb_float_to_binary32 (ieee_value 8 23 (unat x)) = None
     else \<exists>r. ecb_float_to_binary32 (ieee_value 8 23 (unat x)) = Some r \<and> ieee_value 8 23 (unat r) = ieee_value 8 23 (unat x))
   \<and> (if negative_number (ieee_value 11 52 (unat y)) then ecb_double_to_binary64 (ieee_value 11 52 (unat y)) = None
     else \<exists>r. ecb_double_to_binary64 (ieee_value 11 52 (unat y)) = Some r \<and> ieee_value 11 52 (unat r) = ieee_value 11 52 (unat y))"
proof -
  have "encodes 8 23 (ecb_float_to_binary32 (ieee_value 8 23 (unat x))) (ieee_value 8 23 (unat x))"
  proof (cases "drop_bit 23 x AND 0xff = 0xff")
    case True
    then show ?thesis using ieee_special [where fb = 23 and eb = 8 and x = x] True special_32
      by (auto simp: mask_eq_exp_minus_1)
  next
    case False
    note D = ecb_binary32_decodes [OF False, symmetric]
    show ?thesis
    proof (cases "x = 0x80000000")
      case True
      then show ?thesis by (simp add: ieee_value_def ecb_float_to_binary32_def encodes_def negative_number_def)
    next
      case ne: False
      then have "encode_bits 23 8 (decode_bits 23 8 x) = (if decode_bits 23 8 x < 0 then None else Some x)"
        by (intro encode_decode_bits) simp_all
      from encodes_number [OF this] show ?thesis using D by (simp add: decode_bits_32 encode_bits_32)
    qed
  qed
  moreover have "encodes 11 52 (ecb_double_to_binary64 (ieee_value 11 52 (unat y))) (ieee_value 11 52 (unat y))"
  proof (cases "drop_bit 52 y AND 0x7ff = 0x7ff")
    case True
    then show ?thesis using ieee_special [where fb = 52 and eb = 11 and x = y] True special_64
      by (auto simp: mask_eq_exp_minus_1)
  next
    case False
    note D = ecb_binary64_decodes [OF False, symmetric]
    show ?thesis
    proof (cases "y = 0x8000000000000000")
      case True
      then show ?thesis by (simp add: ieee_value_def ecb_double_to_binary64_def encodes_def negative_number_def)
    next
      case ne: False
      then have "encode_bits 52 11 (decode_bits 52 11 y) = (if decode_bits 52 11 y < 0 then None else Some y)"
        by (intro encode_decode_bits) simp_all
      from encodes_number [OF this] show ?thesis using D by (simp add: decode_bits_64 encode_bits_64)
    qed
  qed
  ultimately show ?thesis unfolding encodes_def ..
qed

text \<open>
  C30: what \<open>ecb_binary16_to_float\<close> returns is bounded: a finite value lies between -65504 and 65504 and
  is a multiple of the smallest subnormal number.
\<close>

theorem ecb_binary16_range:
  assumes "ecb_binary16_to_float x = Finite v"
  shows "\<bar>v\<bar> \<le> 65504 \<and> v * 2 ^ 24 \<in> \<int>"
proof -
  define f e where "f = unat x mod 2 ^ 10" and "e = unat x div 2 ^ 10 mod 2 ^ 5"
  define n where "n = (if e = 0 then f else (1024 + f) * 2 ^ (e - 1))"
  have f: "f < 1024" and e: "e < 32" by (simp_all add: f_def e_def)
  have V: "ieee_value 5 10 (unat x) = Finite v" using assms by (simp only: ecb_binary16_decodes)
  note V = V [unfolded ieee_value_def Let_def, folded f_def e_def]
  then have e31: "e \<noteq> 31" by (auto split: if_splits)
  have "n \<le> 2047 * 2 ^ 29"
  proof (cases "e = 0")
    case False
    have "(1024 + f) * 2 ^ (e - 1) \<le> 2047 * 2 ^ 29"
      using f e e31 by (intro mult_le_mono power_increasing) simp_all
    then show ?thesis using False by (simp add: n_def)
  qed (use f in \<open>simp add: n_def\<close>)
  then have n: "(of_nat n :: rat) \<le> of_nat (2047 * 2 ^ 29)" by (simp only: of_nat_le_iff)
  have "v = of_nat n / 2 ^ 24 \<or> v = - (of_nat n / 2 ^ 24)"
  proof (cases "e = 0")
    case True
    then show ?thesis using V by (simp add: n_def two_to_def split: if_splits)
  next
    case False
    have "two_to (int e - 15) = 2 ^ (e - 1) * two_to (- 14)"
      using False by (simp add: of_nat_diff flip: two_to_nat two_to_add)
    also have "\<dots> = 2 ^ (e - 1) / 2 ^ 14" by (simp add: two_to_def)
    finally have T: "two_to (int e - 15) = 2 ^ (e - 1) / 2 ^ 14" .
    have "(of_nat n :: rat) / 2 ^ 24 = (1 + of_nat f / 2 ^ 10) * two_to (int e - 15)"
      using False by (simp add: n_def T field_simps)
    then show ?thesis using V False e31
      by (auto split: if_splits)
  qed
  then show ?thesis using n by (auto simp: field_simps)
qed

theorem ecb_binary16_range_witness:
  "\<bar>65504 :: rat\<bar> \<le> 65504 \<and> (65504 :: rat) * 2 ^ 24 \<in> \<int>"
  by (rule ecb_binary16_range [of "0x7bff"]) (simp add: ecb_binary16_to_float_def ldexp_def two_to_def)

end
