(* ===== verification/Etp_Queue.thy ===== *)
theory Etp_Queue
  imports Links Complex_Main "HOL-Library.Multiset"
begin

text \<open>
  The request structure of \<open>src/libeio/eio.h\<close> and the
  priority queues of \<open>src/libeio/etp.c\<close>: nine singly linked lists through \<open>req->next\<close> with their
  first and last request. Requests live in a heap; a NULL or unmapped request is the fault
  \<open>None\<close>. The abstraction of a queue is the list of its nine lists of addresses. The size of a queue,
  an \<open>int\<close> in the code, is kept as an integer without a bound: it counts requests that exist, each
  with a structure of its own in memory.
\<close>

section \<open>The code\<close>

datatype req_type =
    ETP_TYPE_QUIT
  | EIO_CUSTOM
  | EIO_WD_OPEN | EIO_WD_CLOSE
  | EIO_CLOSE | EIO_DUP2
  | EIO_SEEK | EIO_READ | EIO_WRITE
  | EIO_READAHEAD | EIO_SENDFILE
  | EIO_FSTAT | EIO_FSTATVFS
  | EIO_FTRUNCATE | EIO_FUTIME | EIO_FCHMOD | EIO_FCHOWN
  | EIO_SYNC | EIO_FSYNC | EIO_FDATASYNC | EIO_SYNCFS
  | EIO_MSYNC | EIO_MTOUCH | EIO_SYNC_FILE_RANGE | EIO_FALLOCATE
  | EIO_MLOCK | EIO_MLOCKALL
  | EIO_GROUP | EIO_NOP
  | EIO_BUSY
  | EIO_REALPATH
  | EIO_READDIR
  | EIO_OPEN
  | EIO_STAT | EIO_LSTAT | EIO_STATVFS
  | EIO_TRUNCATE
  | EIO_UTIME
  | EIO_CHMOD
  | EIO_CHOWN
  | EIO_UNLINK | EIO_RMDIR | EIO_MKDIR | EIO_RENAME
  | EIO_MKNOD
  | EIO_LINK | EIO_SYMLINK | EIO_READLINK

text \<open>
  A zero pointer is NULL; the callbacks are numbers, 0 standing for a null function pointer. A
  working directory is NULL, the invalid one or a structure. The times are rationals.
\<close>

datatype eio_wd = EIO_CWD | EIO_INVALID_WD | Wd addr

record eio_req =
  rnext :: addr
  rwd :: eio_wd
  rresult :: int
  roffs :: int
  rsize :: u64
  ptr1 :: addr
  ptr2 :: addr
  nv1 :: rat
  nv2 :: rat
  int1 :: int
  int2 :: int
  int3 :: int
  errorno :: int
  rflags :: u8
  rtype :: req_type
  pri :: "8 word"
  cancelled :: bool
  rdata :: addr
  finish_cb :: nat
  destroy_cb :: nat
  feed_cb :: nat
  grp :: addr
  grp_prev :: addr
  grp_next :: addr
  grp_first :: addr

type_synonym req_heap = "addr \<rightharpoonup> eio_req"

definition EIO_FLAG_PTR1_FREE :: u8 where "EIO_FLAG_PTR1_FREE = 0x01"
definition EIO_FLAG_PTR2_FREE :: u8 where "EIO_FLAG_PTR2_FREE = 0x02"

definition ETP_PRI_MIN :: int where "ETP_PRI_MIN = - 4"
definition ETP_PRI_MAX :: int where "ETP_PRI_MAX = 4"
definition ETP_NUM_PRI :: nat where "ETP_NUM_PRI = nat (ETP_PRI_MAX - ETP_PRI_MIN + 1)"

record etp_reqq =
  qs :: "addr list"
  qe :: "addr list"
  qsize :: int

definition reqq_init :: etp_reqq where
  "reqq_init = \<lparr>qs = replicate ETP_NUM_PRI 0, qe = replicate ETP_NUM_PRI 0, qsize = 0\<rparr>"

text \<open>An index outside the arrays is a fault.\<close>

definition pri_index :: "eio_req \<Rightarrow> nat option" where
  "pri_index r = (if 0 \<le> sint (pri r) \<and> sint (pri r) < int ETP_NUM_PRI then Some (nat (sint (pri r))) else None)"

definition reqq_push :: "etp_reqq \<Rightarrow> addr \<Rightarrow> req_heap \<Rightarrow> (int \<times> etp_reqq \<times> req_heap) option" where
  "reqq_push q req h = do {
     r \<leftarrow> h req;
     p \<leftarrow> pri_index r;
     let h = h(req \<mapsto> r\<lparr>rnext := 0\<rparr>);
     (q, h) \<leftarrow> (if qe q ! p \<noteq> 0 then do {
         t \<leftarrow> h (qe q ! p);
         let h = h(qe q ! p \<mapsto> t\<lparr>rnext := req\<rparr>);
         Some (q\<lparr>qe := (qe q)[p := req]\<rparr>, h)
       } else Some (q\<lparr>qe := (qe q)[p := req], qs := (qs q)[p := req]\<rparr>, h));
     Some (qsize q, q\<lparr>qsize := qsize q + 1\<rparr>, h)
   }"

text \<open>The scan from the highest priority; running off the end is the \<open>abort\<close>.\<close>

fun shift_loop :: "nat \<Rightarrow> etp_reqq \<Rightarrow> req_heap \<Rightarrow> (addr \<times> etp_reqq) option" where
  "shift_loop 0 q h = None"
| "shift_loop (Suc p) q h = (
     let req = qs q ! p
     in if req \<noteq> 0 then do {
          r \<leftarrow> h req;
          let q = q\<lparr>qs := (qs q)[p := rnext r]\<rparr>;
          let q = (if rnext r = 0 then q\<lparr>qe := (qe q)[p := 0]\<rparr> else q);
          Some (req, q)
        } else shift_loop p q h)"

definition reqq_shift :: "etp_reqq \<Rightarrow> req_heap \<Rightarrow> (addr \<times> etp_reqq) option" where
  "reqq_shift q h =
     (if qsize q = 0 then Some (0, q)
      else shift_loop ETP_NUM_PRI (q\<lparr>qsize := qsize q - 1\<rparr>) h)"

section \<open>Abstraction\<close>

fun slist :: "req_heap \<Rightarrow> addr list \<Rightarrow> bool" where
  "slist h [] \<longleftrightarrow> True"
| "slist h (x # xs) \<longleftrightarrow> x \<noteq> 0 \<and> (\<exists>r. h x = Some r \<and> rnext r = hd (xs @ [0])) \<and> slist h xs"

definition reqq_repr :: "req_heap \<Rightarrow> etp_reqq \<Rightarrow> addr list list \<Rightarrow> bool" where
  "reqq_repr h q ls \<longleftrightarrow>
     length ls = ETP_NUM_PRI \<and> length (qs q) = ETP_NUM_PRI \<and> length (qe q) = ETP_NUM_PRI \<and>
     (\<forall>p < ETP_NUM_PRI. qs q ! p = hd (ls ! p @ [0]) \<and> qe q ! p = last (0 # ls ! p) \<and> slist h (ls ! p)) \<and>
     distinct (concat ls) \<and> qsize q = int (length (concat ls))"

text \<open>The specification: first in, first out within a priority; the highest priority first.\<close>

definition queue_push :: "nat \<Rightarrow> addr \<Rightarrow> addr list list \<Rightarrow> addr list list" where
  "queue_push p x ls = ls[p := ls ! p @ [x]]"

fun queue_shift :: "nat \<Rightarrow> addr list list \<Rightarrow> (addr \<times> addr list list) option" where
  "queue_shift 0 ls = None"
| "queue_shift (Suc p) ls = (case ls ! p of
     [] \<Rightarrow> queue_shift p ls | x # xs \<Rightarrow> Some (x, ls[p := xs]))"

lemma num_pri [simp]: "ETP_NUM_PRI = 9"
  by (simp add: ETP_NUM_PRI_def ETP_PRI_MAX_def ETP_PRI_MIN_def)

lemma slist_cong:
  "(\<And>x. x \<in> set xs \<Longrightarrow> map_option rnext (h' x) = map_option rnext (h x)) \<Longrightarrow> slist h' xs = slist h xs"
proof (induction xs)
  case (Cons x xs)
  have "map_option rnext (h' x) = map_option rnext (h x)" by (rule Cons.prems) simp
  then have "(\<exists>r. h' x = Some r \<and> rnext r = y) = (\<exists>r. h x = Some r \<and> rnext r = y)" for y
    by (cases "h x"; cases "h' x") auto
  with Cons show ?case by simp
qed simp

lemma reqq_repr_cong:
  assumes "\<And>x. x \<in> set (concat ls) \<Longrightarrow> map_option rnext (h' x) = map_option rnext (h x)"
  shows "reqq_repr h' q ls = reqq_repr h q ls"
proof -
  have "slist h' (ls ! p) = slist h (ls ! p)" if "p < ETP_NUM_PRI" "length ls = ETP_NUM_PRI" for p
    using that assms by (intro slist_cong) (metis UN_iff nth_mem set_concat)
  then show ?thesis unfolding reqq_repr_def by auto
qed

lemma slist_mem: "slist h xs \<Longrightarrow> x \<in> set xs \<Longrightarrow> x \<noteq> 0 \<and> h x \<noteq> None"
  by (induction xs) auto

lemma reqq_repr_mem:
  assumes "reqq_repr h q ls" and "x \<in> set (concat ls)"
  shows "x \<noteq> 0" "h x \<noteq> None"
proof -
  obtain l where "l \<in> set ls" "x \<in> set l" using assms(2) by auto
  then obtain p where "p < length ls" "x \<in> set (ls ! p)" by (metis in_set_conv_nth)
  with assms(1) have "slist h (ls ! p)" "x \<in> set (ls ! p)" by (auto simp: reqq_repr_def)
  then show "x \<noteq> 0" "h x \<noteq> None" by (auto dest: slist_mem)
qed

lemma slist_snoc:
  assumes "slist h xs" and "x \<notin> set xs" "x \<noteq> 0" and "distinct xs"
    and "h' x = Some r" "rnext r = 0"
    and "\<And>y. y \<in> set (butlast xs) \<Longrightarrow> h' y = h y"
    and "xs \<noteq> [] \<Longrightarrow> \<exists>t. h' (last xs) = Some t \<and> rnext t = x"
  shows "slist h' (xs @ [x])"
  using assms
proof (induction xs)
  case (Cons y ys)
  show ?case
  proof (cases ys)
    case Nil
    with Cons show ?thesis by auto
  next
    case (Cons z zs)
    with Cons.IH Cons.prems have "slist h' (ys @ [x])" by auto
    moreover have "h' y = h y" using Cons.prems(7) Cons by simp
    ultimately show ?thesis using Cons.prems(1) Cons by simp
  qed
qed simp

lemma concat_mset_update:
  "p < length ls \<Longrightarrow> mset (concat (ls[p := xs])) + mset (ls ! p) = mset (concat ls) + mset xs"
proof (induction ls arbitrary: p)
  case (Cons l ls)
  then show ?case by (cases p) (auto simp: ac_simps)
qed simp

lemma queue_push_mset: "p < length ls \<Longrightarrow> mset (concat (queue_push p x ls)) = add_mset x (mset (concat ls))"
  using concat_mset_update [of p ls "ls ! p @ [x]"] by (simp add: queue_push_def)

lemma queue_shift_mset:
  "p \<le> length ls \<Longrightarrow> queue_shift p ls = Some (x, ls') \<Longrightarrow>
    mset (concat ls) = add_mset x (mset (concat ls')) \<and> length ls' = length ls"
proof (induction p ls rule: queue_shift.induct)
  case (2 p ls)
  show ?case
  proof (cases "ls ! p")
    case Nil
    with 2 show ?thesis by simp
  next
    case (Cons y ys)
    with 2(3) have "x = y" "ls' = ls[p := ys]" by simp_all
    with Cons 2(2) concat_mset_update [of p ls ys] show ?thesis by simp
  qed
qed simp

lemma queue_shift_None: "queue_shift p ls = None \<longleftrightarrow> (\<forall>i < p. ls ! i = [])"
  by (induction p) (auto split: list.splits simp: less_Suc_eq)

lemma concat_Nil_iff: "concat ls = [] \<longleftrightarrow> (\<forall>i < length ls. ls ! i = [])"
  by (metis concat_eq_Nil_conv in_set_conv_nth)

text \<open>Only the links of the queued requests change.\<close>

definition unlinked :: "eio_req option \<Rightarrow> eio_req option" where
  "unlinked o' = map_option (rnext_update (\<lambda>_. 0)) o'"

lemma distinct_push:
  "p < length ls \<Longrightarrow> distinct (concat (queue_push p x ls)) = (distinct (concat ls) \<and> x \<notin> set (concat ls))"
proof -
  assume "p < length ls"
  then have "mset (concat (queue_push p x ls)) = mset (x # concat ls)" by (simp add: queue_push_mset)
  then have "distinct (concat (queue_push p x ls)) = distinct (x # concat ls)" by (rule mset_eq_imp_distinct_iff)
  then show ?thesis by auto
qed

lemma concat_mem: "p < length ls \<Longrightarrow> x \<in> set (ls ! p) \<Longrightarrow> x \<in> set (concat ls)"
  by auto

lemma concat_disjoint:
  assumes "distinct (concat ls)" and "p < length ls" "i < length ls" "p \<noteq> i" and "x \<in> set (ls ! p)"
  shows "x \<notin> set (ls ! i)"
  using assms
proof (induction ls arbitrary: p i)
  case (Cons l ls)
  have dis: "distinct (concat ls)" "set l \<inter> set (concat ls) = {}" using Cons.prems(1) by auto
  consider (l) p' where "p = Suc p'" "i = 0" | (r) i' where "p = 0" "i = Suc i'"
    | (s) p' i' where "p = Suc p'" "i = Suc i'"
    using Cons.prems(4) by (cases p; cases i) auto
  then show ?case
  proof cases
    case l
    then have "x \<in> set (concat ls)" using Cons.prems concat_mem by auto
    then show ?thesis using l dis(2) by auto
  next
    case r
    show ?thesis
    proof
      assume "x \<in> set ((l # ls) ! i)"
      then have "x \<in> set (concat ls)" using r Cons.prems concat_mem [of i' ls x] by auto
      then show False using r dis(2) Cons.prems(5) by auto
    qed
  next
    case s
    then show ?thesis using Cons.IH [of p' i'] dis(1) Cons.prems by simp
  qed
qed simp

lemma distinct_nth: "distinct (concat ls) \<Longrightarrow> p < length ls \<Longrightarrow> distinct (ls ! p)"
  by (auto simp: distinct_concat_iff)

lemma reqq_push_ok:
  assumes repr: "reqq_repr h q ls" and r: "h req = Some r" "req \<noteq> 0" and new: "req \<notin> set (concat ls)"
    and pri: "0 \<le> sint (pri r)" "sint (pri r) < int ETP_NUM_PRI"
  shows "\<exists>q' h'. reqq_push q req h = Some (int (length (concat ls)), q', h') \<and>
    reqq_repr h' q' (queue_push (nat (sint (pri r))) req ls) \<and>
    (\<forall>x. unlinked (h' x) = unlinked (h x)) \<and> (\<forall>x. x \<notin> set (concat ls) \<and> x \<noteq> req \<longrightarrow> h' x = h x)"
proof -
  define p where "p = nat (sint (pri r))"
  have p: "p < ETP_NUM_PRI" "pri_index r = Some p" using pri by (auto simp: p_def pri_index_def)
  have len: "length ls = ETP_NUM_PRI" "length (qs q) = ETP_NUM_PRI" "length (qe q) = ETP_NUM_PRI"
    and rep: "\<And>i. i < ETP_NUM_PRI \<Longrightarrow> qs q ! i = hd (ls ! i @ [0]) \<and> qe q ! i = last (0 # ls ! i) \<and> slist h (ls ! i)"
    and dis: "distinct (concat ls)" and sz: "qsize q = int (length (concat ls))"
    using repr by (auto simp: reqq_repr_def)
  define r0 where "r0 = r\<lparr>rnext := 0\<rparr>"
  have not0: "\<And>x. x \<in> set (concat ls) \<Longrightarrow> x \<noteq> 0" "\<And>x. x \<in> set (concat ls) \<Longrightarrow> h x \<noteq> None"
    using reqq_repr_mem [OF repr] by blast+
  define t where "t = qe q ! p"
  have t: "t = last (0 # ls ! p)" "slist h (ls ! p)" using rep p by (auto simp: t_def)
  define h1 where "h1 = h(req \<mapsto> r0)"
  define h' where "h' = (if ls ! p = [] then h1 else h1(t \<mapsto> the (h t)\<lparr>rnext := req\<rparr>))"
  define q' where "q' = q\<lparr>qe := (qe q)[p := req], qs := (if ls ! p = [] then (qs q)[p := req] else qs q),
    qsize := qsize q + 1\<rparr>"
  have tin: "ls ! p \<noteq> [] \<Longrightarrow> t \<in> set (ls ! p)" using t by simp
  then have tin': "ls ! p \<noteq> [] \<Longrightarrow> t \<in> set (concat ls)" using p len concat_mem by metis
  then have t0: "t \<noteq> 0 \<longleftrightarrow> ls ! p \<noteq> []" using not0(1) t by (cases "ls ! p = []") auto
  have tr: "ls ! p \<noteq> [] \<Longrightarrow> t \<noteq> req \<and> (\<exists>tt. h t = Some tt)" using tin' new not0(2) by auto
  have res: "reqq_push q req h = Some (int (length (concat ls)), q', h')"
  proof (cases "ls ! p = []")
    case True
    then show ?thesis
      using r p t0 sz by (simp add: reqq_push_def h'_def h1_def q'_def t_def r0_def)
  next
    case False
    then obtain tt where "h t = Some tt" "t \<noteq> req" using tr by blast
    then show ?thesis
      using False r p t0 sz by (simp add: reqq_push_def h'_def h1_def q'_def t_def r0_def)
  qed
  have frame: "h' x = h x" if "x \<noteq> req" "ls ! p = [] \<or> x \<noteq> t" for x
    using that by (auto simp: h'_def h1_def)
  have rq: "h' req = Some r0" using r tr by (auto simp: h'_def h1_def)
  have unl: "unlinked (h' x) = unlinked (h x)" for x
    using r tr by (auto simp: h'_def h1_def unlinked_def r0_def)
  have lp: "slist h' (ls ! p @ [req])"
  proof (rule slist_snoc [where h = h])
    show "h' y = h y" if "y \<in> set (butlast (ls ! p))" for y
    proof (rule frame)
      have ne: "ls ! p \<noteq> []" using that by auto
      have "distinct (ls ! p)" using dis p len distinct_nth by metis
      then have "last (ls ! p) \<notin> set (butlast (ls ! p))"
        using ne by (metis append_butlast_last_id distinct_append disjoint_iff list.set_intros(1))
      then show "ls ! p = [] \<or> y \<noteq> t" using t ne that by auto
      have "y \<in> set (ls ! p)" using that by (rule in_set_butlastD)
      then show "y \<noteq> req" using new p len concat_mem by metis
    qed
    show "\<exists>s. h' (last (ls ! p)) = Some s \<and> rnext s = req" if "ls ! p \<noteq> []"
      using that t by (simp add: h'_def)
  qed (use t rq r new p len dis in \<open>auto simp: r0_def distinct_nth\<close>)
  have "reqq_repr h' q' (queue_push p req ls)"
    unfolding reqq_repr_def
  proof (intro conjI allI impI)
    fix i assume i: "i < ETP_NUM_PRI"
    show "qs q' ! i = hd (queue_push p req ls ! i @ [0])"
      using rep [OF i] p len i by (cases "i = p") (auto simp: q'_def queue_push_def hd_append)
    show "qe q' ! i = last (0 # queue_push p req ls ! i)"
      using rep [OF i] p len i by (cases "i = p") (auto simp: q'_def queue_push_def)
    show "slist h' (queue_push p req ls ! i)"
    proof (cases "i = p")
      case True
      then show ?thesis using lp p len by (simp add: queue_push_def)
    next
      case False
      have "slist h' (ls ! i) = slist h (ls ! i)"
      proof (rule slist_cong)
        fix x assume x: "x \<in> set (ls ! i)"
        then have "x \<noteq> req" using new i len concat_mem by metis
        moreover have "ls ! p = [] \<or> x \<noteq> t"
          using concat_disjoint [OF dis, of i p x] x i p len False tin by auto
        ultimately show "map_option rnext (h' x) = map_option rnext (h x)" by (simp add: frame)
      qed
      then show ?thesis using rep [OF i] False by (simp add: queue_push_def)
    qed
  next
    show "distinct (concat (queue_push p req ls))" using dis new p len by (simp add: distinct_push)
    have "size (mset (concat (queue_push p req ls))) = Suc (length (concat ls))"
      using p len by (simp add: queue_push_mset)
    then show "qsize q' = int (length (concat (queue_push p req ls)))" using sz by (simp add: q'_def)
  qed (use len in \<open>simp_all add: q'_def queue_push_def\<close>)
  moreover have "x \<notin> set (concat ls) \<and> x \<noteq> req \<longrightarrow> h' x = h x" for x using frame tin' by auto
  ultimately show ?thesis using res unl by (auto simp: p_def)
qed

text \<open>The arrays of the queue describe the lists, whatever the size says.\<close>

definition heads_of :: "req_heap \<Rightarrow> etp_reqq \<Rightarrow> addr list list \<Rightarrow> bool" where
  "heads_of h q ls \<longleftrightarrow> length ls = ETP_NUM_PRI \<and> length (qs q) = ETP_NUM_PRI \<and> length (qe q) = ETP_NUM_PRI \<and>
     (\<forall>p < ETP_NUM_PRI. qs q ! p = hd (ls ! p @ [0]) \<and> qe q ! p = last (0 # ls ! p) \<and> slist h (ls ! p))"

lemma reqq_repr_heads: "reqq_repr h q ls \<longleftrightarrow>
    heads_of h q ls \<and> distinct (concat ls) \<and> qsize q = int (length (concat ls))"
  by (simp add: reqq_repr_def heads_of_def)

lemma shift_loop_takes:
  assumes "heads_of h q ls" and "p \<le> ETP_NUM_PRI" and "queue_shift p ls = Some (x, ls')"
  shows "\<exists>q'. shift_loop p q h = Some (x, q') \<and> heads_of h q' ls' \<and> qsize q' = qsize q"
  using assms(2,3)
proof (induction p)
  case (Suc p)
  have rep: "qs q ! p = hd (ls ! p @ [0])" "qe q ! p = last (0 # ls ! p)" "slist h (ls ! p)"
    and len: "length ls = ETP_NUM_PRI" "length (qs q) = ETP_NUM_PRI" "length (qe q) = ETP_NUM_PRI"
    using assms(1) Suc.prems(1) by (auto simp: heads_of_def)
  show ?case
  proof (cases "ls ! p")
    case Nil
    then show ?thesis using Suc rep by simp
  next
    case (Cons y ys)
    then have x: "x = y" "ls' = ls[p := ys]" using Suc.prems(2) by simp_all
    obtain r where r: "h y = Some r" "rnext r = hd (ys @ [0])" "y \<noteq> 0" and ys: "slist h ys"
      using rep(3) Cons by auto
    have empty: "rnext r = 0 \<longleftrightarrow> ys = []" using r ys by (cases ys) auto
    define q' where "q' = q\<lparr>qs := (qs q)[p := rnext r], qe := (if ys = [] then (qe q)[p := 0] else qe q)\<rparr>"
    have "shift_loop (Suc p) q h = Some (x, q')"
      using rep(1) Cons r x empty by (auto simp: q'_def)
    moreover have "heads_of h q' ls'"
      unfolding heads_of_def
    proof (intro conjI allI impI)
      fix i assume i: "i < ETP_NUM_PRI"
      have old: "qs q ! i = hd (ls ! i @ [0])" "qe q ! i = last (0 # ls ! i)" "slist h (ls ! i)"
        using assms(1) i by (auto simp: heads_of_def)
      show "qs q' ! i = hd (ls' ! i @ [0])" "qe q' ! i = last (0 # ls' ! i)" "slist h (ls' ! i)"
        using old i len r ys x Cons by (cases "i = p"; simp add: q'_def)+
    qed (use len x in \<open>simp_all add: q'_def\<close>)
    ultimately show ?thesis by (auto simp: q'_def)
  qed
qed simp

lemma reqq_shift_ok:
  assumes repr: "reqq_repr h q ls"
  shows "case queue_shift ETP_NUM_PRI ls of
      None \<Rightarrow> reqq_shift q h = Some (0, q) \<and> concat ls = []
    | Some (x, ls') \<Rightarrow> \<exists>q'. reqq_shift q h = Some (x, q') \<and> x \<noteq> 0 \<and> reqq_repr h q' ls'"
proof (cases "queue_shift ETP_NUM_PRI ls")
  case None
  have "length ls = ETP_NUM_PRI" using repr by (simp add: reqq_repr_def)
  then have "concat ls = []" using None by (simp only: queue_shift_None concat_Nil_iff)
  then show ?thesis using None repr by (simp add: reqq_repr_heads reqq_shift_def)
next
  case (Some a)
  obtain x ls' where a: "a = (x, ls')" by fastforce
  have heads: "heads_of h q ls" and len: "length ls = ETP_NUM_PRI" and dis: "distinct (concat ls)"
    and sz: "qsize q = int (length (concat ls))"
    using repr by (simp_all add: reqq_repr_heads heads_of_def)
  have ms: "mset (concat ls) = mset (x # concat ls')" and len': "length ls' = length ls"
    using queue_shift_mset [of ETP_NUM_PRI ls x ls'] Some a len by simp_all
  have d: "distinct (x # concat ls')" using dis mset_eq_imp_distinct_iff [OF ms] by simp
  have l: "length (concat ls) = Suc (length (concat ls'))" using mset_eq_length [OF ms] by simp
  have "x \<in> set (concat ls)" using mset_eq_setD [OF ms] by simp
  then have x: "x \<noteq> 0" using reqq_repr_mem(1) [OF repr] by blast
  define q0 where "q0 = q\<lparr>qsize := qsize q - 1\<rparr>"
  have "heads_of h q0 ls" using heads by (simp add: heads_of_def q0_def)
  then obtain q' where q': "shift_loop ETP_NUM_PRI q0 h = Some (x, q')" "heads_of h q' ls'" "qsize q' = qsize q0"
    using shift_loop_takes Some a by blast
  have "qsize q \<noteq> 0" using sz l by simp
  then have "reqq_shift q h = Some (x, q')"
    unfolding reqq_shift_def q0_def [symmetric] using q'(1) by (simp only: if_False)
  moreover have "reqq_repr h q' ls'" using q' d l sz by (simp add: reqq_repr_heads q0_def)
  ultimately show ?thesis using Some a x by auto
qed

text \<open>
  \<open>reqq_push\<close> puts the request at the end of the list of its priority, with one store to the
  last request of that list and none to any other request, and it returns the size before the
  push: zero exactly when both queues of \<open>etp.c\<close> must announce that there is something to
  poll.
\<close>

theorem reqq_push_appends:
  assumes repr: "reqq_repr h q ls" and r: "h req = Some r" "req \<noteq> 0" and new: "req \<notin> set (concat ls)"
    and pri: "0 \<le> sint (pri r)" "sint (pri r) < int ETP_NUM_PRI"
  shows "\<exists>q' h'. reqq_push q req h = Some (int (length (concat ls)), q', h') \<and>
    reqq_repr h' q' (queue_push (nat (sint (pri r))) req ls) \<and>
    (\<forall>x. unlinked (h' x) = unlinked (h x)) \<and> (\<forall>x. x \<notin> set (concat ls) \<and> x \<noteq> req \<longrightarrow> h' x = h x)"
  by (rule reqq_push_ok [OF repr r new pri])

text \<open>
  C6: \<open>reqq_shift\<close> returns NULL exactly when the queue is empty; otherwise it takes the
  first request of the highest priority that has one, and its scan never reaches the
  \<open>abort\<close>.
\<close>

theorem reqq_shift_takes_highest:
  assumes repr: "reqq_repr h q ls"
  shows "case queue_shift ETP_NUM_PRI ls of
      None \<Rightarrow> reqq_shift q h = Some (0, q) \<and> concat ls = []
    | Some (x, ls') \<Rightarrow> \<exists>q'. reqq_shift q h = Some (x, q') \<and> x \<noteq> 0 \<and> reqq_repr h q' ls'"
  by (rule reqq_shift_ok [OF repr])

definition a_req :: "8 word \<Rightarrow> addr \<Rightarrow> eio_req" where
  "a_req p n = \<lparr>rnext = n, rwd = EIO_CWD, rresult = 0, roffs = 0, rsize = 0, ptr1 = 0, ptr2 = 0, nv1 = 0, nv2 = 0,
     int1 = 0, int2 = 0, int3 = 0, errorno = 0, rflags = 0, rtype = EIO_NOP, pri = p, cancelled = False, rdata = 0,
     finish_cb = 0, destroy_cb = 0, feed_cb = 0, grp = 0, grp_prev = 0, grp_next = 0, grp_first = 0\<rparr>"

definition three_reqs :: req_heap where
  "three_reqs = [1 \<mapsto> a_req 2 2, 2 \<mapsto> a_req 2 0, 3 \<mapsto> a_req 7 0, 4 \<mapsto> a_req 2 9]"

definition three_queued :: etp_reqq where
  "three_queued = \<lparr>qs = [0, 0, 1, 0, 0, 0, 0, 3, 0], qe = [0, 0, 2, 0, 0, 0, 0, 3, 0], qsize = 3\<rparr>"

definition three_lists :: "addr list list" where
  "three_lists = [[], [], [1, 2], [], [], [], [], [3], []]"

lemma three_repr: "reqq_repr three_reqs three_queued three_lists"
  by (simp add: reqq_repr_def three_reqs_def three_queued_def three_lists_def a_req_def
      All_less_Suc numeral_eq_Suc)

theorem reqq_push_appends_witness:
  "\<exists>q' h'. reqq_push three_queued 4 three_reqs = Some (3, q', h') \<and>
    reqq_repr h' q' [[], [], [1, 2, 4], [], [], [], [], [3], []]"
proof -
  have "\<exists>q' h'. reqq_push three_queued 4 three_reqs = Some (int (length (concat three_lists)), q', h') \<and>
    reqq_repr h' q' (queue_push (nat (sint (pri (a_req 2 9)))) 4 three_lists) \<and>
    (\<forall>x. unlinked (h' x) = unlinked (three_reqs x)) \<and>
    (\<forall>x. x \<notin> set (concat three_lists) \<and> x \<noteq> 4 \<longrightarrow> h' x = three_reqs x)"
    by (rule reqq_push_appends [OF three_repr]) (simp_all add: three_reqs_def three_lists_def a_req_def)
  then show ?thesis by (simp add: three_lists_def queue_push_def a_req_def) blast
qed

theorem reqq_shift_takes_highest_witness:
  "\<exists>q'. reqq_shift three_queued three_reqs = Some (3, q') \<and>
    reqq_repr three_reqs q' [[], [], [1, 2], [], [], [], [], [], []]"
  using reqq_shift_takes_highest [OF three_repr] by (simp add: three_lists_def eval_nat_numeral)

end
