(* ===== verification/Etp_Pool.thy ===== *)
theory Etp_Pool
  imports Etp_Queue List_Head Complex_Main
begin

text \<open>
  The thread pool of \<open>src/libeio/etp.c\<close>. Every critical section is one function on the state of
  the pool; the worker threads and the client (the thread that submits and polls, whose finish
  callbacks may submit and poll again) are program counters, and \<open>pool_step\<close> interleaves their
  sections in every order. A condition variable may wake at any time, so signalling changes
  nothing in the state. The result a worker stores in a request is arbitrary here, and so are the
  clock, the success of \<open>xthread_create\<close>, the fresh addresses and the value a finish callback
  returns. The counters that \<open>etp_maybe_start_thread\<close> reads, each under the lock for itself, are read
  in one section here; in the code a worker may store a result or time out between two of the reads.
\<close>

section \<open>The code\<close>

definition ETP_TICKS :: int where "ETP_TICKS = (1000000 + 1023) div 2 ^ 10"

type_synonym timeval = "int \<times> int"

definition etp_tvdiff :: "timeval \<Rightarrow> timeval \<Rightarrow> int" where
  "etp_tvdiff tv1 tv2 = (fst tv2 - fst tv1) * ETP_TICKS + (snd tv2 - snd tv1) div 2 ^ 10"

text \<open>The temporary buffer of a worker: the block it points to and its recorded length.\<close>

record etp_tmpbuf =
  tb_ptr :: "u8 list option"
  tb_len :: int

definition etp_tmpbuf_get :: "heap_choice \<Rightarrow> etp_tmpbuf \<Rightarrow> int \<Rightarrow> u8 list option \<times> etp_tmpbuf" where
  "etp_tmpbuf_get ch buf len =
     (let buf = (if tb_len buf < len then \<lparr>tb_ptr = c_malloc ch (nat len), tb_len = len\<rparr> else buf)
      in (tb_ptr buf, buf))"

record etp_pool =
  req_queue :: etp_reqq
  res_queue :: etp_reqq
  started :: u32
  idle :: u32
  wanted :: u32
  max_poll_time :: u32
  max_poll_reqs :: u32
  nreqs :: u32
  nready :: u32
  npending :: u32
  max_idle :: u32
  idle_timeout :: u32

text \<open>
  Where a worker is in \<open>etp_proc\<close>: before a pass of the inner loop (with \<open>ts.tv_sec\<close>), in one of
  the two waits, with a request it has taken, with one it has executed, past a timeout, at
  \<open>quit\<close>, or gone.
\<close>

datatype worker_pc =
    Loop int
  | Waiting int bool
  | Got addr
  | Executed addr
  | Timed_out
  | Quitting addr
  | Gone

record poll_vars =
  maxreqs :: u32
  maxtime :: u32
  tv_start :: timeval

text \<open>Where the client is: the calls it is in, the innermost first.\<close>

datatype client_pc =
    Submit_res addr
  | Submit_start
  | Poll_start poll_vars
  | Poll_shift poll_vars
  | Poll_took addr poll_vars
  | In_finish addr poll_vars
  | Max_parallel
  | End_started

datatype poll_event = Want | Done

record etp_state =
  pool :: etp_pool
  reqs :: req_heap
  wlinks :: lheap
  pcs :: "addr \<Rightarrow> worker_pc"
  frames :: "client_pc list"
  delayed :: "addr list"
  polls :: "poll_event list"
  sent_quits :: nat
  entered :: "addr list"
  left :: "addr list"

definition WRK_FIRST :: addr where "WRK_FIRST = 1"

text \<open>
  \<open>etp_init\<close> leaves the two poll limits as they are: \<open>mt\<close> and \<open>mr\<close> are what the memory of the
  pool held. The lists after \<open>frames\<close> only record what happened: the groups marked as delayed,
  the callbacks made (newest first), how many QUIT requests were sent, the requests that have
  entered and left the pool.
\<close>

definition etp_init :: "u32 \<Rightarrow> u32 \<Rightarrow> etp_state" where
  "etp_init mt mr = \<lparr>pool = \<lparr>req_queue = reqq_init, res_queue = reqq_init, started = 0, idle = 0, wanted = 4,
       max_poll_time = mt, max_poll_reqs = mr, nreqs = 0, nready = 0, npending = 0, max_idle = 4, idle_timeout = 10\<rparr>,
     reqs = Map.empty, wlinks = [WRK_FIRST \<mapsto> \<lparr>lnext = WRK_FIRST, lprev = WRK_FIRST\<rparr>],
     pcs = (\<lambda>_. Gone), frames = [], delayed = [], polls = [], sent_quits = 0, entered = [], left = []\<rparr>"

definition etp_nreqs :: "etp_state \<Rightarrow> u32" where "etp_nreqs s = nreqs (pool s)"
definition etp_nready :: "etp_state \<Rightarrow> u32" where "etp_nready s = nready (pool s)"
definition etp_npending :: "etp_state \<Rightarrow> u32" where "etp_npending s = npending (pool s)"
definition etp_nthreads :: "etp_state \<Rightarrow> u32" where "etp_nthreads s = started (pool s)"

subsection \<open>The worker\<close>

text \<open>A pass of the inner loop, under \<open>reqlock\<close>, up to the next wait or exit.\<close>

definition proc_take :: "addr \<Rightarrow> int \<Rightarrow> int \<Rightarrow> etp_state \<Rightarrow> etp_state option" where
  "proc_take w now tv s = do {
     (req, q) \<leftarrow> reqq_shift (req_queue (pool s)) (reqs s);
     let p = (pool s)\<lparr>req_queue := q\<rparr>;
     Some (if req \<noteq> 0 then s\<lparr>pool := p\<lparr>nready := nready p - 1\<rparr>, pcs := (pcs s)(w := Got req)\<rparr>
       else if tv = 1 then s\<lparr>pool := p, pcs := (pcs s)(w := Timed_out)\<rparr>
       else let p = p\<lparr>idle := idle p + 1\<rparr>
         in if idle p \<le> max_idle p then s\<lparr>pool := p, pcs := (pcs s)(w := Waiting tv False)\<rparr>
         else let tv = (if tv = 0 then now + uint (idle_timeout p) else tv)
           in s\<lparr>pool := p, pcs := (pcs s)(w := Waiting tv True)\<rparr>)
   }"

text \<open>Returning from a wait; \<open>timedout\<close> says that a timed wait returned \<open>ETIMEDOUT\<close>.\<close>

definition proc_wake :: "addr \<Rightarrow> int \<Rightarrow> bool \<Rightarrow> int \<Rightarrow> bool \<Rightarrow> etp_state \<Rightarrow> etp_state option" where
  "proc_wake w tv timed now timedout s =
     (let tv = (if timed \<and> timedout then 1 else tv);
          p = pool s
      in proc_take w now tv (s\<lparr>pool := p\<lparr>idle := idle p - 1\<rparr>\<rparr>))"

definition proc_execute :: "addr \<Rightarrow> addr \<Rightarrow> int \<Rightarrow> etp_state \<Rightarrow> etp_state option" where
  "proc_execute w req res s = do {
     r \<leftarrow> reqs s req;
     Some (if rtype r = ETP_TYPE_QUIT then s\<lparr>pcs := (pcs s)(w := Quitting req)\<rparr>
       else s\<lparr>reqs := (reqs s)(req \<mapsto> r\<lparr>rresult := res\<rparr>), pcs := (pcs s)(w := Executed req)\<rparr>)
   }"

text \<open>The section both \<open>etp_proc\<close> and \<open>etp_submit\<close> have, under \<open>reslock\<close>.\<close>

definition push_result :: "addr \<Rightarrow> etp_state \<Rightarrow> etp_state option" where
  "push_result req s = do {
     let p = (pool s)\<lparr>npending := npending (pool s) + 1\<rparr>;
     (n, q, h) \<leftarrow> reqq_push (res_queue p) req (reqs s);
     let s = s\<lparr>pool := p\<lparr>res_queue := q\<rparr>, reqs := h\<rparr>;
     Some (if n = 0 then s\<lparr>polls := Want # polls s\<rparr> else s)
   }"

definition proc_result :: "addr \<Rightarrow> addr \<Rightarrow> etp_state \<Rightarrow> etp_state option" where
  "proc_result w req s = do {
     s \<leftarrow> push_result req s;
     Some (s\<lparr>pcs := (pcs s)(w := Loop 0)\<rparr>)
   }"

definition proc_timeout :: "addr \<Rightarrow> etp_state \<Rightarrow> etp_state" where
  "proc_timeout w s = s\<lparr>pool := (pool s)\<lparr>started := started (pool s) - 1\<rparr>, pcs := (pcs s)(w := Quitting 0)\<rparr>"

definition etp_worker_free :: "addr \<Rightarrow> lheap \<Rightarrow> lheap option" where
  "etp_worker_free wrk m = do {
     n \<leftarrow> next_of m wrk;
     p \<leftarrow> prev_of m wrk;
     m \<leftarrow> set_prev n p m;
     m \<leftarrow> set_next p n m;
     Some (m(wrk := None))
   }"

definition proc_quit :: "addr \<Rightarrow> addr \<Rightarrow> etp_state \<Rightarrow> etp_state option" where
  "proc_quit w req s = do {
     let s = (if req \<noteq> 0 then s\<lparr>reqs := (reqs s)(req := None), left := req # left s\<rparr> else s);
     m \<leftarrow> etp_worker_free w (wlinks s);
     Some (s\<lparr>wlinks := m, pcs := (pcs s)(w := Gone)\<rparr>)
   }"

subsection \<open>Starting and ending workers\<close>

text \<open>\<open>wrk\<close> is what \<open>calloc\<close> returned; NULL fails the assertion.\<close>

definition etp_start_thread :: "addr \<Rightarrow> bool \<Rightarrow> etp_state \<Rightarrow> etp_state option" where
  "etp_start_thread wrk created s =
     (if wrk = 0 then None
      else if created then do {
        let m = (wlinks s)(wrk \<mapsto> \<lparr>lnext = 0, lprev = 0\<rparr>);
        m \<leftarrow> set_prev wrk WRK_FIRST m;
        n \<leftarrow> next_of m WRK_FIRST;
        m \<leftarrow> set_next wrk n m;
        n \<leftarrow> next_of m WRK_FIRST;
        m \<leftarrow> set_prev n wrk m;
        m \<leftarrow> set_next WRK_FIRST wrk m;
        Some (s\<lparr>pool := (pool s)\<lparr>started := started (pool s) + 1\<rparr>, wlinks := m, pcs := (pcs s)(wrk := Loop 0)\<rparr>)
      } else Some s)"

definition etp_maybe_start_thread :: "addr \<Rightarrow> bool \<Rightarrow> etp_state \<Rightarrow> etp_state option" where
  "etp_maybe_start_thread wrk created s =
     (if wanted (pool s) \<le> etp_nthreads s then Some s
      else if 0 \<le> sint (etp_nthreads s + etp_npending s - etp_nreqs s) then Some s
      else etp_start_thread wrk created s)"

text \<open>\<open>etp_end_thread\<close>: the section under \<open>reqlock\<close> and the one under \<open>wrklock\<close>.\<close>

definition quit_req :: eio_req where
  "quit_req = \<lparr>rnext = 0, rwd = EIO_CWD, rresult = 0, roffs = 0, rsize = 0, ptr1 = 0, ptr2 = 0, nv1 = 0, nv2 = 0,
     int1 = 0, int2 = 0, int3 = 0, errorno = 0, rflags = 0, rtype = ETP_TYPE_QUIT,
     pri = word_of_int (ETP_PRI_MAX - ETP_PRI_MIN), cancelled = False, rdata = 0, finish_cb = 0, destroy_cb = 0, feed_cb = 0,
     grp = 0, grp_prev = 0, grp_next = 0, grp_first = 0\<rparr>"

definition end_thread_push :: "addr \<Rightarrow> etp_state \<Rightarrow> etp_state option" where
  "end_thread_push req s =
     (if req = 0 then None
      else do {
        (n, q, h) \<leftarrow> reqq_push (req_queue (pool s)) req ((reqs s)(req \<mapsto> quit_req));
        Some (s\<lparr>pool := (pool s)\<lparr>req_queue := q\<rparr>, reqs := h, sent_quits := sent_quits s + 1,
          entered := req # entered s\<rparr>)
      })"

definition end_thread_started :: "etp_state \<Rightarrow> etp_state" where
  "end_thread_started s = s\<lparr>pool := (pool s)\<lparr>started := started (pool s) - 1\<rparr>\<rparr>"

definition etp_end_thread :: "addr \<Rightarrow> etp_state \<Rightarrow> etp_state option" where
  "etp_end_thread req s = map_option end_thread_started (end_thread_push req s)"

subsection \<open>Submitting and polling\<close>

text \<open>The priority is a signed char: the subtraction wraps before it is clamped.\<close>

definition submit_pri :: "8 word \<Rightarrow> 8 word" where
  "submit_pri p =
     (let p = p - word_of_int ETP_PRI_MIN;
          p = (if sint p < ETP_PRI_MIN - ETP_PRI_MIN then word_of_int (ETP_PRI_MIN - ETP_PRI_MIN) else p)
      in if sint p > ETP_PRI_MAX - ETP_PRI_MIN then word_of_int (ETP_PRI_MAX - ETP_PRI_MIN) else p)"

definition etp_submit :: "addr \<Rightarrow> etp_state \<Rightarrow> etp_state option" where
  "etp_submit req s = do {
     r \<leftarrow> reqs s req;
     let r = r\<lparr>pri := submit_pri (pri r)\<rparr>;
     let s = s\<lparr>reqs := (reqs s)(req \<mapsto> r), entered := req # entered s\<rparr>;
     let p = (pool s)\<lparr>nreqs := nreqs (pool s) + 1\<rparr>;
     if rtype r = EIO_GROUP then Some (s\<lparr>pool := p, frames := Submit_res req # frames s\<rparr>)
     else do {
       let p = p\<lparr>nready := nready p + 1\<rparr>;
       (n, q, h) \<leftarrow> reqq_push (req_queue p) req (reqs s);
       Some (s\<lparr>pool := p\<lparr>req_queue := q\<rparr>, reqs := h, frames := Submit_start # frames s\<rparr>)
     }
   }"

definition etp_poll :: "timeval \<Rightarrow> etp_state \<Rightarrow> etp_state" where
  "etp_poll now s = s\<lparr>frames := Poll_start \<lparr>maxreqs = max_poll_reqs (pool s), maxtime = max_poll_time (pool s),
     tv_start = now\<rparr> # frames s\<rparr>"

text \<open>Taking a result, under \<open>reslock\<close>; \<open>fs\<close> are the calls around the poll.\<close>

definition poll_shift :: "poll_vars \<Rightarrow> client_pc list \<Rightarrow> etp_state \<Rightarrow> etp_state option" where
  "poll_shift v fs s = do {
     (req, q) \<leftarrow> reqq_shift (res_queue (pool s)) (reqs s);
     let p = (pool s)\<lparr>res_queue := q\<rparr>;
     Some (if req \<noteq> 0 then
         let s = s\<lparr>pool := p\<lparr>npending := npending p - 1\<rparr>, frames := Poll_took req v # fs\<rparr>
         in if qsize q = 0 then s\<lparr>polls := Done # polls s\<rparr> else s
       else s\<lparr>pool := p, frames := fs\<rparr>)
   }"

text \<open>A group with members left is marked and kept; any other request is finished.\<close>

definition ETP_FLAG_GROUPADD :: u8 where "ETP_FLAG_GROUPADD = 0x04"
definition ETP_FLAG_DELAYED :: u8 where "ETP_FLAG_DELAYED = 0x08"

definition poll_took :: "addr \<Rightarrow> poll_vars \<Rightarrow> client_pc list \<Rightarrow> etp_state \<Rightarrow> etp_state option" where
  "poll_took req v fs s = do {
     let s = s\<lparr>pool := (pool s)\<lparr>nreqs := nreqs (pool s) - 1\<rparr>\<rparr>;
     r \<leftarrow> reqs s req;
     Some (if rtype r = EIO_GROUP \<and> rsize r \<noteq> 0 then
         s\<lparr>reqs := (reqs s)(req \<mapsto> r\<lparr>rflags := or (rflags r) ETP_FLAG_DELAYED\<rparr>),
           frames := Poll_start v # fs, delayed := req # delayed s\<rparr>
       else s\<lparr>frames := In_finish req v # fs\<rparr>)
   }"

text \<open>
  After \<open>ETP_FINISH\<close>, which frees the request: whether the loop goes on. The elapsed time is an
  \<open>int\<close> compared with an \<open>unsigned\<close>.
\<close>

definition poll_goes_on :: "int \<Rightarrow> timeval \<Rightarrow> poll_vars \<Rightarrow> poll_vars option" where
  "poll_goes_on res now v =
     (if res \<noteq> 0 then None
      else let stop = (maxreqs v \<noteq> 0 \<and> maxreqs v - 1 = 0);
               v = (if maxreqs v \<noteq> 0 then v\<lparr>maxreqs := maxreqs v - 1\<rparr> else v)
        in if stop then None
        else if maxtime v \<noteq> 0 \<and> maxtime v \<le> word_of_int (etp_tvdiff (tv_start v) now) then None
        else Some v)"

definition poll_finished :: "addr \<Rightarrow> int \<Rightarrow> timeval \<Rightarrow> poll_vars \<Rightarrow> client_pc list \<Rightarrow> etp_state \<Rightarrow> etp_state" where
  "poll_finished req res now v fs s =
     s\<lparr>reqs := (reqs s)(req := None), left := req # left s,
       frames := (case poll_goes_on res now v of None \<Rightarrow> fs | Some v \<Rightarrow> Poll_start v # fs)\<rparr>"

text \<open>Cancelling walks the members of a group; fuel bounds the walk over the group links.\<close>

fun etp_cancel :: "nat \<Rightarrow> addr \<Rightarrow> req_heap \<Rightarrow> req_heap option"
  and etp_grp_cancel :: "nat \<Rightarrow> addr \<Rightarrow> req_heap \<Rightarrow> req_heap option" where
  "etp_cancel 0 req h = None"
| "etp_cancel (Suc n) req h = do {
     r \<leftarrow> h req;
     let h = h(req \<mapsto> r\<lparr>cancelled := True\<rparr>);
     etp_grp_cancel n (grp_first r) h
   }"
| "etp_grp_cancel 0 m h = None"
| "etp_grp_cancel (Suc n) m h =
     (if m = 0 then Some h
      else do {
        h \<leftarrow> etp_cancel n m h;
        r \<leftarrow> h m;
        etp_grp_cancel n (grp_next r) h
      })"

subsection \<open>Settings\<close>

text \<open>
  The seconds are a \<open>double\<close>, here a rational number, or \<open>None\<close> for an infinity or NaN; \<open>rnd\<close> rounds a product to a
  \<open>double\<close>. A product whose integral part does not fit in an \<open>unsigned int\<close> is undefined.
\<close>

definition etp_set_max_poll_time :: "(rat \<Rightarrow> rat) \<Rightarrow> rat option \<Rightarrow> etp_state \<Rightarrow> etp_state option" where
  "etp_set_max_poll_time rnd nseconds s = do {
     n \<leftarrow> nseconds;
     let ticks = rnd (n * of_int ETP_TICKS);
     if - 1 < ticks \<and> ticks < 2 ^ 32
     then Some (s\<lparr>pool := (pool s)\<lparr>max_poll_time := word_of_int (if ticks < 0 then 0 else \<lfloor>ticks\<rfloor>)\<rparr>\<rparr>)
     else None
   }"

definition etp_set_max_poll_reqs :: "u32 \<Rightarrow> etp_state \<Rightarrow> etp_state" where
  "etp_set_max_poll_reqs n s = s\<lparr>pool := (pool s)\<lparr>max_poll_reqs := n\<rparr>\<rparr>"

definition etp_set_max_idle :: "u32 \<Rightarrow> etp_state \<Rightarrow> etp_state" where
  "etp_set_max_idle n s = s\<lparr>pool := (pool s)\<lparr>max_idle := n\<rparr>\<rparr>"

definition etp_set_idle_timeout :: "u32 \<Rightarrow> etp_state \<Rightarrow> etp_state" where
  "etp_set_idle_timeout n s = s\<lparr>pool := (pool s)\<lparr>idle_timeout := n\<rparr>\<rparr>"

definition etp_set_min_parallel :: "u32 \<Rightarrow> etp_state \<Rightarrow> etp_state" where
  "etp_set_min_parallel n s = (if wanted (pool s) < n then s\<lparr>pool := (pool s)\<lparr>wanted := n\<rparr>\<rparr> else s)"

definition etp_set_max_parallel :: "u32 \<Rightarrow> etp_state \<Rightarrow> etp_state" where
  "etp_set_max_parallel n s =
     (let s = (if n < wanted (pool s) then s\<lparr>pool := (pool s)\<lparr>wanted := n\<rparr>\<rparr> else s)
      in s\<lparr>frames := Max_parallel # frames s\<rparr>)"

section \<open>Interleaving\<close>

text \<open>The client may call into the pool when it is in no call or inside a finish callback.\<close>

definition can_call :: "etp_state \<Rightarrow> bool" where
  "can_call s = (case frames s of [] \<Rightarrow> True | In_finish _ _ # _ \<Rightarrow> True | _ \<Rightarrow> False)"

text \<open>
  What a request is to the pool. The other members may be changed at any time: the group
  functions, the cancelling functions and the callbacks do.
\<close>

definition core :: "eio_req option \<Rightarrow> (addr \<times> req_type \<times> 8 word) option" where
  "core = map_option (\<lambda>r. (rnext r, rtype r, pri r))"

inductive pool_step :: "etp_state \<Rightarrow> etp_state \<Rightarrow> bool" where
  take: "pcs s w = Loop tv \<Longrightarrow> proc_take w now tv s = Some s' \<Longrightarrow> pool_step s s'"
| wake: "pcs s w = Waiting tv timed \<Longrightarrow> proc_wake w tv timed now timedout s = Some s' \<Longrightarrow> pool_step s s'"
| execute: "pcs s w = Got req \<Longrightarrow> proc_execute w req res s = Some s' \<Longrightarrow> pool_step s s'"
| result: "pcs s w = Executed req \<Longrightarrow> proc_result w req s = Some s' \<Longrightarrow> pool_step s s'"
| timeout: "pcs s w = Timed_out \<Longrightarrow> pool_step s (proc_timeout w s)"
| quit: "pcs s w = Quitting req \<Longrightarrow> proc_quit w req s = Some s' \<Longrightarrow> pool_step s s'"
| submit: "can_call s \<Longrightarrow> req \<noteq> 0 \<Longrightarrow> reqs s req = None \<Longrightarrow> rtype r \<noteq> ETP_TYPE_QUIT \<Longrightarrow>
    etp_submit req (s\<lparr>reqs := (reqs s)(req \<mapsto> r)\<rparr>) = Some s' \<Longrightarrow> pool_step s s'"
| submit_res: "frames s = Submit_res req # fs \<Longrightarrow> push_result req (s\<lparr>frames := fs\<rparr>) = Some s' \<Longrightarrow> pool_step s s'"
| submit_start: "frames s = Submit_start # fs \<Longrightarrow> (wrk \<noteq> 0 \<Longrightarrow> wlinks s wrk = None) \<Longrightarrow>
    etp_maybe_start_thread wrk created (s\<lparr>frames := fs\<rparr>) = Some s' \<Longrightarrow> pool_step s s'"
| poll: "can_call s \<Longrightarrow> pool_step s (etp_poll now s)"
| poll_start: "frames s = Poll_start v # fs \<Longrightarrow> (wrk \<noteq> 0 \<Longrightarrow> wlinks s wrk = None) \<Longrightarrow>
    etp_maybe_start_thread wrk created (s\<lparr>frames := Poll_shift v # fs\<rparr>) = Some s' \<Longrightarrow> pool_step s s'"
| poll_shift: "frames s = Poll_shift v # fs \<Longrightarrow> poll_shift v fs s = Some s' \<Longrightarrow> pool_step s s'"
| poll_took: "frames s = Poll_took req v # fs \<Longrightarrow> poll_took req v fs s = Some s' \<Longrightarrow> pool_step s s'"
| finished: "frames s = In_finish req v # fs \<Longrightarrow> pool_step s (poll_finished req res now v fs s)"
| group_done: "a \<in> set (delayed s) \<Longrightarrow> pool_step s
    (s\<lparr>reqs := (reqs s)(a := None), delayed := remove1 a (delayed s), left := a # left s\<rparr>)"
| max_parallel: "can_call s \<Longrightarrow> pool_step s (etp_set_max_parallel n s)"
| max_done: "frames s = Max_parallel # fs \<Longrightarrow> started (pool s) \<le> wanted (pool s) \<Longrightarrow> pool_step s (s\<lparr>frames := fs\<rparr>)"
| max_end: "frames s = Max_parallel # fs \<Longrightarrow> wanted (pool s) < started (pool s) \<Longrightarrow> req \<noteq> 0 \<Longrightarrow> reqs s req = None \<Longrightarrow>
    end_thread_push req (s\<lparr>frames := End_started # fs\<rparr>) = Some s' \<Longrightarrow> pool_step s s'"
| end_started: "frames s = End_started # fs \<Longrightarrow> pool_step s (end_thread_started (s\<lparr>frames := Max_parallel # fs\<rparr>))"
| poll_time: "can_call s \<Longrightarrow> etp_set_max_poll_time rnd sec s = Some s' \<Longrightarrow> pool_step s s'"
| settings: "can_call s \<Longrightarrow> s' \<in> {etp_set_max_poll_reqs n s, etp_set_max_idle n s,
    etp_set_idle_timeout n s, etp_set_min_parallel n s} \<Longrightarrow> pool_step s s'"
| members: "(\<And>x. core (h x) = core (reqs s x)) \<Longrightarrow> pool_step s (s\<lparr>reqs := h\<rparr>)"

inductive reachable :: "etp_state \<Rightarrow> bool" where
  init: "reachable (etp_init mt mr)"
| step: "reachable s \<Longrightarrow> pool_step s s' \<Longrightarrow> reachable s'"

section \<open>The invariant\<close>

text \<open>Which requests a worker, a call of the client and the queues hold.\<close>

fun held :: "worker_pc \<Rightarrow> addr multiset" where
  "held (Got a) = {#a#}"
| "held (Executed a) = {#a#}"
| "held (Quitting a) = (if a = 0 then {#} else {#a#})"
| "held _ = {#}"

fun fheld :: "client_pc \<Rightarrow> addr multiset" where
  "fheld (Submit_res a) = {#a#}"
| "fheld (Poll_took a v) = {#a#}"
| "fheld (In_finish a v) = {#a#}"
| "fheld _ = {#}"

definition places :: "etp_state \<Rightarrow> addr list list \<Rightarrow> addr list list \<Rightarrow> addr list \<Rightarrow> addr multiset" where
  "places s ls rs ws = mset (concat ls) + mset (concat rs) + (\<Sum>w\<leftarrow>ws. held (pcs s w)) +
     (\<Sum>f\<leftarrow>frames s. fheld f) + mset (delayed s)"

definition is_quit :: "req_heap \<Rightarrow> addr \<Rightarrow> bool" where
  "is_quit h a = (case h a of None \<Rightarrow> False | Some r \<Rightarrow> rtype r = ETP_TYPE_QUIT)"

definition num_quits :: "req_heap \<Rightarrow> addr multiset \<Rightarrow> nat" where
  "num_quits h M = size (filter_mset (is_quit h) M)"

fun is_waiting :: "worker_pc \<Rightarrow> nat" where
  "is_waiting (Waiting tv timed) = 1"
| "is_waiting _ = 0"

fun is_active :: "worker_pc \<Rightarrow> nat" where
  "is_active (Quitting a) = (if a = 0 then 0 else 1)"
| "is_active _ = 1"

fun is_finishing :: "client_pc \<Rightarrow> nat" where
  "is_finishing (In_finish a v) = 1"
| "is_finishing _ = 0"

fun is_ending :: "client_pc \<Rightarrow> nat" where
  "is_ending End_started = 1"
| "is_ending _ = 0"

definition queues :: "etp_state \<Rightarrow> addr list list \<Rightarrow> addr list list \<Rightarrow> bool" where
  "queues s ls rs \<longleftrightarrow> reqq_repr (reqs s) (req_queue (pool s)) ls \<and> reqq_repr (reqs s) (res_queue (pool s)) rs"

definition crew :: "etp_state \<Rightarrow> addr list \<Rightarrow> bool" where
  "crew s ws \<longleftrightarrow> circ (wlinks s) WRK_FIRST ws \<and> (\<forall>w. pcs s w \<noteq> Gone \<longleftrightarrow> w \<in> set ws)"

definition owned :: "req_heap \<Rightarrow> addr multiset \<Rightarrow> bool" where
  "owned h M \<longleftrightarrow> (\<forall>x. count M x \<le> 1) \<and>
     (\<forall>x\<in>#M. x \<noteq> 0 \<and> (\<exists>r. h x = Some r \<and> 0 \<le> sint (pri r) \<and> sint (pri r) < int ETP_NUM_PRI))"

fun pc_typed :: "req_heap \<Rightarrow> worker_pc \<Rightarrow> bool" where
  "pc_typed h (Executed a) = (\<not> is_quit h a)"
| "pc_typed h (Quitting a) = (a = 0 \<or> is_quit h a)"
| "pc_typed h _ = True"

definition typed :: "etp_state \<Rightarrow> addr list list \<Rightarrow> bool" where
  "typed s rs \<longleftrightarrow> (\<forall>a. a \<in> set (concat rs) \<or> a \<in># (\<Sum>f\<leftarrow>frames s. fheld f) \<or> a \<in> set (delayed s) \<longrightarrow> \<not> is_quit (reqs s) a) \<and>
     (\<forall>w. pc_typed (reqs s) (pcs s w))"

definition counted :: "etp_state \<Rightarrow> addr list list \<Rightarrow> addr list list \<Rightarrow> addr list \<Rightarrow> bool" where
  "counted s ls rs ws \<longleftrightarrow>
     npending (pool s) = of_nat (length (concat rs)) \<and>
     nready (pool s) + of_nat (sent_quits s) = of_nat (length (concat ls)) \<and>
     idle (pool s) = of_nat (\<Sum>w\<leftarrow>ws. is_waiting (pcs s w)) \<and>
     started (pool s) + of_nat (num_quits (reqs s) (places s ls rs ws)) =
       of_nat ((\<Sum>w\<leftarrow>ws. is_active (pcs s w)) + (\<Sum>f\<leftarrow>frames s. is_ending f)) \<and>
     nreqs (pool s) + of_nat (length (delayed s) + (\<Sum>f\<leftarrow>frames s. is_finishing f) + num_quits (reqs s) (places s ls rs ws)) =
       of_nat (size (places s ls rs ws))"

fun alternates :: "poll_event list \<Rightarrow> bool" where
  "alternates [] \<longleftrightarrow> True"
| "alternates [e] \<longleftrightarrow> e = Want"
| "alternates (e # e' # es) \<longleftrightarrow> e \<noteq> e' \<and> alternates (e' # es)"

definition logged :: "etp_state \<Rightarrow> addr list list \<Rightarrow> addr list list \<Rightarrow> addr list \<Rightarrow> bool" where
  "logged s ls rs ws \<longleftrightarrow> alternates (polls s) \<and> (concat rs \<noteq> [] \<longleftrightarrow> (\<exists>es. polls s = Want # es)) \<and>
     mset (entered s) = mset (left s) + places s ls rs ws"

definition pool_ok :: "etp_state \<Rightarrow> addr list list \<Rightarrow> addr list list \<Rightarrow> addr list \<Rightarrow> bool" where
  "pool_ok s ls rs ws \<longleftrightarrow> queues s ls rs \<and> crew s ws \<and> owned (reqs s) (places s ls rs ws) \<and>
     typed s rs \<and> counted s ls rs ws \<and> logged s ls rs ws"

section \<open>Every section keeps the invariant\<close>

lemma sum_at:
  fixes f :: "'b \<Rightarrow> 'c::comm_monoid_add"
  shows "distinct ws \<Longrightarrow> w \<in> set ws \<Longrightarrow>
    (\<Sum>v\<leftarrow>ws. f ((g(w := c)) v)) + f (g w) = (\<Sum>v\<leftarrow>ws. f (g v)) + f c"
proof (induction ws)
  case (Cons v ws)
  show ?case
  proof (cases "v = w")
    case True
    with Cons.prems have "(\<Sum>u\<leftarrow>ws. f ((g(w := c)) u)) = (\<Sum>u\<leftarrow>ws. f (g u))"
      by (intro arg_cong [where f = sum_list] map_cong) auto
    then show ?thesis using True by (simp add: ac_simps)
  next
    case False
    with Cons show ?thesis by (simp add: add.assoc)
  qed
qed simp

lemma sum_off: "w \<notin> set ws \<Longrightarrow> (\<Sum>v\<leftarrow>ws. f ((g(w := c)) v)) = (\<Sum>v\<leftarrow>ws. f (g v))"
  by (intro arg_cong [where f = sum_list] map_cong) auto

lemma sum_held: "distinct ws \<Longrightarrow> w \<in> set ws \<Longrightarrow> held (g w) = {#} \<Longrightarrow>
    (\<Sum>v\<leftarrow>ws. held ((g(w := c)) v)) = (\<Sum>v\<leftarrow>ws. held (g v)) + held c"
  using sum_at [of ws w held g c] by simp

definition kind :: "eio_req option \<Rightarrow> (req_type \<times> 8 word) option" where
  "kind = map_option (\<lambda>r. (rtype r, pri r))"

lemma kind_core: "core a = core b \<Longrightarrow> kind a = kind b"
  by (cases a; cases b) (auto simp: core_def kind_def)

lemma kind_unlinked: "unlinked a = unlinked b \<Longrightarrow> kind a = kind b"
  by (cases a; cases b) (auto simp: unlinked_def kind_def, (metis eio_req.ext_inject eio_req.surjective eio_req.update_convs(1))+)

lemma is_quit_kind: "kind (h' x) = kind (h x) \<Longrightarrow> is_quit h' x = is_quit h x"
  by (cases "h' x"; cases "h x") (auto simp: kind_def is_quit_def)

lemma num_quits_kind: "(\<And>x. x \<in># M \<Longrightarrow> kind (h' x) = kind (h x)) \<Longrightarrow> num_quits h' M = num_quits h M"
  unfolding num_quits_def by (metis filter_mset_cong is_quit_kind)

lemma owned_dest:
  assumes "owned h M" and "x \<in># M"
  obtains r where "h x = Some r" "x \<noteq> 0" "0 \<le> sint (pri r)" "sint (pri r) < int ETP_NUM_PRI"
proof -
  have "x \<noteq> 0 \<and> (\<exists>r. h x = Some r \<and> 0 \<le> sint (pri r) \<and> sint (pri r) < int ETP_NUM_PRI)"
    using assms unfolding owned_def by blast
  then show thesis using that by (elim conjE exE)
qed

lemma owned_kind:
  assumes "\<And>x. x \<in># M \<Longrightarrow> kind (h' x) = kind (h x)" and "owned h M"
  shows "owned h' M"
proof -
  have "x \<noteq> 0 \<and> (\<exists>r. h' x = Some r \<and> 0 \<le> sint (pri r) \<and> sint (pri r) < int ETP_NUM_PRI)" if "x \<in># M" for x
  proof -
    obtain r where "h x = Some r" "x \<noteq> 0" "0 \<le> sint (pri r)" "sint (pri r) < int ETP_NUM_PRI"
      using assms(2) \<open>x \<in># M\<close> by (rule owned_dest)
    moreover have "kind (h' x) = kind (h x)" by (rule assms(1)) fact
    ultimately show ?thesis by (cases "h' x") (auto simp: kind_def)
  qed
  moreover have "\<forall>x. count M x \<le> 1" using assms(2) unfolding owned_def by blast
  ultimately show ?thesis unfolding owned_def by blast
qed

lemma pc_typed_kind:
  assumes "\<And>x. kind (h' x) = kind (h x)" shows "pc_typed h' c = pc_typed h c"
proof -
  have "is_quit h' x = is_quit h x" for x by (rule is_quit_kind) (rule assms)
  then show ?thesis by (cases c) simp_all
qed

lemma owned_once: "owned h (add_mset x M) \<Longrightarrow> x \<notin># M"
proof -
  assume "owned h (add_mset x M)"
  then have "count (add_mset x M) x \<le> 1" unfolding owned_def by blast
  then show ?thesis by (simp add: count_eq_zero_iff)
qed

lemma owned_left:
  assumes "owned h (A + B)" shows "owned h A"
proof -
  have "count A x \<le> 1" for x
  proof -
    have "count (A + B) x \<le> 1" using assms unfolding owned_def by blast
    then show ?thesis by simp
  qed
  moreover have "x \<in># A + B" if "x \<in># A" for x using that by simp
  ultimately show ?thesis using assms unfolding owned_def by blast
qed

lemma crewD:
  assumes "crew s ws" shows "distinct ws" "WRK_FIRST \<notin> set ws" "0 \<notin> set ws" "pcs s w \<noteq> Gone \<Longrightarrow> w \<in> set ws"
proof -
  show "distinct ws" "WRK_FIRST \<notin> set ws" "0 \<notin> set ws" using assms by (simp_all add: crew_def circ_def ring_def)
  show "pcs s w \<noteq> Gone \<Longrightarrow> w \<in> set ws" using assms unfolding crew_def by blast
qed

lemma crew_pcs: "crew s ws \<Longrightarrow> w \<in> set ws \<Longrightarrow> c \<noteq> Gone \<Longrightarrow>
    wlinks s' = wlinks s \<Longrightarrow> pcs s' = (pcs s)(w := c) \<Longrightarrow> crew s' ws"
  by (auto simp: crew_def)

lemma poolD:
  assumes "pool_ok s ls rs ws"
  shows "queues s ls rs" "crew s ws" "owned (reqs s) (places s ls rs ws)" "typed s rs" "counted s ls rs ws" "logged s ls rs ws"
  using assms by (auto simp: pool_ok_def)

lemma take_ok:
  assumes ok: "pool_ok s ls rs ws" and pc: "pcs s w = Loop tv"
  shows "\<exists>s' ls'. proc_take w now tv s = Some s' \<and> pool_ok s' ls' rs ws"
proof -
  note D = poolD [OF ok]
  have w: "w \<in> set ws" "distinct ws" using crewD [OF D(2)] pc by auto
  have q: "reqq_repr (reqs s) (req_queue (pool s)) ls" using D(1) by (simp add: queues_def)
  have len: "length ls = ETP_NUM_PRI" using q by (simp add: reqq_repr_def)
  note upd = sum_held [OF w(2,1), of "pcs s"]
    sum_at [OF w(2,1), of is_waiting "pcs s"] sum_at [OF w(2,1), of is_active "pcs s"]
  show ?thesis
  proof (cases "queue_shift ETP_NUM_PRI ls")
    case None
    then have sh: "reqq_shift (req_queue (pool s)) (reqs s) = Some (0, req_queue (pool s))"
      using reqq_shift_ok [OF q] by simp
    define c where "c = (if tv = 1 then Timed_out
      else if idle (pool s) + 1 \<le> max_idle (pool s) then Waiting tv False
      else Waiting (if tv = 0 then now + uint (idle_timeout (pool s)) else tv) True)"
    define s' where "s' = s\<lparr>pool := (pool s)\<lparr>idle := idle (pool s) + of_nat (is_waiting c)\<rparr>, pcs := (pcs s)(w := c)\<rparr>"
    have "proc_take w now tv s = Some s'"
      by (simp add: proc_take_def sh s'_def c_def Let_def)
    moreover have "pool_ok s' ls rs ws"
    proof -
      have c: "c \<noteq> Gone" "held c = {#}" "is_active c = 1" "pc_typed (reqs s) c" by (simp_all add: c_def)
      have pl: "places s' ls rs ws = places s ls rs ws" using c upd(1) [of c] pc by (simp add: places_def s'_def)
      have "queues s' ls rs" using D(1) by (simp add: queues_def s'_def)
      moreover have "crew s' ws" by (rule crew_pcs [OF D(2) w(1) c(1)]) (simp_all add: s'_def)
      moreover have "typed s' rs" using D(4) c by (simp add: typed_def s'_def)
      moreover have "counted s' ls rs ws"
        using D(5) c upd(2,3) [of c] pl pc unfolding counted_def by (simp add: s'_def)
      moreover have "logged s' ls rs ws" using D(6) pl by (simp add: logged_def s'_def)
      ultimately show ?thesis using D(3) pl by (simp add: pool_ok_def s'_def)
    qed
    ultimately show ?thesis by blast
  next
    case (Some a)
    obtain x ls' where a: "a = (x, ls')" by fastforce
    obtain q' where sh: "reqq_shift (req_queue (pool s)) (reqs s) = Some (x, q')" and x: "x \<noteq> 0"
      and q': "reqq_repr (reqs s) q' ls'"
      using reqq_shift_ok [OF q] Some a by auto
    have ms: "mset (concat ls) = add_mset x (mset (concat ls'))"
      using queue_shift_mset [of ETP_NUM_PRI ls x ls'] Some a len by simp
    have ln: "length (concat ls) = Suc (length (concat ls'))" using arg_cong [OF ms, of size] by simp
    define s' where "s' = s\<lparr>pool := (pool s)\<lparr>req_queue := q', nready := nready (pool s) - 1\<rparr>, pcs := (pcs s)(w := Got x)\<rparr>"
    have "proc_take w now tv s = Some s'"
      using x by (simp add: proc_take_def sh s'_def Let_def)
    moreover have "pool_ok s' ls' rs ws"
    proof -
      have pl: "places s' ls' rs ws = places s ls rs ws" using upd(1) [of "Got x"] pc ms by (simp add: places_def s'_def)
      have "queues s' ls' rs" using D(1) q' by (simp add: queues_def s'_def)
      moreover have "crew s' ws" by (rule crew_pcs [OF D(2) w(1), of "Got x"]) (simp_all add: s'_def)
      moreover have "typed s' rs" using D(4) by (simp add: typed_def s'_def)
      moreover have "counted s' ls' rs ws"
        using D(5) upd(2,3) [of "Got x"] pl pc ln unfolding counted_def by (simp add: s'_def algebra_simps)
      moreover have "logged s' ls' rs ws" using D(6) pl by (simp add: logged_def s'_def)
      ultimately show ?thesis using D(3) pl by (simp add: pool_ok_def s'_def)
    qed
    ultimately show ?thesis by blast
  qed
qed

lemma places_same [simp]:
  "places (s\<lparr>pool := p\<rparr>) ls rs ws = places s ls rs ws"
  "places (s\<lparr>reqs := h\<rparr>) ls rs ws = places s ls rs ws"
  "places (s\<lparr>wlinks := m\<rparr>) ls rs ws = places s ls rs ws"
  "places (s\<lparr>polls := ps\<rparr>) ls rs ws = places s ls rs ws"
  "places (s\<lparr>sent_quits := n\<rparr>) ls rs ws = places s ls rs ws"
  "places (s\<lparr>entered := es\<rparr>) ls rs ws = places s ls rs ws"
  "places (s\<lparr>left := es\<rparr>) ls rs ws = places s ls rs ws"
  by (simp_all add: places_def)

text \<open>Moves that only change where the client is, or where a worker is.\<close>

lemma frames_ok:
  assumes "pool_ok s ls rs ws" and "(\<Sum>f\<leftarrow>fs. fheld f) = (\<Sum>f\<leftarrow>frames s. fheld f)"
    and "(\<Sum>f\<leftarrow>fs. is_ending f) = (\<Sum>f\<leftarrow>frames s. is_ending f)"
    and "(\<Sum>f\<leftarrow>fs. is_finishing f) = (\<Sum>f\<leftarrow>frames s. is_finishing f)"
  shows "pool_ok (s\<lparr>frames := fs\<rparr>) ls rs ws"
proof -
  have "places (s\<lparr>frames := fs\<rparr>) ls rs ws = places s ls rs ws" using assms(2) by (simp add: places_def)
  then show ?thesis using assms
    unfolding pool_ok_def queues_def crew_def typed_def counted_def logged_def by simp
qed

lemma worker_ok:
  assumes "pool_ok s ls rs ws" and "pcs s w \<noteq> Gone" "c \<noteq> Gone" and "held c = held (pcs s w)" "pc_typed (reqs s) c"
    and "a = idle (pool s) + of_nat (is_waiting c) - of_nat (is_waiting (pcs s w))"
    and "b = started (pool s) + of_nat (is_active c) - of_nat (is_active (pcs s w))"
  shows "pool_ok (s\<lparr>pool := (pool s)\<lparr>idle := a, started := b\<rparr>, pcs := (pcs s)(w := c)\<rparr>) ls rs ws"
    (is "pool_ok ?s ls rs ws")
proof -
  note D = poolD [OF assms(1)]
  have w: "w \<in> set ws" "distinct ws" using crewD [OF D(2)] assms(2) by auto
  have h: "(\<Sum>v\<leftarrow>ws. held (((pcs s)(w := c)) v)) = (\<Sum>v\<leftarrow>ws. held (pcs s v))"
    using sum_at [OF w(2,1), of held "pcs s" c] assms(4) by simp
  define A' W' :: u32 where "A' = of_nat (\<Sum>v\<leftarrow>ws. is_active (((pcs s)(w := c)) v))"
    and "W' = of_nat (\<Sum>v\<leftarrow>ws. is_waiting (((pcs s)(w := c)) v))"
  have "A' + of_nat (is_active (pcs s w)) = of_nat (\<Sum>v\<leftarrow>ws. is_active (pcs s v)) + of_nat (is_active c)"
    unfolding A'_def using sum_at [OF w(2,1), of is_active "pcs s" c] by (metis of_nat_add)
  then have sa: "A' = of_nat (\<Sum>v\<leftarrow>ws. is_active (pcs s v)) + of_nat (is_active c) - of_nat (is_active (pcs s w))"
    by (simp only: eq_diff_eq)
  have "W' + of_nat (is_waiting (pcs s w)) = of_nat (\<Sum>v\<leftarrow>ws. is_waiting (pcs s v)) + of_nat (is_waiting c)"
    unfolding W'_def using sum_at [OF w(2,1), of is_waiting "pcs s" c] by (metis of_nat_add)
  then have sw: "W' = of_nat (\<Sum>v\<leftarrow>ws. is_waiting (pcs s v)) + of_nat (is_waiting c) - of_nat (is_waiting (pcs s w))"
    by (simp only: eq_diff_eq)
  have pl: "places ?s ls rs ws = places s ls rs ws" using h by (simp add: places_def)
  have "crew ?s ws" by (rule crew_pcs [OF D(2) w(1) assms(3)]) simp_all
  moreover have "counted ?s ls rs ws"
  proof -
    have "idle (pool ?s) = W'"
      using D(5) unfolding counted_def by (simp add: assms(6) sw)
    then have "idle (pool ?s) = of_nat (\<Sum>v\<leftarrow>ws. is_waiting (pcs ?s v))" by (simp add: W'_def)
    moreover have "started (pool s) + of_nat (num_quits (reqs s) (places s ls rs ws)) =
       of_nat (\<Sum>w\<leftarrow>ws. is_active (pcs s w)) + of_nat (\<Sum>f\<leftarrow>frames s. is_ending f)"
      using D(5) unfolding counted_def by (simp only: of_nat_add)
    then have "started (pool ?s) + of_nat (num_quits (reqs ?s) (places ?s ls rs ws)) =
       A' + of_nat (\<Sum>f\<leftarrow>frames ?s. is_ending f)"
      unfolding pl by (simp add: assms(7) sa algebra_simps)
    then have "started (pool ?s) + of_nat (num_quits (reqs ?s) (places ?s ls rs ws)) =
       of_nat ((\<Sum>w\<leftarrow>ws. is_active (pcs ?s w)) + (\<Sum>f\<leftarrow>frames ?s. is_ending f))"
      by (simp add: A'_def)
    ultimately show ?thesis using D(5) unfolding counted_def pl by simp
  qed
  moreover have "typed ?s rs" using D(4) assms(5) by (simp add: typed_def)
  moreover have "logged ?s ls rs ws" using D(6) unfolding logged_def pl by simp
  moreover have "queues ?s ls rs" using D(1) by (simp add: queues_def)
  ultimately show ?thesis using D(3) pl by (simp add: pool_ok_def)
qed

text \<open>Changing members of requests that the pool does not look at.\<close>

lemma members_ok:
  assumes ok: "pool_ok s ls rs ws" and same: "\<And>x. core (h x) = core (reqs s x)"
  shows "pool_ok (s\<lparr>reqs := h\<rparr>) ls rs ws"
proof -
  note D = poolD [OF ok]
  have k: "kind (h x) = kind (reqs s x)" for x by (rule kind_core) (rule same)
  have n: "map_option rnext (h x) = map_option rnext (reqs s x)" for x
    using same [of x] by (cases "h x"; cases "reqs s x") (auto simp: core_def)
  have "reqq_repr h q l = reqq_repr (reqs s) q l" for q l by (rule reqq_repr_cong) (rule n)
  moreover have "is_quit h x = is_quit (reqs s) x" for x by (rule is_quit_kind) (rule k)
  moreover have "pc_typed h c = pc_typed (reqs s) c" for c by (rule pc_typed_kind) (rule k)
  moreover have "num_quits h M = num_quits (reqs s) M" for M by (rule num_quits_kind) (rule k)
  moreover have "owned h M = owned (reqs s) M" for M using k by (metis owned_kind)
  ultimately show ?thesis using ok
    unfolding pool_ok_def queues_def crew_def typed_def counted_def logged_def by simp
qed

lemma pool_eq: "pool s\<lparr>idle := idle (pool s), started := started (pool s)\<rparr> = pool s"
  by (cases "pool s") simp

lemma proc_take_pcs: "proc_take w now tv (s\<lparr>pcs := (pcs s)(w := c)\<rparr>) = proc_take w now tv s"
  by (simp add: proc_take_def Let_def cong: if_cong split: bind_splits)

lemma wake_ok:
  assumes ok: "pool_ok s ls rs ws" and pc: "pcs s w = Waiting tv timed"
  shows "\<exists>s' ls'. proc_wake w tv timed now timedout s = Some s' \<and> pool_ok s' ls' rs ws"
proof -
  define tv' where "tv' = (if timed \<and> timedout then 1 else tv)"
  define s1 where "s1 = s\<lparr>pool := (pool s)\<lparr>idle := idle (pool s) - 1, started := started (pool s)\<rparr>\<rparr>"
  have "pool_ok (s\<lparr>pool := (pool s)\<lparr>idle := idle (pool s) - 1, started := started (pool s)\<rparr>,
      pcs := (pcs s)(w := Loop tv')\<rparr>) ls rs ws"
    by (rule worker_ok [OF ok]) (use pc in simp_all)
  then have "pool_ok (s1\<lparr>pcs := (pcs s1)(w := Loop tv')\<rparr>) ls rs ws" by (simp add: s1_def)
  from take_ok [OF this, of w tv' now]
  have "\<exists>s' ls'. proc_take w now tv' s1 = Some s' \<and> pool_ok s' ls' rs ws"
    by (simp add: proc_take_pcs)
  moreover have "proc_wake w tv timed now timedout s = proc_take w now tv' s1"
    unfolding proc_wake_def Let_def tv'_def s1_def
    by (intro arg_cong [where f = "proc_take _ _ _"]) (cases "pool s", simp)
  ultimately show ?thesis by simp
qed

lemma execute_ok:
  assumes ok: "pool_ok s ls rs ws" and pc: "pcs s w = Got req"
  shows "\<exists>s'. proc_execute w req res s = Some s' \<and> pool_ok s' ls rs ws"
proof -
  note D = poolD [OF ok]
  have w: "w \<in> set ws" "distinct ws" using crewD [OF D(2)] pc by auto
  have "req \<in># places s ls rs ws"
    using sum_at [OF w(2,1), of held "pcs s" "Loop 0"] pc
    by (auto simp: places_def dest: arg_cong [where f = "\<lambda>M. req \<in># M"])
  with D(3) obtain r where r: "reqs s req = Some r" "req \<noteq> 0" by (rule owned_dest)
  have move: "pool_ok (s\<lparr>pcs := (pcs s)(w := c)\<rparr>) ls rs ws" if "c = Quitting req \<and> is_quit (reqs s) req \<or> c = Executed req \<and> \<not> is_quit (reqs s) req" for c
  proof -
    have "pool_ok (s\<lparr>pool := (pool s)\<lparr>idle := idle (pool s), started := started (pool s)\<rparr>,
        pcs := (pcs s)(w := c)\<rparr>) ls rs ws"
      by (rule worker_ok [OF ok]) (use pc that r in auto)
    then show ?thesis by (simp add: pool_eq)
  qed
  show ?thesis
  proof (cases "rtype r = ETP_TYPE_QUIT")
    case True
    then show ?thesis using r move [of "Quitting req"] by (simp add: proc_execute_def is_quit_def)
  next
    case False
    have "pool_ok (s\<lparr>pcs := (pcs s)(w := Executed req), reqs := (reqs s)(req \<mapsto> r\<lparr>rresult := res\<rparr>)\<rparr>) ls rs ws"
      by (rule members_ok [OF move]) (use r False in \<open>auto simp: core_def is_quit_def\<close>)
    moreover have "s\<lparr>pcs := (pcs s)(w := Executed req), reqs := (reqs s)(req \<mapsto> r\<lparr>rresult := res\<rparr>)\<rparr> =
        s\<lparr>reqs := (reqs s)(req \<mapsto> r\<lparr>rresult := res\<rparr>), pcs := (pcs s)(w := Executed req)\<rparr>"
      by (rule etp_state.equality) simp_all
    ultimately show ?thesis using r False by (simp add: proc_execute_def)
  qed
qed

lemma timeout_ok:
  assumes ok: "pool_ok s ls rs ws" and pc: "pcs s w = Timed_out"
  shows "pool_ok (proc_timeout w s) ls rs ws"
proof -
  have "pool_ok (s\<lparr>pool := (pool s)\<lparr>idle := idle (pool s), started := started (pool s) - 1\<rparr>,
      pcs := (pcs s)(w := Quitting 0)\<rparr>) ls rs ws"
    by (rule worker_ok [OF ok]) (use pc in simp_all)
  moreover have "(pool s)\<lparr>idle := idle (pool s), started := started (pool s) - 1\<rparr> = (pool s)\<lparr>started := started (pool s) - 1\<rparr>"
    by (cases "pool s") simp
  ultimately show ?thesis by (simp add: proc_timeout_def)
qed

text \<open>Pushing into one queue leaves the other as it is.\<close>

lemma push_ok:
  assumes q: "reqq_repr h q ls" "reqq_repr h q2 rs" and disj: "set (concat ls) \<inter> set (concat rs) = {}"
    and req: "req \<notin> set (concat ls)" "req \<notin> set (concat rs)" "h req = Some r" "req \<noteq> 0"
    and pri: "0 \<le> sint (pri r)" "sint (pri r) < int ETP_NUM_PRI"
  shows "\<exists>q' h' ls'. reqq_push q req h = Some (int (length (concat ls)), q', h') \<and> reqq_repr h' q' ls' \<and>
    reqq_repr h' q2 rs \<and> (\<forall>x. kind (h' x) = kind (h x)) \<and> mset (concat ls') = add_mset req (mset (concat ls))"
proof -
  define ls' where "ls' = queue_push (nat (sint (pri r))) req ls"
  obtain q' h' where push: "reqq_push q req h = Some (int (length (concat ls)), q', h')" "reqq_repr h' q' ls'"
    and unl: "\<And>x. unlinked (h' x) = unlinked (h x)"
    and off: "\<And>x. x \<notin> set (concat ls) \<Longrightarrow> x \<noteq> req \<Longrightarrow> h' x = h x"
    using reqq_push_ok [OF q(1) req(3,4,1) pri] unfolding ls'_def by blast
  have "length ls = ETP_NUM_PRI" using q(1) by (simp add: reqq_repr_def)
  then have "nat (sint (pri r)) < length ls" using pri by simp
  then have ms: "mset (concat ls') = add_mset req (mset (concat ls))" unfolding ls'_def by (rule queue_push_mset)
  have same: "h' x = h x" if "x \<in> set (concat rs)" for x
  proof (rule off)
    show "x \<notin> set (concat ls)" using that disj by blast
    show "x \<noteq> req" using that req(2) by blast
  qed
  have "reqq_repr h' q2 rs = reqq_repr h q2 rs" by (rule reqq_repr_cong) (simp add: same)
  then have "reqq_repr h' q2 rs" using q(2) by simp
  moreover have "kind (h' x) = kind (h x)" for x by (rule kind_unlinked) (rule unl)
  ultimately show ?thesis using push ms by blast
qed

lemma owned_disjoint:
  assumes "owned h M" and "A + B \<subseteq># M" and "x \<in># A"
  shows "x \<notin># B"
proof
  assume "x \<in># B"
  then have "0 < count B x" by (simp only: count_greater_zero_iff)
  moreover have "0 < count A x" using assms(3) by (simp only: count_greater_zero_iff)
  moreover have "count (A + B) x \<le> count M x" by (rule mset_subset_eq_count [OF assms(2)])
  moreover have "count M x \<le> 1" using assms(1) unfolding owned_def by blast
  ultimately show False unfolding count_union by linarith
qed

lemma queues_disjoint:
  assumes "owned h (places s ls rs ws)"
  shows "set (concat ls) \<inter> set (concat rs) = {}"
proof -
  have "mset (concat ls) + mset (concat rs) \<subseteq># places s ls rs ws" by (simp add: places_def add.assoc)
  from owned_disjoint [OF assms this] show ?thesis by (meson disjoint_iff set_mset_mset in_multiset_in_set)
qed

lemma alternates_Want: "alternates es \<Longrightarrow> \<not> (\<exists>es'. es = Want # es') \<Longrightarrow> alternates (Want # es)"
proof (cases es)
  case (Cons e es')
  then show "alternates es \<Longrightarrow> \<not> (\<exists>es'. es = Want # es') \<Longrightarrow> alternates (Want # es)" by (cases e) simp_all
qed simp

lemma alternates_Done: "alternates es \<Longrightarrow> \<exists>es'. es = Want # es' \<Longrightarrow> alternates (Done # es)"
  by auto

lemma submit_res_ok:
  assumes ok: "pool_ok s ls rs ws" and fr: "frames s = Submit_res req # fs"
  shows "\<exists>s' rs'. push_result req (s\<lparr>frames := fs\<rparr>) = Some s' \<and> pool_ok s' ls rs' ws"
proof -
  note D = poolD [OF ok]
  have pin: "req \<in># places s ls rs ws" by (simp add: places_def fr)
  with D(3) obtain r where r: "reqs s req = Some r" "req \<noteq> 0" "0 \<le> sint (pri r)" "sint (pri r) < int ETP_NUM_PRI"
    by (rule owned_dest)
  have dls: "req \<notin> set (concat ls)" "req \<notin> set (concat rs)"
  proof -
    have "{#req#} + mset (concat ls) \<subseteq># places s ls rs ws" by (simp add: places_def fr ac_simps)
    from owned_disjoint [OF D(3) this, of req] show "req \<notin> set (concat ls)" by simp
    have "{#req#} + mset (concat rs) \<subseteq># places s ls rs ws" by (simp add: places_def fr ac_simps)
    from owned_disjoint [OF D(3) this, of req] show "req \<notin> set (concat rs)" by simp
  qed
  have q: "reqq_repr (reqs s) (res_queue (pool s)) rs" "reqq_repr (reqs s) (req_queue (pool s)) ls"
    using D(1) by (simp_all add: queues_def)
  have disj: "set (concat rs) \<inter> set (concat ls) = {}" using queues_disjoint [OF D(3)] by blast
  obtain q' h' rs' where push: "reqq_push (res_queue (pool s)) req (reqs s) = Some (int (length (concat rs)), q', h')"
    "reqq_repr h' q' rs'" "reqq_repr h' (req_queue (pool s)) ls" "\<And>x. kind (h' x) = kind (reqs s x)"
    and ms: "mset (concat rs') = add_mset req (mset (concat rs))"
    using push_ok [OF q disj dls(2,1) r] by blast
  have ln: "length (concat rs') = Suc (length (concat rs))" using arg_cong [OF ms, of size] by simp
  have st: "set (concat rs') = insert req (set (concat rs))" using arg_cong [OF ms, of set_mset] by simp
  define s' where "s' = s\<lparr>pool := (pool s)\<lparr>npending := npending (pool s) + 1, res_queue := q'\<rparr>, reqs := h', frames := fs,
    polls := (if concat rs = [] then Want # polls s else polls s)\<rparr>"
  have "push_result req (s\<lparr>frames := fs\<rparr>) = Some s'"
    unfolding push_result_def s'_def Let_def
    using push(1) by (simp del: concat_eq_Nil_conv)
  moreover have "pool_ok s' ls rs' ws"
  proof -
    have pl: "places s' ls rs' ws = places s ls rs ws" using ms by (simp add: places_def s'_def fr)
    have iq: "is_quit h' x = is_quit (reqs s) x" for x by (rule is_quit_kind) (rule push(4))
    have nq: "num_quits h' M = num_quits (reqs s) M" for M by (rule num_quits_kind) (rule push(4))
    have pt: "pc_typed h' c = pc_typed (reqs s) c" for c by (rule pc_typed_kind) (rule push(4))
    have "owned (reqs s') (places s' ls rs' ws)"
      unfolding pl using D(3) by (rule owned_kind [rotated]) (simp add: s'_def push(4))
    moreover have "queues s' ls rs'" using push by (simp add: queues_def s'_def)
    moreover have "crew s' ws" using D(2) by (simp add: crew_def s'_def)
    moreover have "typed s' rs'" using D(4) unfolding typed_def by (simp add: s'_def fr iq pt st del: set_concat)
    moreover have "counted s' ls rs' ws"
      using D(5) unfolding counted_def pl by (simp add: s'_def ln nq fr)
    moreover have "logged s' ls rs' ws"
    proof -
      have "concat rs' \<noteq> []" using ln by (cases "concat rs'") auto
      then show ?thesis using D(6) unfolding logged_def pl by (auto simp: s'_def intro: alternates_Want)
    qed
    ultimately show ?thesis by (simp add: pool_ok_def)
  qed
  ultimately show ?thesis by blast
qed

lemma result_ok:
  assumes ok: "pool_ok s ls rs ws" and pc: "pcs s w = Executed req"
  shows "\<exists>s' rs'. proc_result w req s = Some s' \<and> pool_ok s' ls rs' ws"
proof -
  note D = poolD [OF ok]
  have w: "w \<in> set ws" "distinct ws" using crewD [OF D(2)] pc by auto
  define s0 where "s0 = s\<lparr>pcs := (pcs s)(w := Loop 0), frames := Submit_res req # frames s\<rparr>"
  have h: "(\<Sum>v\<leftarrow>ws. held (((pcs s)(w := Loop 0)) v)) + {#req#} = (\<Sum>v\<leftarrow>ws. held (pcs s v))"
    using sum_at [OF w(2,1), of held "pcs s" "Loop 0"] pc by simp
  have iw: "(\<Sum>v\<leftarrow>ws. is_waiting (((pcs s)(w := Loop 0)) v)) = (\<Sum>v\<leftarrow>ws. is_waiting (pcs s v))"
    using sum_at [OF w(2,1), of is_waiting "pcs s" "Loop 0"] pc by simp
  have ia: "(\<Sum>v\<leftarrow>ws. is_active (((pcs s)(w := Loop 0)) v)) = (\<Sum>v\<leftarrow>ws. is_active (pcs s v))"
    using sum_at [OF w(2,1), of is_active "pcs s" "Loop 0"] pc by simp
  have pl: "places s0 ls rs ws = places s ls rs ws"
    unfolding places_def s0_def using h [symmetric] by simp
  have nq: "\<not> is_quit (reqs s) req" using D(4) pc unfolding typed_def by (metis pc_typed.simps(1))
  have "pool_ok s0 ls rs ws"
  proof -
    have "crew s0 ws" by (rule crew_pcs [OF D(2) w(1), of "Loop 0"]) (simp_all add: s0_def)
    moreover have "queues s0 ls rs" using D(1) by (simp add: queues_def s0_def)
    moreover have "typed s0 rs" using D(4) nq unfolding typed_def by (auto simp: s0_def)
    moreover have "counted s0 ls rs ws" using D(5) unfolding counted_def pl using iw ia by (simp add: s0_def)
    moreover have "logged s0 ls rs ws" using D(6) unfolding logged_def pl by (simp add: s0_def)
    ultimately show ?thesis using D(3) pl by (simp add: pool_ok_def s0_def)
  qed
  then obtain s' rs' where s': "push_result req (s0\<lparr>frames := frames s\<rparr>) = Some s'" "pool_ok s' ls rs' ws"
    using submit_res_ok [of s0 ls rs ws req "frames s"] by (auto simp: s0_def)
  have "proc_result w req s = push_result req (s0\<lparr>frames := frames s\<rparr>)"
  proof -
    have "s0\<lparr>frames := frames s\<rparr> = s\<lparr>pcs := (pcs s)(w := Loop 0)\<rparr>" by (simp add: s0_def)
    then show ?thesis
      by (cases "reqq_push (res_queue (pool s)) req (reqs s)")
        (auto simp: proc_result_def push_result_def Let_def intro: etp_state.equality)
  qed
  then show ?thesis using s' by auto
qed

text \<open>The crew: linking a new worker in and a leaving one out.\<close>

lemma etp_worker_free_unlink:
  "etp_worker_free w m = map_option (\<lambda>m. m(w := None)) (list_unlink w m)"
  by (auto simp: etp_worker_free_def list_unlink_def list_del_between_def split: bind_splits)

lemma worker_free_ok:
  assumes "circ m h (xs @ w # ys)"
  obtains m' where "etp_worker_free w m = Some m'" "circ m' h (xs @ ys)"
proof -
  obtain m1 where m1: "list_unlink w m = Some m1" "circ m1 h (xs @ ys)" by (rule circ_unlink [OF assms])
  have "w \<notin> set (h # xs @ ys)" using assms by (auto simp: circ_def ring_def)
  then have "(m1(w := None)) q = m1 q" if "q \<in> set (h # xs @ ys)" for q using that by auto
  then have "ring (next_of (m1(w := None))) (prev_of (m1(w := None))) h (xs @ ys) = ring (next_of m1) (prev_of m1) h (xs @ ys)"
    by (intro ring_cong) (simp add: next_of_def prev_of_def)
  then have "circ (m1(w := None)) h (xs @ ys)" using m1(2) by (simp add: circ_def)
  with m1(1) show ?thesis by (intro that [of "m1(w := None)"]) (simp_all add: etp_worker_free_unlink)
qed

lemma quit_ok:
  assumes ok: "pool_ok s ls rs ws" and pc: "pcs s w = Quitting req"
  shows "\<exists>s' ws'. proc_quit w req s = Some s' \<and> pool_ok s' ls rs ws'"
proof -
  note D = poolD [OF ok]
  have w: "w \<in> set ws" "distinct ws" using crewD [OF D(2)] pc by auto
  obtain xs ys where ws: "ws = xs @ w # ys" using w(1) by (auto simp: in_set_conv_decomp)
  have off: "w \<notin> set (xs @ ys)" using w(2) ws by auto
  obtain m where m: "etp_worker_free w (wlinks s) = Some m" "circ m WRK_FIRST (xs @ ys)"
    by (rule worker_free_ok [of "wlinks s" WRK_FIRST xs w ys]) (use D(2) ws in \<open>auto simp: crew_def\<close>)
  define h where "h = (if req \<noteq> 0 then (reqs s)(req := None) else reqs s)"
  define s' where "s' = s\<lparr>reqs := h, wlinks := m, pcs := (pcs s)(w := Gone),
    left := (if req \<noteq> 0 then req # left s else left s)\<rparr>"
  have step: "proc_quit w req s = Some s'"
    using m(1) by (cases "req = 0") (simp_all add: proc_quit_def s'_def h_def Let_def)
  have pl: "places s ls rs ws = places s' ls rs (xs @ ys) + held (Quitting req)"
    using sum_off [OF off, of held "pcs s" Gone] pc by (simp add: places_def s'_def ws ac_simps)
  have gone: "req \<notin># places s' ls rs (xs @ ys)" if "req \<noteq> 0"
  proof (rule owned_once)
    show "owned (reqs s) (add_mset req (places s' ls rs (xs @ ys)))" using D(3) that unfolding pl by simp
  qed
  have k: "kind (h x) = kind (reqs s x)" if "x \<in># places s' ls rs (xs @ ys)" for x
    using gone that by (cases "req = 0") (auto simp: h_def)
  have "pool_ok s' ls rs (xs @ ys)"
  proof -
    have own': "owned (reqs s) (places s' ls rs (xs @ ys))"
      using D(3) unfolding pl by (rule owned_left)
    have "queues s' ls rs"
    proof -
      have "h x = reqs s x" if "x \<in> set (concat ls) \<or> x \<in> set (concat rs)" for x
        using gone that by (auto simp: h_def places_def s'_def)
      then have "reqq_repr h q ls = reqq_repr (reqs s) q ls" "reqq_repr h q rs = reqq_repr (reqs s) q rs" for q
        by (intro reqq_repr_cong; simp)+
      then show ?thesis using D(1) by (simp add: queues_def s'_def)
    qed
    moreover have "crew s' (xs @ ys)" using D(2) m(2) off ws by (auto simp: crew_def s'_def)
    moreover have "owned (reqs s') (places s' ls rs (xs @ ys))"
      using own' by (rule owned_kind [rotated]) (simp add: s'_def k)
    moreover have "typed s' rs"
    proof -
      have iq: "is_quit h a \<Longrightarrow> is_quit (reqs s) a" for a by (auto simp: h_def is_quit_def split: if_splits)
      have "pc_typed h (pcs s' v)" for v
      proof (cases "v = w")
        case False
        have t: "pc_typed (reqs s) (pcs s v)" using D(4) unfolding typed_def by blast
        have "held (pcs s v) \<subseteq># places s' ls rs (xs @ ys)" if "pcs s v \<noteq> Gone"
        proof -
          have "v \<in> set (xs @ ys)" using crewD(4) [OF D(2) that] ws False by auto
          then obtain as bs where "xs @ ys = as @ v # bs" by (meson split_list)
          then show ?thesis using False by (simp add: places_def s'_def ac_simps)
        qed
        then have "is_quit h a = is_quit (reqs s) a" if "pcs s v = Quitting a" "a \<noteq> 0" for a
          using that by (intro is_quit_kind k) auto
        with t False iq show ?thesis by (cases "pcs s v") (auto simp: s'_def)
      qed (simp add: s'_def)
      then show ?thesis using D(4) iq unfolding typed_def by (auto simp: s'_def)
    qed
    moreover have "counted s' ls rs (xs @ ys)"
    proof -
      have n: "num_quits h (places s' ls rs (xs @ ys)) = num_quits (reqs s) (places s' ls rs (xs @ ys))"
        by (rule num_quits_kind) (rule k)
      have q: "req = 0 \<or> is_quit (reqs s) req" using D(4) pc unfolding typed_def by (metis pc_typed.simps(2))
      have nq: "num_quits (reqs s) (places s ls rs ws) =
          num_quits (reqs s) (places s' ls rs (xs @ ys)) + (if req = 0 then 0 else 1)"
        unfolding pl using q by (auto simp: num_quits_def)
      have sz: "size (places s ls rs ws) = size (places s' ls rs (xs @ ys)) + (if req = 0 then 0 else 1)"
        unfolding pl by simp
      have a: "(\<Sum>v\<leftarrow>ws. is_active (pcs s v)) = (\<Sum>v\<leftarrow>xs @ ys. is_active (pcs s' v)) + (if req = 0 then 0 else 1)"
        using sum_off [OF off, of is_active "pcs s" Gone] pc by (simp add: ws s'_def)
      have i: "(\<Sum>v\<leftarrow>ws. is_waiting (pcs s v)) = (\<Sum>v\<leftarrow>xs @ ys. is_waiting (pcs s' v))"
        using sum_off [OF off, of is_waiting "pcs s" Gone] pc by (simp add: ws s'_def)
      have rest: "pool s' = pool s" "sent_quits s' = sent_quits s" "frames s' = frames s" "delayed s' = delayed s" "reqs s' = h"
        by (simp_all add: s'_def)
      show ?thesis using D(5) unfolding counted_def rest n a i nq sz by (cases "req = 0") (auto simp: algebra_simps)
    qed
    moreover have "logged s' ls rs (xs @ ys)"
    proof -
      have "mset (entered s') = mset (left s') + places s' ls rs (xs @ ys)"
        using D(6) unfolding logged_def pl by (simp add: s'_def)
      then show ?thesis using D(6) unfolding logged_def by (simp add: s'_def)
    qed
    ultimately show ?thesis by (simp add: pool_ok_def)
  qed
  with step show ?thesis by blast
qed

lemma start_ok:
  assumes ok: "pool_ok s ls rs ws" and wrk: "wrk \<noteq> 0" "wlinks s wrk = None"
  shows "\<exists>s' ws'. etp_start_thread wrk created s = Some s' \<and> pool_ok s' ls rs ws'"
proof (cases created)
  case False
  then show ?thesis using ok wrk by (auto simp: etp_start_thread_def)
next
  case True
  note D = poolD [OF ok]
  have c: "circ (wlinks s) WRK_FIRST ws" using D(2) by (simp add: crew_def)
  have off: "wrk \<notin> set (WRK_FIRST # ws)" using circ_dom [OF c] wrk(2) by auto
  define m0 where "m0 = (wlinks s)(wrk \<mapsto> \<lparr>lnext = 0, lprev = 0\<rparr>)"
  have m0: "circ m0 WRK_FIRST ws"
  proof -
    have "ring (next_of m0) (prev_of m0) WRK_FIRST ws = ring (next_of (wlinks s)) (prev_of (wlinks s)) WRK_FIRST ws"
      by (rule ring_cong) (use off in \<open>auto simp: m0_def next_of_def prev_of_def\<close>)
    then show ?thesis using c by (simp add: circ_def)
  qed
  obtain m where m: "list_add wrk WRK_FIRST m0 = Some m" "circ m WRK_FIRST (wrk # ws)"
    by (rule list_add_ok [OF m0 off wrk(1)]) (auto simp: m0_def)
  obtain f where f: "wlinks s WRK_FIRST = Some f" using circ_dom [OF c, of WRK_FIRST] by auto
  have fne: "lnext f \<in> set (WRK_FIRST # ws)"
    using circ_head [OF c] f hd_ring [of ws WRK_FIRST] by (simp add: next_of_def)
  then obtain g where g: "wlinks s (lnext f) = Some g" using circ_dom [OF c] by blast
  have ne: "wrk \<noteq> WRK_FIRST" "lnext f \<noteq> wrk" using off fne by auto
  define s' where "s' = s\<lparr>pool := (pool s)\<lparr>started := started (pool s) + 1\<rparr>, wlinks := m, pcs := (pcs s)(wrk := Loop 0)\<rparr>"
  have step: "etp_start_thread wrk created s = Some s'"
  proof -
    have "do { m \<leftarrow> set_prev wrk WRK_FIRST m0; n \<leftarrow> next_of m WRK_FIRST; m \<leftarrow> set_next wrk n m; n \<leftarrow> next_of m WRK_FIRST;
        m \<leftarrow> set_prev n wrk m; set_next WRK_FIRST wrk m } = list_add wrk WRK_FIRST m0"
      using f g ne unfolding list_add_def list_add_between_def m0_def
      by (cases "lnext f = WRK_FIRST") (auto simp: set_prev_def set_next_def next_of_def fun_eq_iff)
    then show ?thesis using m(1) wrk(1) True unfolding etp_start_thread_def m0_def Let_def s'_def
      by (auto split: bind_splits)
  qed
  have g0: "pcs s wrk = Gone" using D(2) off unfolding crew_def by auto
  have offw: "wrk \<notin> set ws" using off by simp
  note sums = sum_off [OF offw, of held "pcs s" "Loop 0"] sum_off [OF offw, of is_active "pcs s" "Loop 0"]
    sum_off [OF offw, of is_waiting "pcs s" "Loop 0"]
  have pl: "places s' ls rs (wrk # ws) = places s ls rs ws" using sums by (simp add: places_def s'_def)
  have "pool_ok s' ls rs (wrk # ws)"
  proof -
    have "queues s' ls rs" using D(1) by (simp add: queues_def s'_def)
    moreover have "crew s' (wrk # ws)" using D(2) m(2) by (auto simp: crew_def s'_def)
    moreover have "typed s' rs" using D(4) by (auto simp: typed_def s'_def)
    moreover have "counted s' ls rs (wrk # ws)"
      using D(5) sums unfolding counted_def pl by (simp add: s'_def algebra_simps)
    moreover have "logged s' ls rs (wrk # ws)" using D(6) unfolding logged_def pl by (simp add: s'_def)
    ultimately show ?thesis using D(3) pl by (simp add: pool_ok_def s'_def)
  qed
  with step show ?thesis by blast
qed

lemma maybe_start_ok:
  assumes "pool_ok s ls rs ws" "wrk \<noteq> 0" "wlinks s wrk = None"
  shows "\<exists>s' ws'. etp_maybe_start_thread wrk created s = Some s' \<and> pool_ok s' ls rs ws'"
  using start_ok [OF assms, of created] assms(1) by (auto simp: etp_maybe_start_thread_def)

text \<open>Without memory the section completes only when no worker is to be started.\<close>

definition wants_thread :: "etp_state \<Rightarrow> bool" where
  "wants_thread s = (etp_nthreads s < wanted (pool s) \<and> sint (etp_nthreads s + etp_npending s - etp_nreqs s) < 0)"

lemma maybe_start_null: "etp_maybe_start_thread 0 created s = (if wants_thread s then None else Some s)"
  by (auto simp: etp_maybe_start_thread_def etp_start_thread_def wants_thread_def)

lemma maybe_start_any:
  assumes "pool_ok s ls rs ws" "wrk \<noteq> 0 \<Longrightarrow> wlinks s wrk = None" "etp_maybe_start_thread wrk created s = Some s'"
  shows "\<exists>ws'. pool_ok s' ls rs ws'"
  using assms maybe_start_ok [OF assms(1), of wrk created] by (cases "wrk = 0") (auto simp: maybe_start_null split: if_splits)

text \<open>Entering: a fresh request in a heap that is otherwise the same.\<close>

lemma owned_add:
  assumes "owned h M" and "x \<notin># M" "x \<noteq> 0" "h' x = Some r" "0 \<le> sint (pri r)" "sint (pri r) < int ETP_NUM_PRI"
    and "\<And>y. y \<in># M \<Longrightarrow> kind (h' y) = kind (h y)"
  shows "owned h' (add_mset x M)"
proof -
  have "owned h' M" using assms(7,1) by (rule owned_kind)
  then have "count (add_mset x M) y \<le> 1" for y
    using assms(2) by (cases "y = x") (auto simp: owned_def count_eq_zero_iff)
  moreover have "y \<noteq> 0 \<and> (\<exists>r. h' y = Some r \<and> 0 \<le> sint (pri r) \<and> sint (pri r) < int ETP_NUM_PRI)"
    if "y \<in># add_mset x M" for y
    using that \<open>owned h' M\<close> assms(3-6) unfolding owned_def by (cases "y = x") auto
  ultimately show ?thesis unfolding owned_def by blast
qed

lemma queues_fresh:
  assumes "queues s ls rs" and "reqs s a = None"
  shows "a \<notin> set (concat ls)" "a \<notin> set (concat rs)"
  using assms reqq_repr_mem(2) unfolding queues_def by blast+

lemma reqq_repr_off: "a \<notin> set (concat ls) \<Longrightarrow> reqq_repr (h(a := v)) q ls = reqq_repr h q ls"
  by (rule reqq_repr_cong) auto

lemma places_fresh:
  assumes "pool_ok s ls rs ws" and "reqs s a = None"
  shows "a \<notin># places s ls rs ws"
  using poolD(3) [OF assms(1)] assms(2) by (auto elim!: owned_dest)

lemma typed_fresh:
  assumes "pool_ok s ls rs ws" and "reqs s a = None" and "\<And>x. x \<noteq> a \<Longrightarrow> kind (h x) = kind (reqs s x)" 
  shows "pc_typed h (pcs s w)"
proof -
  note D = poolD [OF assms(1)]
  have t: "pc_typed (reqs s) (pcs s w)" using D(4) unfolding typed_def by blast
  have iq: "is_quit h x = is_quit (reqs s) x" if "x \<noteq> a" for x by (rule is_quit_kind) (rule assms(3) [OF that])
  have "held (pcs s w) \<subseteq># places s ls rs ws" if "pcs s w \<noteq> Gone"
  proof -
    have "w \<in> set ws" by (rule crewD(4) [OF D(2) that])
    then obtain as bs where "ws = as @ w # bs" by (auto simp: in_set_conv_decomp)
    then show ?thesis by (simp add: places_def ac_simps)
  qed
  then have "a \<notin># held (pcs s w)"
    using places_fresh [OF assms(1,2)] by (cases "pcs s w = Gone") (auto dest: mset_subset_eqD)
  then show ?thesis using t iq by (cases "pcs s w") (auto split: if_splits)
qed

lemma submit_pri_range: "0 \<le> sint (submit_pri p)" "sint (submit_pri p) < int ETP_NUM_PRI"
  by (auto simp: submit_pri_def Let_def ETP_PRI_MIN_def ETP_PRI_MAX_def)

lemma submit_pri_shifts:
  assumes "sint p \<le> 123"
  shows "sint (submit_pri p) = max 0 (min 8 (sint p + 4))"
proof -
  have lo: "- 128 \<le> sint p" using sint_ge [of p] by simp
  have "sint (p + 4) = signed_take_bit 7 (sint p + 4)" by (simp add: sint_word_ariths)
  also have "\<dots> = sint p + 4" by (rule signed_take_bit_int_eq_self) (use lo assms in simp_all)
  finally show ?thesis by (auto simp: submit_pri_def Let_def ETP_PRI_MIN_def ETP_PRI_MAX_def)
qed

lemma submit_pri_wraps: "submit_pri 127 = 0"
  by (simp add: submit_pri_def Let_def ETP_PRI_MIN_def ETP_PRI_MAX_def)

lemma num_quits_add: "num_quits h (add_mset x M) = num_quits h M + (if is_quit h x then 1 else 0)"
  by (simp add: num_quits_def)

lemma submit_ok:
  assumes ok: "pool_ok s ls rs ws" and req: "req \<noteq> 0" "reqs s req = None" and nq: "rtype r \<noteq> ETP_TYPE_QUIT"
  shows "\<exists>s' ls'. etp_submit req (s\<lparr>reqs := (reqs s)(req \<mapsto> r)\<rparr>) = Some s' \<and> pool_ok s' ls' rs ws"
proof -
  note D = poolD [OF ok]
  note new = queues_fresh [OF D(1) req(2)] places_fresh [OF ok req(2)]
  define r1 where "r1 = r\<lparr>pri := submit_pri (pri r)\<rparr>"
  define h where "h = (reqs s)(req \<mapsto> r1)"
  have hq: "reqq_repr h (req_queue (pool s)) ls" "reqq_repr h (res_queue (pool s)) rs"
    using D(1) new(1,2) by (simp_all add: queues_def h_def reqq_repr_off)
  have h: "h req = Some r1" "0 \<le> sint (pri r1)" "sint (pri r1) < int ETP_NUM_PRI"
    using submit_pri_range by (simp_all add: h_def r1_def)
  have k: "kind (h x) = kind (reqs s x)" if "x \<noteq> req" for x using that by (simp add: h_def)
  have common: "pool_ok s' ls' rs ws"
    if s': "kind \<circ> reqs s' = kind \<circ> h" "queues s' ls' rs" "wlinks s' = wlinks s" "pcs s' = pcs s" "delayed s' = delayed s"
      "polls s' = polls s" "sent_quits s' = sent_quits s" "entered s' = req # entered s" "left s' = left s"
      "frames s' = f # frames s" "is_ending f = 0" "is_finishing f = 0" "fheld f = {#} \<or> fheld f = {#req#}"
      and pl: "places s' ls' rs ws = add_mset req (places s ls rs ws)"
      and p: "npending (pool s') = npending (pool s)" "idle (pool s') = idle (pool s)" "started (pool s') = started (pool s)"
      "nreqs (pool s') = nreqs (pool s) + 1"
      and n: "nready (pool s') + of_nat (sent_quits s) = of_nat (length (concat ls'))"
    for s' ls' f
  proof -
    have k': "kind (reqs s' x) = kind (h x)" for x using s'(1) by (metis comp_apply)
    have kk: "kind (reqs s' x) = kind (reqs s x)" if "x \<noteq> req" for x using k' k that by metis
    obtain r2 where r2: "reqs s' req = Some r2" "rtype r2 = rtype r1" "pri r2 = pri r1"
      using k' [of req] h(1) by (cases "reqs s' req") (auto simp: kind_def)
    have iq: "is_quit (reqs s') x = (if x = req then False else is_quit (reqs s) x)" for x
      using kk [of x] is_quit_kind [of "reqs s'" x "reqs s"] r2 nq by (auto simp: is_quit_def r1_def)
    have nqs: "num_quits (reqs s') (places s ls rs ws) = num_quits (reqs s) (places s ls rs ws)"
      by (rule num_quits_kind) (use kk new(3) in metis)
    have "owned (reqs s') (places s' ls' rs ws)" unfolding pl
    proof (rule owned_add [where h = "reqs s" and r = r2])
      show "kind (reqs s' y) = kind (reqs s y)" if "y \<in># places s ls rs ws" for y
        by (rule kk) (use that new(3) in blast)
    qed (use D(3) new(3) req(1) r2 h in simp_all)
    moreover have "crew s' ws" using D(2) s' by (simp add: crew_def)
    moreover have "typed s' rs"
    proof -
      have "pc_typed (reqs s') (pcs s w)" for w by (rule typed_fresh [OF ok req(2)]) (rule kk)
      then show ?thesis using D(4) s' iq unfolding typed_def by auto
    qed
    moreover have "counted s' ls' rs ws"
      using D(5) s' p n iq unfolding counted_def pl num_quits_add nqs by (simp add: algebra_simps)
    moreover have "logged s' ls' rs ws" using D(6) s' unfolding logged_def pl by simp
    ultimately show ?thesis using s'(2) by (simp add: pool_ok_def)
  qed
  show ?thesis
  proof (cases "rtype r = EIO_GROUP")
    case True
    define s' where "s' = s\<lparr>reqs := h, entered := req # entered s, pool := (pool s)\<lparr>nreqs := nreqs (pool s) + 1\<rparr>,
      frames := Submit_res req # frames s\<rparr>"
    have "etp_submit req (s\<lparr>reqs := (reqs s)(req \<mapsto> r)\<rparr>) = Some s'"
      using True by (simp add: etp_submit_def Let_def s'_def h_def r1_def)
    moreover have "pool_ok s' ls rs ws"
      by (rule common [where f = "Submit_res req"])
        (use hq D(5) in \<open>simp_all add: s'_def queues_def places_def counted_def\<close>)
    ultimately show ?thesis by blast
  next
    case False
    obtain q' h' ls' where push: "reqq_push (req_queue (pool s)) req h = Some (int (length (concat ls)), q', h')"
      "reqq_repr h' q' ls'" "reqq_repr h' (res_queue (pool s)) rs" "\<And>x. kind (h' x) = kind (h x)"
      and ms: "mset (concat ls') = add_mset req (mset (concat ls))"
      using push_ok [OF hq queues_disjoint [OF D(3)] new(1,2) h(1) req(1) h(2,3)] by blast
    have ln: "length (concat ls') = Suc (length (concat ls))" using arg_cong [OF ms, of size] by simp
    define s' where "s' = s\<lparr>reqs := h', entered := req # entered s,
      pool := (pool s)\<lparr>nreqs := nreqs (pool s) + 1, nready := nready (pool s) + 1, req_queue := q'\<rparr>,
      frames := Submit_start # frames s\<rparr>"
    have "etp_submit req (s\<lparr>reqs := (reqs s)(req \<mapsto> r)\<rparr>) = Some s'"
      using False push(1) by (simp add: etp_submit_def Let_def s'_def h_def r1_def)
    moreover have "pool_ok s' ls' rs ws"
      by (rule common [where f = Submit_start])
        (use push ms ln D(5) in \<open>simp_all add: s'_def queues_def places_def counted_def fun_eq_iff algebra_simps\<close>)
    ultimately show ?thesis by blast
  qed
qed

lemma end_push_ok:
  assumes ok: "pool_ok s ls rs ws" and fr: "frames s = Max_parallel # fs" and req: "req \<noteq> 0" "reqs s req = None"
  shows "\<exists>s' ls'. end_thread_push req (s\<lparr>frames := End_started # fs\<rparr>) = Some s' \<and> pool_ok s' ls' rs ws"
proof -
  note D = poolD [OF ok]
  note new = queues_fresh [OF D(1) req(2)] places_fresh [OF ok req(2)]
  define h where "h = (reqs s)(req \<mapsto> quit_req)"
  have hq: "reqq_repr h (req_queue (pool s)) ls" "reqq_repr h (res_queue (pool s)) rs"
    using D(1) new(1,2) by (simp_all add: queues_def h_def reqq_repr_off)
  have h: "h req = Some quit_req" "0 \<le> sint (pri quit_req)" "sint (pri quit_req) < int ETP_NUM_PRI"
    by (simp_all add: h_def quit_req_def ETP_PRI_MAX_def ETP_PRI_MIN_def)
  obtain q' h' ls' where push: "reqq_push (req_queue (pool s)) req h = Some (int (length (concat ls)), q', h')"
    "reqq_repr h' q' ls'" "reqq_repr h' (res_queue (pool s)) rs" "\<And>x. kind (h' x) = kind (h x)"
    and ms: "mset (concat ls') = add_mset req (mset (concat ls))"
    using push_ok [OF hq queues_disjoint [OF D(3)] new(1,2) h(1) req(1) h(2,3)] by blast
  have ln: "length (concat ls') = Suc (length (concat ls))" using arg_cong [OF ms, of size] by simp
  define s' where "s' = s\<lparr>frames := End_started # fs, pool := (pool s)\<lparr>req_queue := q'\<rparr>, reqs := h',
    sent_quits := sent_quits s + 1, entered := req # entered s\<rparr>"
  have kk: "kind (h' x) = kind (reqs s x)" if "x \<noteq> req" for x using push(4) that by (simp add: h_def)
  obtain r2 where r2: "h' req = Some r2" "rtype r2 = ETP_TYPE_QUIT" "pri r2 = pri quit_req"
    using push(4) [of req] h(1) by (cases "h' req") (auto simp: kind_def quit_req_def)
  have iq: "is_quit h' x = (if x = req then True else is_quit (reqs s) x)" for x
    using kk [of x] is_quit_kind [of h' x "reqs s"] r2 by (auto simp: is_quit_def)
  have nqs: "num_quits h' (places s ls rs ws) = num_quits (reqs s) (places s ls rs ws)"
    by (rule num_quits_kind) (use kk new(3) in metis)
  have pl: "places s' ls' rs ws = add_mset req (places s ls rs ws)" using ms by (simp add: places_def s'_def fr)
  have "end_thread_push req (s\<lparr>frames := End_started # fs\<rparr>) = Some s'"
    using push(1) req(1) by (simp add: end_thread_push_def s'_def h_def)
  moreover have "pool_ok s' ls' rs ws"
  proof -
    have "owned (reqs s') (places s' ls' rs ws)" unfolding pl
    proof (rule owned_add [where h = "reqs s" and r = r2])
      show "kind (reqs s' y) = kind (reqs s y)" if "y \<in># places s ls rs ws" for y
        using kk [of y] that new(3) by (auto simp: s'_def)
    qed (use D(3) new(3) req(1) r2 h in \<open>simp_all add: s'_def\<close>)
    moreover have "queues s' ls' rs" using push by (simp add: queues_def s'_def)
    moreover have "crew s' ws" using D(2) by (simp add: crew_def s'_def)
    moreover have "typed s' rs"
    proof -
      have t: "pc_typed h' (pcs s w)" for w by (rule typed_fresh [OF ok req(2)]) (rule kk)
      have "req \<notin> set (concat rs) \<and> req \<notin># (\<Sum>f\<leftarrow>frames s. fheld f) \<and> req \<notin> set (delayed s)"
        using new(3) by (auto simp: places_def)
      then show ?thesis using D(4) t iq unfolding typed_def by (auto simp: s'_def fr)
    qed
    moreover have "counted s' ls' rs ws"
      using D(5) ln iq unfolding counted_def pl num_quits_add by (simp add: s'_def fr nqs algebra_simps)
    moreover have "logged s' ls' rs ws" using D(6) unfolding logged_def pl by (simp add: s'_def)
    ultimately show ?thesis by (simp add: pool_ok_def)
  qed
  ultimately show ?thesis by blast
qed

lemma poll_shift_ok:
  assumes ok: "pool_ok s ls rs ws" and fr: "frames s = Poll_shift v # fs"
  shows "\<exists>s' rs'. poll_shift v fs s = Some s' \<and> pool_ok s' ls rs' ws"
proof -
  note D = poolD [OF ok]
  have q: "reqq_repr (reqs s) (res_queue (pool s)) rs" using D(1) by (simp add: queues_def)
  have len: "length rs = ETP_NUM_PRI" using q by (simp add: reqq_repr_def)
  show ?thesis
  proof (cases "queue_shift ETP_NUM_PRI rs")
    case None
    then have sh: "reqq_shift (res_queue (pool s)) (reqs s) = Some (0, res_queue (pool s))"
      using reqq_shift_ok [OF q] by simp
    have "pool_ok (s\<lparr>frames := fs\<rparr>) ls rs ws" by (rule frames_ok [OF ok]) (simp_all add: fr)
    moreover have "poll_shift v fs s = Some (s\<lparr>frames := fs\<rparr>)" by (simp add: poll_shift_def sh Let_def)
    ultimately show ?thesis by blast
  next
    case (Some a)
    obtain x rs' where a: "a = (x, rs')" by fastforce
    obtain q' where sh: "reqq_shift (res_queue (pool s)) (reqs s) = Some (x, q')" and x: "x \<noteq> 0"
      and q': "reqq_repr (reqs s) q' rs'"
      using reqq_shift_ok [OF q] Some a by auto
    have ms: "mset (concat rs) = add_mset x (mset (concat rs'))"
      using queue_shift_mset [of ETP_NUM_PRI rs x rs'] Some a len by simp
    have ln: "length (concat rs) = Suc (length (concat rs'))" using arg_cong [OF ms, of size] by simp
    have st: "set (concat rs) = insert x (set (concat rs'))" using arg_cong [OF ms, of set_mset] by simp
    have qz: "qsize q' = 0 \<longleftrightarrow> concat rs' = []" using q' by (simp add: reqq_repr_def)
    define s' where "s' = s\<lparr>pool := (pool s)\<lparr>res_queue := q', npending := npending (pool s) - 1\<rparr>, frames := Poll_took x v # fs,
      polls := (if concat rs' = [] then Done # polls s else polls s)\<rparr>"
    have "poll_shift v fs s = Some s'"
      using x qz by (simp add: poll_shift_def sh s'_def Let_def del: concat_eq_Nil_conv)
    moreover have "pool_ok s' ls rs' ws"
    proof -
      have pl: "places s' ls rs' ws = places s ls rs ws" using ms by (simp add: places_def s'_def fr)
      have "queues s' ls rs'" using D(1) q' by (simp add: queues_def s'_def)
      moreover have "crew s' ws" using D(2) by (simp add: crew_def s'_def)
      moreover have "typed s' rs'" using D(4) unfolding typed_def by (simp add: s'_def fr st del: set_concat)
      moreover have "counted s' ls rs' ws"
        using D(5) ln unfolding counted_def pl by (simp add: s'_def fr algebra_simps)
      moreover have "logged s' ls rs' ws"
      proof -
        have "concat rs \<noteq> []" using ln by (cases "concat rs") auto
        then show ?thesis using D(6) unfolding logged_def pl
          by (auto simp: s'_def intro: alternates_Done simp del: concat_eq_Nil_conv)
      qed
      ultimately show ?thesis using D(3) pl by (simp add: pool_ok_def s'_def)
    qed
    ultimately show ?thesis by blast
  qed
qed

lemma took_ok:
  assumes ok: "pool_ok s ls rs ws" and fr: "frames s = Poll_took req v # fs"
  shows "\<exists>s'. poll_took req v fs s = Some s' \<and> pool_ok s' ls rs ws"
proof -
  note D = poolD [OF ok]
  have "req \<in># places s ls rs ws" by (simp add: places_def fr)
  with D(3) obtain r where r: "reqs s req = Some r" "req \<noteq> 0" by (rule owned_dest)
  define p where "p = (pool s)\<lparr>nreqs := nreqs (pool s) - 1\<rparr>"
  have move: "pool_ok (s\<lparr>pool := p, frames := fs', delayed := ds\<rparr>) ls rs ws"
    if "fs' = Poll_start v # fs \<and> ds = req # delayed s \<or> fs' = In_finish req v # fs \<and> ds = delayed s" for fs' ds
  proof -
    let ?s = "s\<lparr>pool := p, frames := fs', delayed := ds\<rparr>"
    have pl: "places ?s ls rs ws = places s ls rs ws" using that by (auto simp: places_def fr)
    have "queues ?s ls rs" using D(1) by (simp add: queues_def p_def)
    moreover have "crew ?s ws" using D(2) by (simp add: crew_def)
    moreover have "typed ?s rs"
    proof -
      have "\<forall>x. x \<in># (\<Sum>f\<leftarrow>fs'. fheld f) \<or> x \<in> set ds \<longrightarrow>
          x \<in># (\<Sum>f\<leftarrow>frames s. fheld f) \<or> x \<in> set (delayed s)" using that fr by auto
      then show ?thesis using D(4) unfolding typed_def by (simp del: set_concat set_mset_sum_list) blast
    qed
    moreover have "counted ?s ls rs ws"
      using D(5) that unfolding counted_def pl by (auto simp: fr p_def algebra_simps)
    moreover have "logged ?s ls rs ws" using D(6) unfolding logged_def pl by simp
    ultimately show ?thesis using D(3) pl by (simp add: pool_ok_def)
  qed
  show ?thesis
  proof (cases "rtype r = EIO_GROUP \<and> rsize r \<noteq> 0")
    case True
    let ?s = "s\<lparr>pool := p, frames := Poll_start v # fs, delayed := req # delayed s\<rparr>"
    have "pool_ok (?s\<lparr>reqs := (reqs ?s)(req \<mapsto> r\<lparr>rflags := or (rflags r) ETP_FLAG_DELAYED\<rparr>)\<rparr>) ls rs ws"
      by (rule members_ok [OF move]) (use r in \<open>auto simp: core_def\<close>)
    moreover have "?s\<lparr>reqs := (reqs ?s)(req \<mapsto> r\<lparr>rflags := or (rflags r) ETP_FLAG_DELAYED\<rparr>)\<rparr> =
        s\<lparr>pool := p, reqs := (reqs s)(req \<mapsto> r\<lparr>rflags := or (rflags r) ETP_FLAG_DELAYED\<rparr>),
          frames := Poll_start v # fs, delayed := req # delayed s\<rparr>"
      by (rule etp_state.equality) simp_all
    ultimately have "pool_ok (s\<lparr>pool := p, reqs := (reqs s)(req \<mapsto> r\<lparr>rflags := or (rflags r) ETP_FLAG_DELAYED\<rparr>),
          frames := Poll_start v # fs, delayed := req # delayed s\<rparr>) ls rs ws"
      by (simp only:)
    then show ?thesis using True r by (simp add: poll_took_def p_def Let_def)
  next
    case False
    have "pool_ok (s\<lparr>pool := p, frames := In_finish req v # fs, delayed := delayed s\<rparr>) ls rs ws" by (rule move) simp
    then show ?thesis using False r by (auto simp: poll_took_def p_def Let_def)
  qed
qed

text \<open>Leaving: a finished request is freed.\<close>

lemma leave_ok:
  assumes ok: "pool_ok s ls rs ws" and pl: "places s ls rs ws = add_mset a (places s' ls rs ws)"
    and nq: "\<not> is_quit (reqs s) a"
    and s': "reqs s' = (reqs s)(a := None)" "pool s' = pool s" "wlinks s' = wlinks s" "pcs s' = pcs s" "polls s' = polls s"
      "sent_quits s' = sent_quits s" "entered s' = entered s" "left s' = a # left s"
    and sub: "(\<Sum>f\<leftarrow>frames s'. fheld f) \<subseteq># (\<Sum>f\<leftarrow>frames s. fheld f)" "set (delayed s') \<subseteq> set (delayed s)"
    and cnt: "length (delayed s) + (\<Sum>f\<leftarrow>frames s. is_finishing f) = Suc (length (delayed s') + (\<Sum>f\<leftarrow>frames s'. is_finishing f))"
      "(\<Sum>f\<leftarrow>frames s'. is_ending f) = (\<Sum>f\<leftarrow>frames s. is_ending f)"
  shows "pool_ok s' ls rs ws"
proof -
  note D = poolD [OF ok]
  have gone: "a \<notin># places s' ls rs ws" using D(3) unfolding pl by (rule owned_once)
  have k: "kind (reqs s' x) = kind (reqs s x)" if "x \<in># places s' ls rs ws" for x using gone that by (auto simp: s')
  have iq: "is_quit (reqs s') x = is_quit (reqs s) x" for x using nq by (auto simp: s' is_quit_def)
  have nqs: "num_quits (reqs s') (places s' ls rs ws) = num_quits (reqs s) (places s' ls rs ws)"
    by (rule num_quits_kind) (rule k)
  have "owned (reqs s) (places s' ls rs ws + {#a#})" using D(3) unfolding pl by simp
  then have "owned (reqs s) (places s' ls rs ws)" by (rule owned_left)
  then have "owned (reqs s') (places s' ls rs ws)" by (rule owned_kind [rotated]) (rule k)
  moreover have "queues s' ls rs"
  proof -
    have "a \<notin> set (concat ls)" "a \<notin> set (concat rs)" using gone by (auto simp: places_def)
    then show ?thesis using D(1) by (simp add: queues_def s' reqq_repr_off)
  qed
  moreover have "crew s' ws" using D(2) by (simp add: crew_def s')
  moreover have "typed s' rs"
  proof -
    have pt: "pc_typed (reqs s') c = pc_typed (reqs s) c" for c by (cases c) (simp_all add: iq)
    have "x \<in># (\<Sum>f\<leftarrow>frames s. fheld f)" if "x \<in># (\<Sum>f\<leftarrow>frames s'. fheld f)" for x
      using that sub(1) by (rule mset_subset_eqD [rotated])
    then show ?thesis using D(4) sub(2) unfolding typed_def iq s'(4) pt by blast
  qed
  moreover have "counted s' ls rs ws"
  proof -
    have "of_nat (length (delayed s) + (\<Sum>f\<leftarrow>frames s. is_finishing f)) =
        (of_nat (Suc (length (delayed s') + (\<Sum>f\<leftarrow>frames s'. is_finishing f))) :: u32)"
      by (rule arg_cong [OF cnt(1)])
    then have c: "of_nat (length (delayed s)) + of_nat (\<Sum>f\<leftarrow>frames s. is_finishing f) =
        (1 + (of_nat (length (delayed s')) + of_nat (\<Sum>f\<leftarrow>frames s'. is_finishing f)) :: u32)"
      by simp
    have word: "n + (x' + y' + q) = z" if "x + y = 1 + (x' + y')" "n + (x + y + q) = 1 + z" for n x y x' y' q z :: u32
    proof -
      have "x = 1 + x' + y' - y" using that(1) by (simp add: algebra_simps)
      with that(2) show ?thesis by (simp add: algebra_simps)
    qed
    show ?thesis
      using D(5) nq word [OF c] unfolding counted_def pl num_quits_add nqs cnt(2) s'(2-8) by simp
  qed
  moreover have "logged s' ls rs ws" using D(6) unfolding logged_def pl s' by simp
  ultimately show ?thesis by (simp add: pool_ok_def)
qed

lemma finished_ok:
  assumes ok: "pool_ok s ls rs ws" and fr: "frames s = In_finish req v # fs"
  shows "pool_ok (poll_finished req res now v fs s) ls rs ws"
proof -
  note D = poolD [OF ok]
  have "\<not> is_quit (reqs s) req" using D(4) by (simp add: typed_def fr)
  moreover have "(\<Sum>f\<leftarrow>frames (poll_finished req res now v fs s). fheld f) = (\<Sum>f\<leftarrow>fs. fheld f)"
    "(\<Sum>f\<leftarrow>frames (poll_finished req res now v fs s). is_finishing f) = (\<Sum>f\<leftarrow>fs. is_finishing f)"
    "(\<Sum>f\<leftarrow>frames (poll_finished req res now v fs s). is_ending f) = (\<Sum>f\<leftarrow>fs. is_ending f)"
    by (simp_all add: poll_finished_def split: option.splits)
  ultimately show ?thesis
    by (intro leave_ok [OF ok, of req]) (simp_all add: fr places_def, simp_all add: poll_finished_def)
qed

lemma group_done_ok:
  assumes ok: "pool_ok s ls rs ws" and a: "a \<in> set (delayed s)"
  shows "pool_ok (s\<lparr>reqs := (reqs s)(a := None), delayed := remove1 a (delayed s), left := a # left s\<rparr>) ls rs ws"
proof -
  note D = poolD [OF ok]
  have "\<not> is_quit (reqs s) a" using D(4) a by (simp add: typed_def)
  moreover have "mset (delayed s) = add_mset a (mset (remove1 a (delayed s)))" using a by simp
  moreover have "length (delayed s) = Suc (length (remove1 a (delayed s)))"
    using a by (simp add: length_remove1) (metis Suc_pred length_pos_if_in_set)
  moreover have "set (remove1 a (delayed s)) \<subseteq> set (delayed s)" by (rule set_remove1_subset)
  ultimately show ?thesis by (intro leave_ok [OF ok, of a]) (simp_all add: places_def)
qed

lemma end_started_ok:
  assumes ok: "pool_ok s ls rs ws" and fr: "frames s = End_started # fs"
  shows "pool_ok (end_thread_started (s\<lparr>frames := Max_parallel # fs\<rparr>)) ls rs ws"
proof -
  note D = poolD [OF ok]
  let ?s = "end_thread_started (s\<lparr>frames := Max_parallel # fs\<rparr>)"
  have pl: "places ?s ls rs ws = places s ls rs ws" by (simp add: places_def end_thread_started_def fr)
  have "counted ?s ls rs ws"
    using D(5) unfolding counted_def pl by (simp add: end_thread_started_def fr algebra_simps)
  then show ?thesis using D(1-4) D(6) unfolding pool_ok_def logged_def pl
    by (simp add: end_thread_started_def queues_def crew_def typed_def fr)
qed

lemma settings_ok:
  assumes ok: "pool_ok s ls rs ws" and "\<And>x. req_queue (f x) = req_queue x" "\<And>x. res_queue (f x) = res_queue x"
    "\<And>x. started (f x) = started x" "\<And>x. idle (f x) = idle x" "\<And>x. nreqs (f x) = nreqs x"
    "\<And>x. nready (f x) = nready x" "\<And>x. npending (f x) = npending x"
  shows "pool_ok (s\<lparr>pool := f (pool s)\<rparr>) ls rs ws"
  using ok assms(2-) unfolding pool_ok_def queues_def crew_def typed_def counted_def logged_def by simp

lemma pool_init_ok: "pool_ok (etp_init mt mr) (replicate ETP_NUM_PRI []) (replicate ETP_NUM_PRI []) []"
proof -
  have c: "concat (replicate n []) = ([] :: addr list)" for n by (induction n) auto
  have "reqq_repr h reqq_init (replicate ETP_NUM_PRI [])" for h
    unfolding reqq_repr_def c by (simp add: reqq_init_def)
  moreover have "circ [WRK_FIRST \<mapsto> \<lparr>lnext = WRK_FIRST, lprev = WRK_FIRST\<rparr>] WRK_FIRST []"
    by (simp add: circ_def ring_def edge_def next_of_def prev_of_def WRK_FIRST_def)
  moreover have "places (etp_init mt mr) (replicate ETP_NUM_PRI []) (replicate ETP_NUM_PRI []) [] = {#}"
    unfolding places_def c by (simp add: etp_init_def)
  ultimately show ?thesis
    unfolding pool_ok_def queues_def crew_def typed_def counted_def logged_def c
    by (simp add: etp_init_def owned_def num_quits_def)
qed

lemma step_ok:
  assumes "pool_step s s'" and ok: "pool_ok s ls rs ws"
  shows "\<exists>ls' rs' ws'. pool_ok s' ls' rs' ws'"
  using assms(1)
proof cases
  case (take w tv now)
  then show ?thesis using take_ok [OF ok take(1), of now] by auto
next
  case (wake w tv timed now timedout)
  then show ?thesis using wake_ok [OF ok wake(1), of now timedout] by auto
next
  case (execute w req res)
  then show ?thesis using execute_ok [OF ok execute(1), of res] by auto
next
  case (result w req)
  then show ?thesis using result_ok [OF ok result(1)] by auto
next
  case (timeout w)
  then show ?thesis using timeout_ok [OF ok timeout(2)] by auto
next
  case (quit w req)
  then show ?thesis using quit_ok [OF ok quit(1)] by auto
next
  case (submit req r)
  then show ?thesis using submit_ok [OF ok submit(2-4)] by auto
next
  case (submit_res req fs)
  then show ?thesis using submit_res_ok [OF ok submit_res(1)] by auto
next
  case (submit_start fs wrk created)
  have "pool_ok (s\<lparr>frames := fs\<rparr>) ls rs ws" by (rule frames_ok [OF ok]) (simp_all add: submit_start)
  from maybe_start_any [OF this _ submit_start(3)] show ?thesis using submit_start(2) by auto
next
  case (poll now)
  have "pool_ok s' ls rs ws" unfolding poll(1) etp_poll_def by (rule frames_ok [OF ok]) simp_all
  then show ?thesis by blast
next
  case (poll_start v fs wrk created)
  have "pool_ok (s\<lparr>frames := Poll_shift v # fs\<rparr>) ls rs ws" by (rule frames_ok [OF ok]) (simp_all add: poll_start)
  from maybe_start_any [OF this _ poll_start(3)] show ?thesis using poll_start(2) by auto
next
  case (poll_shift v fs)
  then show ?thesis using poll_shift_ok [OF ok poll_shift(1)] by auto
next
  case (poll_took req v fs)
  then show ?thesis using took_ok [OF ok poll_took(1)] by auto
next
  case (finished req v fs res now)
  then show ?thesis using finished_ok [OF ok finished(2)] by blast
next
  case (group_done a)
  then show ?thesis using group_done_ok [OF ok group_done(2)] by blast
next
  case (max_parallel n)
  define p where "p = (if n < wanted (pool s) then (pool s)\<lparr>wanted := n\<rparr> else pool s)"
  have "pool_ok (s\<lparr>pool := (if n < wanted (pool s) then (\<lambda>p. p\<lparr>wanted := n\<rparr>) else (\<lambda>p. p)) (pool s)\<rparr>) ls rs ws"
    by (rule settings_ok [OF ok]) simp_all
  then have p: "pool_ok (s\<lparr>pool := p\<rparr>) ls rs ws" by (simp add: p_def if_distribR)
  have "s' = s\<lparr>pool := p, frames := Max_parallel # frames (s\<lparr>pool := p\<rparr>)\<rparr>"
    unfolding max_parallel(1) by (simp add: etp_set_max_parallel_def p_def)
  moreover have "pool_ok (s\<lparr>pool := p, frames := Max_parallel # frames (s\<lparr>pool := p\<rparr>)\<rparr>) ls rs ws"
    by (rule frames_ok [OF p]) simp_all
  ultimately show ?thesis by blast
next
  case (max_done fs)
  have "pool_ok s' ls rs ws" unfolding max_done(1) by (rule frames_ok [OF ok]) (simp_all add: max_done)
  then show ?thesis by blast
next
  case (max_end fs req)
  then show ?thesis using end_push_ok [OF ok max_end(1,3,4)] by auto
next
  case (end_started fs)
  then show ?thesis using end_started_ok [OF ok end_started(2)] by blast
next
  case (poll_time rnd sec)
  then obtain n where s': "s' = s\<lparr>pool := (pool s)\<lparr>max_poll_time := n\<rparr>\<rparr>"
    by (auto simp: etp_set_max_poll_time_def bind_eq_Some_conv Let_def split: if_splits)
  have "pool_ok s' ls rs ws" using settings_ok [OF ok, of "\<lambda>p. p\<lparr>max_poll_time := n\<rparr>"] by (simp add: s')
  then show ?thesis by blast
next
  case (settings n)
  note set = settings_ok [OF ok, of "\<lambda>p. p\<lparr>max_poll_reqs := n\<rparr>"] settings_ok [OF ok, of "\<lambda>p. p\<lparr>max_idle := n\<rparr>"]
    settings_ok [OF ok, of "\<lambda>p. p\<lparr>idle_timeout := n\<rparr>"] settings_ok [OF ok, of "\<lambda>p. p\<lparr>wanted := n\<rparr>"]
  have "pool_ok s' ls rs ws" using settings(2) set ok
    by (auto simp: etp_set_max_poll_reqs_def etp_set_max_idle_def
        etp_set_idle_timeout_def etp_set_min_parallel_def)
  then show ?thesis by blast
next
  case (members h)
  have "pool_ok s' ls rs ws" unfolding members(1) by (rule members_ok [OF ok]) (rule members(2))
  then show ?thesis by blast
qed

lemma reachable_ok: "reachable s \<Longrightarrow> \<exists>ls rs ws. pool_ok s ls rs ws"
proof (induction rule: reachable.induct)
  case (init mt mr)
  then show ?case using pool_init_ok by blast
next
  case (step s s')
  then show ?case using step_ok by blast
qed

section \<open>Properties\<close>

text \<open>
  C1: However the sections of the workers and the client interleave, no request is lost or
  handled twice: the requests that have entered the pool are those that have left it and
  those in exactly one place of it (a queue, a worker, a call of the client, the delayed groups),
  both queues are well formed lists, and the workers are the ring at \<open>wrk_first\<close>.
\<close>

theorem requests_in_one_place:
  assumes "reachable s"
  shows "\<exists>ls rs ws. reqq_repr (reqs s) (req_queue (pool s)) ls \<and> reqq_repr (reqs s) (res_queue (pool s)) rs \<and>
    circ (wlinks s) WRK_FIRST ws \<and> mset (entered s) = mset (left s) + places s ls rs ws \<and>
    (\<forall>x. count (places s ls rs ws) x \<le> 1) \<and> (\<forall>w. w \<in> set ws \<longleftrightarrow> pcs s w \<noteq> Gone)"
proof -
  obtain ls rs ws where "pool_ok s ls rs ws" using reachable_ok [OF assms] by blast
  note D = poolD [OF this]
  show ?thesis by (intro exI [of _ ls] exI [of _ rs] exI [of _ ws])
    (use D in \<open>simp add: queues_def crew_def logged_def owned_def\<close>)
qed

text \<open>
  C3: The counters in every reachable state: \<open>npending\<close> is the length of the result queue,
  \<open>idle\<close> the number of waiting workers, \<open>nreqs\<close> the number of requests in the pool other than
  QUIT requests and those already handed to the finish callback or marked as delayed, and
  \<open>started\<close> the number of workers that have not timed out, less the QUIT requests not yet
  consumed. All of it modulo the width of the counters.
\<close>

theorem pool_counters:
  assumes "reachable s"
  shows "\<exists>ls rs ws. reqq_repr (reqs s) (req_queue (pool s)) ls \<and> reqq_repr (reqs s) (res_queue (pool s)) rs \<and>
    circ (wlinks s) WRK_FIRST ws \<and> (\<forall>w. w \<in> set ws \<longleftrightarrow> pcs s w \<noteq> Gone) \<and>
    etp_npending s = of_nat (length (concat rs)) \<and> idle (pool s) = of_nat (\<Sum>w\<leftarrow>ws. is_waiting (pcs s w)) \<and>
    etp_nthreads s + of_nat (num_quits (reqs s) (places s ls rs ws)) =
      of_nat ((\<Sum>w\<leftarrow>ws. is_active (pcs s w)) + (\<Sum>f\<leftarrow>frames s. is_ending f)) \<and>
    etp_nreqs s + of_nat (length (delayed s) + (\<Sum>f\<leftarrow>frames s. is_finishing f) + num_quits (reqs s) (places s ls rs ws)) =
      of_nat (size (places s ls rs ws))"
proof -
  obtain ls rs ws where "pool_ok s ls rs ws" using reachable_ok [OF assms] by blast
  note D = poolD [OF this]
  show ?thesis by (intro exI [of _ ls] exI [of _ rs] exI [of _ ws])
    (use D in \<open>simp add: queues_def crew_def counted_def etp_npending_def etp_nthreads_def etp_nreqs_def\<close>)
qed

text \<open>
  \<open>want_poll\<close> and \<open>done_poll\<close> strictly alternate, starting with \<open>want_poll\<close>, and the last
  one called is \<open>want_poll\<close> exactly while the result queue holds something.
\<close>

theorem want_done_alternate:
  assumes "reachable s"
  shows "alternates (polls s) \<and> (qsize (res_queue (pool s)) \<noteq> 0 \<longleftrightarrow> (\<exists>es. polls s = Want # es))"
proof -
  obtain ls rs ws where "pool_ok s ls rs ws" using reachable_ok [OF assms] by blast
  note D = poolD [OF this]
  have "qsize (res_queue (pool s)) = int (length (concat rs))" using D(1) by (simp add: queues_def reqq_repr_def)
  then show ?thesis using D(6) unfolding logged_def by (simp del: concat_eq_Nil_conv)
qed

text \<open>
  The section a worker, or the client, runs next when it is scheduled; \<open>new\<close> is the address the
  allocation in it returns.
\<close>

definition worker_section :: "addr \<Rightarrow> int \<Rightarrow> bool \<Rightarrow> int \<Rightarrow> etp_state \<Rightarrow> etp_state option" where
  "worker_section w now timedout res s = (case pcs s w of
       Loop tv \<Rightarrow> proc_take w now tv s
     | Waiting tv timed \<Rightarrow> proc_wake w tv timed now timedout s
     | Got req \<Rightarrow> proc_execute w req res s
     | Executed req \<Rightarrow> proc_result w req s
     | Timed_out \<Rightarrow> Some (proc_timeout w s)
     | Quitting req \<Rightarrow> proc_quit w req s
     | Gone \<Rightarrow> Some s)"

definition client_section :: "addr \<Rightarrow> bool \<Rightarrow> int \<Rightarrow> timeval \<Rightarrow> etp_state \<Rightarrow> etp_state option" where
  "client_section new created res now s = (case frames s of
       [] \<Rightarrow> Some s
     | f # fs \<Rightarrow> (case f of
         Submit_res req \<Rightarrow> push_result req (s\<lparr>frames := fs\<rparr>)
       | Submit_start \<Rightarrow> etp_maybe_start_thread new created (s\<lparr>frames := fs\<rparr>)
       | Poll_start v \<Rightarrow> etp_maybe_start_thread new created (s\<lparr>frames := Poll_shift v # fs\<rparr>)
       | Poll_shift v \<Rightarrow> poll_shift v fs s
       | Poll_took req v \<Rightarrow> poll_took req v fs s
       | In_finish req v \<Rightarrow> Some (poll_finished req res now v fs s)
       | Max_parallel \<Rightarrow> (if wanted (pool s) < started (pool s) then end_thread_push new (s\<lparr>frames := End_started # fs\<rparr>)
           else Some (s\<lparr>frames := fs\<rparr>))
       | End_started \<Rightarrow> Some (end_thread_started (s\<lparr>frames := Max_parallel # fs\<rparr>))))"

text \<open>The sections are the steps, and none of them faults.\<close>

lemma worker_section_step:
  "pcs s w \<noteq> Gone \<Longrightarrow> worker_section w now timedout res s = Some s' \<Longrightarrow> pool_step s s'"
  unfolding worker_section_def
  by (cases "pcs s w") (auto intro: pool_step.take pool_step.wake pool_step.execute pool_step.result pool_step.timeout pool_step.quit)

lemma client_section_step:
  assumes "frames s \<noteq> []" "new \<noteq> 0 \<Longrightarrow> wlinks s new = None \<and> reqs s new = None"
    and "client_section new created res now s = Some s'"
  shows "pool_step s s'"
proof -
  obtain f fs where fr: "frames s = f # fs" using assms(1) by (cases "frames s") auto
  have new: "new \<noteq> 0" if "end_thread_push new t = Some s'" for t using that by (cases "new = 0") (simp_all add: end_thread_push_def)
  show ?thesis using assms(2,3) new fr unfolding client_section_def
    by (cases f) (auto split: if_splits intro: pool_step.submit_res pool_step.submit_start pool_step.poll_start
        pool_step.poll_shift pool_step.poll_took pool_step.finished pool_step.max_end pool_step.max_done pool_step.end_started)
qed

lemma worker_section_ok:
  assumes ok: "pool_ok s ls rs ws"
  shows "\<exists>s'. worker_section w now timedout res s = Some s'"
  using take_ok [OF ok, of w _ now] wake_ok [OF ok, of w _ _ now timedout] execute_ok [OF ok, of w _ res]
    result_ok [OF ok, of w] quit_ok [OF ok, of w]
  by (cases "pcs s w") (auto simp: worker_section_def)

text \<open>The sections that allocate: one that starts a worker and one that makes a QUIT request.\<close>

definition client_allocates :: "etp_state \<Rightarrow> bool" where
  "client_allocates s = (case frames s of
       [] \<Rightarrow> False
     | f # fs \<Rightarrow> (case f of
         Submit_start \<Rightarrow> wants_thread s
       | Poll_start v \<Rightarrow> wants_thread s
       | Max_parallel \<Rightarrow> wanted (pool s) < started (pool s)
       | _ \<Rightarrow> False))"

lemma wants_thread_frames [simp]: "wants_thread (s\<lparr>frames := fs\<rparr>) = wants_thread s"
  by (simp add: wants_thread_def etp_nthreads_def etp_npending_def etp_nreqs_def)

lemma client_section_ok:
  assumes ok: "pool_ok s ls rs ws" and new: "new \<noteq> 0 \<Longrightarrow> wlinks s new = None \<and> reqs s new = None"
  shows "client_section new created res now s = None \<longleftrightarrow> new = 0 \<and> client_allocates s"
proof (cases "frames s")
  case (Cons f fs)
  have start: "etp_maybe_start_thread new created (s\<lparr>frames := fs'\<rparr>) = None \<longleftrightarrow> new = 0 \<and> wants_thread s"
    if "f = Submit_start \<and> fs' = fs \<or> f = Poll_start v \<and> fs' = Poll_shift v # fs" for fs' v
  proof (cases "new = 0")
    case False
    have "pool_ok (s\<lparr>frames := fs'\<rparr>) ls rs ws" by (rule frames_ok [OF ok]) (use that Cons in auto)
    from maybe_start_ok [OF this False, of created] show ?thesis using new False by auto
  qed (simp add: maybe_start_null)
  show ?thesis
  proof (cases f)
    case (Submit_res req)
    then show ?thesis using Cons submit_res_ok [OF ok, of req fs] by (auto simp: client_section_def client_allocates_def)
  next
    case Submit_start
    then show ?thesis using Cons start [of fs] by (simp add: client_section_def client_allocates_def)
  next
    case (Poll_start v)
    then show ?thesis using Cons start [of "Poll_shift v # fs" v] by (simp add: client_section_def client_allocates_def)
  next
    case (Poll_shift v)
    then show ?thesis using Cons poll_shift_ok [OF ok, of v fs] by (auto simp: client_section_def client_allocates_def)
  next
    case (Poll_took req v)
    then show ?thesis using Cons took_ok [OF ok, of req v fs] by (auto simp: client_section_def client_allocates_def)
  next
    case Max_parallel
    then show ?thesis using Cons end_push_ok [OF ok, of fs new] new
      by (cases "new = 0") (auto simp: client_section_def client_allocates_def end_thread_push_def)
  qed (use Cons in \<open>simp_all add: client_section_def client_allocates_def\<close>)
qed (simp add: client_section_def client_allocates_def)

text \<open>
  C2: In a reachable state the section that a worker runs next always completes, and that of the client completes unless
  it needs memory and there is none (\<open>new\<close> is what \<open>calloc\<close> returns): then starting a worker fails its assertion, and
  ending one dereferences NULL. The state after it is reachable. So nothing else dereferences NULL or a freed
  request, no priority is outside the arrays and the scan of a queue never reaches \<open>abort\<close>.
\<close>

theorem pool_never_faults:
  assumes "reachable s" and "new \<noteq> 0 \<Longrightarrow> wlinks s new = None \<and> reqs s new = None"
  shows "(\<exists>s'. worker_section w now timedout res s = Some s' \<and> reachable s') \<and>
    (if new = 0 \<and> client_allocates s then client_section new created res2 now2 s = None
     else \<exists>s'. client_section new created res2 now2 s = Some s' \<and> reachable s')"
proof -
  obtain ls rs ws where ok: "pool_ok s ls rs ws" using reachable_ok [OF assms(1)] by blast
  obtain s1 where s1: "worker_section w now timedout res s = Some s1" using worker_section_ok [OF ok] by blast
  have "reachable s1"
  proof (cases "pcs s w = Gone")
    case True
    then show ?thesis using s1 assms(1) by (simp add: worker_section_def)
  next
    case False
    then show ?thesis using reachable.step [OF assms(1) worker_section_step [OF False s1]] by blast
  qed
  moreover have "reachable s2" if "client_section new created res2 now2 s = Some s2" for s2
  proof (cases "frames s = []")
    case True
    then show ?thesis using that assms(1) by (simp add: client_section_def)
  next
    case False
    then show ?thesis using reachable.step [OF assms(1) client_section_step [OF False assms(2) that]] by blast
  qed
  ultimately show ?thesis using s1 client_section_ok [OF ok assms(2), of created res2 now2] by auto
qed

text \<open>
  \<open>nready\<close> drifts: a worker that takes a QUIT request decrements it although
  \<open>etp_end_thread\<close> never counted the request, so with an empty request queue it is minus the
  number of QUIT requests ever sent instead of zero.
\<close>

theorem nready_drifts:
  assumes "reachable s" and "qsize (req_queue (pool s)) = 0"
  shows "etp_nready s = - of_nat (sent_quits s)"
proof -
  obtain ls rs ws where "pool_ok s ls rs ws" using reachable_ok [OF assms(1)] by blast
  note D = poolD [OF this]
  have l: "length (concat ls) = 0" using D(1) assms(2) by (simp add: queues_def reqq_repr_def)
  have "nready (pool s) + of_nat (sent_quits s) = 0" using D(5) unfolding counted_def l by simp
  then show ?thesis by (simp add: etp_nready_def eq_neg_iff_add_eq_0)
qed

section \<open>A run\<close>

text \<open>
  One request is submitted, a worker is started and takes it, the client sets the number of
  workers to zero, and the worker, after storing the result, takes the QUIT request.
\<close>

definition run_q :: "nat \<Rightarrow> addr \<Rightarrow> etp_reqq" where
  "run_q p a = \<lparr>qs = (replicate 9 0)[p := a], qe = (replicate 9 0)[p := a], qsize = (if a = 0 then 0 else 1)\<rparr>"

definition run_state ::
  "etp_reqq \<Rightarrow> etp_reqq \<Rightarrow> u32 \<Rightarrow> u32 \<Rightarrow> u32 \<Rightarrow> u32 \<Rightarrow> bool \<Rightarrow> bool \<Rightarrow> worker_pc \<Rightarrow> client_pc list \<Rightarrow> etp_state" where
  "run_state q1 q2 st wa nr np started' quit pc fs = \<lparr>pool = \<lparr>req_queue = q1, res_queue = q2, started = st, idle = 0, wanted = wa,
       max_poll_time = 0, max_poll_reqs = 0, nreqs = 1, nready = nr, npending = np, max_idle = 4, idle_timeout = 10\<rparr>,
     reqs = (if quit then [5 \<mapsto> a_req 4 0, 6 \<mapsto> quit_req] else [5 \<mapsto> a_req 4 0]),
     wlinks = (if started' then [WRK_FIRST \<mapsto> \<lparr>lnext = 2, lprev = 2\<rparr>, 2 \<mapsto> \<lparr>lnext = WRK_FIRST, lprev = WRK_FIRST\<rparr>]
       else [WRK_FIRST \<mapsto> \<lparr>lnext = WRK_FIRST, lprev = WRK_FIRST\<rparr>]),
     pcs = (\<lambda>_. Gone)(2 := pc), frames = fs, delayed = [], polls = (if np = 0 then [] else [Want]),
     sent_quits = (if quit then 1 else 0), entered = (if quit then [6, 5] else [5]), left = []\<rparr>"

definition run1 :: etp_state where "run1 = run_state (run_q 4 5) (run_q 0 0) 0 4 1 0 False False Gone [Submit_start]"
definition run2 :: etp_state where "run2 = run_state (run_q 4 5) (run_q 0 0) 1 4 1 0 True False (Loop 0) []"
definition run3 :: etp_state where "run3 = run_state (run_q 0 0) (run_q 0 0) 1 4 0 0 True False (Got 5) []"
definition run4 :: etp_state where "run4 = run_state (run_q 0 0) (run_q 0 0) 1 0 0 0 True False (Got 5) [Max_parallel]"
definition run5 :: etp_state where "run5 = run_state (run_q 8 6) (run_q 0 0) 1 0 0 0 True True (Got 5) [End_started]"
definition run6 :: etp_state where "run6 = run_state (run_q 8 6) (run_q 0 0) 0 0 0 0 True True (Got 5) [Max_parallel]"
definition run7 :: etp_state where "run7 = run_state (run_q 8 6) (run_q 0 0) 0 0 0 0 True True (Executed 5) [Max_parallel]"
definition run8 :: etp_state where "run8 = run_state (run_q 8 6) (run_q 4 5) 0 0 0 1 True True (Loop 0) [Max_parallel]"
definition run9 :: etp_state where "run9 = run_state (run_q 0 0) (run_q 4 5) 0 0 (- 1) 1 True True (Got 6) [Max_parallel]"

lemmas run_defs = run_state_def run_q_def a_req_def quit_req_def WRK_FIRST_def ETP_PRI_MIN_def ETP_PRI_MAX_def

lemma run_step1: "pool_step (etp_init 0 0) run1"
  by (rule pool_step.submit [of _ 5 "a_req 0 0"])
    (simp_all add: etp_init_def can_call_def etp_submit_def reqq_push_def reqq_init_def submit_pri_def pri_index_def
      run1_def run_defs fun_eq_iff eval_nat_numeral)

lemma run_step2: "pool_step run1 run2"
  by (rule pool_step.submit_start [of _ "[]" 2 True])
    (simp_all add: etp_maybe_start_thread_def etp_start_thread_def etp_nthreads_def etp_npending_def etp_nreqs_def
      set_next_def set_prev_def next_of_def run1_def run2_def run_defs fun_eq_iff)

lemma run_step3: "pool_step run2 run3"
  by (rule pool_step.take [of _ 2 0 0])
    (simp_all add: proc_take_def reqq_shift_def run2_def run3_def run_defs fun_eq_iff eval_nat_numeral)

lemma run_step4: "pool_step run3 run4"
proof -
  have "run4 = etp_set_max_parallel 0 run3" by (simp add: etp_set_max_parallel_def run3_def run4_def run_defs)
  then show ?thesis using pool_step.max_parallel [of run3 0] by (simp add: can_call_def run3_def run_defs)
qed

lemma run_step5: "pool_step run4 run5"
  by (rule pool_step.max_end [of _ "[]" 6])
    (simp_all add: end_thread_push_def reqq_push_def pri_index_def run4_def run5_def run_defs fun_eq_iff eval_nat_numeral)

lemma run_step6: "pool_step run5 run6"
proof -
  have "run6 = end_thread_started (run5\<lparr>frames := Max_parallel # []\<rparr>)"
    by (simp add: end_thread_started_def run5_def run6_def run_defs)
  then show ?thesis using pool_step.end_started [of run5 "[]"] by (simp add: run5_def run_defs)
qed

lemma run_step7: "pool_step run6 run7"
  by (rule pool_step.execute [of _ 2 5 0]) (simp_all add: proc_execute_def run6_def run7_def run_defs fun_eq_iff)

lemma run_step8: "pool_step run7 run8"
  by (rule pool_step.result [of _ 2 5])
    (simp_all add: proc_result_def push_result_def reqq_push_def pri_index_def run7_def run8_def run_defs fun_eq_iff eval_nat_numeral)

lemma run_step9: "pool_step run8 run9"
  by (rule pool_step.take [of _ 2 0 0])
    (simp_all add: proc_take_def reqq_shift_def run8_def run9_def run_defs fun_eq_iff eval_nat_numeral)

lemma run9_reachable: "reachable run9"
  by (rule reachable.step [OF _ run_step9] reachable.step [OF _ run_step8] reachable.step [OF _ run_step7]
      reachable.step [OF _ run_step6] reachable.step [OF _ run_step5] reachable.step [OF _ run_step4]
      reachable.step [OF _ run_step3] reachable.step [OF _ run_step2] reachable.step [OF _ run_step1] reachable.init)+

theorem requests_in_one_place_witness:
  "\<exists>ls rs ws. reqq_repr (reqs run9) (res_queue (pool run9)) rs \<and>
    mset [6, 5] = places run9 ls rs ws \<and> (\<forall>x. count (places run9 ls rs ws) x \<le> 1)"
proof -
  have "entered run9 = [6, 5]" "left run9 = []" by (simp_all add: run9_def run_defs)
  then show ?thesis using requests_in_one_place [OF run9_reachable] by (metis add_0 mset.simps(1))
qed

theorem pool_counters_witness:
  "\<exists>rs. reqq_repr (reqs run9) (res_queue (pool run9)) rs \<and> of_nat (length (concat rs)) = (1 :: u32)"
proof -
  have "etp_npending run9 = 1" by (simp add: run9_def run_defs etp_npending_def)
  then show ?thesis using pool_counters [OF run9_reachable] by metis
qed

theorem want_done_alternate_witness:
  "alternates (polls run9) \<and> (\<exists>es. polls run9 = Want # es)"
proof -
  have "qsize (res_queue (pool run9)) \<noteq> 0" by (simp add: run9_def run_defs)
  with want_done_alternate [OF run9_reachable] show ?thesis by blast
qed

theorem pool_never_faults_witness:
  "(\<exists>s'. worker_section 2 0 False 0 run9 = Some s' \<and> reachable s') \<and>
    (\<exists>s'. client_section 3 True 0 (0, 0) run9 = Some s' \<and> reachable s') \<and> client_section 0 True 0 (0, 0) run4 = None"
proof -
  have "reachable run4"
    by (rule reachable.step [OF _ run_step4] reachable.step [OF _ run_step3] reachable.step [OF _ run_step2]
        reachable.step [OF _ run_step1] reachable.init)+
  moreover have "client_allocates run4" "wlinks run9 3 = None" "reqs run9 3 = None"
    by (simp_all add: client_allocates_def run4_def run9_def run_defs)
  ultimately show ?thesis
    using pool_never_faults [of run4 0] pool_never_faults [OF run9_reachable, of 3] by simp
qed

theorem nready_drifts_witness: "etp_nready run9 = 4294967295"
  using nready_drifts [OF run9_reachable] by (simp add: run9_def run_defs)

end
