(* ===== verification/Eio_Group.thy ===== *)
theory Eio_Group
  imports Etp_Pool
begin

text \<open>
  Request groups of \<open>src/libeio/eio.c\<close>: adding members, feeding, and finishing a request, which
  takes it out of its group and finishes the group after its last member. The finish, destroy and
  feed callbacks belong to the client and are functions on the state, which holds the requests and
  a log of the calls, the newest first. \<open>None\<close> is the fault, or a feeder that never stops.
\<close>

section \<open>The code\<close>

datatype gevent = Finished addr | Freed_ptr1 addr | Freed_ptr2 addr | Destroyed addr | Fed addr

record gworld =
  gheap :: req_heap
  gevents :: "gevent list"

record callbacks =
  finish_fn :: "nat \<Rightarrow> addr \<Rightarrow> gworld \<Rightarrow> (int \<times> gworld) option"
  destroy_fn :: "nat \<Rightarrow> addr \<Rightarrow> gworld \<Rightarrow> gworld option"
  feed_fn :: "nat \<Rightarrow> addr \<Rightarrow> gworld \<Rightarrow> gworld option"

definition put_req :: "addr \<Rightarrow> eio_req \<Rightarrow> gworld \<Rightarrow> gworld" where
  "put_req a r w = w\<lparr>gheap := (gheap w)(a \<mapsto> r)\<rparr>"

definition say :: "gevent \<Rightarrow> gworld \<Rightarrow> gworld" where
  "say e w = w\<lparr>gevents := e # gevents w\<rparr>"

definition EIO_FINISH :: "callbacks \<Rightarrow> addr \<Rightarrow> gworld \<Rightarrow> (int \<times> gworld) option" where
  "EIO_FINISH cb req w = do {
     r \<leftarrow> gheap w req;
     if finish_cb r \<noteq> 0 \<and> \<not> cancelled r then finish_fn cb (finish_cb r) req (say (Finished req) w) else Some (0, w)
   }"

definition EIO_DESTROY :: "callbacks \<Rightarrow> addr \<Rightarrow> gworld \<Rightarrow> gworld option" where
  "EIO_DESTROY cb req w = do {
     r \<leftarrow> gheap w req;
     if destroy_cb r \<noteq> 0 then destroy_fn cb (destroy_cb r) req (say (Destroyed req) w) else Some w
   }"

definition EIO_FEED :: "callbacks \<Rightarrow> addr \<Rightarrow> gworld \<Rightarrow> gworld option" where
  "EIO_FEED cb req w = do {
     r \<leftarrow> gheap w req;
     if feed_cb r \<noteq> 0 then feed_fn cb (feed_cb r) req (say (Fed req) w) else Some w
   }"

text \<open>\<open>size_t\<close> is compared with \<open>long\<close>: the limit is taken as an unsigned number.\<close>

partial_function (option) grp_try_feed :: "callbacks \<Rightarrow> addr \<Rightarrow> gworld \<Rightarrow> gworld option" where
  "grp_try_feed cb gr w = do {
     g \<leftarrow> gheap w gr;
     if rsize g < of_int (int2 g) \<and> \<not> cancelled g then do {
       w \<leftarrow> EIO_FEED cb gr (put_req gr (g\<lparr>rflags := rflags g AND NOT ETP_FLAG_GROUPADD\<rparr>) w);
       g \<leftarrow> gheap w gr;
       if rflags g AND ETP_FLAG_GROUPADD = 0 then Some (put_req gr (g\<lparr>feed_cb := 0\<rparr>) w)
       else grp_try_feed cb gr w
     } else Some w
   }"

text \<open>\<open>fin\<close> is \<open>eio_finish\<close>.\<close>

definition grp_dec :: "callbacks \<Rightarrow> (addr \<Rightarrow> gworld \<Rightarrow> (int \<times> gworld) option) \<Rightarrow> addr \<Rightarrow> gworld \<Rightarrow> (int \<times> gworld) option" where
  "grp_dec cb fin gr w = do {
     g \<leftarrow> gheap w gr;
     w \<leftarrow> grp_try_feed cb gr (put_req gr (g\<lparr>rsize := rsize g - 1\<rparr>) w);
     g \<leftarrow> gheap w gr;
     if rsize g = 0 \<and> rflags g AND ETP_FLAG_DELAYED \<noteq> 0 then fin gr w else Some (0, w)
   }"

definition eio_destroy :: "callbacks \<Rightarrow> addr \<Rightarrow> gworld \<Rightarrow> gworld option" where
  "eio_destroy cb req w = do {
     r \<leftarrow> gheap w req;
     let w = (if rflags r AND EIO_FLAG_PTR1_FREE \<noteq> 0 then say (Freed_ptr1 req) w else w);
     let w = (if rflags r AND EIO_FLAG_PTR2_FREE \<noteq> 0 then say (Freed_ptr2 req) w else w);
     EIO_DESTROY cb req w
   }"

definition unlink_req :: "addr \<Rightarrow> gworld \<Rightarrow> gworld option" where
  "unlink_req req w = do {
     r \<leftarrow> gheap w req;
     w \<leftarrow> (if grp_next r \<noteq> 0 then do {
         n \<leftarrow> gheap w (grp_next r);
         Some (put_req (grp_next r) (n\<lparr>grp_prev := grp_prev r\<rparr>) w)
       } else Some w);
     r \<leftarrow> gheap w req;
     w \<leftarrow> (if grp_prev r \<noteq> 0 then do {
         p \<leftarrow> gheap w (grp_prev r);
         Some (put_req (grp_prev r) (p\<lparr>grp_next := grp_next r\<rparr>) w)
       } else Some w);
     r \<leftarrow> gheap w req;
     g \<leftarrow> gheap w (grp r);
     Some (if grp_first g = req then put_req (grp r) (g\<lparr>grp_first := grp_next r\<rparr>) w else w)
   }"

text \<open>The fuel bounds the nesting of groups, in which a group that ends finishes the one it is in.\<close>

fun eio_finish :: "callbacks \<Rightarrow> nat \<Rightarrow> addr \<Rightarrow> gworld \<Rightarrow> (int \<times> gworld) option" where
  "eio_finish cb 0 req w = None"
| "eio_finish cb (Suc n) req w = do {
     (res, w) \<leftarrow> EIO_FINISH cb req w;
     r \<leftarrow> gheap w req;
     (res, w) \<leftarrow> (if grp r \<noteq> 0 then do {
         w \<leftarrow> unlink_req req w;
         (res2, w) \<leftarrow> grp_dec cb (eio_finish cb n) (grp r) w;
         Some (if res = 0 then res2 else res, w)
       } else Some (res, w));
     w \<leftarrow> eio_destroy cb req w;
     Some (res, w)
   }"

definition eio_grp_feed :: "callbacks \<Rightarrow> addr \<Rightarrow> nat \<Rightarrow> int \<Rightarrow> gworld \<Rightarrow> gworld option" where
  "eio_grp_feed cb gr feed limit w = do {
     g \<leftarrow> gheap w gr;
     grp_try_feed cb gr (put_req gr (g\<lparr>int2 := limit, feed_cb := feed\<rparr>) w)
   }"

definition eio_grp_limit :: "callbacks \<Rightarrow> addr \<Rightarrow> int \<Rightarrow> gworld \<Rightarrow> gworld option" where
  "eio_grp_limit cb gr limit w = do {
     g \<leftarrow> gheap w gr;
     grp_try_feed cb gr (put_req gr (g\<lparr>int2 := limit\<rparr>) w)
   }"

definition eio_grp_add :: "addr \<Rightarrow> addr \<Rightarrow> gworld \<Rightarrow> gworld option" where
  "eio_grp_add gr req w = do {
     g \<leftarrow> gheap w gr;
     if int1 g = 2 then None
     else do {
       let w = put_req gr (g\<lparr>rflags := rflags g OR ETP_FLAG_GROUPADD, rsize := rsize g + 1\<rparr>) w;
       r \<leftarrow> gheap w req;
       g \<leftarrow> gheap w gr;
       let w = put_req req (r\<lparr>grp := gr, grp_prev := 0, grp_next := grp_first g\<rparr>) w;
       g \<leftarrow> gheap w gr;
       w \<leftarrow> (if grp_first g \<noteq> 0 then do {
           f \<leftarrow> gheap w (grp_first g);
           Some (put_req (grp_first g) (f\<lparr>grp_prev := req\<rparr>) w)
         } else Some w);
       g \<leftarrow> gheap w gr;
       Some (put_req gr (g\<lparr>grp_first := req\<rparr>) w)
     }
   }"

text \<open>The destructor that requests made by the library have.\<close>

definition eio_api_destroy :: "addr \<Rightarrow> gworld \<Rightarrow> gworld" where
  "eio_api_destroy req w = w\<lparr>gheap := (gheap w)(req := None)\<rparr>"

section \<open>The members of a group\<close>

definition gnx :: "req_heap \<Rightarrow> addr \<Rightarrow> addr option" where "gnx h a = map_option grp_next (h a)"
definition gpv :: "req_heap \<Rightarrow> addr \<Rightarrow> addr option" where "gpv h a = map_option grp_prev (h a)"

definition grp_ok :: "req_heap \<Rightarrow> addr \<Rightarrow> addr list \<Rightarrow> bool" where
  "grp_ok h gr ms \<longleftrightarrow> ring (gnx h) (gpv h) 0 ms \<and> gr \<noteq> 0 \<and> gr \<notin> set ms \<and> length ms < 2 ^ 64 \<and>
     (\<forall>m \<in> set ms. \<exists>r. h m = Some r \<and> grp r = gr) \<and>
     (\<exists>g. h gr = Some g \<and> grp_first g = hd (ms @ [0]) \<and> rsize g = of_nat (length ms))"

lemmas group_defs = put_req_def say_def gnx_def gpv_def

lemma eio_grp_add_ok:
  assumes ok: "grp_ok (gheap w) gr ms" and r: "gheap w req = Some r" "req \<noteq> 0" "req \<notin> set ms" "req \<noteq> gr"
    and g: "gheap w gr = Some g" "int1 g \<noteq> 2" and len: "length ms + 1 < 2 ^ 64"
  shows "\<exists>w'. eio_grp_add gr req w = Some w' \<and> grp_ok (gheap w') gr (req # ms) \<and> gevents w' = gevents w \<and>
    gheap w' gr = Some (g\<lparr>rflags := rflags g OR ETP_FLAG_GROUPADD, rsize := rsize g + 1, grp_first := req\<rparr>) \<and>
    (\<forall>a. a \<notin> set (gr # req # ms) \<longrightarrow> gheap w' a = gheap w a)"
proof -
  have first: "grp_first g = hd (ms @ [0])" "rsize g = of_nat (length ms)" using ok g by (auto simp: grp_ok_def)
  have nz: "0 \<notin> set ms" using ok by (auto simp: grp_ok_def ring_def)
  define g' where "g' = g\<lparr>rflags := rflags g OR ETP_FLAG_GROUPADD, rsize := rsize g + 1, grp_first := req\<rparr>"
  define r' where "r' = r\<lparr>grp := gr, grp_prev := 0, grp_next := hd (ms @ [0])\<rparr>"
  define h0 where "h0 = (gheap w)(gr \<mapsto> g', req \<mapsto> r')"
  define h' where "h' = (case ms of [] \<Rightarrow> h0 | m # _ \<Rightarrow> h0(m \<mapsto> (the (gheap w m))\<lparr>grp_prev := req\<rparr>))"
  define w' where "w' = w\<lparr>gheap := h'\<rparr>"
  have mem: "\<exists>r. gheap w m = Some r \<and> grp r = gr" "m \<noteq> gr" "m \<noteq> req" if "m \<in> set ms" for m
    using ok r that by (auto simp: grp_ok_def)
  have res: "eio_grp_add gr req w = Some w'"
  proof (cases ms)
    case Nil
    then show ?thesis using r g first by (simp add: eio_grp_add_def put_req_def w'_def h'_def h0_def g'_def r'_def fun_upd_twist)
  next
    case (Cons m ms')
    then obtain f where f: "gheap w m = Some f" "m \<noteq> gr" "m \<noteq> req" "m \<noteq> 0" using mem [of m] nz by auto
    then show ?thesis using r g first Cons
      by (simp add: eio_grp_add_def put_req_def w'_def h'_def h0_def g'_def r'_def fun_upd_twist)
  qed
  have h'_at: "h' gr = Some g'" "h' req = Some r'"
    using ok mem r by (auto simp: grp_ok_def h'_def h0_def split: list.splits)
  have h'_other: "h' a = gheap w a" if "a \<notin> set (gr # req # ms)" for a
    using that by (auto simp: h'_def h0_def split: list.splits)
  have h'_mem: "h' m = Some (if m = hd ms then r\<lparr>grp_prev := req\<rparr> else r)" if "m \<in> set ms" "gheap w m = Some r" for m r
    using that mem [OF that(1)] by (auto simp: h'_def h0_def split: list.splits)
  have h'_links: "gnx h' q = gnx (gheap w) q" "gpv h' q = (if q = hd ms then Some req else gpv (gheap w) q)" if "q \<in> set ms" for q
    using mem(1) [OF that] h'_mem [OF that] by (auto simp: gnx_def gpv_def)
  have nx: "gnx h' q = ((gnx (gheap w))(req \<mapsto> hd (ms @ [0]), last [0] \<mapsto> req)) q" if "q \<noteq> 0" for q
  proof -
    consider "q = gr" | "q = req" | "q \<in> set ms" | "q \<notin> set (gr # req # ms)" by auto
    then show ?thesis
    proof cases
      case 3
      then show ?thesis using h'_links(1) [OF 3] mem(3) [OF 3] that by simp
    qed (use that g r h'_at h'_other in \<open>auto simp: gnx_def g'_def r'_def\<close>)
  qed
  have pv: "gpv h' q = ((gpv (gheap w))(hd (ms @ [0]) \<mapsto> req, req \<mapsto> last [0])) q" if "q \<noteq> 0" for q
  proof -
    have hd_ms: "hd (ms @ [0]) = (if ms = [] then 0 else hd ms)" by (cases ms) auto
    consider "q = gr" | "q = req" | "q \<in> set ms" | "q \<notin> set (gr # req # ms)" by auto
    then show ?thesis
    proof cases
      case 3
      then show ?thesis using h'_links(2) [OF 3] mem(3) [OF 3] hd_ms that by (cases ms) auto
    next
      case 1
      then show ?thesis using that g r h'_at hd_ms mem(2) [of "hd ms"] by (cases ms) (auto simp: gpv_def g'_def)
    next
      case 4
      then show ?thesis using that h'_other hd_ms by (cases ms) (auto simp: gpv_def)
    qed (use that r h'_at hd_ms mem(3) [of "hd ms"] in \<open>cases ms; auto simp: gpv_def r'_def\<close>)
  qed
  have ring: "ring (gnx h') (gpv h') 0 (req # ms)"
    using ring_insert [of "gnx (gheap w)" "gpv (gheap w)" 0 "[]" ms req "gnx h'" "gpv h'"] ok r nx pv
    by (auto simp: grp_ok_def)
  have "\<exists>r. h' m = Some r \<and> grp r = gr" if "m \<in> set ms" for m
    using mem(1) [OF that] h'_mem [OF that] by (cases "m = hd ms") auto
  then have "\<forall>m \<in> set (req # ms). \<exists>r. h' m = Some r \<and> grp r = gr" using h'_at(2) by (simp add: r'_def)
  then have "grp_ok h' gr (req # ms)"
    using ok ring r len h'_at first unfolding grp_ok_def by (auto simp: g'_def)
  then show ?thesis using res h'_at h'_other by (auto simp: w'_def g'_def)
qed

section \<open>Finishing a member\<close>

text \<open>What of a request the links do not touch.\<close>

definition linkless :: "eio_req \<Rightarrow> eio_req" where
  "linkless r = r\<lparr>grp_prev := 0, grp_next := 0, grp_first := 0\<rparr>"

lemma linkless_links [simp]:
  "linkless (r\<lparr>grp_prev := a\<rparr>) = linkless r" "linkless (r\<lparr>grp_next := b\<rparr>) = linkless r"
  "linkless (r\<lparr>grp_first := c\<rparr>) = linkless r"
  by (simp_all add: linkless_def)

lemma unlink_ok:
  assumes ok: "grp_ok (gheap w) gr (us @ req # vs)"
  shows "\<exists>w'. unlink_req req w = Some w' \<and> gevents w' = gevents w \<and>
    (\<forall>a. map_option linkless (gheap w' a) = map_option linkless (gheap w a)) \<and>
    ring (gnx (gheap w')) (gpv (gheap w')) 0 (us @ vs) \<and>
    (\<exists>g. gheap w' gr = Some g \<and> grp_first g = hd (us @ vs @ [0]))"
proof -
  define h where "h = gheap w"
  define a b where "a = last (0 # us)" and "b = hd (vs @ [0])"
  have ring: "ring (gnx h) (gpv h) 0 (us @ req # vs)" using ok by (simp add: grp_ok_def h_def)
  obtain r where r: "h req = Some r" "grp r = gr" using ok by (auto simp: grp_ok_def h_def)
  obtain g where g: "h gr = Some g" "grp_first g = hd (us @ req # vs @ [0])" using ok by (auto simp: grp_ok_def h_def)
  have nz: "req \<noteq> 0" "0 \<notin> set us" "0 \<notin> set vs" "distinct (us @ req # vs)" "gr \<notin> set (us @ req # vs)" "gr \<noteq> 0"
    using ok by (auto simp: grp_ok_def ring_def)
  have links: "grp_prev r = a" "grp_next r = b"
    using ring_at [OF ring] nz(1) r(1) by (auto simp: edge_def gnx_def gpv_def a_def b_def)
  have "us \<noteq> [] \<Longrightarrow> last us \<noteq> 0" using nz(2) by (metis last_in_set)
  then have a: "a = 0 \<longleftrightarrow> us = []" "us \<noteq> [] \<Longrightarrow> a \<in> set us" by (auto simp: a_def)
  have "vs \<noteq> [] \<Longrightarrow> hd vs \<noteq> 0" using nz(3) by (metis hd_in_set)
  then have b: "b = 0 \<longleftrightarrow> vs = []" "vs \<noteq> [] \<Longrightarrow> b \<in> set vs" using nz by (auto simp: b_def hd_append)
  have ne: "a \<noteq> req" "b \<noteq> req" "a \<noteq> gr" "b \<noteq> gr" "a \<noteq> 0 \<Longrightarrow> a \<noteq> b"
    using a b nz by (cases "us = []"; cases "vs = []"; auto)+
  have mem: "\<exists>r. h m = Some r" if "m \<in> set (us @ vs)" for m using ok that by (auto simp: grp_ok_def h_def)
  define ra rb where "ra = the (h a)" and "rb = the (h b)"
  define h1 where "h1 = (if b \<noteq> 0 then h(b \<mapsto> rb\<lparr>grp_prev := a\<rparr>) else h)"
  define h2 where "h2 = (if a \<noteq> 0 then h1(a \<mapsto> ra\<lparr>grp_next := b\<rparr>) else h1)"
  define h3 where "h3 = (if us = [] then h2(gr \<mapsto> g\<lparr>grp_first := b\<rparr>) else h2)"
  have hb: "b \<noteq> 0 \<Longrightarrow> h b = Some rb" and ha: "a \<noteq> 0 \<Longrightarrow> h a = Some ra"
    using mem [of b] mem [of a] a b by (auto simp: ra_def rb_def)
  have req_first: "grp_first g = req \<longleftrightarrow> us = []" using g(2) nz by (cases us) auto
  have "unlink_req req w = Some (w\<lparr>gheap := h3\<rparr>)"
    using r g(1) links ne ha hb req_first
    by (auto simp: unlink_req_def put_req_def h1_def h2_def h3_def simp flip: h_def)
  moreover have "map_option linkless (h3 q) = map_option linkless (h q)" for q
    using ha hb g(1) ne by (auto simp: h1_def h2_def h3_def)
  moreover have "ring (gnx h3) (gpv h3) 0 (us @ vs)"
  proof (rule ring_remove [OF ring])
    show "gnx h3 q = ((gnx h)(last (0 # us) \<mapsto> hd (vs @ [0]))) q" if "q \<noteq> 0" "q \<noteq> req" for q
      unfolding a_def [symmetric] b_def [symmetric]
      using that ha hb g(1) ne by (auto simp: gnx_def h1_def h2_def h3_def)
    show "gpv h3 q = ((gpv h)(hd (vs @ [0]) \<mapsto> last (0 # us))) q" if "q \<noteq> 0" "q \<noteq> req" for q
      unfolding a_def [symmetric] b_def [symmetric]
      using that ha hb g(1) ne by (auto simp: gpv_def h1_def h2_def h3_def)
  qed
  moreover have "\<exists>g. h3 gr = Some g \<and> grp_first g = hd (us @ vs @ [0])"
    using g ne nz by (cases us) (auto simp: h1_def h2_def h3_def b_def)
  ultimately show ?thesis by (auto simp flip: h_def)
qed

text \<open>Without a feeder the attempt to feed only clears a flag.\<close>

lemma try_feed_none:
  assumes "gheap w gr = Some g" "feed_cb g = 0"
  shows "\<exists>fl. grp_try_feed cb gr w = Some (put_req gr (g\<lparr>rflags := fl\<rparr>) w) \<and> fl AND ETP_FLAG_DELAYED = rflags g AND ETP_FLAG_DELAYED"
proof (cases "rsize g < of_int (int2 g) \<and> \<not> cancelled g")
  case True
  have "(rflags g AND NOT ETP_FLAG_GROUPADD) AND ETP_FLAG_GROUPADD = 0" by (simp add: and.assoc)
  moreover have "(rflags g AND NOT ETP_FLAG_GROUPADD) AND ETP_FLAG_DELAYED = rflags g AND ETP_FLAG_DELAYED"
    by (simp add: and.assoc ETP_FLAG_GROUPADD_def ETP_FLAG_DELAYED_def)
  moreover have fed: "g\<lparr>rflags := x, feed_cb := 0\<rparr> = g\<lparr>rflags := x\<rparr>" for x
    by (rule eio_req.equality) (simp_all add: assms(2))
  have "grp_try_feed cb gr w = Some (put_req gr (g\<lparr>rflags := rflags g AND NOT ETP_FLAG_GROUPADD\<rparr>) w)"
    using assms True calculation(1) by (subst grp_try_feed.simps) (simp add: EIO_FEED_def put_req_def fed)
  ultimately show ?thesis by blast
next
  case False
  have "put_req gr (g\<lparr>rflags := rflags g\<rparr>) w = w" using assms(1) by (simp add: put_req_def fun_upd_idem)
  then show ?thesis using assms False by (subst grp_try_feed.simps) (auto intro!: exI [of _ "rflags g"])
qed

text \<open>Callbacks that leave the requests alone, and the destructor of the library.\<close>

definition harmless :: "callbacks \<Rightarrow> bool" where
  "harmless cb \<longleftrightarrow> (\<forall>k a w. \<exists>x. finish_fn cb k a w = Some (x, w)) \<and> (\<forall>k a w. destroy_fn cb k a w = Some (eio_api_destroy a w))"

definition called :: "eio_req \<Rightarrow> bool" where "called r \<longleftrightarrow> finish_cb r \<noteq> 0 \<and> \<not> cancelled r"

definition finishes :: "gworld \<Rightarrow> addr list" where
  "finishes w = rev (List.map_filter (\<lambda>e. case e of Finished a \<Rightarrow> Some a | _ \<Rightarrow> None) (gevents w))"

lemma finishes_say: "finishes (say e w) = finishes w @ (case e of Finished a \<Rightarrow> [a] | _ \<Rightarrow> [])"
  by (cases e) (simp_all add: finishes_def say_def map_filter_simps)

lemma finishes_cong: "gevents w' = gevents w \<Longrightarrow> finishes w' = finishes w"
  by (simp add: finishes_def)

lemma finish_step:
  assumes "harmless cb" and "gheap w a = Some r"
  shows "\<exists>x w'. EIO_FINISH cb a w = Some (x, w') \<and> gheap w' = gheap w \<and> finishes w' = finishes w @ (if called r then [a] else [])"
proof (cases "called r")
  case True
  obtain x where "finish_fn cb (finish_cb r) a (say (Finished a) w) = Some (x, say (Finished a) w)"
    using assms(1) unfolding harmless_def by blast
  then show ?thesis using assms(2) True
    by (intro exI [of _ x] exI [of _ "say (Finished a) w"]) (simp add: EIO_FINISH_def called_def finishes_say, simp add: say_def)
next
  case False
  then show ?thesis using assms(2) by (auto simp: EIO_FINISH_def called_def)
qed

lemma destroy_step:
  assumes "harmless cb" and "gheap w a = Some r" "destroy_cb r \<noteq> 0"
  shows "\<exists>w'. eio_destroy cb a w = Some w' \<and> gheap w' = (gheap w)(a := None) \<and> finishes w' = finishes w"
proof -
  define w1 where "w1 = (if rflags r AND EIO_FLAG_PTR1_FREE \<noteq> 0 then say (Freed_ptr1 a) w else w)"
  define w2 where "w2 = (if rflags r AND EIO_FLAG_PTR2_FREE \<noteq> 0 then say (Freed_ptr2 a) w1 else w1)"
  have h: "gheap w2 = gheap w" by (simp add: w2_def w1_def say_def)
  have d: "destroy_fn cb k a v = Some (eio_api_destroy a v)" for k v using assms(1) unfolding harmless_def by blast
  have "eio_destroy cb a w = Some (eio_api_destroy a (say (Destroyed a) w2))"
    unfolding eio_destroy_def Let_def assms(2) bind.bind_lunit w1_def [symmetric] w2_def [symmetric]
    using assms(2,3) h by (simp add: EIO_DESTROY_def d)
  moreover have "finishes (eio_api_destroy a (say (Destroyed a) w2)) = finishes w"
    using finishes_cong [of "eio_api_destroy a (say (Destroyed a) w2)" "say (Destroyed a) w2"]
    by (simp add: eio_api_destroy_def finishes_say w2_def w1_def)
  ultimately show ?thesis using h by (simp add: eio_api_destroy_def say_def)
qed

text \<open>What stays of the other requests when one is finished.\<close>

definition status :: "eio_req \<Rightarrow> bool \<times> nat \<times> addr \<times> nat \<times> u8" where
  "status r = (called r, destroy_cb r, grp r, feed_cb r, rflags r AND ETP_FLAG_DELAYED)"

lemma status_links [simp]: "status (linkless r) = status r"
  by (simp add: status_def linkless_def called_def)

text \<open>A request leaves its group: unlinked, counted down and, without a feeder, nothing more.\<close>

lemma leave_group:
  assumes ok: "grp_ok (gheap w) gr (us @ req # vs)" and g: "gheap w gr = Some g" "feed_cb g = 0"
  shows "\<exists>w' g'. unlink_req req w = Some w' \<and> gheap w' gr = Some g' \<and>
    (\<exists>fl. grp_try_feed cb gr (put_req gr (g'\<lparr>rsize := rsize g' - 1\<rparr>) w') =
       Some (put_req gr (g'\<lparr>rsize := of_nat (length (us @ vs)), rflags := fl\<rparr>) w') \<and> fl AND ETP_FLAG_DELAYED = rflags g AND ETP_FLAG_DELAYED) \<and>
    status g' = status g \<and> grp_first g' = hd (us @ vs @ [0]) \<and> gevents w' = gevents w \<and>
    (\<forall>a. map_option status (gheap w' a) = map_option status (gheap w a)) \<and>
    ring (gnx (gheap w')) (gpv (gheap w')) 0 (us @ vs)"
proof -
  obtain w' g' where u: "unlink_req req w = Some w'" "gevents w' = gevents w" "gheap w' gr = Some g'" "grp_first g' = hd (us @ vs @ [0])"
    "\<And>a. map_option linkless (gheap w' a) = map_option linkless (gheap w a)"
    "ring (gnx (gheap w')) (gpv (gheap w')) 0 (us @ vs)"
    using unlink_ok [OF ok] by blast
  have st: "map_option status (gheap w' a) = map_option status (gheap w a)" for a
    using arg_cong [OF u(5) [of a], of "map_option status"] by (simp add: option.map_comp comp_def)
  have l: "linkless g' = linkless g" using u(5) [of gr] u(3) g(1) by simp
  have g': "feed_cb g' = 0" "rsize g' = rsize g" "rflags g' = rflags g" "status g' = status g"
    using arg_cong [OF l, of feed_cb] arg_cong [OF l, of rsize] arg_cong [OF l, of rflags] arg_cong [OF l, of status] g(2)
    by (simp_all only: status_links) (simp_all add: linkless_def)
  have "rsize g' - 1 = of_nat (length (us @ vs))" using ok g(1) g'(2) by (auto simp: grp_ok_def)
  then have n: "g'\<lparr>rsize := rsize g' - 1\<rparr> = g'\<lparr>rsize := of_nat (length (us @ vs))\<rparr>" by simp
  define w2 where "w2 = put_req gr (g'\<lparr>rsize := of_nat (length (us @ vs))\<rparr>) w'"
  have "gheap w2 gr = Some (g'\<lparr>rsize := of_nat (length (us @ vs))\<rparr>)" by (simp add: w2_def put_req_def)
  from try_feed_none [OF this] g'(1) obtain fl where
    fl: "grp_try_feed cb gr w2 = Some (put_req gr (g'\<lparr>rsize := of_nat (length (us @ vs)), rflags := fl\<rparr>) w2)"
    "fl AND ETP_FLAG_DELAYED = rflags g' AND ETP_FLAG_DELAYED" by auto
  have "put_req gr x w2 = put_req gr x w'" for x by (simp add: w2_def put_req_def)
  then have "grp_try_feed cb gr (put_req gr (g'\<lparr>rsize := rsize g' - 1\<rparr>) w') =
      Some (put_req gr (g'\<lparr>rsize := of_nat (length (us @ vs)), rflags := fl\<rparr>) w')"
    using fl(1) unfolding n w2_def by simp
  moreover have "fl AND ETP_FLAG_DELAYED = rflags g AND ETP_FLAG_DELAYED" using fl(2) g'(3) by simp
  ultimately show ?thesis using u st g'(4) by blast
qed

text \<open>A member that is not the last one, and the last one.\<close>

definition keeps :: "addr set \<Rightarrow> req_heap \<Rightarrow> req_heap \<Rightarrow> bool" where
  "keeps A h h' \<longleftrightarrow> (\<forall>a. a \<notin> A \<longrightarrow> map_option status (h' a) = map_option status (h a)) \<and> (\<forall>a \<in> A. h' a = None)"

lemma of_nat_nonzero: "0 < k \<Longrightarrow> k < 2 ^ 64 \<Longrightarrow> (of_nat k :: u64) \<noteq> 0"
proof
  assume "0 < k" "k < 2 ^ 64" "(of_nat k :: u64) = 0"
  then have "unat (of_nat k :: u64) = 0" by simp
  then show False using \<open>0 < k\<close> \<open>k < 2 ^ 64\<close> by (simp add: unat_of_nat)
qed

lemma finish_member:
  assumes cb: "harmless cb" and ok: "grp_ok (gheap w) gr (us @ req # vs)" and more: "us @ vs \<noteq> []"
    and g: "gheap w gr = Some g" "feed_cb g = 0" and r: "gheap w req = Some r" "destroy_cb r \<noteq> 0"
  shows "\<exists>x w'. eio_finish cb (Suc n) req w = Some (x, w') \<and> grp_ok (gheap w') gr (us @ vs) \<and> keeps {req} (gheap w) (gheap w') \<and>
    finishes w' = finishes w @ (if called r then [req] else [])"
proof -
  obtain x w1 where w1: "EIO_FINISH cb req w = Some (x, w1)" "gheap w1 = gheap w"
    "finishes w1 = finishes w @ (if called r then [req] else [])" using finish_step [OF cb r(1)] by blast
  have ok1: "grp_ok (gheap w1) gr (us @ req # vs)" using ok w1(2) by simp
  have gr: "grp r = gr" "gr \<noteq> 0" "req \<noteq> gr" "gr \<notin> set (us @ vs)" "req \<notin> set (us @ vs)" "length (us @ vs) < 2 ^ 64"
    using ok r(1) by (auto simp: grp_ok_def ring_def)
  obtain w2 g2 fl where w2: "unlink_req req w1 = Some w2" "gheap w2 gr = Some g2"
    "grp_try_feed cb gr (put_req gr (g2\<lparr>rsize := rsize g2 - 1\<rparr>) w2) =
       Some (put_req gr (g2\<lparr>rsize := of_nat (length (us @ vs)), rflags := fl\<rparr>) w2)"
    "fl AND ETP_FLAG_DELAYED = rflags g AND ETP_FLAG_DELAYED"
    "status g2 = status g" "grp_first g2 = hd (us @ vs @ [0])" "gevents w2 = gevents w1"
    "\<And>a. map_option status (gheap w2 a) = map_option status (gheap w1 a)"
    "ring (gnx (gheap w2)) (gpv (gheap w2)) 0 (us @ vs)"
    using leave_group [OF ok1, of g cb] g w1(2) by auto
  define g3 where "g3 = g2\<lparr>rsize := of_nat (length (us @ vs)), rflags := fl\<rparr>"
  define w3 where "w3 = put_req gr g3 w2"
  have h3: "gheap w3 = (gheap w2)(gr \<mapsto> g3)" by (simp add: w3_def put_req_def)
  have "(of_nat (length (us @ vs)) :: u64) \<noteq> 0"
    by (rule of_nat_nonzero) (use more gr(6) in auto)
  then have dec: "grp_dec cb (eio_finish cb n) gr w2 = Some (0, w3)"
    using w2(2,3) by (simp add: grp_dec_def w3_def g3_def put_req_def del: length_append)
  obtain r2 where r2: "gheap w2 req = Some r2" "status r2 = status r" using w2(8) [of req] w1(2) r(1) by auto
  then have "gheap w3 req = Some r2" "destroy_cb r2 \<noteq> 0" using gr(3) r(2) h3 by (auto simp: status_def)
  from destroy_step [OF cb this] obtain w4 where w4: "eio_destroy cb req w3 = Some w4"
    "gheap w4 = (gheap w3)(req := None)" "finishes w4 = finishes w3" by blast
  have res: "eio_finish cb (Suc n) req w = Some (if x = 0 then 0 else x, w4)"
    using w1(1,2) r(1) gr(1,2) w2(1) dec w4(1) by simp
  have st3: "status g3 = status g" using w2(4,5) by (simp add: g3_def status_def called_def)
  have h4: "gheap w4 = (gheap w2)(gr \<mapsto> g3, req := None)" using w4(2) h3 by simp
  have "keeps {req} (gheap w) (gheap w4)"
    using w2(8) w1(2) g(1) st3 by (auto simp: keeps_def h4)
  moreover have "ring (gnx (gheap w4)) (gpv (gheap w4)) 0 (us @ vs)"
    using w2(9) by (subst ring_cong [of _ _ _ "gnx (gheap w2)" _ "gpv (gheap w2)"]) (use gr(4,5) in \<open>auto simp: h4 gnx_def gpv_def\<close>)
  moreover have "\<exists>r. gheap w4 m = Some r \<and> grp r = gr" if "m \<in> set (us @ vs)" for m
  proof -
    obtain rm where rm: "gheap w1 m = Some rm" "grp rm = gr" using ok1 \<open>m \<in> set (us @ vs)\<close> by (auto simp: grp_ok_def)
    then obtain rm2 where "gheap w2 m = Some rm2" "status rm2 = status rm" using w2(8) [of m] by auto
    then show ?thesis using rm(2) that gr(4,5) by (auto simp: h4 status_def)
  qed
  moreover have "\<exists>g. gheap w4 gr = Some g \<and> grp_first g = hd ((us @ vs) @ [0]) \<and> rsize g = of_nat (length (us @ vs))"
    using w2(6) gr(3) by (simp add: h4 g3_def)
  ultimately have "grp_ok (gheap w4) gr (us @ vs) \<and> keeps {req} (gheap w) (gheap w4)"
    using gr unfolding grp_ok_def by blast
  moreover have "finishes w4 = finishes w @ (if called r then [req] else [])"
    using w4(3) finishes_cong [of w3 w2] finishes_cong [OF w2(7)] w1(3) by (simp add: w3_def put_req_def)
  ultimately show ?thesis using res by blast
qed

lemma finish_last:
  assumes cb: "harmless cb" and ok: "grp_ok (gheap w) gr [req]"
    and g: "gheap w gr = Some g" "feed_cb g = 0" "rflags g AND ETP_FLAG_DELAYED \<noteq> 0" "grp g = 0" "destroy_cb g \<noteq> 0"
    and r: "gheap w req = Some r" "destroy_cb r \<noteq> 0"
  shows "\<exists>x w'. eio_finish cb (Suc (Suc n)) req w = Some (x, w') \<and> keeps {gr, req} (gheap w) (gheap w') \<and>
    finishes w' = finishes w @ (if called r then [req] else []) @ (if called g then [gr] else [])"
proof -
  obtain x w1 where w1: "EIO_FINISH cb req w = Some (x, w1)" "gheap w1 = gheap w"
    "finishes w1 = finishes w @ (if called r then [req] else [])" using finish_step [OF cb r(1)] by blast
  have ok1: "grp_ok (gheap w1) gr ([] @ req # [])" using ok w1(2) by simp
  have gr: "grp r = gr" "gr \<noteq> 0" "req \<noteq> gr" using ok r(1) by (auto simp: grp_ok_def ring_def)
  obtain w2 g2 fl where w2: "unlink_req req w1 = Some w2" "gheap w2 gr = Some g2"
    "grp_try_feed cb gr (put_req gr (g2\<lparr>rsize := rsize g2 - 1\<rparr>) w2) = Some (put_req gr (g2\<lparr>rsize := 0, rflags := fl\<rparr>) w2)"
    "fl AND ETP_FLAG_DELAYED = rflags g AND ETP_FLAG_DELAYED" "status g2 = status g" "gevents w2 = gevents w1"
    "\<And>a. map_option status (gheap w2 a) = map_option status (gheap w1 a)"
    using leave_group [OF ok1, of g cb] g w1(2) by auto
  define g3 where "g3 = g2\<lparr>rsize := 0, rflags := fl\<rparr>"
  define w3 where "w3 = put_req gr g3 w2"
  have h3: "gheap w3 = (gheap w2)(gr \<mapsto> g3)" by (simp add: w3_def put_req_def)
  have st3: "status g3 = status g" using w2(4,5) by (simp add: g3_def status_def called_def)
  then have g3: "grp g3 = 0" "destroy_cb g3 \<noteq> 0" "called g3 = called g" using g(4,5) by (auto simp: status_def)
  have h3gr: "gheap w3 gr = Some g3" by (simp add: h3)
  obtain x2 w4 where w4: "EIO_FINISH cb gr w3 = Some (x2, w4)" "gheap w4 = gheap w3"
    "finishes w4 = finishes w3 @ (if called g3 then [gr] else [])" using finish_step [OF cb h3gr] by blast
  have "gheap w4 gr = Some g3" using w4(2) h3gr by simp
  from destroy_step [OF cb this g3(2)] obtain w5 where w5: "eio_destroy cb gr w4 = Some w5"
    "gheap w5 = (gheap w4)(gr := None)" "finishes w5 = finishes w4" by blast
  have "eio_finish cb (Suc n) gr w3 = Some (x2, w5)" using w4(1,2) h3gr g3(1) w5(1) by simp
  moreover have "rflags g3 AND ETP_FLAG_DELAYED \<noteq> 0" using w2(4) g(3) by (simp add: g3_def)
  ultimately have dec: "grp_dec cb (eio_finish cb (Suc n)) gr w2 = Some (x2, w5)"
    using w2(2,3) by (simp add: grp_dec_def w3_def g3_def put_req_def del: eio_finish.simps)
  obtain r2 where r2: "gheap w2 req = Some r2" "status r2 = status r" using w2(7) [of req] w1(2) r(1) by auto
  have "gheap w5 req = Some r2" "destroy_cb r2 \<noteq> 0" using r2 gr(3) r(2) h3 w4(2) w5(2) by (auto simp: status_def)
  from destroy_step [OF cb this] obtain w6 where w6: "eio_destroy cb req w5 = Some w6"
    "gheap w6 = (gheap w5)(req := None)" "finishes w6 = finishes w5" by blast
  have "eio_finish cb (Suc (Suc n)) req w = Some (if x = 0 then x2 else x, w6)"
    unfolding eio_finish.simps(2) [of cb "Suc n"] using w1(1,2) r(1) gr(1,2) w2(1) dec w6(1) by (simp del: eio_finish.simps)
  moreover have "keeps {gr, req} (gheap w) (gheap w6)"
    using w2(7) w1(2) by (simp add: keeps_def w6(2) w5(2) w4(2) h3)
  moreover have "finishes w6 = finishes w @ (if called r then [req] else []) @ (if called g then [gr] else [])"
    using w6(3) w5(3) w4(3) g3(3) finishes_cong [of w3 w2] finishes_cong [OF w2(6)] w1(3) by (simp add: w3_def put_req_def)
  ultimately show ?thesis by blast
qed

lemma grp_ok_flags:
  assumes "grp_ok h gr ms" "h gr = Some g" and "h' = h(gr \<mapsto> g')"
    and "grp_first g' = grp_first g" "rsize g' = rsize g" "grp_next g' = grp_next g" "grp_prev g' = grp_prev g"
  shows "grp_ok h' gr ms"
proof -
  have "gnx h' = gnx h" "gpv h' = gpv h" using assms(2-7) by (auto simp: gnx_def gpv_def fun_eq_iff)
  then show ?thesis using assms unfolding grp_ok_def by auto
qed

section \<open>Properties\<close>

text \<open>Finishing the members of a group one after the other, as the polls do in the order of the results.\<close>

fun finish_all :: "callbacks \<Rightarrow> addr list \<Rightarrow> gworld \<Rightarrow> gworld option" where
  "finish_all cb [] w = Some w"
| "finish_all cb (r # rs) w = do { (x, w) \<leftarrow> eio_finish cb 2 r w; finish_all cb rs w }"

lemma keeps_comp: "keeps A h h' \<Longrightarrow> keeps B h' h'' \<Longrightarrow> keeps (A \<union> B) h h''"
  unfolding keeps_def by (metis Un_iff option.map_disc_iff)

lemma keeps_status: "keeps A h h' \<Longrightarrow> h a = Some r \<Longrightarrow> a \<notin> A \<Longrightarrow> \<exists>r'. h' a = Some r' \<and> status r' = status r"
  unfolding keeps_def by (metis map_option_eq_Some option.simps(9))

definition is_called :: "req_heap \<Rightarrow> addr \<Rightarrow> bool" where
  "is_called h a \<longleftrightarrow> (case h a of None \<Rightarrow> False | Some r \<Rightarrow> called r)"

lemma is_called_keeps: "keeps A h h' \<Longrightarrow> a \<notin> A \<Longrightarrow> is_called h' a = is_called h a"
proof -
  assume "keeps A h h'" "a \<notin> A"
  then have "map_option status (h' a) = map_option status (h a)" by (simp add: keeps_def)
  then show ?thesis by (auto simp: is_called_def status_def split: option.splits)
qed

lemma finish_all_ok:
  assumes "harmless cb" and "grp_ok (gheap w) gr ms" and "distinct rs" "set rs = set ms" "rs \<noteq> []"
    and "gheap w gr = Some g" "feed_cb g = 0" "rflags g AND ETP_FLAG_DELAYED \<noteq> 0" "grp g = 0" "destroy_cb g \<noteq> 0"
    and "\<forall>m \<in> set ms. \<exists>r. gheap w m = Some r \<and> destroy_cb r \<noteq> 0"
  shows "\<exists>w'. finish_all cb rs w = Some w' \<and> keeps (insert gr (set ms)) (gheap w) (gheap w') \<and>
    finishes w' = finishes w @ filter (is_called (gheap w)) (rs @ [gr])"
  using assms
proof (induction rs arbitrary: w ms g)
  case (Cons a rs)
  have dist: "distinct ms" using Cons.prems(2) by (simp add: grp_ok_def ring_def)
  obtain r where r: "gheap w a = Some r" "destroy_cb r \<noteq> 0" using Cons.prems by auto
  have gr: "gr \<notin> set ms" using Cons.prems(2) by (simp add: grp_ok_def)
  show ?case
  proof (cases rs)
    case Nil
    have "set ms = {a}" using Cons.prems(4) Nil by simp
    then have "length ms = 1" using distinct_card [OF dist] by simp
    then have ms: "ms = [a]" using \<open>set ms = {a}\<close> by (cases ms) auto
    obtain x w' where "eio_finish cb (Suc (Suc 0)) a w = Some (x, w')" "keeps {gr, a} (gheap w) (gheap w')"
      "finishes w' = finishes w @ (if called r then [a] else []) @ (if called g then [gr] else [])"
      using finish_last [OF Cons.prems(1) _ Cons.prems(6-10) r] Cons.prems(2) ms by blast
    then show ?thesis using ms Nil r(1) Cons.prems(6) by (auto simp: numeral_2_eq_2 is_called_def simp del: eio_finish.simps)
  next
    case (Cons b rs')
    obtain us vs where ms: "ms = us @ a # vs" using Cons.prems(4) by (metis list.set_intros(1) split_list)
    have set_rs: "set rs = set (us @ vs)" using Cons.prems(3,4) dist ms by auto
    then have more: "us @ vs \<noteq> []" using Cons by auto
    obtain x w1 where w1: "eio_finish cb (Suc 1) a w = Some (x, w1)" "grp_ok (gheap w1) gr (us @ vs)"
      "keeps {a} (gheap w) (gheap w1)" "finishes w1 = finishes w @ (if called r then [a] else [])"
      using finish_member [OF Cons.prems(1) _ more Cons.prems(6,7) r, of 1] Cons.prems(2) unfolding ms by blast
    have "a \<noteq> gr" using gr ms by auto
    then obtain g1 where g1: "gheap w1 gr = Some g1" "status g1 = status g"
      using keeps_status [OF w1(3) Cons.prems(6)] by auto
    have dm: "\<forall>m \<in> set (us @ vs). \<exists>r. gheap w1 m = Some r \<and> destroy_cb r \<noteq> 0"
    proof
      fix m assume m: "m \<in> set (us @ vs)"
      then have "m \<noteq> a" "m \<in> set ms" using dist ms by auto
      then show "\<exists>r. gheap w1 m = Some r \<and> destroy_cb r \<noteq> 0"
        using Cons.prems(11) keeps_status [OF w1(3), of m] by (fastforce simp: status_def)
    qed
    obtain w' where w': "finish_all cb rs w1 = Some w'" "keeps (insert gr (set (us @ vs))) (gheap w1) (gheap w')"
      "finishes w' = finishes w1 @ filter (is_called (gheap w1)) (rs @ [gr])"
      using Cons.IH [OF Cons.prems(1) w1(2) _ set_rs _ g1(1) _ _ _ _ dm] Cons.prems(3,7-10) g1(2) Cons
      by (auto simp: status_def)
    have "is_called (gheap w1) m = is_called (gheap w) m" if "m \<in> set (rs @ [gr])" for m
      by (rule is_called_keeps [OF w1(3)]) (use that Cons.prems(3) \<open>a \<noteq> gr\<close> in auto)
    then have "filter (is_called (gheap w1)) (rs @ [gr]) = filter (is_called (gheap w)) (rs @ [gr])"
      by (intro filter_cong) auto
    moreover have "{a} \<union> insert gr (set (us @ vs)) = insert gr (set ms)" using ms by auto
    moreover have "is_called (gheap w) a = called r" by (simp add: is_called_def r(1))
    ultimately show ?thesis
      using keeps_comp [OF w1(3) w'(2)] w1(1,4) w'(1,3)
      by (auto simp: numeral_2_eq_2 simp del: eio_finish.simps)
  qed
qed simp

text \<open>Adding a request to a group makes it the first of the linked members, counts it and leaves every other
  request alone.\<close>
theorem eio_grp_add_links:
  assumes "grp_ok (gheap w) gr ms" and "gheap w req = Some r" "req \<noteq> 0" "req \<notin> set (gr # ms)"
    and "gheap w gr = Some g" "int1 g \<noteq> 2" and "length ms + 1 < 2 ^ 64"
  shows "\<exists>w'. eio_grp_add gr req w = Some w' \<and> grp_ok (gheap w') gr (req # ms) \<and> gevents w' = gevents w \<and>
    (\<forall>a. a \<notin> set (gr # req # ms) \<longrightarrow> gheap w' a = gheap w a)"
  using eio_grp_add_ok [OF assms(1,2,3) _ _ assms(5,6,7)] assms(4) by auto

text \<open>C17: A group ends after its last member and only then. When the members of a group that waits for them, whose
  feeder is done, are finished in any order, every call succeeds, their finish callbacks run in that order, the
  callback of the group runs exactly once after all of them, cancelled requests and requests without a callback are
  passed over, the members and the group are freed, and no other request changes.\<close>
theorem group_ends_after_members:
  assumes "harmless cb" and "grp_ok (gheap w) gr ms" and "distinct rs" "set rs = set ms" "rs \<noteq> []"
    and "gheap w gr = Some g" "feed_cb g = 0" "rflags g AND ETP_FLAG_DELAYED \<noteq> 0" "grp g = 0" "destroy_cb g \<noteq> 0"
    and "\<forall>m \<in> set ms. \<exists>r. gheap w m = Some r \<and> destroy_cb r \<noteq> 0"
  shows "\<exists>w'. finish_all cb rs w = Some w' \<and> finishes w' = finishes w @ filter (is_called (gheap w)) (rs @ [gr]) \<and>
    (\<forall>a \<in> insert gr (set ms). gheap w' a = None) \<and>
    (\<forall>a. a \<notin> insert gr (set ms) \<longrightarrow> map_option status (gheap w' a) = map_option status (gheap w a))"
  using finish_all_ok [OF assms] unfolding keeps_def by blast

text \<open>C24: Feeding ends. A feeder that adds at most one member at a time, through the library and as long as it has any,
  is called until the group holds as many members as its limit, is cancelled, or the feeder adds nothing; then the
  feeder is removed. A negative limit counts as one of more than \<open>2 ^ 63\<close>.\<close>
theorem feeding_ends:
  assumes feeder: "\<And>w ms g. grp_ok (gheap w) gr ms \<Longrightarrow> gheap w gr = Some g \<Longrightarrow> rflags g AND ETP_FLAG_GROUPADD = 0 \<Longrightarrow>
      \<exists>w' ms' g'. EIO_FEED cb gr w = Some w' \<and> grp_ok (gheap w') gr ms' \<and> gheap w' gr = Some g' \<and> int2 g' = int2 g \<and>
        (if rflags g' AND ETP_FLAG_GROUPADD = 0 then ms' = ms else \<exists>m. ms' = m # ms)"
    and "grp_ok (gheap w) gr ms" "gheap w gr = Some g"
  shows "\<exists>w' g' new. grp_try_feed cb gr w = Some w' \<and> grp_ok (gheap w') gr (new @ ms) \<and> gheap w' gr = Some g' \<and>
    int2 g' = int2 g \<and> (unat (of_int (int2 g) :: u64) \<le> length (new @ ms) \<or> cancelled g' \<or> feed_cb g' = 0)"
  using assms(2,3)
proof (induction "unat (of_int (int2 g) :: u64) - length ms" arbitrary: w ms g rule: less_induct)
  case less
  have size: "unat (rsize g) = length ms" using less.prems by (auto simp: grp_ok_def unat_of_nat)
  define w1 where "w1 = put_req gr (g\<lparr>rflags := rflags g AND NOT ETP_FLAG_GROUPADD\<rparr>) w"
  show ?case
  proof (cases "rsize g < of_int (int2 g) \<and> \<not> cancelled g")
    case False
    then have "grp_try_feed cb gr w = Some w" using less.prems(2) by (subst grp_try_feed.simps) auto
    moreover have "unat (of_int (int2 g) :: u64) \<le> length ([] @ ms) \<or> cancelled g \<or> feed_cb g = 0"
      using False size by (auto simp: word_less_nat_alt)
    ultimately show ?thesis using less.prems by (intro exI [of _ w] exI [of _ g] exI [of _ "[]"]) simp
  next
    case True
    have h1: "gheap w1 = (gheap w)(gr \<mapsto> g\<lparr>rflags := rflags g AND NOT ETP_FLAG_GROUPADD\<rparr>)" by (simp add: w1_def put_req_def)
    have ok1: "grp_ok (gheap w1) gr ms" by (rule grp_ok_flags [OF less.prems h1]) simp_all
    have "(rflags g AND NOT ETP_FLAG_GROUPADD) AND ETP_FLAG_GROUPADD = 0" by (simp add: and.assoc)
    then obtain w2 ms2 g2 where w2: "EIO_FEED cb gr w1 = Some w2" "grp_ok (gheap w2) gr ms2" "gheap w2 gr = Some g2" "int2 g2 = int2 g"
      "if rflags g2 AND ETP_FLAG_GROUPADD = 0 then ms2 = ms else \<exists>m. ms2 = m # ms"
      using feeder [OF ok1, of "g\<lparr>rflags := rflags g AND NOT ETP_FLAG_GROUPADD\<rparr>"] by (auto simp: h1)
    show ?thesis
    proof (cases "rflags g2 AND ETP_FLAG_GROUPADD = 0")
      case stop: True
      have "grp_try_feed cb gr w = Some (put_req gr (g2\<lparr>feed_cb := 0\<rparr>) w2)"
        using less.prems(2) True w2(1,3) stop unfolding w1_def by (subst grp_try_feed.simps) simp
      moreover have "grp_ok (gheap (put_req gr (g2\<lparr>feed_cb := 0\<rparr>) w2)) gr ms"
      proof -
        have ok2: "grp_ok (gheap w2) gr ms" using w2(2,5) stop by simp
        have "gheap (put_req gr (g2\<lparr>feed_cb := 0\<rparr>) w2) = (gheap w2)(gr \<mapsto> g2\<lparr>feed_cb := 0\<rparr>)" by (simp add: put_req_def)
        then show ?thesis
          by (rule grp_ok_flags [where h = "gheap w2" and g = g2, OF ok2 w2(3)]) simp_all
      qed
      moreover have "gheap (put_req gr (g2\<lparr>feed_cb := 0\<rparr>) w2) gr = Some (g2\<lparr>feed_cb := 0\<rparr>)" by (simp add: put_req_def)
      ultimately show ?thesis using w2(4) by (intro exI [of _ "put_req gr (g2\<lparr>feed_cb := 0\<rparr>) w2"] exI [of _ "g2\<lparr>feed_cb := 0\<rparr>"] exI [of _ "[]"]) simp
    next
      case add: False
      then obtain m where m: "ms2 = m # ms" using w2(5) by auto
      have step: "grp_try_feed cb gr w = grp_try_feed cb gr w2"
        using less.prems(2) True w2(1,3) add unfolding w1_def by (subst grp_try_feed.simps) simp
      have "unat (of_int (int2 g2) :: u64) - length ms2 < unat (of_int (int2 g) :: u64) - length ms"
        using True size m w2(4) by (auto simp: word_less_nat_alt)
      from less.hyps [OF this w2(2,3)] obtain w' g' new where
        "grp_try_feed cb gr w2 = Some w'" "grp_ok (gheap w') gr (new @ ms2)" "gheap w' gr = Some g'" "int2 g' = int2 g2"
        "unat (of_int (int2 g2) :: u64) \<le> length (new @ ms2) \<or> cancelled g' \<or> feed_cb g' = 0" by blast
      then show ?thesis using step m w2(4)
        by (intro exI [of _ w'] exI [of _ g'] exI [of _ "new @ [m]"]) simp
    qed
  qed
qed

section \<open>Examples\<close>

text \<open>A feeder that adds request 5 to group 3 if it is in no group yet.\<close>

definition demo_cb :: callbacks where
  "demo_cb = \<lparr>finish_fn = (\<lambda>k a w. Some (0, w)), destroy_fn = (\<lambda>k a w. Some (eio_api_destroy a w)),
     feed_fn = (\<lambda>k a w. case (gheap w 5, gheap w a) of
         (Some r, Some g) \<Rightarrow> if a = 3 \<and> grp r = 0 \<and> int1 g \<noteq> 2 \<and> rsize g + 1 \<noteq> 0 then eio_grp_add a 5 w else Some w
       | _ \<Rightarrow> Some w)\<rparr>"

definition demo_req :: "u8 \<Rightarrow> u64 \<Rightarrow> addr \<Rightarrow> addr \<Rightarrow> addr \<Rightarrow> addr \<Rightarrow> eio_req" where
  "demo_req fl n g p x f = quit_req\<lparr>rflags := fl, rsize := n, int2 := 1, finish_cb := 1, destroy_cb := 1, grp := g, grp_prev := p,
     grp_next := x, grp_first := f\<rparr>"

definition demo_heap :: req_heap where
  "demo_heap = [1 \<mapsto> demo_req 0 0 3 0 2 0, 2 \<mapsto> demo_req 0 0 3 1 0 0, 3 \<mapsto> demo_req ETP_FLAG_DELAYED 2 0 0 0 1]"

lemma demo_heap_ok: "grp_ok demo_heap 3 [1, 2]"
  by (simp add: grp_ok_def ring_def edge_def gnx_def gpv_def demo_heap_def demo_req_def)

theorem eio_grp_add_links_witness:
  "\<exists>w'. eio_grp_add 3 5 \<lparr>gheap = demo_heap(5 \<mapsto> demo_req 0 0 0 0 0 0), gevents = []\<rparr> = Some w' \<and> grp_ok (gheap w') 3 [5, 1, 2]"
proof -
  have "grp_ok (demo_heap(5 \<mapsto> demo_req 0 0 0 0 0 0)) 3 [1, 2]"
    by (simp add: grp_ok_def ring_def edge_def gnx_def gpv_def demo_heap_def demo_req_def)
  moreover have "int1 (demo_req ETP_FLAG_DELAYED 2 0 0 0 1) \<noteq> 2" by (simp add: demo_req_def quit_req_def)
  ultimately show ?thesis
    using eio_grp_add_links [of "\<lparr>gheap = demo_heap(5 \<mapsto> demo_req 0 0 0 0 0 0), gevents = []\<rparr>" 3 "[1, 2]"
      5 "demo_req 0 0 0 0 0 0" "demo_req ETP_FLAG_DELAYED 2 0 0 0 1"]
    by (auto simp: demo_heap_def)
qed

theorem group_ends_after_members_witness:
  "\<exists>w'. finish_all demo_cb [2, 1] \<lparr>gheap = demo_heap, gevents = []\<rparr> = Some w' \<and> finishes w' = [2, 1, 3]"
proof -
  define w :: gworld where "w = \<lparr>gheap = demo_heap, gevents = []\<rparr>"
  define g where "g = demo_req ETP_FLAG_DELAYED 2 0 0 0 1"
  have "\<exists>w'. finish_all demo_cb [2, 1] w = Some w' \<and> finishes w' = finishes w @ filter (is_called (gheap w)) ([2, 1] @ [3]) \<and>
    (\<forall>a \<in> insert 3 (set [1, 2]). gheap w' a = None) \<and>
    (\<forall>a. a \<notin> insert 3 (set [1, 2]) \<longrightarrow> map_option status (gheap w' a) = map_option status (gheap w a))"
  proof (rule group_ends_after_members)
    show "harmless demo_cb" by (simp add: harmless_def demo_cb_def)
    show "grp_ok (gheap w) 3 [1, 2]" using demo_heap_ok by (simp add: w_def)
    show "gheap w 3 = Some g" by (simp add: w_def demo_heap_def g_def)
  qed (simp_all add: g_def w_def demo_heap_def demo_req_def quit_req_def ETP_FLAG_DELAYED_def insert_commute)
  moreover have "filter (is_called (gheap w)) ([2, 1] @ [3]) = [2, 1, 3]"
    by (simp add: w_def is_called_def demo_heap_def demo_req_def called_def quit_req_def)
  moreover have "finishes w = []" by (simp add: w_def finishes_def map_filter_simps)
  ultimately show ?thesis unfolding w_def by auto
qed

lemma demo_feeder:
  assumes ok: "grp_ok (gheap w) 3 ms" and g: "gheap w 3 = Some g" and fl: "rflags g AND ETP_FLAG_GROUPADD = 0"
  shows "\<exists>w' ms' g'. EIO_FEED demo_cb 3 w = Some w' \<and> grp_ok (gheap w') 3 ms' \<and> gheap w' 3 = Some g' \<and> int2 g' = int2 g \<and>
    (if rflags g' AND ETP_FLAG_GROUPADD = 0 then ms' = ms else \<exists>m. ms' = m # ms)"
proof -
  define v where "v = say (Fed 3) w"
  have h: "gheap v = gheap w" by (simp add: v_def say_def)
  consider (adds) r where "feed_cb g \<noteq> 0" "gheap w 5 = Some r" "grp r = 0" "int1 g \<noteq> 2" "rsize g + 1 \<noteq> 0"
    | (idle) "EIO_FEED demo_cb 3 w \<in> {Some w, Some v}"
  proof (cases "\<exists>r. feed_cb g \<noteq> 0 \<and> gheap w 5 = Some r \<and> grp r = 0 \<and> int1 g \<noteq> 2 \<and> rsize g + 1 \<noteq> 0")
    case False
    then have "EIO_FEED demo_cb 3 w = Some w \<or> EIO_FEED demo_cb 3 w = Some v"
      using g h by (cases "gheap w 5") (auto simp: EIO_FEED_def demo_cb_def simp flip: v_def)
    then show ?thesis using idle by blast
  qed (use adds in blast)
  then show ?thesis
  proof cases
    case adds
    have n: "length ms + 1 < 2 ^ 64"
    proof (rule ccontr)
      assume "\<not> ?thesis"
      then have "length ms + 1 = 2 ^ 64" using ok by (simp add: grp_ok_def)
      moreover have "rsize g + 1 = of_nat (length ms + 1)" using ok g by (simp add: grp_ok_def add.commute)
      ultimately show False using adds(5) by simp
    qed
    have "5 \<notin> set ms" using ok adds(2,3) by (auto simp: grp_ok_def)
    moreover have "grp_ok (gheap v) 3 ms" "gheap v 5 = Some r" "gheap v 3 = Some g" using ok g adds(2) h by simp_all
    ultimately obtain w' where w': "eio_grp_add 3 5 v = Some w'" "grp_ok (gheap w') 3 (5 # ms)"
      "gheap w' 3 = Some (g\<lparr>rflags := rflags g OR ETP_FLAG_GROUPADD, rsize := rsize g + 1, grp_first := 5\<rparr>)"
      using eio_grp_add_ok [of v 3 ms 5 r g] adds(4) n by auto
    have "(rflags g OR ETP_FLAG_GROUPADD) AND ETP_FLAG_GROUPADD \<noteq> 0"
      by (simp add: bit.conj_disj_distrib2 fl) (simp add: ETP_FLAG_GROUPADD_def)
    moreover have "EIO_FEED demo_cb 3 w = Some w'"
      using adds g w'(1) h by (simp add: EIO_FEED_def demo_cb_def flip: v_def)
    ultimately show ?thesis using w'(2,3) by auto
  next
    case idle
    then obtain u where u: "EIO_FEED demo_cb 3 w = Some u" "gheap u = gheap w" using h by auto
    show ?thesis by (intro exI [of _ u] exI [of _ ms] exI [of _ g]) (simp add: u ok g fl)
  qed
qed

theorem feeding_ends_witness:
  "\<exists>w' g' new. grp_try_feed demo_cb 3 \<lparr>gheap = demo_heap, gevents = []\<rparr> = Some w' \<and> grp_ok (gheap w') 3 (new @ [1, 2]) \<and>
     gheap w' 3 = Some g'"
proof -
  define w :: gworld where "w = \<lparr>gheap = demo_heap, gevents = []\<rparr>"
  define g where "g = demo_req ETP_FLAG_DELAYED 2 0 0 0 1"
  have "\<exists>w' g' new. grp_try_feed demo_cb 3 w = Some w' \<and> grp_ok (gheap w') 3 (new @ [1, 2]) \<and> gheap w' 3 = Some g' \<and>
    int2 g' = int2 g \<and> (unat (of_int (int2 g) :: u64) \<le> length (new @ [1, 2]) \<or> cancelled g' \<or> feed_cb g' = 0)"
  proof (rule feeding_ends)
    show "grp_ok (gheap w) 3 [1, 2]" using demo_heap_ok by (simp add: w_def)
    show "gheap w 3 = Some g" by (simp add: w_def demo_heap_def g_def)
  qed (fact demo_feeder)
  then show ?thesis unfolding w_def by blast
qed

end
