(* ===== verification/Eio_Io.thy ===== *)
theory Eio_Io
  imports Etp_Pool
begin

text \<open>
  The system calls that \<open>src/libeio/eio.c\<close> emulates or prepares: \<open>syncfs\<close>, \<open>sync_file_range\<close>,
  \<open>sendfile\<close>, the page-wise operations on memory, \<open>lseek\<close>, and the functions on a file name that
  open and close a descriptor. The configuration is that of \<open>src/libeio/config.h\<close> on Linux. The
  state has the calls made so far, what each further one will return, and the temporary buffer of the worker.
\<close>

section \<open>System calls\<close>

datatype dirfd = AT_FDCWD | Dir_fd int

text \<open>A file name is a string in memory or the one in a working directory.\<close>

datatype pathname = Path addr | Wd_str addr

datatype call =
    Read int addr u64 | Pread int addr u64 int | Write int addr u64 | Pwrite int addr u64 int
  | Lseek int int int | Readahead int int u64 | Sendfile int int int nat | Pread_buf int nat int | Write_buf int "u8 list"
  | Syncfs int | Sync | Fsync int | Fdatasync int | Sync_file_range int int u64 int | Fallocate int int int u64
  | Mlock u64 u64 | Mlockall int | Msync u64 u64 int | Touch nat
  | Openat dirfd pathname int int | Ftruncate int int | Fstatvfs int addr | Close int | Malloc nat | Free addr
  | Fstat int addr | Fstatat dirfd pathname addr int | Fchown int int int | Fchownat dirfd pathname int int
  | Fchmod int int | Fchmodat dirfd pathname int | Dup2 int int
  | Unlinkat dirfd pathname int | Rmdir pathname | Mkdirat dirfd pathname int
  | Rename pathname pathname | Renameat dirfd pathname dirfd pathname | Linkat dirfd pathname dirfd pathname
  | Symlinkat pathname dirfd pathname | Mknodat dirfd pathname int int | Readlinkat dirfd pathname addr nat
  | Futimens int "((int \<times> int) \<times> (int \<times> int)) option" | Utimensat dirfd pathname "((int \<times> int) \<times> (int \<times> int)) option"
  | Select int int

text \<open>Working directories are in memory too; strings are without their final zero byte.\<close>

record wd_data =
  wd_fd :: int
  wd_str :: "u8 list"

record io =
  replies :: "nat \<Rightarrow> int \<times> int"
  calls :: "call list"
  kerrno :: int
  strs :: "addr \<rightharpoonup> u8 list"
  wds :: "addr \<rightharpoonup> wd_data"
  tmp :: etp_tmpbuf

definition no_tmpbuf :: etp_tmpbuf where "no_tmpbuf = \<lparr>tb_ptr = None, tb_len = 0\<rparr>"

definition sys :: "call \<Rightarrow> io \<Rightarrow> int \<times> io" where
  "sys c w = (case replies w (length (calls w)) of (r, e) \<Rightarrow>
     (r, w\<lparr>calls := calls w @ [c], kerrno := (if r < 0 then e else kerrno w)\<rparr>))"

text \<open>A call that moves bytes never reports more than were asked for or are there.\<close>

definition sys_upto :: "nat \<Rightarrow> call \<Rightarrow> io \<Rightarrow> int \<times> io" where
  "sys_upto n c w = (case sys c w of (r, w) \<Rightarrow> (min r (int n), w))"

definition ENOENT :: int where "ENOENT = 2"
definition ENOMEM :: int where "ENOMEM = 12"
definition EINVAL :: int where "EINVAL = 22"
definition ENOSYS :: int where "ENOSYS = 38"
definition ENOTSOCK :: int where "ENOTSOCK = 88"
definition EOPNOTSUPP :: int where "EOPNOTSUPP = 95"
definition ECANCELED :: int where "ECANCELED = 125"

section \<open>The code\<close>

definition eio__syncfs :: "int \<Rightarrow> io \<Rightarrow> int \<times> io" where
  "eio__syncfs fd w =
     (case sys (Syncfs fd) w of (res, w) \<Rightarrow>
        if res < 0 \<and> kerrno w = ENOSYS \<and> fd \<ge> 0 then (res, snd (sys Sync w)) else (res, w))"

text \<open>On Linux the flags have the values of the kernel's.\<close>

definition eio__sync_file_range :: "int \<Rightarrow> int \<Rightarrow> u64 \<Rightarrow> int \<Rightarrow> io \<Rightarrow> int \<times> io" where
  "eio__sync_file_range fd offset nbytes flags w =
     (case sys (Sync_file_range fd offset nbytes flags) w of (res, w) \<Rightarrow>
        if res = 0 \<or> kerrno w \<noteq> ENOSYS then (res, w) else sys (Fdatasync fd) w)"

definition eio__fallocate :: "int \<Rightarrow> int \<Rightarrow> int \<Rightarrow> u64 \<Rightarrow> io \<Rightarrow> int \<times> io" where
  "eio__fallocate fd mode offset len w = sys (Fallocate fd mode offset len) w"

subsection \<open>\<open>sendfile\<close>\<close>

text \<open>
  \<open>src\<close> is the content of the input file and \<open>out\<close> what has been written to the output. \<open>Inl\<close> is a
  return, \<open>Inr\<close> the \<open>break\<close> with the result of the call.
\<close>

definition EIO_BUFSIZE :: nat where "EIO_BUFSIZE = 65536"

function native_loop :: "u8 list \<Rightarrow> int \<Rightarrow> int \<Rightarrow> nat \<Rightarrow> nat \<Rightarrow> nat \<Rightarrow> u8 list \<Rightarrow> io \<Rightarrow> (int + int) \<times> u8 list \<times> io" where
  "native_loop src ofd ifd offset todo written out w =
     (case sys_upto (min todo (length src - offset)) (Sendfile ofd ifd (int offset) todo) w of (res, w) \<Rightarrow>
        (let out = out @ take (nat res) (drop offset src);
             written' = written + nat res
         in if res \<le> 128 * 1024 * 1024
            then (if written' \<noteq> 0 then (Inl (int written'), out, w) else (Inr res, out, w))
            else if todo - nat res = 0 then (Inl (int written'), out, w)
            else native_loop src ofd ifd (offset + nat res) (todo - nat res) written' out w))"
  by pat_completeness auto
termination
  by (relation "measure (\<lambda>(src, ofd, ifd, offset, todo, written, out, w). todo)") auto

function emulation_loop :: "u8 list \<Rightarrow> int \<Rightarrow> int \<Rightarrow> nat \<Rightarrow> nat \<Rightarrow> int \<Rightarrow> u8 list \<Rightarrow> io \<Rightarrow> int \<times> u8 list \<times> io" where
  "emulation_loop src ofd ifd offset todo res out w =
     (if todo = 0 then (res, out, w)
      else case sys_upto (min (min todo EIO_BUFSIZE) (length src - offset)) (Pread_buf ifd (min todo EIO_BUFSIZE) (int offset)) w of
        (cnt, w) \<Rightarrow>
          if cnt \<le> 0 then ((if cnt \<noteq> 0 \<and> res = 0 then - 1 else res), out, w)
          else (let buf = take (nat cnt) (drop offset src)
                in case sys_upto (length buf) (Write_buf ofd buf) w of (cnt, w) \<Rightarrow>
                  if cnt \<le> 0 then ((if cnt \<noteq> 0 \<and> res = 0 then - 1 else res), out, w)
                  else emulation_loop src ofd ifd (offset + nat cnt) (todo - nat cnt) (res + cnt) (out @ take (nat cnt) buf) w))"
  by pat_completeness auto
termination
  by (relation "measure (\<lambda>(src, ofd, ifd, offset, todo, res, out, w). todo)") (auto simp: nat_less_iff)

declare native_loop.simps [simp del] emulation_loop.simps [simp del]

text \<open>Both system calls refuse a negative offset.\<close>

definition refused :: "call \<Rightarrow> io \<Rightarrow> io" where
  "refused c w = w\<lparr>calls := calls w @ [c], kerrno := EINVAL\<rparr>"

definition eio__sendfile :: "u8 list \<Rightarrow> int \<Rightarrow> int \<Rightarrow> int \<Rightarrow> nat \<Rightarrow> u8 list \<Rightarrow> io \<Rightarrow> int \<times> u8 list \<times> io" where
  "eio__sendfile src ofd ifd offset todo out w =
     (if todo = 0 then (0, out, w)
      else case (if offset < 0 then (Inr (- 1), out, refused (Sendfile ofd ifd offset todo) w)
                 else native_loop src ofd ifd (nat offset) todo 0 out w) of
        (Inl r, out, w) \<Rightarrow> (r, out, w)
      | (Inr res, out, w) \<Rightarrow>
          if res < 0 \<and> kerrno w \<in> {ENOSYS, EINVAL, ENOTSOCK, EOPNOTSUPP} then
            (case sys (Malloc EIO_BUFSIZE) w of (buf, w) \<Rightarrow>
               if buf \<le> 0 then (- 1, out, w\<lparr>kerrno := ENOMEM\<rparr>)
               else case (if offset < 0 then (- 1, out, refused (Pread_buf ifd (min todo EIO_BUFSIZE) offset) w)
                          else emulation_loop src ofd ifd (nat offset) todo 0 out (w\<lparr>kerrno := ENOMEM\<rparr>)) of
                 (res, out, w) \<Rightarrow> (res, out, snd (sys (Free (nat buf)) w)))
          else (res, out, w))"

subsection \<open>Memory\<close>

definition eio_pagesize :: nat where "eio_pagesize = 4096"

definition eio_page_align :: "u64 \<Rightarrow> u64 \<Rightarrow> u64 \<times> u64" where
  "eio_page_align addr len =
     (let mask = of_nat eio_pagesize - 1;
          adj = mask AND addr;
          addr = addr - adj;
          len = len + adj;
          len = (len + mask) AND NOT mask
      in (addr, len))"

definition eio__mlockall :: "int \<Rightarrow> io \<Rightarrow> int \<times> io" where
  "eio__mlockall flags w = sys (Mlockall flags) w"

definition eio__mlock :: "u64 \<Rightarrow> u64 \<Rightarrow> io \<Rightarrow> int \<times> io" where
  "eio__mlock addr len w =
     (case eio_page_align addr len of (addr, len) \<Rightarrow> sys (Mlock addr len) w)"

text \<open>The first comparison confuses two constants, so that unknown flags are always dropped.\<close>

definition eio__msync :: "u64 \<Rightarrow> u64 \<Rightarrow> u32 \<Rightarrow> io \<Rightarrow> int \<times> io" where
  "eio__msync mem len flags w =
     (case eio_page_align mem len of (mem, len) \<Rightarrow>
        (let flags = (if flags AND 1 \<noteq> 0 then 1 else 0) OR (if flags AND 2 \<noteq> 0 then 2 else 0) OR (if flags AND 4 \<noteq> 0 then 4 else 0)
         in sys (Msync mem len (uint (flags :: u32))) w))"

text \<open>\<open>cs\<close> says whether the request is found cancelled after each access.\<close>

function touch_loop :: "nat \<Rightarrow> nat \<Rightarrow> bool list \<Rightarrow> io \<Rightarrow> io" where
  "touch_loop addr len cs w =
     (let w = snd (sys (Touch addr) w);
          addr = addr + eio_pagesize
      in if addr < len \<and> \<not> (cs \<noteq> [] \<and> hd cs) then touch_loop addr len (tl cs) w else w)"
  by pat_completeness auto
termination
  by (relation "measure (\<lambda>(addr, len, cs, w). len - addr)") (auto simp: eio_pagesize_def)

declare touch_loop.simps [simp del]

definition eio__mtouch :: "eio_req \<Rightarrow> bool list \<Rightarrow> io \<Rightarrow> int \<times> io" where
  "eio__mtouch req cs w =
     (case eio_page_align (of_nat (ptr2 req)) (rsize req) of (mem, len) \<Rightarrow>
        (let addr = unat mem; last = addr + unat len
         in (0, if addr < last then touch_loop addr (unat len) cs w else w)))"

subsection \<open>Files\<close>

definition eio__lseek :: "eio_req \<Rightarrow> io \<Rightarrow> eio_req \<times> io" where
  "eio__lseek req w =
     (case sys (Lseek (int1 req) (roffs req) (int2 req)) w of (offs, w) \<Rightarrow>
        (req\<lparr>roffs := offs, rresult := (if offs = - 1 then - 1 else 0)\<rparr>, w))"

definition O_WRONLY :: int where "O_WRONLY = 1"
definition O_CLOEXEC :: int where "O_CLOEXEC = 0x80000"
definition O_SEARCH :: int where "O_SEARCH = 0"
definition O_DIRECTORY :: int where "O_DIRECTORY = 0x10000"

definition eio__truncateat :: "dirfd \<Rightarrow> addr \<Rightarrow> int \<Rightarrow> io \<Rightarrow> int \<times> io" where
  "eio__truncateat dirfd path len w =
     (case sys (Openat dirfd (Path path) (O_WRONLY + O_CLOEXEC) 0) w of (fd, w) \<Rightarrow>
        if fd < 0 then (fd, w)
        else case sys (Ftruncate fd len) w of (res, w) \<Rightarrow> (res, snd (sys (Close fd) w)))"

definition eio__statvfsat :: "dirfd \<Rightarrow> addr \<Rightarrow> addr \<Rightarrow> io \<Rightarrow> int \<times> io" where
  "eio__statvfsat dirfd path buf w =
     (case sys (Openat dirfd (Path path) (O_SEARCH + O_CLOEXEC) 0) w of (fd, w) \<Rightarrow>
        if fd < 0 then (fd, w)
        else case sys (Fstatvfs fd buf) w of (res, w) \<Rightarrow> (res, snd (sys (Close fd) w)))"

definition eio_wd_close_sync :: "eio_wd \<Rightarrow> io \<Rightarrow> io option" where
  "eio_wd_close_sync wd w =
     (case wd of
        Wd a \<Rightarrow> do {
          d \<leftarrow> wds w a;
          let w = snd (sys (Close (wd_fd d)) w);
          let w = snd (sys (Free a) w);
          Some (w\<lparr>wds := (wds w)(a := None)\<rparr>)
        }
      | _ \<Rightarrow> Some w)"

definition WD2FD :: "eio_wd \<Rightarrow> io \<Rightarrow> dirfd option" where
  "WD2FD wd w =
     (case wd of EIO_CWD \<Rightarrow> Some AT_FDCWD | EIO_INVALID_WD \<Rightarrow> None | Wd a \<Rightarrow> map_option (\<lambda>d. Dir_fd (wd_fd d)) (wds w a))"

section \<open>Properties\<close>

lemma sys_upto_le: "sys_upto n c w = (r, w') \<Longrightarrow> nat r \<le> n"
  by (auto simp: sys_upto_def split: prod.splits)

lemma take_drop_add: "take a (drop k xs) @ take b (drop (k + a) xs) = take (a + b) (drop k xs)"
  by (simp add: take_add add.commute)

lemma native_loop_copies:
  assumes "native_loop src ofd ifd offset todo written out w = (r, out', w')" and "offset \<le> length src"
    and "written = 0 \<or> 128 * 1024 * 1024 < written"
  shows "case r of
      Inl n \<Rightarrow> \<exists>k. n = int (written + k) \<and> k \<le> todo \<and> offset + k \<le> length src \<and> out' = out @ take k (drop offset src)
    | Inr e \<Rightarrow> e \<le> 0 \<and> written = 0 \<and> out' = out"
  using assms
proof (induction src ofd ifd offset todo written out w rule: native_loop.induct)
  case (1 src ofd ifd offset todo written out w)
  obtain res v where call: "sys_upto (min todo (length src - offset)) (Sendfile ofd ifd (int offset) todo) w = (res, v)" by fastforce
  have le: "nat res \<le> min todo (length src - offset)" by (rule sys_upto_le [OF call])
  show ?case
  proof (cases "res \<le> 128 * 1024 * 1024")
    case True
    then show ?thesis using "1.prems" call le
      by (subst (asm) native_loop.simps) (auto split: if_splits simp: Let_def intro!: exI [of _ "nat res"])
  next
    case big: False
    show ?thesis
    proof (cases "todo - nat res = 0")
      case True
      then show ?thesis using "1.prems" call le big by (subst (asm) native_loop.simps) (auto intro!: exI [of _ "nat res"])
    next
      case False
      have "native_loop src ofd ifd (offset + nat res) (todo - nat res) (written + nat res) (out @ take (nat res) (drop offset src)) v = (r, out', w')"
        using "1.prems"(1) call big False by (subst (asm) native_loop.simps) simp
      from "1.IH" [OF call [symmetric] refl refl big False this] le big "1.prems"(2)
      have "case r of
          Inl n \<Rightarrow> \<exists>k. n = int (written + nat res + k) \<and> k \<le> todo - nat res \<and> offset + nat res + k \<le> length src \<and>
            out' = (out @ take (nat res) (drop offset src)) @ take k (drop (offset + nat res) src)
        | Inr e \<Rightarrow> e \<le> 0 \<and> written + nat res = 0 \<and> out' = out @ take (nat res) (drop offset src)" by auto
      then show ?thesis using le big
        by (cases r) (auto simp: take_drop_add add.assoc intro: exI [of _ "nat res + k" for k])
    qed
  qed
qed

lemma emulation_loop_copies:
  assumes "emulation_loop src ofd ifd offset todo res out w = (r, out', w')" and "offset \<le> length src" "0 \<le> res"
  shows "\<exists>k. (r = res + int k \<or> r = - 1 \<and> k = 0 \<and> res = 0) \<and> k \<le> todo \<and> offset + k \<le> length src \<and>
    out' = out @ take k (drop offset src)"
  using assms
proof (induction src ofd ifd offset todo res out w rule: emulation_loop.induct)
  case (1 src ofd ifd offset todo res out w)
  show ?case
  proof (cases "todo = 0")
    case True
    then show ?thesis using "1.prems" by (subst (asm) emulation_loop.simps) auto
  next
    case todo: False
    obtain cnt v where rd: "sys_upto (min (min todo EIO_BUFSIZE) (length src - offset)) (Pread_buf ifd (min todo EIO_BUFSIZE) (int offset)) w = (cnt, v)"
      by fastforce
    show ?thesis
    proof (cases "cnt \<le> 0")
      case True
      then show ?thesis using "1.prems" todo rd by (subst (asm) emulation_loop.simps) (auto split: if_splits)
    next
      case pos: False
      define buf where "buf = take (nat cnt) (drop offset src)"
      obtain cnt2 v2 where wr: "sys_upto (length buf) (Write_buf ofd buf) v = (cnt2, v2)" by fastforce
      have le: "nat cnt2 \<le> length buf" "length buf \<le> min todo (length src - offset)"
        using sys_upto_le [OF wr] sys_upto_le [OF rd] by (auto simp: buf_def)
      have "nat cnt2 \<le> nat cnt" using le(1) by (simp add: buf_def)
      then have "take (nat cnt2) buf = take (nat cnt2) (drop offset src)" by (simp add: buf_def min_absorb1)
      then have step: "emulation_loop src ofd ifd offset todo res out w =
          (if cnt2 \<le> 0 then ((if cnt2 \<noteq> 0 \<and> res = 0 then - 1 else res), out, v2)
           else emulation_loop src ofd ifd (offset + nat cnt2) (todo - nat cnt2) (res + cnt2) (out @ take (nat cnt2) (drop offset src)) v2)"
        using todo rd pos wr by (subst emulation_loop.simps) (simp add: Let_def flip: buf_def)
      show ?thesis
      proof (cases "cnt2 \<le> 0")
        case True
        then show ?thesis using "1.prems" step by (auto split: if_splits)
      next
        case False
        have em: "emulation_loop src ofd ifd (offset + nat cnt2) (todo - nat cnt2) (res + cnt2) (out @ take (nat cnt2) buf) v2 = (r, out', w')"
          using "1.prems"(1) step False \<open>take (nat cnt2) buf = take (nat cnt2) (drop offset src)\<close> by simp
        have "offset + nat cnt2 \<le> length src" using le "1.prems"(2) by linarith
        with "1.IH" [OF todo rd [symmetric] pos buf_def wr [symmetric] False em] le False "1.prems"(2,3)
        obtain k where k: "r = res + cnt2 + int k" "k \<le> todo - nat cnt2" "offset + nat cnt2 + k \<le> length src"
          "out' = (out @ take (nat cnt2) buf) @ take k (drop (offset + nat cnt2) src)" by auto
        moreover have "nat cnt2 + k \<le> todo" using le k(2) by linarith
        ultimately show ?thesis using le False \<open>take (nat cnt2) buf = take (nat cnt2) (drop offset src)\<close>
          by (intro exI [of _ "nat cnt2 + k"]) (simp add: take_drop_add)
      qed
    qed
  qed
qed

lemma sendfile_refused:
  assumes "offset < 0" and "eio__sendfile src ofd ifd offset todo out w = (r, out', w')"
  shows "out' = out \<and> r = (if todo = 0 then 0 else - 1)"
  using assms by (auto simp: eio__sendfile_def split: prod.splits if_splits)

lemma sendfile_result:
  assumes "nat offset \<le> length src" and "0 \<le> offset" "eio__sendfile src ofd ifd offset todo out w = (r, out', w')"
  shows "if 0 \<le> r then nat r \<le> todo \<and> nat offset + nat r \<le> length src \<and> out' = out @ take (nat r) (drop (nat offset) src) else out' = out"
proof (cases "todo = 0")
  case True
  then show ?thesis using assms by (simp add: eio__sendfile_def)
next
  case todo: False
  obtain res out1 w1 where n: "native_loop src ofd ifd (nat offset) todo 0 out w = (res, out1, w1)" by (metis prod.exhaust)
  note native = native_loop_copies [OF n assms(1)]
  show ?thesis
  proof (cases res)
    case (Inl k)
    then show ?thesis using native assms(2,3) n todo by (auto simp: eio__sendfile_def)
  next
    case (Inr e)
    then have e: "e \<le> 0" "out1 = out" using native by auto
    obtain buf w2 where m: "sys (Malloc EIO_BUFSIZE) w1 = (buf, w2)" by fastforce
    obtain r3 out3 w3 where em: "emulation_loop src ofd ifd (nat offset) todo 0 out (w2\<lparr>kerrno := ENOMEM\<rparr>) = (r3, out3, w3)"
      by (metis prod.exhaust)
    have "if 0 \<le> r3 then nat r3 \<le> todo \<and> nat offset + nat r3 \<le> length src \<and> out3 = out @ take (nat r3) (drop (nat offset) src) else out3 = out"
      using emulation_loop_copies [OF em assms(1)] by auto
    then show ?thesis using assms n todo Inr e m em
      by (auto simp: eio__sendfile_def split: if_splits)
  qed
qed

text \<open>C22: \<open>eio__sendfile\<close>, native or emulated, tells the truth about what it copied. For every behaviour of the system
  calls, a result \<open>k \<ge> 0\<close> means that exactly the next \<open>k\<close> bytes of the input from the given offset were written, in
  order and at most as many as asked for, and a negative result that nothing was written. A negative offset copies nothing.\<close>
theorem sendfile_copies:
  assumes "offset \<le> int (length src)" and "eio__sendfile src ofd ifd offset todo out w = (r, out', w')"
  shows "if 0 \<le> r then nat r \<le> todo \<and> nat offset + nat r \<le> length src \<and> out' = out @ take (nat r) (drop (nat offset) src) else out' = out"
proof (cases "offset < 0")
  case True
  then show ?thesis using sendfile_refused [OF True assms(2)] by simp
next
  case False
  then show ?thesis using sendfile_result [OF _ _ assms(2)] assms(1) by simp
qed

theorem sendfile_copies_witness:
  "(\<lambda>(r, out, w). if 0 \<le> r then out = take (nat r) [20, 30] else out = [])
     (eio__sendfile [10, 20, 30] 4 5 1 9 [] \<lparr>replies = (\<lambda>n. (if n = 0 then - 1 else 1, ENOSYS)), calls = [], kerrno = 0, strs = Map.empty, wds = Map.empty, tmp = no_tmpbuf\<rparr>)"
proof -
  define w where "w = \<lparr>replies = (\<lambda>n. (if n = 0 then - 1 else 1, ENOSYS)), calls = [], kerrno = 0, strs = Map.empty, wds = Map.empty, tmp = no_tmpbuf\<rparr>"
  obtain r out v where e: "eio__sendfile [10, 20, 30] 4 5 1 9 [] w = (r, out, v)" by (metis prod.exhaust)
  have "if 0 \<le> r then nat r \<le> 9 \<and> nat 1 + nat r \<le> length [10, 20, 30 :: u8] \<and> out = [] @ take (nat r) (drop (nat 1) [10, 20, 30]) else out = []"
    by (rule sendfile_copies [OF _ e]) simp
  then show ?thesis using e unfolding w_def by (simp split: if_splits)
qed

section \<open>The heap\<close>

text \<open>The blocks that the calls made so far have allocated and not freed.\<close>

definition heap_step :: "(nat \<Rightarrow> int \<times> int) \<Rightarrow> addr multiset \<Rightarrow> nat \<times> call \<Rightarrow> addr multiset" where
  "heap_step reps H ic = (case ic of (i, c) \<Rightarrow> (case c of
       Malloc n \<Rightarrow> if 0 < fst (reps i) then add_mset (nat (fst (reps i))) H else H
     | Free a \<Rightarrow> H - {#a#}
     | _ \<Rightarrow> H))"

definition allocated :: "io \<Rightarrow> addr multiset" where
  "allocated w = foldl (heap_step (replies w)) {#} (enumerate 0 (calls w))"

text \<open>What a call does to them.\<close>

definition same_heap :: "io \<Rightarrow> io \<Rightarrow> bool" where
  "same_heap w w' \<longleftrightarrow> replies w' = replies w \<and> allocated w' = allocated w"

lemma same_heap_refl [simp]: "same_heap w w"
  by (simp add: same_heap_def)

lemma same_heap_trans: "same_heap u v \<Longrightarrow> same_heap v w \<Longrightarrow> same_heap u w"
  by (simp add: same_heap_def)

lemma allocated_cong [simp]:
  "allocated (w\<lparr>kerrno := e\<rparr>) = allocated w" "allocated (w\<lparr>strs := f\<rparr>) = allocated w"
  "allocated (w\<lparr>wds := d\<rparr>) = allocated w" "allocated (w\<lparr>tmp := b\<rparr>) = allocated w"
  by (simp_all add: allocated_def)

lemma allocated_call:
  "allocated (w\<lparr>calls := calls w @ [c]\<rparr>) = heap_step (replies w) (allocated w) (length (calls w), c)"
  by (simp add: allocated_def enumerate_append_eq)

lemma sys_heap:
  assumes "sys c w = (r, w')"
  shows "replies w' = replies w" "allocated w' = heap_step (replies w) (allocated w) (length (calls w), c)"
    "r = fst (replies w (length (calls w)))"
proof -
  have e: "w' = (w\<lparr>calls := calls w @ [c]\<rparr>)\<lparr>kerrno := kerrno w'\<rparr>"
    using assms by (auto simp: sys_def split: prod.splits)
  show "r = fst (replies w (length (calls w)))" using assms by (auto simp: sys_def split: prod.splits)
  from e show "replies w' = replies w" "allocated w' = heap_step (replies w) (allocated w) (length (calls w), c)"
    by (metis io.select_convs(1) io.surjective io.update_convs(2,3), metis allocated_cong(1) allocated_call)
qed

definition heap_call :: "call \<Rightarrow> bool" where
  "heap_call c \<longleftrightarrow> (\<exists>n. c = Malloc n) \<or> (\<exists>a. c = Free a)"

lemma sys_same: "sys c w = (r, w') \<Longrightarrow> \<not> heap_call c \<Longrightarrow> same_heap w w'"
  using sys_heap [of c w r w'] by (cases c) (simp_all add: same_heap_def heap_step_def heap_call_def)

lemma sys_malloc:
  "sys (Malloc n) w = (r, w') \<Longrightarrow> replies w' = replies w \<and> allocated w' = (if 0 < r then add_mset (nat r) (allocated w) else allocated w)"
  using sys_heap [of "Malloc n" w r w'] by (simp add: heap_step_def)

lemma sys_free: "sys (Free a) w = (r, w') \<Longrightarrow> replies w' = replies w \<and> allocated w' = allocated w - {#a#}"
  using sys_heap [of "Free a" w r w'] by (simp add: heap_step_def)

lemma refused_same: "\<not> heap_call c \<Longrightarrow> same_heap w (refused c w)"
proof -
  have "refused c w = (w\<lparr>calls := calls w @ [c]\<rparr>)\<lparr>kerrno := EINVAL\<rparr>" by (simp add: refused_def)
  then show "\<not> heap_call c \<Longrightarrow> ?thesis"
    unfolding same_heap_def by (cases c) (simp_all add: allocated_call heap_step_def heap_call_def)
qed

lemma sys_upto_same: "sys_upto n c w = (r, w') \<Longrightarrow> \<not> heap_call c \<Longrightarrow> same_heap w w'"
  by (auto simp: sys_upto_def split: prod.splits intro: sys_same)

lemma heap_call_simps [simp]:
  "\<not> heap_call (Sendfile o' i f n)" "\<not> heap_call (Pread_buf i n f)" "\<not> heap_call (Write_buf o' buf)" "\<not> heap_call (Touch t)"
  by (simp_all add: heap_call_def)

lemma native_loop_same: "native_loop src ofd ifd offset todo written out w = (r, out', w') \<Longrightarrow> same_heap w w'"
proof (induction src ofd ifd offset todo written out w rule: native_loop.induct)
  case (1 src ofd ifd offset todo written out w)
  obtain res v where call: "sys_upto (min todo (length src - offset)) (Sendfile ofd ifd (int offset) todo) w = (res, v)" by fastforce
  have first: "same_heap w v" by (rule sys_upto_same [OF call]) simp
  show ?case
  proof (cases "res \<le> 128 * 1024 * 1024 \<or> todo - nat res = 0")
    case True
    then have "w' = v" using "1.prems" call by (subst (asm) native_loop.simps) (auto split: if_splits simp: Let_def)
    then show ?thesis using first by simp
  next
    case False
    then have big: "\<not> res \<le> 128 * 1024 * 1024" "todo - nat res \<noteq> 0" by auto
    have "native_loop src ofd ifd (offset + nat res) (todo - nat res) (written + nat res) (out @ take (nat res) (drop offset src)) v = (r, out', w')"
      using "1.prems"(1) call big by (subst (asm) native_loop.simps) simp
    from "1.IH" [OF call [symmetric] refl refl big this] show ?thesis by (rule same_heap_trans [OF first])
  qed
qed

lemma emulation_loop_same: "emulation_loop src ofd ifd offset todo res out w = (r, out', w') \<Longrightarrow> same_heap w w'"
proof (induction src ofd ifd offset todo res out w rule: emulation_loop.induct)
  case (1 src ofd ifd offset todo res out w)
  show ?case
  proof (cases "todo = 0")
    case True
    then show ?thesis using "1.prems" by (subst (asm) emulation_loop.simps) auto
  next
    case todo: False
    obtain cnt v where rd: "sys_upto (min (min todo EIO_BUFSIZE) (length src - offset)) (Pread_buf ifd (min todo EIO_BUFSIZE) (int offset)) w = (cnt, v)"
      by fastforce
    define buf where "buf = take (nat cnt) (drop offset src)"
    obtain cnt2 v2 where wr: "sys_upto (length buf) (Write_buf ofd buf) v = (cnt2, v2)" by fastforce
    have first: "same_heap w v" by (rule sys_upto_same [OF rd]) simp
    have second: "same_heap w v2" by (rule same_heap_trans [OF first sys_upto_same [OF wr]]) simp
    show ?thesis
    proof (cases "cnt \<le> 0 \<or> cnt2 \<le> 0")
      case True
      then have "w' = v \<or> w' = v2" using "1.prems" todo rd wr
        by (subst (asm) emulation_loop.simps) (auto simp: Let_def buf_def split: if_splits)
      then show ?thesis using first second by auto
    next
      case False
      then have pos: "\<not> cnt \<le> 0" "\<not> cnt2 \<le> 0" by auto
      have "emulation_loop src ofd ifd (offset + nat cnt2) (todo - nat cnt2) (res + cnt2) (out @ take (nat cnt2) buf) v2 = (r, out', w')"
        using "1.prems" todo rd wr pos by (subst (asm) emulation_loop.simps) (simp add: Let_def flip: buf_def)
      from "1.IH" [OF todo rd [symmetric] pos(1) buf_def wr [symmetric] pos(2) this] show ?thesis by (rule same_heap_trans [OF second])
    qed
  qed
qed

text \<open>The buffer of the emulation is freed again.\<close>

lemma sendfile_same:
  assumes "eio__sendfile src ofd ifd offset todo out w = (r, out', w')"
  shows "same_heap w w'"
proof (cases "todo = 0")
  case True
  then show ?thesis using assms by (simp add: eio__sendfile_def)
next
  case todo: False
  obtain res out1 w1 where n: "(if offset < 0 then (Inr (- 1), out, refused (Sendfile ofd ifd offset todo) w)
      else native_loop src ofd ifd (nat offset) todo 0 out w) = (res, out1, w1)" by (metis prod.exhaust)
  have first: "same_heap w w1" using n native_loop_same refused_same by (fastforce split: if_splits)
  obtain buf w2 where m: "sys (Malloc EIO_BUFSIZE) w1 = (buf, w2)" by fastforce
  obtain r3 out3 w3 where em: "(if offset < 0 then (- 1, out1, refused (Pread_buf ifd (min todo EIO_BUFSIZE) offset) w2)
      else emulation_loop src ofd ifd (nat offset) todo 0 out1 (w2\<lparr>kerrno := ENOMEM\<rparr>)) = (r3, out3, w3)" by (metis prod.exhaust)
  have "same_heap (w2\<lparr>kerrno := ENOMEM\<rparr>) w3"
  proof (cases "offset < 0")
    case True
    then have "w3 = refused (Pread_buf ifd (min todo EIO_BUFSIZE) offset) w2" using em by simp
    then show ?thesis using refused_same [of "Pread_buf ifd (min todo EIO_BUFSIZE) offset" w2] by (simp add: same_heap_def)
  next
    case False
    then show ?thesis using em emulation_loop_same by simp
  qed
  then have third: "same_heap w2 w3" by (simp add: same_heap_def)
  obtain f w4 where fr: "sys (Free (nat buf)) w3 = (f, w4)" by fastforce
  have last: "same_heap w1 w4" if "0 < buf"
    using sys_malloc [OF m] third sys_free [OF fr] that by (simp add: same_heap_def)
  have failed: "same_heap w1 (w2\<lparr>kerrno := ENOMEM\<rparr>)" if "buf \<le> 0"
    using sys_malloc [OF m] that by (simp add: same_heap_def)
  have "w' = w1 \<or> buf \<le> 0 \<and> w' = w2\<lparr>kerrno := ENOMEM\<rparr> \<or> 0 < buf \<and> w' = w4"
    using assms todo unfolding eio__sendfile_def n
    by (auto simp: m em fr split: sum.splits if_splits)
  then show ?thesis using same_heap_trans [OF first] last failed first by blast
qed

lemma touch_loop_same: "same_heap w (touch_loop addr len cs w)"
proof (induction addr len cs w rule: touch_loop.induct)
  case (1 addr len cs w)
  have first: "same_heap w (snd (sys (Touch addr) w))" by (rule sys_same [of "Touch addr" w "fst (sys (Touch addr) w)"]) simp_all
  show ?case
  proof (cases "addr + eio_pagesize < len \<and> \<not> (cs \<noteq> [] \<and> hd cs)")
    case True
    then have "touch_loop addr len cs w = touch_loop (addr + eio_pagesize) len (tl cs) (snd (sys (Touch addr) w))"
      by (subst touch_loop.simps) (simp only: Let_def if_True simp_thms)
    then show ?thesis using same_heap_trans [OF first "1.IH" [OF refl refl True]] by simp
  next
    case False
    then have "touch_loop addr len cs w = snd (sys (Touch addr) w)" by (subst touch_loop.simps) (simp only: Let_def if_False)
    then show ?thesis using first by simp
  qed
qed

lemma unat_mask_not:
  fixes x :: u64
  shows "unat (x AND NOT 4095) = unat x - unat x mod 4096" "unat (4095 AND x) = unat x mod 4096"
proof -
  have m: "unat (x AND 4095) = unat x mod 4096"
    using unat_and_pow2_mask [of 12 x] by simp
  then show "unat (4095 AND x) = unat x mod 4096" by (simp add: and.commute)
  have "(x AND NOT p) + (x AND p) = x" for p :: u64
  proof -
    have "(x AND NOT p) + (x AND p) = (x AND NOT p) OR (x AND p)"
      by (rule disjunctive_add) (simp add: bit_and_iff bit_not_iff)
    also have "\<dots> = x" by (auto intro: bit_word_eqI simp: bit_simps)
    finally show ?thesis .
  qed
  from this [of 4095] have "x AND NOT 4095 = x - (x AND 4095)" by (simp only: eq_diff_eq)
  moreover have "unat (x AND 4095) \<le> unat x" using m by simp
  ultimately show "unat (x AND NOT 4095) = unat x - unat x mod 4096" using m by (simp add: unat_sub_le)
qed

text \<open>Rounding to pages, in numbers, when nothing wraps.\<close>

lemma page_align_unat:
  assumes "eio_page_align a l = (a', l')" and "unat a + unat l + 8192 < 2 ^ 64"
  shows "unat a' = unat a - unat a mod 4096" "unat l' = (unat l + unat a mod 4096 + 4095) - (unat l + unat a mod 4096 + 4095) mod 4096"
proof -
  have e: "a' = a - (4095 AND a)" "l' = (l + (4095 AND a) + 4095) AND NOT 4095"
    using assms(1) by (auto simp: eio_page_align_def eio_pagesize_def Let_def)
  have le: "unat (4095 AND a) \<le> unat a" by (simp add: unat_mask_not)
  show "unat a' = unat a - unat a mod 4096" unfolding e using le by (simp add: unat_sub_le) (simp add: unat_mask_not)
  have m: "unat a mod 4096 < 4096" by simp
  have s1: "unat (l + (4095 AND a)) = unat l + unat a mod 4096"
    using assms(2) m by (subst unat_add_no_wrap) (simp_all add: unat_mask_not)
  have "unat (l + (4095 AND a) + 4095) = unat l + unat a mod 4096 + 4095"
    using assms(2) m s1 by (subst unat_add_no_wrap) simp_all
  then show "unat l' = (unat l + unat a mod 4096 + 4095) - (unat l + unat a mod 4096 + 4095) mod 4096"
    unfolding e unat_mask_not(1) by simp
qed

text \<open>The page range that is locked or synchronised starts and ends on a page boundary and covers the memory asked
  for with less than a page to spare on each side.\<close>
theorem page_align_covers:
  assumes "eio_page_align a l = (a', l')" and "unat a + unat l + 8192 < 2 ^ 64"
  shows "unat a' mod eio_pagesize = 0 \<and> unat l' mod eio_pagesize = 0 \<and> unat a' \<le> unat a \<and> unat a + unat l \<le> unat a' + unat l' \<and>
    unat a < unat a' + eio_pagesize \<and> unat a' + unat l' < unat a + unat l + eio_pagesize"
proof -
  define A L where "A = unat a" and "L = unat l"
  define k where "k = A mod 4096"
  define p where "p = A div 4096"
  have k: "k < 4096" "A = 4096 * p + k" by (simp_all add: k_def p_def)
  define q where "q = (L + k + 4095) div 4096"
  have q: "(L + k + 4095) - (L + k + 4095) mod 4096 = 4096 * q" by (simp add: q_def minus_mod_eq_mult_div)
  have q2: "4096 * q \<le> L + k + 4095" "L + k + 4095 < 4096 * q + 4096" unfolding q_def by linarith+
  have "unat a' = A - k" "unat l' = 4096 * q"
    using page_align_unat [OF assms] q by (simp_all add: A_def L_def k_def)
  then have "unat a' = 4096 * p" "unat l' = 4096 * q" using k(2) by simp_all
  then show ?thesis using k q2 by (simp add: eio_pagesize_def flip: A_def L_def)
qed

theorem page_align_covers_witness:
  "eio_page_align 5000 10 = (4096, 4096) \<and> unat (4096 :: u64) mod eio_pagesize = 0"
proof -
  have "eio_page_align 5000 10 = (4096, 4096)" by (simp add: eio_page_align_def eio_pagesize_def)
  then show ?thesis using page_align_covers [of 5000 10 4096 4096] by simp
qed

text \<open>\<open>eio__mtouch\<close> compares the address with the length of the range instead of its end: for memory that does not
  lie in the first pages of the address space it touches the first page only, however long the range is.\<close>
theorem mtouch_first_page_only:
  assumes "eio_page_align (of_nat (ptr2 req)) (rsize req) = (mem, len)" and "unat len \<le> unat mem + eio_pagesize" "0 < unat len"
  shows "eio__mtouch req cs w = (0, snd (sys (Touch (unat mem)) w))"
proof -
  have "touch_loop (unat mem) (unat len) cs w = snd (sys (Touch (unat mem)) w)"
    using assms(2) by (subst touch_loop.simps) (simp add: Let_def)
  then show ?thesis using assms(1,3) by (simp add: eio__mtouch_def Let_def)
qed

theorem mtouch_first_page_only_witness:
  "eio__mtouch (a_req 0 0\<lparr>ptr2 := 0x100000, rsize := 0x8000\<rparr>) [] \<lparr>replies = (\<lambda>n. (0, 0)), calls = [], kerrno = 0, strs = Map.empty, wds = Map.empty, tmp = no_tmpbuf\<rparr> =
   (0, \<lparr>replies = (\<lambda>n. (0, 0)), calls = [Touch 0x100000], kerrno = 0, strs = Map.empty, wds = Map.empty, tmp = no_tmpbuf\<rparr>)"
proof -
  have "eio_page_align (of_nat 0x100000) 0x8000 = (0x100000, 0x8000)" by (simp add: eio_page_align_def eio_pagesize_def)
  then show ?thesis
    using mtouch_first_page_only [of "a_req 0 0\<lparr>ptr2 := 0x100000, rsize := 0x8000\<rparr>" "0x100000" "0x8000" "[]"]
    by (simp add: sys_def)
qed

end
