(* ===== verification/Eio_Realpath.thy ===== *)
theory Eio_Realpath
  imports Eio_Io
begin

text \<open>
  \<open>eio__realpath\<close> of \<open>src/libeio/eio.c\<close>: a path without symbolic links, built in the temporary
  buffer of a worker. The buffer is one region of three parts of \<open>PATH_MAX\<close> bytes: the result, the
  target of a link, and the path that is left after a link was replaced. What is left of the path is
  a pointer into the argument or into the third part. \<open>readlink\<close> and \<open>getcwd\<close> are arguments: they
  give an error number or a string. \<open>None\<close> is the fault.
\<close>

section \<open>The code\<close>

definition PATH_MAX :: nat where "PATH_MAX = 4096"
definition ENAMETOOLONG :: int where "ENAMETOOLONG = 36"
definition ELOOP :: int where "ELOOP = 40"
definition ERANGE :: int where "ERANGE = 34"

datatype ptr = Arg nat | Buf nat

fun plus_ptr :: "ptr \<Rightarrow> nat \<Rightarrow> ptr" where
  "plus_ptr (Arg i) n = Arg (i + n)"
| "plus_ptr (Buf i) n = Buf (i + n)"

text \<open>The object a pointer points into, from there to its end; the argument has its zero byte.\<close>

fun object :: "u8 list \<Rightarrow> u8 list \<Rightarrow> ptr \<Rightarrow> u8 list" where
  "object path m (Arg i) = drop i (path @ [0])"
| "object path m (Buf i) = drop i m"

text \<open>\<open>while (*rel && *rel != '/') ++rel\<close>, and \<open>strlen\<close>.\<close>

fun skip_name :: "u8 list \<Rightarrow> nat option" where
  "skip_name [] = None"
| "skip_name (c # cs) = (if c \<noteq> 0 \<and> c \<noteq> 47 then map_option Suc (skip_name cs) else Some 0)"

fun c_strlen :: "u8 list \<Rightarrow> nat option" where
  "c_strlen [] = None"
| "c_strlen (c # cs) = (if c \<noteq> 0 then map_option Suc (c_strlen cs) else Some 0)"

text \<open>\<open>memcpy\<close> into the buffer must not overlap, \<open>memmove\<close> may.\<close>

definition memmove_buf :: "u8 list \<Rightarrow> u8 list \<Rightarrow> nat \<Rightarrow> ptr \<Rightarrow> nat \<Rightarrow> u8 list option" where
  "memmove_buf path m d p n = mem_copy m d (object path m p) 0 n"

fun overlap :: "nat \<Rightarrow> ptr \<Rightarrow> nat \<Rightarrow> bool" where
  "overlap d (Arg i) n = False"
| "overlap d (Buf i) n = (i < d + n \<and> d < i + n)"

definition memcpy_buf :: "u8 list \<Rightarrow> u8 list \<Rightarrow> nat \<Rightarrow> ptr \<Rightarrow> nat \<Rightarrow> u8 list option" where
  "memcpy_buf path m d p n = (if overlap d p n then None else memmove_buf path m d p n)"

definition poke :: "u8 list \<Rightarrow> nat \<Rightarrow> u8 \<Rightarrow> u8 list option" where
  "poke m i c = (if i < length m then Some (m[i := c]) else None)"

text \<open>\<open>while (res != tmpbuf->ptr) if (*--res == '/') break\<close>\<close>

fun back_up :: "u8 list \<Rightarrow> nat \<Rightarrow> nat" where
  "back_up m 0 = 0"
| "back_up m (Suc r) = (if m ! r = 47 then r else back_up m r)"

text \<open>Appending a component with its zero byte, and joining the target of a link and the rest of the path.\<close>

definition add_name :: "u8 list \<Rightarrow> u8 list \<Rightarrow> nat \<Rightarrow> ptr \<Rightarrow> nat \<Rightarrow> u8 list option" where
  "add_name path m res beg len = do {
     m \<leftarrow> poke m res 47;
     m \<leftarrow> memcpy_buf path m (res + 1) beg len;
     poke m (res + len + 1) 0
   }"

definition join_link :: "u8 list \<Rightarrow> u8 list \<Rightarrow> nat \<Rightarrow> ptr \<Rightarrow> nat \<Rightarrow> u8 list option" where
  "join_link path m linklen rel rellen = do {
     m \<leftarrow> memmove_buf path m (2 * PATH_MAX + linklen + 1) rel (rellen + 1);
     m \<leftarrow> poke m (2 * PATH_MAX + linklen) 47;
     memcpy_buf path m (2 * PATH_MAX) (Buf PATH_MAX) linklen
   }"

type_synonym links = "u8 list \<Rightarrow> int + u8 list"

text \<open>The loop over the components.\<close>

partial_function (option) walk :: "links \<Rightarrow> u8 list \<Rightarrow> nat \<Rightarrow> ptr \<Rightarrow> int \<Rightarrow> u8 list \<Rightarrow> ((int + nat) \<times> u8 list) option" where
  "walk readlink path res rel symlinks m = do {
     len \<leftarrow> skip_name (object path m rel);
     let name = take len (object path m rel);
     let beg = rel;
     let rel = plus_ptr rel len;
     if len = 0 then
       (if object path m rel ! 0 = 0 then Some (Inr res, m)
        else walk readlink path res (plus_ptr rel 1) symlinks m)
     else if name ! 0 = 46 \<and> len = 1 then walk readlink path res rel symlinks m
     else if name ! 0 = 46 \<and> name ! 1 = 46 \<and> len = 2 then walk readlink path (back_up m res) rel symlinks m
     else if PATH_MAX \<le> res + 1 + len + 1 then Some (Inl ENAMETOOLONG, m)
     else do {
       m \<leftarrow> add_name path m res beg len;
       n \<leftarrow> c_strlen m;
       (case readlink (take n m) of
          Inl errno \<Rightarrow> if errno \<noteq> EINVAL then Some (Inl errno, m) else walk readlink path (res + len + 1) rel symlinks m
        | Inr target \<Rightarrow> do {
            let linklen = min PATH_MAX (length target);
            m \<leftarrow> mem_copy m PATH_MAX target 0 linklen;
            rellen \<leftarrow> c_strlen (object path m rel);
            if PATH_MAX \<le> linklen + 1 + rellen then Some (Inl ENAMETOOLONG, m)
            else if symlinks - 1 = 0 then Some (Inl ELOOP, m)
            else do {
              let res = (if m ! PATH_MAX = 47 then 0 else res);
              m \<leftarrow> join_link path m linklen rel rellen;
              walk readlink path res (Buf (2 * PATH_MAX)) (symlinks - 1) m
            }
          })
     }
   }"

text \<open>Where a relative path starts. The name of a directory is copied without a zero byte.\<close>

definition start_dir :: "eio_wd \<Rightarrow> (addr \<rightharpoonup> wd_data) \<Rightarrow> int + u8 list \<Rightarrow> u8 list \<Rightarrow> ((int + nat) \<times> u8 list) option" where
  "start_dir wd dirs cwd m =
     (case wd of
        EIO_INVALID_WD \<Rightarrow> Some (Inl ENOENT, m)
      | EIO_CWD \<Rightarrow> (case cwd of
          Inl errno \<Rightarrow> Some (Inl errno, m)
        | Inr s \<Rightarrow> if PATH_MAX \<le> length s then Some (Inl ERANGE, m)
            else do {
              m \<leftarrow> mem_copy m 0 (s @ [0]) 0 (length s + 1);
              len \<leftarrow> c_strlen m;
              Some (Inr (if m ! 1 \<noteq> 0 then len else 0), m)
            })
      | Wd a \<Rightarrow> do {
          d \<leftarrow> dirs a;
          let len = length (wd_str d);
          m \<leftarrow> mem_copy m 0 (wd_str d) 0 len;
          Some (Inr (if m ! 1 \<noteq> 0 then len else 0), m)
        })"

definition eio__realpath :: "links \<Rightarrow> (addr \<rightharpoonup> wd_data) \<Rightarrow> int + u8 list \<Rightarrow> heap_choice \<Rightarrow> etp_tmpbuf \<Rightarrow> eio_wd \<Rightarrow> u8 list option
    \<Rightarrow> ((int + nat) \<times> etp_tmpbuf) option" where
  "eio__realpath readlink dirs cwd ch tmpbuf wd path =
     (case path of
        None \<Rightarrow> Some (Inl EINVAL, tmpbuf)
      | Some [] \<Rightarrow> Some (Inl ENOENT, tmpbuf)
      | Some rel \<Rightarrow> (case etp_tmpbuf_get ch tmpbuf (int (PATH_MAX * 3)) of (ptr, tmpbuf) \<Rightarrow> do {
          m \<leftarrow> ptr;
          (start, m) \<leftarrow> (if hd rel \<noteq> 47 then start_dir wd dirs cwd m else Some (Inr 0, m));
          (end, m) \<leftarrow> (case start of Inl errno \<Rightarrow> Some (Inl errno, m) | Inr res \<Rightarrow> walk readlink rel res (Arg 0) 32 m);
          (end, m) \<leftarrow> (if end = Inr 0 then map_option (Pair (Inr 1)) (poke m 0 47) else Some (end, m));
          Some (end, tmpbuf\<lparr>tb_ptr := Some m\<rparr>)
        }))"

text \<open>
  The request in a worker: the argument is a string in memory, the result is in the worker's buffer.
  \<open>errno\<close> is followed for failures only.
\<close>

record tree =
  tree_links :: links
  tree_cwd :: "int + u8 list"
  tree_mem :: heap_choice

definition realpath_at :: "tree \<Rightarrow> eio_wd \<Rightarrow> addr \<Rightarrow> io \<Rightarrow> (u8 list option \<times> io) option" where
  "realpath_at t wd p w = do {
     path \<leftarrow> (if p = 0 then Some None else map_option Some (strs w p));
     (end, b) \<leftarrow> eio__realpath (tree_links t) (wds w) (tree_cwd t) (tree_mem t) (tmp w) wd path;
     (case end of
        Inl errno \<Rightarrow> Some (None, w\<lparr>tmp := b, kerrno := errno\<rparr>)
      | Inr n \<Rightarrow> Some (Some (take n (the (tb_ptr b))), w\<lparr>tmp := b\<rparr>))
   }"

text \<open>The result of \<open>malloc\<close> is used without a test.\<close>

definition eio__wd_open_sync :: "tree \<Rightarrow> eio_wd \<Rightarrow> addr \<Rightarrow> io \<Rightarrow> (eio_wd \<times> io) option" where
  "eio__wd_open_sync t wd path w = do {
     (found, w) \<leftarrow> realpath_at t wd path w;
     (case found of
        None \<Rightarrow> Some (EIO_INVALID_WD, w)
      | Some str \<Rightarrow> do {
          dir \<leftarrow> WD2FD wd w;
          let (fd, w) = sys (Openat dir (Path path) (O_CLOEXEC + O_SEARCH + O_DIRECTORY) 0) w;
          if fd < 0 then Some (EIO_INVALID_WD, w)
          else do {
            let (res, w) = sys (Malloc (16 + length str)) w;
            if res \<le> 0 then None
            else Some (Wd (nat res), w\<lparr>wds := (wds w)(nat res \<mapsto> \<lparr>wd_fd = fd, wd_str = str\<rparr>)\<rparr>)
          }
        })
   }"

definition eio_wd_open_sync :: "tree \<Rightarrow> eio_wd \<Rightarrow> addr \<Rightarrow> io \<Rightarrow> (eio_wd \<times> io) option" where
  "eio_wd_open_sync t wd path w = do {
     (wd, v) \<leftarrow> eio__wd_open_sync t wd path (w\<lparr>tmp := no_tmpbuf\<rparr>);
     Some (wd, v\<lparr>tmp := tmp w\<rparr>)
   }"

section \<open>Resolution on lists of names\<close>

definition render :: "u8 list list \<Rightarrow> u8 list" where "render st = concat (map ((#) 47) st)"

function resolve :: "links \<Rightarrow> nat \<Rightarrow> u8 list list \<Rightarrow> u8 list \<Rightarrow> int + u8 list list" where
  "resolve readlink n st rest =
     (if rest = [] then Inr st
      else let name = takeWhile (\<lambda>c. c \<noteq> 47) rest; rest' = dropWhile (\<lambda>c. c \<noteq> 47) rest in
        if name = [] then resolve readlink n st (tl rest)
        else if name = [46] then resolve readlink n st rest'
        else if name = [46, 46] then resolve readlink n (butlast st) rest'
        else if PATH_MAX \<le> length (render st) + 1 + length name + 1 then Inl ENAMETOOLONG
        else case readlink (render (st @ [name])) of
            Inl errno \<Rightarrow> if errno \<noteq> EINVAL then Inl errno else resolve readlink n (st @ [name]) rest'
          | Inr target \<Rightarrow>
              if PATH_MAX \<le> length target + 1 + length rest' then Inl ENAMETOOLONG
              else if n \<le> 1 then Inl ELOOP
              else resolve readlink (n - 1) (if hd target = 47 then [] else st) (target @ 47 # rest'))"
  by pat_completeness auto

lemma dropWhile_shorter: "takeWhile P xs \<noteq> [] \<Longrightarrow> length (dropWhile P xs) < length xs"
  by (metis add_diff_cancel_left' length_append length_greater_0_conv less_add_same_cancel2 takeWhile_dropWhile_id)

termination resolve
  by (relation "measures [\<lambda>(rl, n, st, rest). n, \<lambda>(rl, n, st, rest). length rest]")
    (auto intro: dropWhile_shorter)

declare resolve.simps [simp del]

section \<open>Strings in the buffer\<close>

lemma skip_name_string:
  "0 \<notin> set xs \<Longrightarrow> skip_name (xs @ 0 # ys) = Some (length (takeWhile (\<lambda>c. c \<noteq> 47) xs))"
  by (induction xs) auto

lemma c_strlen_string: "0 \<notin> set xs \<Longrightarrow> c_strlen (xs @ 0 # ys) = Some (length xs)"
  by (induction xs) auto

lemma c_strlen_take:
  assumes "take (length xs + 1) m = xs @ [0]" and "0 \<notin> set xs"
  shows "c_strlen m = Some (length xs)" "take (length xs) m = xs"
proof -
  have "m = xs @ 0 # drop (length xs + 1) m" using append_take_drop_id [of "length xs + 1" m] unfolding assms(1) by simp
  then show "c_strlen m = Some (length xs)" "take (length xs) m = xs"
    using c_strlen_string [OF assms(2)] by (metis, metis append_eq_conv_conj)
qed

definition points :: "u8 list \<Rightarrow> u8 list \<Rightarrow> ptr \<Rightarrow> u8 list \<Rightarrow> bool" where
  "points path m p s \<longleftrightarrow> 0 \<notin> set s \<and> take (length s + 1) (object path m p) = s @ [0] \<and>
     (\<forall>i. p = Buf i \<longrightarrow> 2 * PATH_MAX \<le> i)"

lemma points_object: "points path m p s \<Longrightarrow> object path m p = s @ 0 # drop (length s + 1) (object path m p)"
  using append_take_drop_id [of "length s + 1" "object path m p"] by (simp add: points_def)

lemma points_strlen: "points path m p s \<Longrightarrow> c_strlen (object path m p) = Some (length s)"
  using c_strlen_take(1) [of s "object path m p"] by (simp add: points_def)

lemma points_skip: "points path m p s \<Longrightarrow> skip_name (object path m p) = Some (length (takeWhile (\<lambda>c. c \<noteq> 47) s))"
  by (subst points_object, assumption) (rule skip_name_string, simp add: points_def)

lemma points_take: "points path m p s \<Longrightarrow> n \<le> length s \<Longrightarrow> take n (object path m p) = take n s"
  by (subst points_object, assumption) simp

lemma plus_ptr_0 [simp]: "plus_ptr p 0 = p"
  by (cases p) simp_all

lemma object_plus: "object path m (plus_ptr p n) = drop n (object path m p)"
  by (cases p) (simp_all only: plus_ptr.simps object.simps drop_drop add.commute)

lemma points_plus:
  assumes "points path m p s" "n \<le> length s"
  shows "points path m (plus_ptr p n) (drop n s)"
proof -
  have "take (length s - n + 1) (drop n (object path m p)) = drop n (s @ [0])"
    using assms by (simp add: points_def take_drop)
  moreover have "\<forall>i. plus_ptr p n = Buf i \<longrightarrow> 2 * PATH_MAX \<le> i" using assms(1) by (cases p) (auto simp: points_def)
  ultimately show ?thesis using assms by (auto simp: points_def object_plus dest: in_set_dropD)
qed

lemma points_mem:
  assumes "points path m p s" "drop (2 * PATH_MAX) m' = drop (2 * PATH_MAX) m"
  shows "points path m' p s"
proof -
  have "object path m' p = object path m p"
  proof (cases p)
    case (Buf i)
    then have "2 * PATH_MAX \<le> i" using assms(1) by (simp add: points_def)
    then have "drop i x = drop (i - 2 * PATH_MAX) (drop (2 * PATH_MAX) x)" for x :: "u8 list" by simp
    then show ?thesis unfolding Buf object.simps using assms(2) by metis
  qed simp
  then show ?thesis using assms(1) by (simp add: points_def)
qed

lemma add_name_ok:
  assumes "points path m beg s" "len \<le> length s" "res + len + 2 \<le> PATH_MAX" "3 * PATH_MAX \<le> length m"
  shows "\<exists>m'. add_name path m res beg len = Some m' \<and> length m' = length m \<and>
    take (res + len + 2) m' = take res m @ 47 # take len s @ [0] \<and> drop (2 * PATH_MAX) m' = drop (2 * PATH_MAX) m"
proof -
  define m1 where "m1 = m[res := 47]"
  have "drop (2 * PATH_MAX) m1 = drop (2 * PATH_MAX) m" using assms(3) by (simp add: m1_def)
  then have p1: "points path m1 beg s" by (rule points_mem [OF assms(1)])
  have len1: "length m1 = length m" by (simp add: m1_def)
  have no: "\<not> overlap (res + 1) beg len" using assms(1,3) by (cases beg) (auto simp: points_def)
  have "length (take (length s + 1) (object path m1 beg)) = length s + 1" using p1 by (simp add: points_def)
  then have long: "len \<le> length (object path m1 beg)" using assms(2) by simp
  have name: "take len (object path m1 beg) = take len s" by (rule points_take [OF p1 assms(2)])
  define m2 where "m2 = take (res + 1) m1 @ take len s @ drop (res + 1 + len) m1"
  have m2: "memcpy_buf path m1 (res + 1) beg len = Some m2"
    using no long assms(3,4) name by (simp add: memcpy_buf_def memmove_buf_def mem_copy_def m2_def len1)
  have len2: "length m2 = length m" using assms by (simp add: m2_def len1)
  define m3 where "m3 = m2[res + len + 1 := 0]"
  have "add_name path m res beg len = Some m3"
    using assms(3,4) m2 len2 by (simp add: add_name_def poke_def m1_def m3_def)
  moreover have "take (res + len + 2) m3 = take res m @ 47 # take len s @ [0]"
  proof -
    have "take (res + 1) m1 = take res m @ [47]" using assms(3,4) by (simp add: m1_def take_Suc_conv_app_nth)
    then have "take (res + len + 1) m2 = take res m @ 47 # take len s" using assms by (simp add: m2_def len1)
    then show ?thesis using assms(3,4) len2 by (simp add: m3_def take_Suc_conv_app_nth)
  qed
  moreover have "drop (2 * PATH_MAX) m3 = drop (2 * PATH_MAX) m"
  proof -
    have "length (take (res + 1) m1 @ take len s) \<le> 2 * PATH_MAX" using assms by (simp add: len1)
    then have "drop (2 * PATH_MAX) m2 = drop (2 * PATH_MAX) m1"
      using assms by (simp add: m2_def len1)
    then show ?thesis using assms(3) by (simp add: m3_def m1_def)
  qed
  ultimately show ?thesis using len2 by (intro exI [of _ m3]) (simp add: m3_def)
qed

lemma join_link_ok:
  assumes "points path m rel s" "take (length t) (drop PATH_MAX m) = t" "0 \<notin> set t"
    and "length t + 1 + length s < PATH_MAX" "3 * PATH_MAX \<le> length m"
  shows "\<exists>m'. join_link path m (length t) rel (length s) = Some m' \<and> length m' = length m \<and>
    take PATH_MAX m' = take PATH_MAX m \<and> points path m' (Buf (2 * PATH_MAX)) (t @ 47 # s)"
proof -
  define k where "k = 2 * PATH_MAX + length t"
  have k: "2 * PATH_MAX + length t + 1 = k + 1" "k + length s + 2 \<le> length m" "2 * PATH_MAX \<le> k"
    using assms(4,5) by (simp_all add: k_def)
  have src: "take (length s + 1) (object path m rel) = s @ [0]" using assms(1) by (simp add: points_def)
  then have "length (take (length s + 1) (object path m rel)) = length s + 1" by simp
  then have long: "length s + 1 \<le> length (object path m rel)" by simp
  define m1 where "m1 = take (k + 1) m @ (s @ [0]) @ drop (k + 1 + (length s + 1)) m"
  have m1: "memmove_buf path m (k + 1) rel (length s + 1) = Some m1"
    using long k src by (simp add: memmove_buf_def mem_copy_def m1_def)
  have len1: "length m1 = length m" using k by (simp add: m1_def)
  define m2 where "m2 = m1[k := 47]"
  have "drop PATH_MAX m2 = (drop PATH_MAX m1)[k - PATH_MAX := 47]"
    using k by (simp add: m2_def drop_update_swap)
  moreover have "length t \<le> k - PATH_MAX" using k by (simp add: k_def)
  ultimately have "take (length t) (drop PATH_MAX m2) = take (length t) (drop PATH_MAX m1)" by simp
  also have "\<dots> = take (length t) (drop PATH_MAX m)"
    using assms(4) k by (simp add: m1_def k_def take_drop)
  finally have t: "take (length t) (drop PATH_MAX m2) = t" using assms(2) by simp
  define m3 where "m3 = take (2 * PATH_MAX) m2 @ t @ drop k m2"
  have m3: "memcpy_buf path m2 (2 * PATH_MAX) (Buf PATH_MAX) (length t) = Some m3"
    using assms(4,5) t by (simp add: memcpy_buf_def memmove_buf_def mem_copy_def m3_def m2_def len1 k_def)
  have "join_link path m (length t) rel (length s) = Some m3"
    using m1 m3 k unfolding join_link_def k_def [symmetric] by (simp add: poke_def len1 m2_def k_def)
  moreover have "length m3 = length m" using k by (simp add: m3_def m2_def len1 k_def)
  moreover have "take PATH_MAX m3 = take PATH_MAX m"
    using k by (simp add: m3_def m2_def m1_def len1 min_def)
  moreover have "drop (2 * PATH_MAX) m3 = t @ 47 # s @ 0 # drop (k + length s + 2) m"
  proof -
    have "drop (k + 1) m2 = drop (k + 1) m1" by (simp add: m2_def)
    moreover have "drop (k + 1) m1 = s @ 0 # drop (k + length s + 2) m" using k by (simp add: m1_def)
    moreover have "drop k m2 = 47 # drop (k + 1) m2"
      using Cons_nth_drop_Suc [of k m2] k by (simp add: m2_def len1)
    ultimately show ?thesis using k by (simp add: m3_def m2_def len1)
  qed
  moreover have "0 \<notin> set s" using assms(1) by (simp add: points_def)
  ultimately show ?thesis using assms(3) by (intro exI [of _ m3]) (simp add: points_def)
qed

definition clean :: "u8 list list \<Rightarrow> bool" where
  "clean st \<longleftrightarrow> (\<forall>c \<in> set st. c \<noteq> [] \<and> 47 \<notin> set c \<and> 0 \<notin> set c)"

lemma render_simps [simp]: "render [] = []" "render (c # st) = 47 # c @ render st" "render (st @ st') = render st @ render st'"
  by (simp_all add: render_def)

lemma clean_simps [simp]: "clean []" "clean (st @ st') \<longleftrightarrow> clean st \<and> clean st'"
  "clean (c # st) \<longleftrightarrow> c \<noteq> [] \<and> 47 \<notin> set c \<and> 0 \<notin> set c \<and> clean st"
  by (auto simp: clean_def)

text \<open>The part without the first condition: what was left in the buffer can put an empty name in front.\<close>

definition tidy :: "u8 list list \<Rightarrow> bool" where
  "tidy st \<longleftrightarrow> (\<forall>c \<in> set st. 47 \<notin> set c \<and> 0 \<notin> set c)"

lemma tidy_simps [simp]: "tidy []" "tidy (st @ st') \<longleftrightarrow> tidy st \<and> tidy st'"
  "tidy (c # st) \<longleftrightarrow> 47 \<notin> set c \<and> 0 \<notin> set c \<and> tidy st"
  by (auto simp: tidy_def)

lemma clean_tidy: "clean st \<Longrightarrow> tidy st"
  by (simp add: clean_def tidy_def)

lemma clean_butlast: "clean st \<Longrightarrow> clean (butlast st)"
  by (auto simp: clean_def dest: in_set_butlastD)

lemma render_no_zero: "tidy st \<Longrightarrow> 0 \<notin> set (render st)"
  by (induction st) auto

lemma render_Nil_iff [simp]: "render st = [] \<longleftrightarrow> st = []"
  by (cases st) auto

lemma back_up_name: "m ! r = 47 \<Longrightarrow> \<forall>i < n. m ! (r + 1 + i) \<noteq> 47 \<Longrightarrow> back_up m (r + 1 + n) = r"
  by (induction n) auto

lemma back_up_render:
  assumes "take (length (render st)) m = render st" "tidy st"
  shows "back_up m (length (render st)) = length (render (butlast st))"
proof (cases st rule: rev_cases)
  case (snoc st' c)
  define r where "r = length (render st')"
  have all: "take (r + 1 + length c) m = render st' @ 47 # c" using assms(1) by (simp add: snoc r_def)
  have nth: "m ! i = (render st' @ 47 # c) ! i" if "i < r + 1 + length c" for i
    using that by (simp flip: all)
  have "m ! r = 47" using nth [of r] by (simp add: r_def)
  moreover have "\<forall>i < length c. m ! (r + 1 + i) \<noteq> 47"
    using nth assms(2) by (auto simp: snoc r_def nth_append dest: nth_mem)
  ultimately show ?thesis using back_up_name [of m r "length c"] by (simp add: snoc r_def)
qed simp

section \<open>The loop computes the resolution\<close>

text \<open>What a kernel guarantees: no link has an empty target, and a target has no zero byte.\<close>

definition proper_links :: "links \<Rightarrow> bool" where
  "proper_links rl \<longleftrightarrow> (\<forall>p t. rl p = Inr t \<longrightarrow> t \<noteq> [] \<and> 0 \<notin> set t)"

definition holds :: "u8 list \<Rightarrow> u8 list list \<Rightarrow> bool" where
  "holds m st \<longleftrightarrow> tidy st \<and> take (length (render st)) m = render st \<and> length (render st) < PATH_MAX \<and> 3 * PATH_MAX \<le> length m"

definition outcome_of :: "int + u8 list list \<Rightarrow> int + nat" where
  "outcome_of r = (case r of Inl e \<Rightarrow> Inl e | Inr st \<Rightarrow> Inr (length (render st)))"

definition walked :: "((int + nat) \<times> u8 list) option \<Rightarrow> int + u8 list list \<Rightarrow> bool" where
  "walked w r \<longleftrightarrow> (\<exists>m. w = Some (outcome_of r, m) \<and> (\<forall>st. r = Inr st \<longrightarrow> holds m st))"

lemma walked_Inl: "walked (Some (Inl e, m)) (Inl e)" by (simp add: walked_def outcome_of_def)

lemma holds_butlast:
  assumes "holds m st"
  shows "holds m (butlast st)"
proof (cases st rule: rev_cases)
  case (snoc st' c)
  have all: "take (length (render st)) m = render st" using assms by (simp add: holds_def)
  have "take (length (render st')) m = take (length (render st')) (take (length (render st)) m)" by (simp add: snoc)
  also have "\<dots> = render st'" unfolding all by (simp add: snoc)
  finally show ?thesis using assms by (simp add: holds_def snoc)
qed (use assms in simp)

text \<open>A component is found to be no link, or the result of replacing it.\<close>

lemma holds_snoc:
  assumes "holds m st" "points path m beg s" "n \<le> length s" "take n s = nm" "length nm = n"
    and "tidy [nm]" "length (render st) + 1 + n + 1 < PATH_MAX"
  shows "\<exists>m'. add_name path m (length (render st)) beg n = Some m' \<and> holds m' (st @ [nm]) \<and>
    c_strlen m' = Some (length (render (st @ [nm]))) \<and> take (length (render (st @ [nm]))) m' = render (st @ [nm]) \<and>
    drop (2 * PATH_MAX) m' = drop (2 * PATH_MAX) m"
proof -
  have "length (render st) + n + 2 \<le> PATH_MAX" "3 * PATH_MAX \<le> length m" using assms(1,7) by (simp_all add: holds_def)
  from add_name_ok [OF assms(2,3) this] obtain m' where m': "add_name path m (length (render st)) beg n = Some m'"
    "length m' = length m" "take (length (render st) + n + 2) m' = take (length (render st)) m @ 47 # take n s @ [0]"
    "drop (2 * PATH_MAX) m' = drop (2 * PATH_MAX) m" by blast
  have st: "take (length (render st)) m = render st" "tidy st" using assms(1) by (simp_all add: holds_def)
  have "take (length (render (st @ [nm])) + 1) m' = render (st @ [nm]) @ [0]"
    using m'(3) st assms(4,5) by simp
  from c_strlen_take [OF this] render_no_zero [of "st @ [nm]"] st assms(6)
  have "c_strlen m' = Some (length (render (st @ [nm])))" "take (length (render (st @ [nm]))) m' = render (st @ [nm])"
    by simp_all
  then show ?thesis using m' st assms(1,5,6,7) by (auto simp: holds_def)
qed

lemma walk_empty:
  assumes "points path m rel []"
  shows "walk rl path res rel k m = Some (Inr res, m)"
proof -
  have "object path m rel ! 0 = 0" by (subst points_object [OF assms]) simp
  then show ?thesis using points_skip [OF assms] by (subst walk.simps) (simp add: Let_def)
qed

lemma walk_slash:
  assumes "points path m rel (47 # s)"
  shows "walk rl path res rel k m = walk rl path res (plus_ptr rel 1) k m"
proof -
  have "object path m rel ! 0 = 47" by (subst points_object [OF assms]) simp
  then show ?thesis using points_skip [OF assms] by (subst walk.simps) (simp add: Let_def)
qed

lemma walk_name:
  assumes "points path m rel s" "nm = takeWhile (\<lambda>c. c \<noteq> 47) s" "nm \<noteq> []"
  shows "walk rl path res rel k m =
    (let rel' = plus_ptr rel (length nm) in
     if nm = [46] then walk rl path res rel' k m
     else if nm = [46, 46] then walk rl path (back_up m res) rel' k m
     else if PATH_MAX \<le> res + 1 + length nm + 1 then Some (Inl ENAMETOOLONG, m)
     else do {
       m \<leftarrow> add_name path m res rel (length nm);
       n \<leftarrow> c_strlen m;
       (case rl (take n m) of
          Inl errno \<Rightarrow> if errno \<noteq> EINVAL then Some (Inl errno, m) else walk rl path (res + length nm + 1) rel' k m
        | Inr target \<Rightarrow> do {
            let linklen = min PATH_MAX (length target);
            m \<leftarrow> mem_copy m PATH_MAX target 0 linklen;
            rellen \<leftarrow> c_strlen (object path m rel');
            if PATH_MAX \<le> linklen + 1 + rellen then Some (Inl ENAMETOOLONG, m)
            else if k - 1 = 0 then Some (Inl ELOOP, m)
            else do {
              let res = (if m ! PATH_MAX = 47 then 0 else res);
              m \<leftarrow> join_link path m linklen rel' rellen;
              walk rl path res (Buf (2 * PATH_MAX)) (k - 1) m
            }
          })
     })"
proof -
  have len: "skip_name (object path m rel) = Some (length nm)" using points_skip [OF assms(1)] assms(2) by simp
  have "length nm \<le> length s" by (simp add: assms(2) length_takeWhile_le)
  then have "take (length nm) (object path m rel) = take (length nm) s" by (rule points_take [OF assms(1)])
  also have "\<dots> = nm" by (simp add: assms(2) flip: takeWhile_eq_take)
  finally have nm: "take (length nm) (object path m rel) = nm" .
  have one: "nm ! 0 = 46 \<and> length nm = 1 \<longleftrightarrow> nm = [46]" by (cases nm) auto
  have two: "nm ! 0 = 46 \<and> nm ! 1 = 46 \<and> length nm = 2 \<longleftrightarrow> nm = [46, 46]"
    by (auto simp: length_Suc_conv numeral_2_eq_2)
  have ne: "length nm \<noteq> 0" using assms(3) by simp
  show ?thesis
    by (subst walk.simps, unfold len Option.bind.simps Let_def nm one two if_not_P [OF ne]) (rule refl)
qed

lemma resolve_Nil: "resolve rl n st [] = Inr st"
  by (subst resolve.simps) simp

lemma resolve_slash: "resolve rl n st (47 # s) = resolve rl n st s"
  by (subst resolve.simps) simp

lemma holds_take: "holds m st \<Longrightarrow> take PATH_MAX m' = take PATH_MAX m \<Longrightarrow> length m' = length m \<Longrightarrow> holds m' st"
  unfolding holds_def by (metis less_imp_le min.absorb1 take_take)

text \<open>One link: the target is put in front of the rest of the path.\<close>

lemma follow_link:
  assumes "holds m st" "points path m rel s" "t \<noteq> []" "0 \<notin> set t"
  shows "\<exists>m1. mem_copy m PATH_MAX t 0 (min PATH_MAX (length t)) = Some m1 \<and>
    c_strlen (object path m1 rel) = Some (length s) \<and>
    (length t + 1 + length s < PATH_MAX \<longrightarrow> m1 ! PATH_MAX = hd t \<and>
      (\<exists>m2. join_link path m1 (length t) rel (length s) = Some m2 \<and> holds m2 st \<and>
        points path m2 (Buf (2 * PATH_MAX)) (t @ 47 # s)))"
proof -
  have len: "3 * PATH_MAX \<le> length m" using assms(1) by (simp add: holds_def)
  define k where "k = min PATH_MAX (length t)"
  define m1 where "m1 = take PATH_MAX m @ take k t @ drop (PATH_MAX + k) m"
  have m1: "mem_copy m PATH_MAX t 0 k = Some m1" using len by (simp add: mem_copy_def m1_def k_def)
  have m1': "length m1 = length m" "take PATH_MAX m1 = take PATH_MAX m" "drop (2 * PATH_MAX) m1 = drop (2 * PATH_MAX) m"
    using len by (simp_all add: m1_def k_def mult_2)
  have p1: "points path m1 rel s" by (rule points_mem [OF assms(2) m1'(3)])
  have "m1 ! PATH_MAX = hd t \<and> (\<exists>m2. join_link path m1 (length t) rel (length s) = Some m2 \<and> holds m2 st \<and>
        points path m2 (Buf (2 * PATH_MAX)) (t @ 47 # s))" if short: "length t + 1 + length s < PATH_MAX"
  proof
    have t: "take (length t) (drop PATH_MAX m1) = t" using short len by (simp add: m1_def k_def)
    have "hd t = hd (take (length t) (drop PATH_MAX m1))" unfolding t ..
    also have "\<dots> = m1 ! PATH_MAX" using assms(3) len m1'(1) short by (simp add: hd_take hd_drop_conv_nth)
    finally show "m1 ! PATH_MAX = hd t" ..
    show "\<exists>m2. join_link path m1 (length t) rel (length s) = Some m2 \<and> holds m2 st \<and>
        points path m2 (Buf (2 * PATH_MAX)) (t @ 47 # s)"
      using join_link_ok [OF p1 t assms(4) short] len m1' holds_take [OF assms(1)] by metis
  qed
  then show ?thesis using m1 points_strlen [OF p1] unfolding k_def by blast
qed

lemma takeWhile_drop: "drop (length (takeWhile P s)) s = dropWhile P s"
  by (induction s) auto

lemma clean_name: "0 \<notin> set s \<Longrightarrow> nm = takeWhile (\<lambda>c. c \<noteq> 47) s \<Longrightarrow> nm \<noteq> [] \<Longrightarrow> clean [nm]"
  by (auto dest: set_takeWhileD)

lemma walk_resolves:
  assumes "proper_links rl" "holds m st" "points path m rel s" "0 < n"
  shows "walked (walk rl path (length (render st)) rel (int n) m) (resolve rl n st s)"
  using assms
proof (induction rl n st s arbitrary: m rel rule: resolve.induct)
  case (1 rl n st s)
  show ?case
  proof (cases s)
    case Nil
    then show ?thesis using "1.prems" walk_empty by (auto simp: resolve_Nil walked_def outcome_of_def)
  next
    case (Cons c s')
    define nm where "nm = takeWhile (\<lambda>c. c \<noteq> 47) s"
    define rest where "rest = dropWhile (\<lambda>c. c \<noteq> 47) s"
    show ?thesis
    proof (cases "nm = []")
      case True
      then have "c = 47" using Cons by (simp add: nm_def split: if_splits)
      with "1.prems" "1.IH"(1) [of nm rest] True Cons points_plus [of path m rel s 1] show ?thesis
        by (simp add: resolve_slash walk_slash nm_def rest_def)
    next
      case False
      have pr: "points path m (plus_ptr rel (length nm)) rest"
        using points_plus [OF "1.prems"(3), of "length nm"] by (simp add: nm_def rest_def takeWhile_drop length_takeWhile_le)
      have ne: "s \<noteq> []" using Cons by simp
      note IH = "1.IH" [OF ne nm_def rest_def]
      have res: "resolve rl n st s = (if nm = [46] then resolve rl n st rest
        else if nm = [46, 46] then resolve rl n (butlast st) rest
        else if PATH_MAX \<le> length (render st) + 1 + length nm + 1 then Inl ENAMETOOLONG
        else case rl (render (st @ [nm])) of
            Inl errno \<Rightarrow> if errno \<noteq> EINVAL then Inl errno else resolve rl n (st @ [nm]) rest
          | Inr t \<Rightarrow> if PATH_MAX \<le> length t + 1 + length rest then Inl ENAMETOOLONG else if n \<le> 1 then Inl ELOOP
              else resolve rl (n - 1) (if hd t = 47 then [] else st) (t @ 47 # rest))"
        using ne False by (subst resolve.simps) (simp add: Let_def flip: nm_def rest_def)
      note w = walk_name [OF "1.prems"(3) nm_def False, of rl "length (render st)" "int n"]
      consider "nm = [46]" | "nm = [46, 46]" | "nm \<noteq> [46]" "nm \<noteq> [46, 46]" "PATH_MAX \<le> length (render st) + 1 + length nm + 1"
        | (comp) "nm \<noteq> [46]" "nm \<noteq> [46, 46]" "length (render st) + 1 + length nm + 1 < PATH_MAX" by linarith
      then show ?thesis
      proof cases
        case 1
        show ?thesis using IH(2) [OF False 1 "1.prems"(1,2) pr "1.prems"(4)] 1 by (simp add: w res)
      next
        case 2
        have "holds m (butlast st)" by (rule holds_butlast [OF "1.prems"(2)])
        moreover have "back_up m (length (render st)) = length (render (butlast st))"
          using "1.prems"(2) back_up_render by (simp add: holds_def)
        ultimately show ?thesis using IH(3) [OF False _ 2 "1.prems"(1) _ pr "1.prems"(4)] 2 by (simp add: w res)
      next
        case 3
        then show ?thesis by (simp add: w res walked_Inl)
      next
        case comp
        have "0 \<notin> set s" using "1.prems"(3) by (simp add: points_def)
        then have "tidy [nm]" using clean_tidy [OF clean_name] nm_def False by blast
        moreover have "take (length nm) s = nm" "length nm \<le> length s"
          by (simp_all add: nm_def length_takeWhile_le flip: takeWhile_eq_take)
        ultimately obtain m1 where m1: "add_name path m (length (render st)) rel (length nm) = Some m1" "holds m1 (st @ [nm])"
          "c_strlen m1 = Some (length (render (st @ [nm])))" "take (length (render (st @ [nm]))) m1 = render (st @ [nm])"
          "drop (2 * PATH_MAX) m1 = drop (2 * PATH_MAX) m"
          using holds_snoc [OF "1.prems"(2,3) _ _ refl] comp(3) by blast
        have p1: "points path m1 (plus_ptr rel (length nm)) rest" by (rule points_mem [OF pr m1(5)])
        have h1: "holds m1 st" using holds_butlast [OF m1(2)] by simp
        note walk = w [unfolded m1(1) Option.bind.simps m1(3) m1(4)]
        show ?thesis
        proof (cases "rl (render (st @ [nm]))")
          case (Inl e)
          then show ?thesis
            using IH(4) [OF False comp(1,2) _ Inl _ "1.prems"(1) m1(2) p1 "1.prems"(4)] comp
            by (simp add: walk res walked_Inl)
        next
          case (Inr t)
          then have t: "t \<noteq> []" "0 \<notin> set t" using "1.prems"(1) by (auto simp: proper_links_def)
          obtain m2 where m2: "mem_copy m1 PATH_MAX t 0 (min PATH_MAX (length t)) = Some m2"
            "c_strlen (object path m2 (plus_ptr rel (length nm))) = Some (length rest)"
            and short: "length t + 1 + length rest < PATH_MAX \<longrightarrow> m2 ! PATH_MAX = hd t \<and>
              (\<exists>m3. join_link path m2 (length t) (plus_ptr rel (length nm)) (length rest) = Some m3 \<and> holds m3 st \<and>
                points path m3 (Buf (2 * PATH_MAX)) (t @ 47 # rest))"
            using follow_link [OF h1 p1 t] by blast
          note walk = walk [unfolded Let_def Inr sum.case m2 Option.bind.simps]
          show ?thesis
          proof (cases "PATH_MAX \<le> length t + 1 + length rest \<or> n \<le> 1")
            case True
            then show ?thesis using comp Inr "1.prems"(4) by (auto simp: walk res walked_Inl min_def)
          next
            case False
            then obtain m3 where m3: "m2 ! PATH_MAX = hd t" "join_link path m2 (length t) (plus_ptr rel (length nm)) (length rest) = Some m3"
              "holds m3 st" "points path m3 (Buf (2 * PATH_MAX)) (t @ 47 # rest)" using short by auto
            have len: "min PATH_MAX (length t) = length t" "\<not> PATH_MAX \<le> length t + 1 + length rest" "int n - 1 \<noteq> 0" using False by auto
            have "holds m3 []" using m3(3) by (simp add: holds_def)
            then have h3: "holds m3 (if hd t = 47 then [] else st)" using m3(3) by simp
            have "int (n - 1) = int n - 1" using False by simp
            moreover have "rl (render st @ 47 # nm) = Inr t" using Inr by simp
            ultimately show ?thesis
              using IH(5) [OF \<open>nm \<noteq> []\<close> comp(1,2) _ Inr len(2) _ "1.prems"(1) h3 m3(4)] False comp
              by (auto simp: walk res m3(1,2) len split: if_splits)
          qed
        qed
      qed
    qed
  qed
qed

section \<open>Properties\<close>

definition shown :: "u8 list list \<Rightarrow> u8 list" where "shown st = (if st = [] then [47] else render st)"

text \<open>
  Where the resolution of a path starts, or the error: in the root, in the working directory if the
  kernel names it and the name fits, or in the opened directory of the request. \<open>stale\<close> says that the
  second byte of the buffer was not zero. It matters in an opened root directory, where the code takes
  the slash for a name that is not followed by one: the resolution starts behind an empty name.
\<close>

definition starts_at :: "eio_wd \<Rightarrow> (addr \<rightharpoonup> wd_data) \<Rightarrow> int + u8 list \<Rightarrow> bool \<Rightarrow> u8 list \<Rightarrow> int + u8 list list \<Rightarrow> bool" where
  "starts_at wd dirs cwd stale path start \<longleftrightarrow>
     (if hd path = 47 then start = Inr []
      else case wd of
          EIO_INVALID_WD \<Rightarrow> start = Inl ENOENT
        | EIO_CWD \<Rightarrow> (case cwd of
            Inl e \<Rightarrow> start = Inl e
          | Inr s \<Rightarrow> if PATH_MAX \<le> length s then start = Inl ERANGE
              else \<exists>st. clean st \<and> s = shown st \<and> start = Inr st)
        | Wd a \<Rightarrow> \<exists>d. dirs a = Some d \<and> length (wd_str d) < PATH_MAX \<and>
            (if wd_str d = [47] then start = Inr (if stale then [[]] else [])
             else \<exists>st. st \<noteq> [] \<and> tidy st \<and> wd_str d = render st \<and> start = Inr st))"

text \<open>The temporary buffer is as it says it is; \<open>tmpbuf_ok\<close>: and there is memory if it has to grow.\<close>

definition tmpbuf_wf :: "etp_tmpbuf \<Rightarrow> bool" where
  "tmpbuf_wf b \<longleftrightarrow> (case tb_ptr b of None \<Rightarrow> True | Some m \<Rightarrow> tb_len b = int (length m))"

definition tmpbuf_ok :: "heap_choice \<Rightarrow> etp_tmpbuf \<Rightarrow> bool" where
  "tmpbuf_ok ch b \<longleftrightarrow> (case tb_ptr b of None \<Rightarrow> tb_len b \<le> 0 | Some m \<Rightarrow> tb_len b = int (length m)) \<and>
     (tb_len b < int (PATH_MAX * 3) \<longrightarrow> ch \<noteq> None)"

text \<open>The bytes the buffer has when the function starts to work, \<open>None\<close> for a null pointer.\<close>

definition buffer_of :: "heap_choice \<Rightarrow> etp_tmpbuf \<Rightarrow> u8 list option" where
  "buffer_of ch b = fst (etp_tmpbuf_get ch b (int (PATH_MAX * 3)))"

lemma buffer_of_long:
  assumes "tmpbuf_wf b" "buffer_of ch b = Some m"
  shows "3 * PATH_MAX \<le> length m"
proof (cases "tb_len b < int (PATH_MAX * 3)")
  case True
  then show ?thesis using assms by (auto simp: buffer_of_def etp_tmpbuf_get_def c_malloc_def nat_mult_distrib)
next
  case False
  then show ?thesis using assms by (auto simp: buffer_of_def tmpbuf_wf_def etp_tmpbuf_get_def split: option.splits)
qed

lemma tmpbuf_ok_got: "tmpbuf_ok ch b \<Longrightarrow> tmpbuf_wf b \<and> (\<exists>m. buffer_of ch b = Some m)"
  by (cases "tb_len b < int (PATH_MAX * 3)")
    (auto simp: tmpbuf_ok_def tmpbuf_wf_def buffer_of_def etp_tmpbuf_get_def c_malloc_def PATH_MAX_def split: option.splits)

lemma second_byte: "tidy st \<Longrightarrow> 1 < length (render st) \<Longrightarrow> render st ! 1 \<noteq> 0"
  using render_no_zero [of st] by (metis nth_mem)

lemma clean_long: "clean st \<Longrightarrow> st \<noteq> [] \<Longrightarrow> 1 < length (render st)"
  by (cases st) (auto simp: neq_Nil_conv)

lemma render_long:
  assumes "st \<noteq> []" "render st \<noteq> [47]"
  shows "1 < length (render st)"
proof -
  obtain c st' where st: "st = c # st'" using assms(1) by (cases st) auto
  with assms(2) have "c @ render st' \<noteq> []" by simp
  then have "0 < length (c @ render st')" by (rule length_greater_0_conv [THEN iffD2])
  then show ?thesis by (simp add: st)
qed

lemma start_in_cwd:
  assumes "clean st" "length (shown st) < PATH_MAX" "3 * PATH_MAX \<le> length m"
  shows "\<exists>m'. start_dir EIO_CWD dirs (Inr (shown st)) m = Some (Inr (length (render st)), m') \<and> holds m' st"
proof -
  define m' where "m' = (shown st @ [0]) @ drop (length (shown st) + 1) m"
  have nz: "0 \<notin> set (shown st)" using render_no_zero [OF clean_tidy [OF assms(1)]] by (simp add: shown_def)
  have "mem_copy m 0 (shown st @ [0]) 0 (length (shown st) + 1) = Some m'"
    using assms(2,3) by (simp add: mem_copy_def m'_def)
  moreover have "c_strlen m' = Some (length (shown st))" using c_strlen_string [OF nz] by (simp add: m'_def)
  moreover have "(if m' ! 1 \<noteq> 0 then length (shown st) else 0) = length (render st)"
    using second_byte [OF clean_tidy [OF assms(1)] clean_long [OF assms(1)]] clean_long [OF assms(1)]
    by (cases "st = []") (simp_all add: m'_def shown_def nth_append)
  moreover have "holds m' st"
    using clean_tidy [OF assms(1)] assms(2,3) by (cases "st = []") (simp_all add: holds_def m'_def shown_def)
  ultimately show ?thesis using assms(2) by (simp add: start_dir_def)
qed

lemma start_in_wd:
  assumes "dirs a = Some d" "wd_str d = render st" "st \<noteq> []" "wd_str d \<noteq> [47]" "tidy st" "length (wd_str d) < PATH_MAX"
    and "3 * PATH_MAX \<le> length m"
  shows "\<exists>m'. start_dir (Wd a) dirs cwd m = Some (Inr (length (render st)), m') \<and> holds m' st"
proof -
  define m' where "m' = render st @ drop (length (render st)) m"
  have long: "1 < length (render st)" using render_long [OF assms(3)] assms(2,4) by simp
  have "mem_copy m 0 (render st) 0 (length (render st)) = Some m'" using assms(2,6,7) by (simp add: mem_copy_def m'_def)
  moreover have "m' ! 1 \<noteq> 0" using second_byte [OF assms(5) long] long by (simp add: m'_def nth_append)
  moreover have "holds m' st" using assms(2,5,6,7) by (simp add: holds_def m'_def)
  ultimately show ?thesis by (simp add: start_dir_def assms(1,2))
qed

lemma start_in_root:
  assumes "dirs a = Some d" "wd_str d = [47]" and "3 * PATH_MAX \<le> length m"
  shows "\<exists>m'. start_dir (Wd a) dirs cwd m = Some (Inr (length (render (if m ! 1 \<noteq> 0 then [[]] else []))), m') \<and>
    holds m' (if m ! 1 \<noteq> 0 then [[]] else [])"
proof -
  define m' where "m' = 47 # drop 1 m"
  have "mem_copy m 0 [47] 0 1 = Some m'" using assms(3) by (simp add: mem_copy_def m'_def PATH_MAX_def)
  moreover have "m' ! 1 = m ! 1" using assms(3) by (simp add: m'_def PATH_MAX_def)
  moreover have "holds m' (if m ! 1 \<noteq> 0 then [[]] else [])" using assms(3) by (auto simp: holds_def m'_def PATH_MAX_def)
  ultimately show ?thesis by (simp add: start_dir_def assms(1,2))
qed

lemma start_dir_ok:
  assumes "starts_at wd dirs cwd (m ! 1 \<noteq> 0) path start" "hd path \<noteq> 47" "3 * PATH_MAX \<le> length m"
  shows "\<exists>m'. start_dir wd dirs cwd m = Some (outcome_of start, m') \<and> (\<forall>st. start = Inr st \<longrightarrow> holds m' st)"
proof (cases wd)
  case EIO_CWD
  show ?thesis
  proof (cases "\<exists>s. cwd = Inr s \<and> length s < PATH_MAX")
    case True
    then show ?thesis using start_in_cwd [OF _ _ assms(3)] assms(1,2) by (fastforce simp: starts_at_def EIO_CWD outcome_of_def)
  next
    case False
    then show ?thesis using assms(1,2)
      by (cases cwd) (auto simp: starts_at_def EIO_CWD outcome_of_def start_dir_def not_less)
  qed
next
  case (Wd a)
  then obtain d where d: "dirs a = Some d" "length (wd_str d) < PATH_MAX"
    "if wd_str d = [47] then start = Inr (if m ! 1 \<noteq> 0 then [[]] else [])
     else \<exists>st. st \<noteq> [] \<and> tidy st \<and> wd_str d = render st \<and> start = Inr st"
    using assms(1,2) by (auto simp: starts_at_def)
  show ?thesis
  proof (cases "wd_str d = [47]")
    case True
    then show ?thesis using start_in_root [where dirs = dirs, OF d(1) True assms(3)] d(3) by (simp add: Wd outcome_of_def)
  next
    case False
    then show ?thesis using start_in_wd [where dirs = dirs, OF d(1) _ _ False _ d(2) assms(3)] d(3) by (fastforce simp: Wd outcome_of_def)
  qed
qed (use assms(1,2) in \<open>simp add: starts_at_def start_dir_def outcome_of_def\<close>)

text \<open>A directory none of whose parts is a link.\<close>

definition canonical :: "links \<Rightarrow> u8 list list \<Rightarrow> bool" where
  "canonical rl st \<longleftrightarrow> (\<forall>c \<in> set st. c \<noteq> [] \<and> 47 \<notin> set c \<and> c \<noteq> [46] \<and> c \<noteq> [46, 46]) \<and>
     (\<forall>i. 0 < i \<and> i \<le> length st \<longrightarrow> rl (render (take i st)) = Inl EINVAL)"

lemma canonical_Nil [simp]: "canonical rl []"
  by (simp add: canonical_def)

lemma canonical_take: "canonical rl st \<Longrightarrow> 0 < i \<Longrightarrow> i \<le> length st \<Longrightarrow> rl (render (take i st)) = Inl EINVAL"
  by (simp add: canonical_def)

lemma canonical_snoc:
  "canonical rl (st @ [c]) \<longleftrightarrow> canonical rl st \<and> c \<noteq> [] \<and> 47 \<notin> set c \<and> c \<noteq> [46] \<and> c \<noteq> [46, 46] \<and> rl (render (st @ [c])) = Inl EINVAL"
proof -
  have split: "(\<forall>i. 0 < i \<and> i \<le> Suc k \<longrightarrow> P i) \<longleftrightarrow> (\<forall>i. 0 < i \<and> i \<le> k \<longrightarrow> P i) \<and> P (Suc k)" for k P
    by (metis le_Suc_eq zero_less_Suc)
  have "(\<forall>i. 0 < i \<and> i \<le> length st \<longrightarrow> rl (render (take i (st @ [c]))) = Inl EINVAL) \<longleftrightarrow>
      (\<forall>i. 0 < i \<and> i \<le> length st \<longrightarrow> rl (render (take i st)) = Inl EINVAL)" by simp
  then show ?thesis unfolding canonical_def length_append_singleton split by (simp add: ball_Un) blast
qed

lemma canonical_butlast: "canonical rl st \<Longrightarrow> canonical rl (butlast st)"
  by (cases st rule: rev_cases) (simp_all add: canonical_snoc)

text \<open>What holds of the root, of the parent and of a found name that is no link, holds of every resolved directory.\<close>

lemma resolve_keeps:
  assumes "P []" and "\<And>st. P st \<Longrightarrow> P (butlast st)"
    and "\<forall>st nm. P st \<and> nm \<noteq> [] \<and> 47 \<notin> set nm \<and> nm \<noteq> [46] \<and> nm \<noteq> [46, 46] \<and> rl (render (st @ [nm])) = Inl EINVAL \<longrightarrow>
      P (st @ [nm])"
    and "P st" and "resolve rl n st s = Inr st'"
  shows "P st'"
  using assms(3,4,5)
proof (induction rl n st s rule: resolve.induct)
  case (1 rl n st s)
  define nm where "nm = takeWhile (\<lambda>c. c \<noteq> 47) s"
  define rest where "rest = dropWhile (\<lambda>c. c \<noteq> 47) s"
  note IH = "1.IH" [OF _ nm_def rest_def]
  have nm: "47 \<notin> set nm" by (auto simp: nm_def dest: set_takeWhileD)
  show ?case
  proof (cases "s = [] \<or> nm = [] \<or> nm = [46] \<or> nm = [46, 46]")
    case True
    have "resolve rl n st s = (if s = [] then Inr st else if nm = [] then resolve rl n st (tl s)
      else if nm = [46] then resolve rl n st rest else resolve rl n (butlast st) rest)"
      using True by (subst resolve.simps) (auto simp: Let_def simp flip: nm_def rest_def)
    then show ?thesis using True "1.prems"(2,3) IH(1) [OF _ _ "1.prems"(1)] IH(2) [OF _ _ _ "1.prems"(1)]
        IH(3) [OF _ _ _ _ "1.prems"(1)] assms(2) [of st]
      by (simp split: if_splits)
  next
    case False
    then have r: "(if PATH_MAX \<le> length (render st) + 1 + length nm + 1 then Inl ENAMETOOLONG
        else case rl (render (st @ [nm])) of
            Inl errno \<Rightarrow> if errno \<noteq> EINVAL then Inl errno else resolve rl n (st @ [nm]) rest
          | Inr t \<Rightarrow> if PATH_MAX \<le> length t + 1 + length rest then Inl ENAMETOOLONG else if n \<le> 1 then Inl ELOOP
              else resolve rl (n - 1) (if hd t = 47 then [] else st) (t @ 47 # rest)) = Inr st'"
      using "1.prems"(3) by (subst (asm) resolve.simps) (simp add: Let_def flip: nm_def rest_def)
    show ?thesis
    proof (cases "rl (render (st @ [nm]))")
      case (Inl e)
      then show ?thesis using r False IH(4) [OF _ _ _ _ _ Inl] "1.prems"(1,2) nm by (auto split: if_splits)
    next
      case (Inr t)
      then show ?thesis using r False IH(5) "1.prems"(1,2) assms(1) by (auto split: if_splits)
    qed
  qed
qed

lemma resolve_canonical: "canonical rl st \<Longrightarrow> resolve rl n st s = Inr st' \<Longrightarrow> canonical rl st'"
  by (rule resolve_keeps [where P = "canonical rl"]) (auto simp: canonical_snoc intro: canonical_butlast)



text \<open>The resolution of names that are already there changes nothing.\<close>

lemma takeWhile_name: "47 \<notin> set c \<Longrightarrow> s = [] \<or> hd s = 47 \<Longrightarrow> takeWhile (\<lambda>c. c \<noteq> 47) (c @ s) = c \<and> dropWhile (\<lambda>c. c \<noteq> 47) (c @ s) = s"
  by (induction c) (cases s; auto)+

lemma hd_render: "hd (render st @ s) = (if st = [] then hd s else 47)"
  by (cases st) simp_all

lemma resolve_render:
  assumes "canonical rl (st0 @ st)" "length (render (st0 @ st)) + 1 < PATH_MAX" "s = [] \<or> hd s = 47"
  shows "resolve rl n st0 (render st @ s) = resolve rl n (st0 @ st) s"
  using assms(1,2)
proof (induction st arbitrary: st0)
  case (Cons c st)
  have c: "c \<noteq> []" "47 \<notin> set c" "c \<noteq> [46]" "c \<noteq> [46, 46]" using Cons.prems(1) by (auto simp: canonical_def)
  have e: "rl (render (st0 @ [c])) = Inl EINVAL"
    using canonical_take [OF Cons.prems(1), of "length st0 + 1"] by simp
  have tw: "takeWhile (\<lambda>c. c \<noteq> 47) (c @ render st @ s) = c" "dropWhile (\<lambda>c. c \<noteq> 47) (c @ render st @ s) = render st @ s"
    using takeWhile_name [OF c(2), of "render st @ s"] assms(3) by (auto simp: hd_render)
  have "resolve rl n st0 (render (c # st) @ s) = resolve rl n st0 (c @ render st @ s)" by (simp add: resolve_slash)
  also have "\<dots> = resolve rl n (st0 @ [c]) (render st @ s)"
  proof -
    have "\<not> PATH_MAX \<le> length (render st0) + 1 + length c + 1" using Cons.prems(2) by simp
    then show ?thesis using c(1,3,4) by (subst resolve.simps) (simp only: Let_def tw e, simp)
  qed
  also have "\<dots> = resolve rl n ((st0 @ [c]) @ st) s" using Cons.prems by (intro Cons.IH) simp_all
  finally show ?case by simp
qed simp

definition resolve_from :: "links \<Rightarrow> int + u8 list list \<Rightarrow> u8 list \<Rightarrow> int + u8 list list" where
  "resolve_from rl start path = (case start of Inl e \<Rightarrow> Inl e | Inr st \<Rightarrow> resolve rl 32 st path)"

lemma realpath_computes:
  assumes "proper_links rl" and "path \<noteq> []" "0 \<notin> set path" and "starts_at wd dirs cwd (m ! 1 \<noteq> 0) path start"
    and "tmpbuf_wf b" "buffer_of ch b = Some m"
  shows "\<exists>b'. eio__realpath rl dirs cwd ch b wd (Some path) =
      Some (case resolve_from rl start path of Inl e \<Rightarrow> Inl e | Inr st' \<Rightarrow> Inr (length (shown st')), b') \<and>
    (\<forall>st'. resolve_from rl start path = Inr st' \<longrightarrow> take (length (shown st')) (the (tb_ptr b')) = shown st' \<and> length (shown st') < PATH_MAX)"
proof -
  obtain b1 where b1: "etp_tmpbuf_get ch b (int (PATH_MAX * 3)) = (Some m, b1)"
    using assms(6) by (cases "etp_tmpbuf_get ch b (int (PATH_MAX * 3))") (simp add: buffer_of_def)
  have len: "3 * PATH_MAX \<le> length m" by (rule buffer_of_long [OF assms(5,6)])
  obtain m1 where m1: "(if hd path \<noteq> 47 then start_dir wd dirs cwd m else Some (Inr 0, m)) = Some (outcome_of start, m1)"
    "\<forall>st. start = Inr st \<longrightarrow> holds m1 st"
    using start_dir_ok [OF assms(4) _ len] assms(4) len
    by (cases "hd path = 47") (auto simp: starts_at_def holds_def outcome_of_def PATH_MAX_def)
  have "points path m1 (Arg 0) path" using assms(3) by (simp add: points_def)
  note walked = walk_resolves [OF assms(1) _ this, of _ 32, unfolded walked_def]
  obtain m2 where m2: "(case outcome_of start of Inl errno \<Rightarrow> Some (Inl errno, m1) | Inr res \<Rightarrow> walk rl path res (Arg 0) 32 m1) =
      Some (outcome_of (resolve_from rl start path), m2)"
    "\<forall>st'. resolve_from rl start path = Inr st' \<longrightarrow> holds m2 st'"
    using walked m1(2) by (cases start) (fastforce simp: outcome_of_def resolve_from_def)+
  have "eio__realpath rl dirs cwd ch b wd (Some path) = do {
      (end, m) \<leftarrow> (if outcome_of (resolve_from rl start path) = Inr 0 then map_option (Pair (Inr 1)) (poke m2 0 47)
        else Some (outcome_of (resolve_from rl start path), m2));
      Some (end, b1\<lparr>tb_ptr := Some m\<rparr>)}"
  proof -
    obtain c cs where path: "path = c # cs" using assms(2) by (cases path) auto
    show ?thesis using b1 m1(1) m2(1) unfolding path by (simp add: eio__realpath_def)
  qed
  then show ?thesis
    using m2(2) by (cases "resolve_from rl start path")
      (auto simp: outcome_of_def shown_def holds_def poke_def PATH_MAX_def take_Suc_conv_app_nth)
qed

lemma realpath_without_buffer:
  "path \<noteq> [] \<Longrightarrow> buffer_of ch b = None \<Longrightarrow> eio__realpath rl dirs cwd ch b wd (Some path) = None"
  by (cases path) (auto simp: eio__realpath_def buffer_of_def split: prod.split)

text \<open>For the examples: \<open>/a\<close> is a link to \<open>b\<close>, and no temporary buffer is there yet.\<close>

definition demo_links :: links where "demo_links p = (if p = [47, 97] then Inr [98] else Inl EINVAL)"

lemma demo_ok: "proper_links demo_links" "tmpbuf_ok (Some junk) no_tmpbuf" "canonical demo_links [[98]]"
  "buffer_of (Some (\<lambda>i. 7)) no_tmpbuf = Some (replicate 12288 7)" "buffer_of None no_tmpbuf = None" "tmpbuf_wf no_tmpbuf"
  by (auto simp: proper_links_def demo_links_def tmpbuf_ok_def tmpbuf_wf_def no_tmpbuf_def canonical_def buffer_of_def
      etp_tmpbuf_get_def c_malloc_def map_replicate_const PATH_MAX_def less_Suc_eq)

lemma demo_start: "starts_at EIO_CWD dirs (Inr [47]) stale path (Inr [])"
  by (auto simp: starts_at_def shown_def PATH_MAX_def intro!: exI [of _ "[]"])

lemma demo_resolve: "resolve demo_links 32 [] [97] = Inr [[98]]"
  by (simp add: resolve.simps demo_links_def PATH_MAX_def)

text \<open>C10: If there is memory for the temporary buffer, then whatever it held the function computes the resolution of the
  path on lists of names: it never touches memory outside of the three parts, no \<open>memcpy\<close> overlaps although the rest of
  the path moves within the buffer, and it returns, with the error of the start or of the resolution or with the
  resolved names in the buffer. This includes a missing, nameless or too long working directory and an opened root
  directory, where a byte left in the buffer makes the resolution start behind an empty name (\<open>starts_at\<close>).
  Without memory the null pointer is used.\<close>
theorem realpath_resolves:
  assumes "proper_links rl" and "path \<noteq> []" "0 \<notin> set path" and "tmpbuf_wf b"
  shows "case buffer_of ch b of
      None \<Rightarrow> eio__realpath rl dirs cwd ch b wd (Some path) = None
    | Some m \<Rightarrow> \<forall>start. starts_at wd dirs cwd (m ! 1 \<noteq> 0) path start \<longrightarrow>
        (\<exists>b'. eio__realpath rl dirs cwd ch b wd (Some path) =
            Some (case resolve_from rl start path of Inl e \<Rightarrow> Inl e | Inr st' \<Rightarrow> Inr (length (shown st')), b') \<and>
          (\<forall>st'. resolve_from rl start path = Inr st' \<longrightarrow> take (length (shown st')) (the (tb_ptr b')) = shown st'))"
proof (cases "buffer_of ch b")
  case (Some m)
  show ?thesis unfolding Some option.case using realpath_computes [OF assms(1-3) _ assms(4) Some] by blast
qed (simp add: realpath_without_buffer assms(2))

theorem realpath_resolves_witness:
  "(\<exists>b'. eio__realpath demo_links Map.empty (Inr [47]) (Some (\<lambda>i. 7)) no_tmpbuf EIO_CWD (Some [97]) = Some (Inr 2, b') \<and>
      take 2 (the (tb_ptr b')) = [47, 98]) \<and>
   (\<exists>b'. eio__realpath demo_links [3 \<mapsto> \<lparr>wd_fd = 5, wd_str = [47]\<rparr>] (Inr [47]) (Some (\<lambda>i. 7)) no_tmpbuf (Wd 3) (Some [97]) = Some (Inr 3, b') \<and>
      take 3 (the (tb_ptr b')) = [47, 47, 97]) \<and>
   eio__realpath demo_links Map.empty (Inr [47]) None no_tmpbuf EIO_CWD (Some [97]) = None"
proof (intro conjI)
  note at = realpath_resolves [of demo_links "[97]" no_tmpbuf, OF demo_ok(1) _ _ demo_ok(6)]
  show "\<exists>b'. eio__realpath demo_links Map.empty (Inr [47]) (Some (\<lambda>i. 7)) no_tmpbuf EIO_CWD (Some [97]) = Some (Inr 2, b') \<and>
      take 2 (the (tb_ptr b')) = [47, 98]"
    using at [of Map.empty "Inr [47]" "Some (\<lambda>i. 7)" EIO_CWD, unfolded demo_ok option.case, simplified, rule_format, OF demo_start]
    by (simp add: demo_resolve resolve_from_def shown_def) (simp only: numeral_2_eq_2)
  have root: "starts_at (Wd 3) [3 \<mapsto> \<lparr>wd_fd = 5, wd_str = [47]\<rparr>] (Inr [47]) True [97] (Inr [[]])"
    by (simp add: starts_at_def PATH_MAX_def)
  have "resolve demo_links 32 [[]] [97] = Inr [[], [97]]" by (simp add: resolve.simps demo_links_def PATH_MAX_def)
  then show "\<exists>b'. eio__realpath demo_links [3 \<mapsto> \<lparr>wd_fd = 5, wd_str = [47]\<rparr>] (Inr [47]) (Some (\<lambda>i. 7)) no_tmpbuf (Wd 3) (Some [97]) = Some (Inr 3, b') \<and>
      take 3 (the (tb_ptr b')) = [47, 47, 97]"
    using at [of "[3 \<mapsto> \<lparr>wd_fd = 5, wd_str = [47]\<rparr>]" "Inr [47]" "Some (\<lambda>i. 7)" "Wd 3", unfolded demo_ok option.case] root
    by (simp add: nth_replicate resolve_from_def shown_def) (auto simp: resolve_from_def shown_def numeral_3_eq_3)
  show "eio__realpath demo_links Map.empty (Inr [47]) None no_tmpbuf EIO_CWD (Some [97]) = None"
    using at [of Map.empty "Inr [47]" None EIO_CWD, unfolded demo_ok option.case] by simp
qed



text \<open>A relative path in an opened directory and the joined absolute path have the same real path, or fail in the
  same way, from any two states of the temporary buffer.\<close>
theorem realpath_joins_directory:
  assumes "proper_links rl" and "path \<noteq> []" "0 \<notin> set path" "hd path \<noteq> 47" and "canonical rl st" "clean st" "st \<noteq> []"
    and "length (render st) + 1 < PATH_MAX" and "dirs a = Some d" "wd_str d = render st" and "tmpbuf_ok ch1 b1" "tmpbuf_ok ch2 b2"
  shows "\<exists>r b1' b2'. eio__realpath rl dirs cwd ch1 b1 (Wd a) (Some path) = Some (r, b1') \<and>
    eio__realpath rl dirs cwd ch2 b2 EIO_CWD (Some (wd_str d @ 47 # path)) = Some (r, b2') \<and>
    (\<forall>n. r = Inr n \<longrightarrow> take n (the (tb_ptr b1')) = take n (the (tb_ptr b2')))"
proof -
  have "resolve rl 32 [] (render st @ 47 # path) = resolve rl 32 st (47 # path)"
    using resolve_render [of rl "[]" st "47 # path" 32] assms(5,8) by simp
  then have same: "resolve rl 32 [] (render st @ 47 # path) = resolve rl 32 st path" by (simp add: resolve_slash)
  obtain m1 m2 where m: "tmpbuf_wf b1" "buffer_of ch1 b1 = Some m1" "tmpbuf_wf b2" "buffer_of ch2 b2 = Some m2"
    using tmpbuf_ok_got assms(11,12) by blast
  have "render st \<noteq> [47]" using clean_long [OF assms(6,7)] by auto
  then have "starts_at (Wd a) dirs cwd (m1 ! 1 \<noteq> 0) path (Inr st)"
    using assms clean_tidy [OF assms(6)] by (auto simp: starts_at_def)
  note one = realpath_computes [OF assms(1,2,3) this m(1,2), unfolded resolve_from_def sum.case]
  have "starts_at EIO_CWD dirs cwd (m2 ! 1 \<noteq> 0) (render st @ 47 # path) (Inr [])" by (simp add: starts_at_def hd_render)
  moreover have "0 \<notin> set (render st @ 47 # path)" using render_no_zero [OF clean_tidy [OF assms(6)]] assms(3) by simp
  ultimately have "\<exists>b'. eio__realpath rl dirs cwd ch2 b2 EIO_CWD (Some (render st @ 47 # path)) =
      Some (case resolve rl 32 [] (render st @ 47 # path) of Inl e \<Rightarrow> Inl e | Inr st' \<Rightarrow> Inr (length (shown st')), b') \<and>
    (\<forall>st'. resolve rl 32 [] (render st @ 47 # path) = Inr st' \<longrightarrow> take (length (shown st')) (the (tb_ptr b')) = shown st' \<and> length (shown st') < PATH_MAX)"
    using realpath_computes [OF assms(1) _ _ _ m(3,4), of "render st @ 47 # path" EIO_CWD dirs cwd "Inr []"]
    by (simp add: resolve_from_def)
  with one show ?thesis unfolding same assms(10) by (cases "resolve rl 32 st path") fastforce+
qed

theorem realpath_joins_directory_witness:
  "\<exists>r b1' b2'. eio__realpath demo_links [3 \<mapsto> \<lparr>wd_fd = 5, wd_str = [47, 98]\<rparr>] (Inr [47]) (Some (\<lambda>i. 7)) no_tmpbuf (Wd 3) (Some [97]) = Some (r, b1') \<and>
    eio__realpath demo_links [3 \<mapsto> \<lparr>wd_fd = 5, wd_str = [47, 98]\<rparr>] (Inr [47]) (Some (\<lambda>i. 7)) no_tmpbuf EIO_CWD (Some [47, 98, 47, 97]) = Some (r, b2') \<and>
    (\<forall>n. r = Inr n \<longrightarrow> take n (the (tb_ptr b1')) = take n (the (tb_ptr b2')))"
  using realpath_joins_directory [of demo_links "[97]" "[[98]]" "[3 \<mapsto> \<lparr>wd_fd = 5, wd_str = [47, 98]\<rparr>]" 3 "\<lparr>wd_fd = 5, wd_str = [47, 98]\<rparr>"
      "Some (\<lambda>i. 7)" no_tmpbuf "Some (\<lambda>i. 7)" no_tmpbuf "Inr [47]"]
  by (simp add: demo_ok PATH_MAX_def)

text \<open>C12: A real path is its own real path, in every directory.\<close>
theorem realpath_idempotent:
  assumes "proper_links rl" and "canonical rl st" "clean st" "length (render st) + 1 < PATH_MAX" and "tmpbuf_ok ch b"
  shows "\<exists>b'. eio__realpath rl dirs cwd ch b wd (Some (shown st)) = Some (Inr (length (shown st)), b') \<and>
    take (length (shown st)) (the (tb_ptr b')) = shown st"
proof -
  have "resolve rl 32 [] (shown st) = Inr st"
    using resolve_render [of rl "[]" st "[]" 32] assms(2,4) resolve_slash [of rl 32 "[]" "[]"] by (simp add: shown_def resolve_Nil)
  moreover have "starts_at wd dirs cwd stale (shown st) (Inr [])" for stale
    using hd_render [of st "[]"] by (simp add: starts_at_def shown_def)
  moreover have "shown st \<noteq> []" "0 \<notin> set (shown st)" using render_no_zero [OF clean_tidy [OF assms(3)]] by (simp_all add: shown_def)
  moreover obtain m where "tmpbuf_wf b" "buffer_of ch b = Some m" using tmpbuf_ok_got [OF assms(5)] by blast
  ultimately show ?thesis
    using realpath_computes [OF assms(1), of "shown st" wd dirs cwd m "Inr []" b ch] by (auto simp: resolve_from_def)
qed

theorem realpath_idempotent_witness:
  "\<exists>b'. eio__realpath demo_links Map.empty (Inr [47]) (Some (\<lambda>i. 7)) no_tmpbuf EIO_CWD (Some [47, 98]) = Some (Inr 2, b') \<and>
    take 2 (the (tb_ptr b')) = [47, 98]"
  using realpath_idempotent [of demo_links "[[98]]" "Some (\<lambda>i. 7)" no_tmpbuf Map.empty "Inr [47]" EIO_CWD]
  by (simp add: demo_ok shown_def PATH_MAX_def) (simp only: numeral_2_eq_2)

text \<open>An opened directory is remembered by its real path and a descriptor of the system.\<close>
theorem wd_open_remembers_real_path:
  assumes "proper_links (tree_links t)" and "p \<noteq> 0" "strs w p = Some path" "path \<noteq> []" "0 \<notin> set path"
    and "tmpbuf_wf (tmp w)" "buffer_of (tree_mem t) (tmp w) = Some m"
    and "starts_at wd (wds w) (tree_cwd t) (m ! 1 \<noteq> 0) path (Inr st)" "canonical (tree_links t) st"
    and "eio__wd_open_sync t wd p w = Some (Wd a, w')"
  shows "\<exists>st' fd. wds w' a = Some \<lparr>wd_fd = fd, wd_str = shown st'\<rparr> \<and> canonical (tree_links t) st' \<and> 0 \<le> fd \<and>
    resolve (tree_links t) 32 st path = Inr st'"
proof -
  obtain b' where b': "eio__realpath (tree_links t) (wds w) (tree_cwd t) (tree_mem t) (tmp w) wd (Some path) =
      Some (case resolve (tree_links t) 32 st path of Inl e \<Rightarrow> Inl e | Inr st' \<Rightarrow> Inr (length (shown st')), b')"
    "\<forall>st'. resolve (tree_links t) 32 st path = Inr st' \<longrightarrow> take (length (shown st')) (the (tb_ptr b')) = shown st'"
    using realpath_computes [OF assms(1,4,5,8,6,7)] by (auto simp: resolve_from_def)
  then have at: "realpath_at t wd p w = Some (case resolve (tree_links t) 32 st path of
      Inl e \<Rightarrow> (None, w\<lparr>tmp := b', kerrno := e\<rparr>) | Inr st' \<Rightarrow> (Some (shown st'), w\<lparr>tmp := b'\<rparr>))"
    using assms(2,3) by (simp add: realpath_at_def split: sum.split)
  note opened = assms(10) [unfolded eio__wd_open_sync_def at]
  show ?thesis
  proof (cases "resolve (tree_links t) 32 st path")
    case (Inr st')
    then obtain dir where dir: "WD2FD wd (w\<lparr>tmp := b'\<rparr>) = Some dir" using opened by (auto simp: bind_eq_Some_conv)
    obtain fd w1 where fd: "sys (Openat dir (Path p) (O_CLOEXEC + O_SEARCH + O_DIRECTORY) 0) (w\<lparr>tmp := b'\<rparr>) = (fd, w1)" by fastforce
    obtain k w2 where k: "sys (Malloc (16 + length (shown st'))) w1 = (k, w2)" by fastforce
    have "0 \<le> fd \<and> wds w' a = Some \<lparr>wd_fd = fd, wd_str = shown st'\<rparr>"
      using opened by (auto simp: Inr dir fd k split: if_splits)
    then show ?thesis using resolve_canonical [OF assms(9) Inr] Inr by auto
  qed (use opened in simp)
qed

theorem wd_open_remembers_real_path_witness:
  "\<exists>w' st' fd. eio__wd_open_sync \<lparr>tree_links = demo_links, tree_cwd = Inr [47], tree_mem = Some (\<lambda>i. 7)\<rparr> EIO_CWD 4
     \<lparr>replies = (\<lambda>n. (9, 0)), calls = [], kerrno = 0, strs = [4 \<mapsto> [97]], wds = Map.empty, tmp = no_tmpbuf\<rparr> = Some (Wd 9, w') \<and>
   wds w' 9 = Some \<lparr>wd_fd = fd, wd_str = shown st'\<rparr> \<and> canonical demo_links st'"
proof -
  define t where "t = \<lparr>tree_links = demo_links, tree_cwd = Inr [47], tree_mem = Some (\<lambda>i. 7)\<rparr>"
  define w where "w = \<lparr>replies = (\<lambda>n. (9, 0)), calls = [], kerrno = 0, strs = [4 \<mapsto> [97 :: u8]], wds = Map.empty, tmp = no_tmpbuf\<rparr>"
  have t: "tree_links t = demo_links" "tree_cwd t = Inr [47]" "tree_mem t = Some (\<lambda>i. 7)" by (simp_all add: t_def)
  have w: "strs w 4 = Some [97]" "tmp w = no_tmpbuf" by (simp_all add: w_def)
  obtain b' where "eio__realpath demo_links (wds w) (Inr [47]) (Some (\<lambda>i. 7)) no_tmpbuf EIO_CWD (Some [97]) = Some (Inr 2, b')"
    using realpath_computes [OF demo_ok(1) _ _ demo_start demo_ok(6,4), of "[97]" "wds w"]
    by (auto simp: demo_resolve resolve_from_def shown_def)
  then obtain w' where w': "eio__wd_open_sync t EIO_CWD 4 w = Some (Wd 9, w')"
    by (simp add: eio__wd_open_sync_def realpath_at_def t w WD2FD_def) (simp add: w_def sys_def)
  have "\<exists>st' fd. wds w' 9 = Some \<lparr>wd_fd = fd, wd_str = shown st'\<rparr> \<and> canonical demo_links st'"
    using wd_open_remembers_real_path [of t 4 w "[97]" "replicate 12288 7" EIO_CWD "[]" 9 w'] w' demo_start
    by (auto simp: t w demo_ok)
  then show ?thesis using w' unfolding t_def w_def by blast
qed

text \<open>In an opened root directory the start depends on what the temporary buffer held before, as the name of the
  directory is copied without a zero byte: after a longer path the result begins with two slashes.\<close>
theorem root_directory_doubles_slash:
  assumes "dirs a = Some d" "wd_str d = [47]" and "tb_ptr b = Some m" "tb_len b = int (length m)" "3 * PATH_MAX \<le> length m"
    and "m ! 1 \<noteq> 0" and "clean [c]" "c \<noteq> [46]" "c \<noteq> [46, 46]" "length c + 4 < PATH_MAX" and "rl (47 # 47 # c) = Inl EINVAL"
  shows "\<exists>b'. eio__realpath rl dirs cwd ch b (Wd a) (Some c) = Some (Inr (length c + 2), b') \<and>
    take (length c + 2) (the (tb_ptr b')) = 47 # 47 # c"
proof -
  have c: "c \<noteq> []" "47 \<notin> set c" "0 \<notin> set c" using assms(7) by simp_all
  define m1 where "m1 = 47 # drop 1 m"
  have len: "length m1 = length m" "3 * PATH_MAX \<le> length m1" using assms(5) by (simp_all add: m1_def PATH_MAX_def)
  have "mem_copy m 0 [47] 0 1 = Some m1" using assms(5) by (simp add: mem_copy_def m1_def PATH_MAX_def)
  moreover have "m1 ! 1 \<noteq> 0" using assms(5,6) by (simp add: m1_def PATH_MAX_def)
  ultimately have start: "start_dir (Wd a) dirs cwd m = Some (Inr 1, m1)" using assms(1,2) by (simp add: start_dir_def)
  have p: "points c m1 (Arg 0) c" using c(3) by (simp add: points_def)
  obtain m2 where m2: "add_name c m1 1 (Arg 0) (length c) = Some m2" "take (length (47 # 47 # c) + 1) m2 = (47 # 47 # c) @ [0]"
    "drop (2 * PATH_MAX) m2 = drop (2 * PATH_MAX) m1"
    using add_name_ok [OF p, of "length c" 1] len assms(10) by (auto simp: m1_def numeral_eq_Suc)
  have str: "c_strlen m2 = Some (length c + 2)" "take (length c + 2) m2 = 47 # 47 # c"
  proof -
    have "0 \<notin> set (47 # 47 # c)" using c(3) by simp
    from c_strlen_take [OF m2(2) this] show "c_strlen m2 = Some (length c + 2)" "take (length c + 2) m2 = 47 # 47 # c"
      by (simp_all only: list.size add_2_eq_Suc' add_Suc_right add_0_right One_nat_def)
  qed
  have tw: "c = takeWhile (\<lambda>c. c \<noteq> 47) c" using c(2) by (metis (mono_tags, lifting) takeWhile_eq_all_conv)
  have "points c m2 (plus_ptr (Arg 0) (length c)) []"
    using points_plus [OF points_mem [OF p m2(3)], of "length c"] by simp
  note last = walk_empty [OF this]
  have "walk rl c 1 (Arg 0) 32 m1 = Some (Inr (length c + 2), m2)"
    using assms(8,9,10,11) m2(1) str last by (simp add: walk_name [OF p tw c(1)] Let_def)
  moreover have "\<not> tb_len b < int (PATH_MAX * 3)" using assms(4,5) by simp
  ultimately show ?thesis using start c(1,2) assms(3) str
    by (cases c) (auto simp: eio__realpath_def etp_tmpbuf_get_def)
qed

theorem root_directory_doubles_slash_witness:
  "\<exists>b'. eio__realpath demo_links [3 \<mapsto> \<lparr>wd_fd = 5, wd_str = [47]\<rparr>] (Inr [47]) None
      \<lparr>tb_ptr = Some (replicate 12288 120), tb_len = 12288\<rparr> (Wd 3) (Some [98]) = Some (Inr 3, b') \<and>
    take 3 (the (tb_ptr b')) = [47, 47, 98]"
  using root_directory_doubles_slash [of "[3 \<mapsto> \<lparr>wd_fd = 5, wd_str = [47]\<rparr>]" 3 "\<lparr>wd_fd = 5, wd_str = [47]\<rparr>"
      "\<lparr>tb_ptr = Some (replicate 12288 120), tb_len = 12288\<rparr>" "replicate 12288 120" "[98]" demo_links "Inr [47]" None]
  by (simp add: demo_links_def PATH_MAX_def nth_replicate) (simp only: numeral_3_eq_3)

end
