(* ===== verification/Eio_Calls.thy ===== *)
theory Eio_Calls
  imports Etp_Pool
begin

text \<open>
  The functions of \<open>src/libeio/eio.c\<close> that the client calls: one for each kind of request, which
  allocate it, copy the file names, fill in the arguments and submit it to the pool, and the ones
  that pass on to the pool. The macros \<open>REQ\<close>, \<open>PATH\<close> and \<open>SEND\<close> are functions that take what
  follows them; where the allocations are placed (0: they fail) is an argument. Strings are without
  their final zero byte; arguments are within the range of their types.
\<close>

section \<open>The macros\<close>

record alloc =
  calloc_at :: addr
  path_at :: addr
  new_path_at :: addr

record api =
  api_pool :: etp_state
  api_strs :: "addr \<rightharpoonup> u8 list"

type_synonym outcome = "(addr \<times> api) option"

text \<open>\<open>eio_api_destroy\<close> is the only destructor the library sets; it is callback 1.\<close>

definition zero_req :: eio_req where
  "zero_req = \<lparr>rnext = 0, rwd = EIO_CWD, rresult = 0, roffs = 0, rsize = 0, ptr1 = 0, ptr2 = 0, nv1 = 0, nv2 = 0,
     int1 = 0, int2 = 0, int3 = 0, errorno = 0, rflags = 0, rtype = EIO_CUSTOM, pri = 0, cancelled = False, rdata = 0,
     finish_cb = 0, destroy_cb = 0, feed_cb = 0, grp = 0, grp_prev = 0, grp_next = 0, grp_first = 0\<rparr>"

definition REQ :: "alloc \<Rightarrow> req_type \<Rightarrow> int \<Rightarrow> nat \<Rightarrow> addr \<Rightarrow> (eio_req \<Rightarrow> api \<Rightarrow> outcome) \<Rightarrow> api \<Rightarrow> outcome" where
  "REQ al t prio cb data k s =
     (if calloc_at al = 0 then Some (0, s)
      else k (zero_req\<lparr>rtype := t, pri := word_of_int prio, finish_cb := cb, rdata := data, destroy_cb := 1\<rparr>) s)"

definition PATH :: "alloc \<Rightarrow> u8 list \<Rightarrow> (eio_req \<Rightarrow> api \<Rightarrow> outcome) \<Rightarrow> eio_req \<Rightarrow> api \<Rightarrow> outcome" where
  "PATH al path k r s =
     (let r = r\<lparr>rflags := rflags r OR EIO_FLAG_PTR1_FREE, ptr1 := path_at al\<rparr>
      in if path_at al = 0 then Some (0, s)
         else k r (s\<lparr>api_strs := (api_strs s)(path_at al \<mapsto> path)\<rparr>))"

definition eio_submit :: "addr \<Rightarrow> api \<Rightarrow> api option" where
  "eio_submit req s = map_option (\<lambda>p. s\<lparr>api_pool := p\<rparr>) (etp_submit req (api_pool s))"

definition SEND :: "alloc \<Rightarrow> eio_req \<Rightarrow> api \<Rightarrow> outcome" where
  "SEND al r s =
     (let s = s\<lparr>api_pool := (api_pool s)\<lparr>reqs := (reqs (api_pool s))(calloc_at al \<mapsto> r)\<rparr>\<rparr>
      in map_option (\<lambda>s. (calloc_at al, s)) (eio_submit (calloc_at al) s))"

section \<open>Requests\<close>

definition eio_wd_open :: "alloc \<Rightarrow> u8 list \<Rightarrow> int \<Rightarrow> nat \<Rightarrow> addr \<Rightarrow> api \<Rightarrow> outcome" where
  "eio_wd_open al path prio cb data = REQ al EIO_WD_OPEN prio cb data (PATH al path (SEND al))"

definition eio_wd_close :: "alloc \<Rightarrow> eio_wd \<Rightarrow> int \<Rightarrow> nat \<Rightarrow> addr \<Rightarrow> api \<Rightarrow> outcome" where
  "eio_wd_close al wd prio cb data = REQ al EIO_WD_CLOSE prio cb data (\<lambda>r. SEND al (r\<lparr>rwd := wd\<rparr>))"

definition eio_nop :: "alloc \<Rightarrow> int \<Rightarrow> nat \<Rightarrow> addr \<Rightarrow> api \<Rightarrow> outcome" where
  "eio_nop al prio cb data = REQ al EIO_NOP prio cb data (SEND al)"

definition eio_busy :: "alloc \<Rightarrow> rat \<Rightarrow> int \<Rightarrow> nat \<Rightarrow> addr \<Rightarrow> api \<Rightarrow> outcome" where
  "eio_busy al delay prio cb data = REQ al EIO_BUSY prio cb data (\<lambda>r. SEND al (r\<lparr>nv1 := delay\<rparr>))"

definition eio_sync :: "alloc \<Rightarrow> int \<Rightarrow> nat \<Rightarrow> addr \<Rightarrow> api \<Rightarrow> outcome" where
  "eio_sync al prio cb data = REQ al EIO_SYNC prio cb data (SEND al)"

definition eio_fsync :: "alloc \<Rightarrow> int \<Rightarrow> int \<Rightarrow> nat \<Rightarrow> addr \<Rightarrow> api \<Rightarrow> outcome" where
  "eio_fsync al fd prio cb data = REQ al EIO_FSYNC prio cb data (\<lambda>r. SEND al (r\<lparr>int1 := fd\<rparr>))"

definition eio_msync :: "alloc \<Rightarrow> addr \<Rightarrow> u64 \<Rightarrow> int \<Rightarrow> int \<Rightarrow> nat \<Rightarrow> addr \<Rightarrow> api \<Rightarrow> outcome" where
  "eio_msync al mem len flags prio cb data = REQ al EIO_MSYNC prio cb data (\<lambda>r. SEND al (r\<lparr>ptr2 := mem, rsize := len, int1 := flags\<rparr>))"

definition eio_fdatasync :: "alloc \<Rightarrow> int \<Rightarrow> int \<Rightarrow> nat \<Rightarrow> addr \<Rightarrow> api \<Rightarrow> outcome" where
  "eio_fdatasync al fd prio cb data = REQ al EIO_FDATASYNC prio cb data (\<lambda>r. SEND al (r\<lparr>int1 := fd\<rparr>))"

definition eio_syncfs :: "alloc \<Rightarrow> int \<Rightarrow> int \<Rightarrow> nat \<Rightarrow> addr \<Rightarrow> api \<Rightarrow> outcome" where
  "eio_syncfs al fd prio cb data = REQ al EIO_SYNCFS prio cb data (\<lambda>r. SEND al (r\<lparr>int1 := fd\<rparr>))"

definition eio_sync_file_range :: "alloc \<Rightarrow> int \<Rightarrow> int \<Rightarrow> u64 \<Rightarrow> int \<Rightarrow> int \<Rightarrow> nat \<Rightarrow> addr \<Rightarrow> api \<Rightarrow> outcome" where
  "eio_sync_file_range al fd offset nbytes flags prio cb data = REQ al EIO_SYNC_FILE_RANGE prio cb data (\<lambda>r. SEND al (r\<lparr>int1 := fd, roffs := offset, rsize := nbytes, int2 := flags\<rparr>))"

definition eio_mtouch :: "alloc \<Rightarrow> addr \<Rightarrow> u64 \<Rightarrow> int \<Rightarrow> int \<Rightarrow> nat \<Rightarrow> addr \<Rightarrow> api \<Rightarrow> outcome" where
  "eio_mtouch al mem len flags prio cb data = REQ al EIO_MTOUCH prio cb data (\<lambda>r. SEND al (r\<lparr>ptr2 := mem, rsize := len, int1 := flags\<rparr>))"

definition eio_mlock :: "alloc \<Rightarrow> addr \<Rightarrow> u64 \<Rightarrow> int \<Rightarrow> nat \<Rightarrow> addr \<Rightarrow> api \<Rightarrow> outcome" where
  "eio_mlock al mem len prio cb data = REQ al EIO_MLOCK prio cb data (\<lambda>r. SEND al (r\<lparr>ptr2 := mem, rsize := len\<rparr>))"

definition eio_mlockall :: "alloc \<Rightarrow> int \<Rightarrow> int \<Rightarrow> nat \<Rightarrow> addr \<Rightarrow> api \<Rightarrow> outcome" where
  "eio_mlockall al flags prio cb data = REQ al EIO_MLOCKALL prio cb data (\<lambda>r. SEND al (r\<lparr>int1 := flags\<rparr>))"

definition eio_fallocate :: "alloc \<Rightarrow> int \<Rightarrow> int \<Rightarrow> int \<Rightarrow> u64 \<Rightarrow> int \<Rightarrow> nat \<Rightarrow> addr \<Rightarrow> api \<Rightarrow> outcome" where
  "eio_fallocate al fd mode offset len prio cb data = REQ al EIO_FALLOCATE prio cb data (\<lambda>r. SEND al (r\<lparr>int1 := fd, int2 := mode, roffs := offset, rsize := len\<rparr>))"

definition eio_close :: "alloc \<Rightarrow> int \<Rightarrow> int \<Rightarrow> nat \<Rightarrow> addr \<Rightarrow> api \<Rightarrow> outcome" where
  "eio_close al fd prio cb data = REQ al EIO_CLOSE prio cb data (\<lambda>r. SEND al (r\<lparr>int1 := fd\<rparr>))"

definition eio_readahead :: "alloc \<Rightarrow> int \<Rightarrow> int \<Rightarrow> u64 \<Rightarrow> int \<Rightarrow> nat \<Rightarrow> addr \<Rightarrow> api \<Rightarrow> outcome" where
  "eio_readahead al fd offset len prio cb data = REQ al EIO_READAHEAD prio cb data (\<lambda>r. SEND al (r\<lparr>int1 := fd, roffs := offset, rsize := len\<rparr>))"

definition eio_seek :: "alloc \<Rightarrow> int \<Rightarrow> int \<Rightarrow> int \<Rightarrow> int \<Rightarrow> nat \<Rightarrow> addr \<Rightarrow> api \<Rightarrow> outcome" where
  "eio_seek al fd offset whence prio cb data = REQ al EIO_SEEK prio cb data (\<lambda>r. SEND al (r\<lparr>int1 := fd, roffs := offset, int2 := whence\<rparr>))"

definition eio_read :: "alloc \<Rightarrow> int \<Rightarrow> addr \<Rightarrow> u64 \<Rightarrow> int \<Rightarrow> int \<Rightarrow> nat \<Rightarrow> addr \<Rightarrow> api \<Rightarrow> outcome" where
  "eio_read al fd buf len offset prio cb data = REQ al EIO_READ prio cb data (\<lambda>r. SEND al (r\<lparr>int1 := fd, roffs := offset, rsize := len, ptr2 := buf\<rparr>))"

definition eio_write :: "alloc \<Rightarrow> int \<Rightarrow> addr \<Rightarrow> u64 \<Rightarrow> int \<Rightarrow> int \<Rightarrow> nat \<Rightarrow> addr \<Rightarrow> api \<Rightarrow> outcome" where
  "eio_write al fd buf len offset prio cb data = REQ al EIO_WRITE prio cb data (\<lambda>r. SEND al (r\<lparr>int1 := fd, roffs := offset, rsize := len, ptr2 := buf\<rparr>))"

definition eio_fstat :: "alloc \<Rightarrow> int \<Rightarrow> int \<Rightarrow> nat \<Rightarrow> addr \<Rightarrow> api \<Rightarrow> outcome" where
  "eio_fstat al fd prio cb data = REQ al EIO_FSTAT prio cb data (\<lambda>r. SEND al (r\<lparr>int1 := fd\<rparr>))"

definition eio_fstatvfs :: "alloc \<Rightarrow> int \<Rightarrow> int \<Rightarrow> nat \<Rightarrow> addr \<Rightarrow> api \<Rightarrow> outcome" where
  "eio_fstatvfs al fd prio cb data = REQ al EIO_FSTATVFS prio cb data (\<lambda>r. SEND al (r\<lparr>int1 := fd\<rparr>))"

definition eio_futime :: "alloc \<Rightarrow> int \<Rightarrow> rat \<Rightarrow> rat \<Rightarrow> int \<Rightarrow> nat \<Rightarrow> addr \<Rightarrow> api \<Rightarrow> outcome" where
  "eio_futime al fd atime mtime prio cb data = REQ al EIO_FUTIME prio cb data (\<lambda>r. SEND al (r\<lparr>int1 := fd, nv1 := atime, nv2 := mtime\<rparr>))"

definition eio_ftruncate :: "alloc \<Rightarrow> int \<Rightarrow> int \<Rightarrow> int \<Rightarrow> nat \<Rightarrow> addr \<Rightarrow> api \<Rightarrow> outcome" where
  "eio_ftruncate al fd offset prio cb data = REQ al EIO_FTRUNCATE prio cb data (\<lambda>r. SEND al (r\<lparr>int1 := fd, roffs := offset\<rparr>))"

definition eio_fchmod :: "alloc \<Rightarrow> int \<Rightarrow> int \<Rightarrow> int \<Rightarrow> nat \<Rightarrow> addr \<Rightarrow> api \<Rightarrow> outcome" where
  "eio_fchmod al fd mode prio cb data = REQ al EIO_FCHMOD prio cb data (\<lambda>r. SEND al (r\<lparr>int1 := fd, int2 := mode\<rparr>))"

definition eio_fchown :: "alloc \<Rightarrow> int \<Rightarrow> int \<Rightarrow> int \<Rightarrow> int \<Rightarrow> nat \<Rightarrow> addr \<Rightarrow> api \<Rightarrow> outcome" where
  "eio_fchown al fd uid gid prio cb data = REQ al EIO_FCHOWN prio cb data (\<lambda>r. SEND al (r\<lparr>int1 := fd, int2 := uid, int3 := gid\<rparr>))"

definition eio_dup2 :: "alloc \<Rightarrow> int \<Rightarrow> int \<Rightarrow> int \<Rightarrow> nat \<Rightarrow> addr \<Rightarrow> api \<Rightarrow> outcome" where
  "eio_dup2 al fd fd2 prio cb data = REQ al EIO_DUP2 prio cb data (\<lambda>r. SEND al (r\<lparr>int1 := fd, int2 := fd2\<rparr>))"

definition eio_sendfile :: "alloc \<Rightarrow> int \<Rightarrow> int \<Rightarrow> int \<Rightarrow> u64 \<Rightarrow> int \<Rightarrow> nat \<Rightarrow> addr \<Rightarrow> api \<Rightarrow> outcome" where
  "eio_sendfile al out_fd in_fd in_offset len prio cb data = REQ al EIO_SENDFILE prio cb data (\<lambda>r. SEND al (r\<lparr>int1 := out_fd, int2 := in_fd, roffs := in_offset, rsize := len\<rparr>))"

definition eio_open :: "alloc \<Rightarrow> u8 list \<Rightarrow> int \<Rightarrow> int \<Rightarrow> int \<Rightarrow> nat \<Rightarrow> addr \<Rightarrow> api \<Rightarrow> outcome" where
  "eio_open al path flags mode prio cb data = REQ al EIO_OPEN prio cb data (PATH al path (\<lambda>r. SEND al (r\<lparr>int1 := flags, int2 := mode\<rparr>)))"

definition eio_utime :: "alloc \<Rightarrow> u8 list \<Rightarrow> rat \<Rightarrow> rat \<Rightarrow> int \<Rightarrow> nat \<Rightarrow> addr \<Rightarrow> api \<Rightarrow> outcome" where
  "eio_utime al path atime mtime prio cb data = REQ al EIO_UTIME prio cb data (PATH al path (\<lambda>r. SEND al (r\<lparr>nv1 := atime, nv2 := mtime\<rparr>)))"

definition eio_truncate :: "alloc \<Rightarrow> u8 list \<Rightarrow> int \<Rightarrow> int \<Rightarrow> nat \<Rightarrow> addr \<Rightarrow> api \<Rightarrow> outcome" where
  "eio_truncate al path offset prio cb data = REQ al EIO_TRUNCATE prio cb data (PATH al path (\<lambda>r. SEND al (r\<lparr>roffs := offset\<rparr>)))"

definition eio_chown :: "alloc \<Rightarrow> u8 list \<Rightarrow> int \<Rightarrow> int \<Rightarrow> int \<Rightarrow> nat \<Rightarrow> addr \<Rightarrow> api \<Rightarrow> outcome" where
  "eio_chown al path uid gid prio cb data = REQ al EIO_CHOWN prio cb data (PATH al path (\<lambda>r. SEND al (r\<lparr>int2 := uid, int3 := gid\<rparr>)))"

definition eio_chmod :: "alloc \<Rightarrow> u8 list \<Rightarrow> int \<Rightarrow> int \<Rightarrow> nat \<Rightarrow> addr \<Rightarrow> api \<Rightarrow> outcome" where
  "eio_chmod al path mode prio cb data = REQ al EIO_CHMOD prio cb data (PATH al path (\<lambda>r. SEND al (r\<lparr>int2 := mode\<rparr>)))"

definition eio_mkdir :: "alloc \<Rightarrow> u8 list \<Rightarrow> int \<Rightarrow> int \<Rightarrow> nat \<Rightarrow> addr \<Rightarrow> api \<Rightarrow> outcome" where
  "eio_mkdir al path mode prio cb data = REQ al EIO_MKDIR prio cb data (PATH al path (\<lambda>r. SEND al (r\<lparr>int2 := mode\<rparr>)))"

definition eio__1path :: "alloc \<Rightarrow> req_type \<Rightarrow> u8 list \<Rightarrow> int \<Rightarrow> nat \<Rightarrow> addr \<Rightarrow> api \<Rightarrow> outcome" where
  "eio__1path al t path prio cb data = REQ al t prio cb data (PATH al path (SEND al))"

definition eio_readlink :: "alloc \<Rightarrow> u8 list \<Rightarrow> int \<Rightarrow> nat \<Rightarrow> addr \<Rightarrow> api \<Rightarrow> outcome" where
  "eio_readlink al path = eio__1path al EIO_READLINK path"

definition eio_realpath :: "alloc \<Rightarrow> u8 list \<Rightarrow> int \<Rightarrow> nat \<Rightarrow> addr \<Rightarrow> api \<Rightarrow> outcome" where
  "eio_realpath al path = eio__1path al EIO_REALPATH path"

definition eio_stat :: "alloc \<Rightarrow> u8 list \<Rightarrow> int \<Rightarrow> nat \<Rightarrow> addr \<Rightarrow> api \<Rightarrow> outcome" where
  "eio_stat al path = eio__1path al EIO_STAT path"

definition eio_lstat :: "alloc \<Rightarrow> u8 list \<Rightarrow> int \<Rightarrow> nat \<Rightarrow> addr \<Rightarrow> api \<Rightarrow> outcome" where
  "eio_lstat al path = eio__1path al EIO_LSTAT path"

definition eio_statvfs :: "alloc \<Rightarrow> u8 list \<Rightarrow> int \<Rightarrow> nat \<Rightarrow> addr \<Rightarrow> api \<Rightarrow> outcome" where
  "eio_statvfs al path = eio__1path al EIO_STATVFS path"

definition eio_unlink :: "alloc \<Rightarrow> u8 list \<Rightarrow> int \<Rightarrow> nat \<Rightarrow> addr \<Rightarrow> api \<Rightarrow> outcome" where
  "eio_unlink al path = eio__1path al EIO_UNLINK path"

definition eio_rmdir :: "alloc \<Rightarrow> u8 list \<Rightarrow> int \<Rightarrow> nat \<Rightarrow> addr \<Rightarrow> api \<Rightarrow> outcome" where
  "eio_rmdir al path = eio__1path al EIO_RMDIR path"

definition eio_readdir :: "alloc \<Rightarrow> u8 list \<Rightarrow> int \<Rightarrow> int \<Rightarrow> nat \<Rightarrow> addr \<Rightarrow> api \<Rightarrow> outcome" where
  "eio_readdir al path flags prio cb data = REQ al EIO_READDIR prio cb data (PATH al path (\<lambda>r. SEND al (r\<lparr>int1 := flags\<rparr>)))"

definition eio_mknod :: "alloc \<Rightarrow> u8 list \<Rightarrow> int \<Rightarrow> int \<Rightarrow> int \<Rightarrow> nat \<Rightarrow> addr \<Rightarrow> api \<Rightarrow> outcome" where
  "eio_mknod al path mode dev prio cb data = REQ al EIO_MKNOD prio cb data (PATH al path (\<lambda>r. SEND al (r\<lparr>int2 := mode, roffs := dev\<rparr>)))"

text \<open>When the second string cannot be copied the request is freed, but not the first string.\<close>

definition eio__2path :: "alloc \<Rightarrow> req_type \<Rightarrow> u8 list \<Rightarrow> u8 list \<Rightarrow> int \<Rightarrow> nat \<Rightarrow> addr \<Rightarrow> api \<Rightarrow> outcome" where
  "eio__2path al t path new_path prio cb data = REQ al t prio cb data (PATH al path (\<lambda>r s.
     let r = r\<lparr>rflags := rflags r OR EIO_FLAG_PTR2_FREE, ptr2 := new_path_at al\<rparr>
     in if new_path_at al = 0 then Some (0, s)
        else SEND al r (s\<lparr>api_strs := (api_strs s)(new_path_at al \<mapsto> new_path)\<rparr>)))"

definition eio_link :: "alloc \<Rightarrow> u8 list \<Rightarrow> u8 list \<Rightarrow> int \<Rightarrow> nat \<Rightarrow> addr \<Rightarrow> api \<Rightarrow> outcome" where
  "eio_link al path new_path = eio__2path al EIO_LINK path new_path"

definition eio_symlink :: "alloc \<Rightarrow> u8 list \<Rightarrow> u8 list \<Rightarrow> int \<Rightarrow> nat \<Rightarrow> addr \<Rightarrow> api \<Rightarrow> outcome" where
  "eio_symlink al path new_path = eio__2path al EIO_SYMLINK path new_path"

definition eio_rename :: "alloc \<Rightarrow> u8 list \<Rightarrow> u8 list \<Rightarrow> int \<Rightarrow> nat \<Rightarrow> addr \<Rightarrow> api \<Rightarrow> outcome" where
  "eio_rename al path new_path = eio__2path al EIO_RENAME path new_path"

definition eio_custom :: "alloc \<Rightarrow> nat \<Rightarrow> int \<Rightarrow> nat \<Rightarrow> addr \<Rightarrow> api \<Rightarrow> outcome" where
  "eio_custom al execute prio cb data = REQ al EIO_CUSTOM prio cb data (\<lambda>r. SEND al (r\<lparr>feed_cb := execute\<rparr>))"

definition eio_grp :: "alloc \<Rightarrow> nat \<Rightarrow> addr \<Rightarrow> api \<Rightarrow> outcome" where
  "eio_grp al cb data = REQ al EIO_GROUP ETP_PRI_MAX cb data (SEND al)"

section \<open>Passed on to the pool\<close>

definition eio_cancel :: "nat \<Rightarrow> addr \<Rightarrow> api \<Rightarrow> api option" where
  "eio_cancel fuel req s =
     map_option (\<lambda>h. s\<lparr>api_pool := (api_pool s)\<lparr>reqs := h\<rparr>\<rparr>) (etp_cancel fuel req (reqs (api_pool s)))"

definition eio_grp_cancel :: "nat \<Rightarrow> addr \<Rightarrow> api \<Rightarrow> api option" where
  "eio_grp_cancel fuel gr s = do {
     g \<leftarrow> reqs (api_pool s) gr;
     map_option (\<lambda>h. s\<lparr>api_pool := (api_pool s)\<lparr>reqs := h\<rparr>\<rparr>) (etp_grp_cancel fuel (grp_first g) (reqs (api_pool s)))
   }"

definition eio_nreqs :: "api \<Rightarrow> u32" where "eio_nreqs s = etp_nreqs (api_pool s)"
definition eio_nready :: "api \<Rightarrow> u32" where "eio_nready s = etp_nready (api_pool s)"
definition eio_npending :: "api \<Rightarrow> u32" where "eio_npending s = etp_npending (api_pool s)"
definition eio_nthreads :: "api \<Rightarrow> u32" where "eio_nthreads s = etp_nthreads (api_pool s)"

definition eio_set_max_poll_time :: "(rat \<Rightarrow> rat) \<Rightarrow> rat option \<Rightarrow> api \<Rightarrow> api option" where
  "eio_set_max_poll_time rnd n s = map_option (\<lambda>p. s\<lparr>api_pool := p\<rparr>) (etp_set_max_poll_time rnd n (api_pool s))"

definition eio_set_max_poll_reqs :: "u32 \<Rightarrow> api \<Rightarrow> api" where
  "eio_set_max_poll_reqs n s = s\<lparr>api_pool := etp_set_max_poll_reqs n (api_pool s)\<rparr>"

definition eio_set_max_idle :: "u32 \<Rightarrow> api \<Rightarrow> api" where
  "eio_set_max_idle n s = s\<lparr>api_pool := etp_set_max_idle n (api_pool s)\<rparr>"

definition eio_set_idle_timeout :: "u32 \<Rightarrow> api \<Rightarrow> api" where
  "eio_set_idle_timeout n s = s\<lparr>api_pool := etp_set_idle_timeout n (api_pool s)\<rparr>"

definition eio_set_min_parallel :: "u32 \<Rightarrow> api \<Rightarrow> api" where
  "eio_set_min_parallel n s = s\<lparr>api_pool := etp_set_min_parallel n (api_pool s)\<rparr>"

definition eio_set_max_parallel :: "u32 \<Rightarrow> api \<Rightarrow> api" where
  "eio_set_max_parallel n s = s\<lparr>api_pool := etp_set_max_parallel n (api_pool s)\<rparr>"

definition eio_poll :: "timeval \<Rightarrow> api \<Rightarrow> api" where
  "eio_poll now s = s\<lparr>api_pool := etp_poll now (api_pool s)\<rparr>"

lemmas wrapper_defs = eio_wd_open_def eio_wd_close_def eio_nop_def eio_busy_def eio_sync_def eio_fsync_def eio_msync_def eio_fdatasync_def eio_syncfs_def eio_sync_file_range_def eio_mtouch_def eio_mlock_def eio_mlockall_def eio_fallocate_def eio_close_def eio_readahead_def eio_seek_def eio_read_def eio_write_def eio_fstat_def eio_fstatvfs_def eio_futime_def eio_ftruncate_def eio_fchmod_def eio_fchown_def eio_dup2_def eio_sendfile_def eio_open_def eio_utime_def eio_truncate_def eio_chown_def eio_chmod_def eio_mkdir_def eio_readlink_def eio_realpath_def eio_stat_def eio_lstat_def eio_statvfs_def eio_unlink_def eio_rmdir_def eio_readdir_def eio_mknod_def eio_link_def eio_symlink_def eio_rename_def eio_custom_def eio_grp_def
  eio__1path_def eio__2path_def

section \<open>What is submitted\<close>

lemma reqq_push_heap:
  assumes "reqq_push q a h = Some (n, q', h')" and "h a = Some r"
  shows "\<exists>x. h' a = Some (r\<lparr>rnext := x\<rparr>)"
proof -
  define h1 where "h1 = h(a \<mapsto> r\<lparr>rnext := 0\<rparr>)"
  obtain p where p: "pri_index r = Some p" using assms by (cases "pri_index r") (simp_all add: reqq_push_def)
  show ?thesis
  proof (cases "qe q ! p = 0")
    case True
    then have "h' = h1" using assms p by (simp add: reqq_push_def h1_def)
    then show ?thesis by (auto simp: h1_def)
  next
    case False
    have e: "reqq_push q a h = do {
        t \<leftarrow> h1 (qe q ! p);
        Some (qsize q, q\<lparr>qe := (qe q)[p := a], qsize := qsize q + 1\<rparr>, h1(qe q ! p \<mapsto> t\<lparr>rnext := a\<rparr>))
      }" unfolding reqq_push_def assms(2) bind.bind_lunit p Let_def h1_def [symmetric] using False by (cases "h1 (qe q ! p)") simp_all
    then obtain t where t: "h1 (qe q ! p) = Some t" using assms(1) by (cases "h1 (qe q ! p)") simp_all
    have "h' = h1(qe q ! p \<mapsto> t\<lparr>rnext := a\<rparr>)" using assms(1) unfolding e t by simp
    then show ?thesis using t by (cases "qe q ! p = a") (auto simp: h1_def)
  qed
qed

text \<open>The requests that wait for a worker, by priority; the queue of a priority.\<close>

definition queued :: "api \<Rightarrow> addr list list \<Rightarrow> bool" where
  "queued s ls \<longleftrightarrow> reqq_repr (reqs (api_pool s)) (req_queue (pool (api_pool s))) ls"

definition slot :: "int \<Rightarrow> nat" where
  "slot prio = nat (sint (submit_pri (word_of_int prio)))"

lemma SEND_submits:
  assumes "queued s ls" and "calloc_at al \<noteq> 0" "calloc_at al \<notin> set (concat ls)" and "rtype r \<noteq> EIO_GROUP" "pri r = word_of_int prio"
  shows "\<exists>s' x y. SEND al r s = Some (calloc_at al, s') \<and> queued s' (queue_push (slot prio) (calloc_at al) ls) \<and>
    reqs (api_pool s') (calloc_at al) = Some (r\<lparr>pri := y, rnext := x\<rparr>) \<and> api_strs s' = api_strs s \<and>
    nreqs (pool (api_pool s')) = nreqs (pool (api_pool s)) + 1 \<and> nready (pool (api_pool s')) = nready (pool (api_pool s)) + 1 \<and>
    frames (api_pool s') = Submit_start # frames (api_pool s)"
proof -
  define p where "p = (api_pool s)\<lparr>reqs := (reqs (api_pool s))(calloc_at al \<mapsto> r)\<rparr>"
  define r' where "r' = r\<lparr>pri := submit_pri (pri r)\<rparr>"
  define h where "h = (reqs (api_pool s))(calloc_at al \<mapsto> r')"
  have send: "SEND al r s = map_option (\<lambda>p. (calloc_at al, s\<lparr>api_pool := p\<rparr>)) (etp_submit (calloc_at al) p)"
    unfolding SEND_def eio_submit_def p_def Let_def by (simp add: option.map_comp comp_def)
  have "reqq_repr h (req_queue (pool (api_pool s))) ls"
    using assms(1,3) unfolding queued_def h_def by (subst reqq_repr_cong) auto
  from reqq_push_ok [OF this _ assms(2,3), of r'] submit_pri_range [of "pri r"]
  obtain q h' where push: "reqq_push (req_queue (pool (api_pool s))) (calloc_at al) h = Some (int (length (concat ls)), q, h')"
    "reqq_repr h' q (queue_push (slot prio) (calloc_at al) ls)"
    by (auto simp: h_def r'_def slot_def assms(5))
  obtain x where "h' (calloc_at al) = Some (r'\<lparr>rnext := x\<rparr>)" using reqq_push_heap [OF push(1), of r'] by (auto simp: h_def)
  then show ?thesis using push assms(4) unfolding send
    by (simp add: etp_submit_def p_def r'_def [symmetric] h_def [symmetric] Let_def queued_def) (auto simp: r'_def)
qed

section \<open>Properties\<close>

text \<open>A request with two file names that cannot be copied both is not submitted, but the copy of the first name is
  never freed: 0 is returned, the pool is unchanged, and a string stays allocated that no request refers to.\<close>
theorem second_copy_leaks_first:
  assumes "calloc_at al \<noteq> 0" "path_at al \<noteq> 0" "new_path_at al = 0"
  shows "eio_rename al path new_path prio cb data s = Some (0, s\<lparr>api_strs := (api_strs s)(path_at al \<mapsto> path)\<rparr>) \<and>
    eio_link al path new_path prio cb data s = Some (0, s\<lparr>api_strs := (api_strs s)(path_at al \<mapsto> path)\<rparr>) \<and>
    eio_symlink al path new_path prio cb data s = Some (0, s\<lparr>api_strs := (api_strs s)(path_at al \<mapsto> path)\<rparr>)"
  using assms by (simp add: eio_rename_def eio_link_def eio_symlink_def eio__2path_def REQ_def PATH_def Let_def)

theorem second_copy_leaks_first_witness:
  "(\<lambda>(a, s). a = 0 \<and> api_strs s 7 = Some [97])
     (the (eio_rename \<lparr>calloc_at = 5, path_at = 7, new_path_at = 0\<rparr> [97] [98] 0 0 0 \<lparr>api_pool = etp_init 0 0, api_strs = Map.empty\<rparr>))"
  using second_copy_leaks_first [of "\<lparr>calloc_at = 5, path_at = 7, new_path_at = 0\<rparr>" "[97]" "[98]" 0 0 0
      "\<lparr>api_pool = etp_init 0 0, api_strs = Map.empty\<rparr>"] by simp

end
