(* ===== verification/Eio_Execute.thy ===== *)
theory Eio_Execute
  imports Eio_Realpath Eio_Calls
begin

text \<open>
  \<open>eio_execute\<close> of \<open>src/libeio/eio.c\<close>: a worker carries out a request, on a system with the
  \<open>*at\<close> functions. \<open>eio__scandir\<close> (see \<open>Scandir\<close>) and the function of a custom
  request are arguments; \<open>None\<close> is the fault.
\<close>

section \<open>The code\<close>

record externals =
  ext_tree :: tree
  ext_scandir :: "eio_req \<Rightarrow> io \<Rightarrow> (eio_req \<times> io) option"
  ext_custom :: "nat \<Rightarrow> eio_req \<Rightarrow> io \<Rightarrow> (eio_req \<times> io) option"
  ext_file :: "int \<Rightarrow> u8 list"

definition SIZEOF_STAT :: nat where "SIZEOF_STAT = 144"
definition SIZEOF_STATVFS :: nat where "SIZEOF_STATVFS = 112"
definition AT_SYMLINK_NOFOLLOW :: int where "AT_SYMLINK_NOFOLLOW = 0x100"
definition AT_REMOVEDIR :: int where "AT_REMOVEDIR = 0x200"

text \<open>The buffer for the result; without memory the \<open>switch\<close> is left.\<close>

definition ALLOC :: "nat \<Rightarrow> (eio_req \<Rightarrow> io \<Rightarrow> (eio_req \<times> io) option) \<Rightarrow> eio_req \<Rightarrow> io \<Rightarrow> (eio_req \<times> io) option" where
  "ALLOC len k req w =
     (if ptr2 req = 0 then
        (case sys (Malloc len) w of (a, w) \<Rightarrow>
           (let req = req\<lparr>rflags := rflags req OR EIO_FLAG_PTR2_FREE, ptr2 := nat a\<rparr>
            in if nat a = 0 then Some (req\<lparr>rresult := - 1\<rparr>, w\<lparr>kerrno := ENOMEM\<rparr>) else k req w))
      else k req w)"

definition gives :: "eio_req \<Rightarrow> int \<times> io \<Rightarrow> (eio_req \<times> io) option" where
  "gives req rw = (case rw of (r, w) \<Rightarrow> Some (req\<lparr>rresult := r\<rparr>, w))"

definition SINGLEDOT :: "addr \<Rightarrow> io \<Rightarrow> bool option" where
  "SINGLEDOT p w = map_option (\<lambda>s. s = [46]) (strs w p)"

text \<open>A directory in an integer member: 0 is the current one.\<close>

definition wd_of_long :: "int \<Rightarrow> eio_wd" where
  "wd_of_long i = (if i = 0 then EIO_CWD else if i = - 1 then EIO_INVALID_WD else Wd (nat i))"

text \<open>A time as seconds and a fraction in units, both truncated towards 0.\<close>

definition split_time :: "int \<Rightarrow> rat \<Rightarrow> int \<times> int" where
  "split_time units t = (let sec = (if t < 0 then - \<lfloor>- t\<rfloor> else \<lfloor>t\<rfloor>); frac = (t - of_int sec) * of_int units
     in (sec, if frac < 0 then - \<lfloor>- frac\<rfloor> else \<lfloor>frac\<rfloor>))"

definition exec_times :: "eio_req \<Rightarrow> ((int \<times> int) \<times> (int \<times> int)) option" where
  "exec_times req = (if nv1 req \<noteq> - 1 \<or> nv2 req \<noteq> - 1 then Some (split_time 1000000000 (nv1 req), split_time 1000000000 (nv2 req)) else None)"

text \<open>The requests that work on a directory and a file name in it.\<close>

definition exec_path :: "dirfd \<Rightarrow> eio_req \<Rightarrow> io \<Rightarrow> (eio_req \<times> io) option" where
  "exec_path dirfd req w =
     (let path = Path (ptr1 req) in case rtype req of
        EIO_STAT \<Rightarrow> ALLOC SIZEOF_STAT (\<lambda>req w. gives req (sys (Fstatat dirfd path (ptr2 req) 0) w)) req w
      | EIO_LSTAT \<Rightarrow> ALLOC SIZEOF_STAT (\<lambda>req w. gives req (sys (Fstatat dirfd path (ptr2 req) AT_SYMLINK_NOFOLLOW) w)) req w
      | EIO_CHOWN \<Rightarrow> gives req (sys (Fchownat dirfd path (int2 req) (int3 req)) w)
      | EIO_CHMOD \<Rightarrow> gives req (sys (Fchmodat dirfd path (int2 req)) w)
      | EIO_TRUNCATE \<Rightarrow> gives req (eio__truncateat dirfd (ptr1 req) (roffs req) w)
      | EIO_OPEN \<Rightarrow> gives req (sys (Openat dirfd path (int1 req) (int2 req)) w)
      | EIO_UNLINK \<Rightarrow> gives req (sys (Unlinkat dirfd path 0) w)
      | EIO_RMDIR \<Rightarrow> do {
          dot \<leftarrow> (if rwd req = EIO_CWD then Some False else SINGLEDOT (ptr1 req) w);
          gives req (case rwd req of
              Wd a \<Rightarrow> if dot then sys (Rmdir (Wd_str a)) w else sys (Unlinkat dirfd path AT_REMOVEDIR) w
            | _ \<Rightarrow> sys (Unlinkat dirfd path AT_REMOVEDIR) w)
        }
      | EIO_MKDIR \<Rightarrow> gives req (sys (Mkdirat dirfd path (int2 req)) w)
      | EIO_RENAME \<Rightarrow> do {
          dot \<leftarrow> (if rwd req = EIO_CWD then Some False else SINGLEDOT (ptr1 req) w);
          (case (rwd req, dot) of
              (Wd a, True) \<Rightarrow> gives req (sys (Rename (Wd_str a) (Path (ptr2 req))) w)
            | _ \<Rightarrow> do {
                to \<leftarrow> WD2FD (wd_of_long (int3 req)) w;
                gives req (sys (Renameat dirfd path to (Path (ptr2 req))) w)
              })
        }
      | EIO_LINK \<Rightarrow> do {
          to \<leftarrow> WD2FD (wd_of_long (int3 req)) w;
          gives req (sys (Linkat dirfd path to (Path (ptr2 req))) w)
        }
      | EIO_SYMLINK \<Rightarrow> gives req (sys (Symlinkat path dirfd (Path (ptr2 req))) w)
      | EIO_MKNOD \<Rightarrow> gives req (sys (Mknodat dirfd path (int2 req) (roffs req)) w)
      | EIO_READLINK \<Rightarrow> ALLOC PATH_MAX (\<lambda>req w. gives req (sys (Readlinkat dirfd path (ptr2 req) PATH_MAX) w)) req w
      | EIO_STATVFS \<Rightarrow> ALLOC SIZEOF_STATVFS (\<lambda>req w. gives req (eio__statvfsat dirfd (ptr1 req) (ptr2 req) w)) req w
      | EIO_UTIME \<Rightarrow> gives req (sys (Utimensat dirfd path (exec_times req)) w)
      | _ \<Rightarrow> None)"

text \<open>The last requests of the \<open>switch\<close>; \<open>cs\<close> is for \<open>eio__mtouch\<close>.\<close>

definition exec_rest :: "externals \<Rightarrow> bool list \<Rightarrow> eio_req \<Rightarrow> io \<Rightarrow> (eio_req \<times> io) option" where
  "exec_rest ext cs req w =
     (let fd = int1 req in case rtype req of
        EIO_REALPATH \<Rightarrow> do {
          (found, w) \<leftarrow> realpath_at (ext_tree ext) (rwd req) (ptr1 req) w;
          (case found of
             None \<Rightarrow> Some (req\<lparr>rresult := - 1\<rparr>, w)
           | Some str \<Rightarrow> ALLOC (length str) (\<lambda>req w. Some (req, w\<lparr>strs := (strs w)(ptr2 req \<mapsto> str)\<rparr>))
               (req\<lparr>rresult := int (length str)\<rparr>) w)
        }
      | EIO_FSTAT \<Rightarrow> ALLOC SIZEOF_STAT (\<lambda>req w. gives req (sys (Fstat fd (ptr2 req)) w)) req w
      | EIO_FSTATVFS \<Rightarrow> ALLOC SIZEOF_STATVFS (\<lambda>req w. gives req (sys (Fstatvfs fd (ptr2 req)) w)) req w
      | EIO_FCHOWN \<Rightarrow> gives req (sys (Fchown fd (int2 req) (int3 req)) w)
      | EIO_FCHMOD \<Rightarrow> gives req (sys (Fchmod fd (int2 req)) w)
      | EIO_FTRUNCATE \<Rightarrow> gives req (sys (Ftruncate fd (roffs req)) w)
      | EIO_CLOSE \<Rightarrow> gives req (sys (Close fd) w)
      | EIO_DUP2 \<Rightarrow> gives req (sys (Dup2 fd (int2 req)) w)
      | EIO_SYNC \<Rightarrow> Some (req\<lparr>rresult := 0\<rparr>, snd (sys Sync w))
      | EIO_FSYNC \<Rightarrow> gives req (sys (Fsync fd) w)
      | EIO_FDATASYNC \<Rightarrow> gives req (sys (Fdatasync fd) w)
      | EIO_SYNCFS \<Rightarrow> gives req (eio__syncfs fd w)
      | EIO_SYNC_FILE_RANGE \<Rightarrow> gives req (eio__sync_file_range fd (roffs req) (rsize req) (int2 req) w)
      | EIO_MSYNC \<Rightarrow> gives req (eio__msync (of_nat (ptr2 req)) (rsize req) (word_of_int fd) w)
      | EIO_MTOUCH \<Rightarrow> gives req (eio__mtouch req cs w)
      | EIO_MLOCK \<Rightarrow> gives req (eio__mlock (of_nat (ptr2 req)) (rsize req) w)
      | EIO_MLOCKALL \<Rightarrow> gives req (eio__mlockall fd w)
      | EIO_FALLOCATE \<Rightarrow> gives req (eio__fallocate fd (int2 req) (roffs req) (rsize req) w)
      | EIO_READDIR \<Rightarrow> ext_scandir ext req w
      | EIO_BUSY \<Rightarrow> (case split_time 1000000 (nv1 req) of (sec, usec) \<Rightarrow> gives req (sys (Select sec usec) w))
      | EIO_NOP \<Rightarrow> Some (req\<lparr>rresult := 0\<rparr>, w)
      | EIO_CUSTOM \<Rightarrow> ext_custom ext (feed_cb req) req w
      | _ \<Rightarrow> Some (req\<lparr>rresult := - 1\<rparr>, w\<lparr>kerrno := ENOSYS\<rparr>))"

text \<open>The first ones.\<close>

definition exec_other :: "externals \<Rightarrow> bool list \<Rightarrow> eio_req \<Rightarrow> io \<Rightarrow> (eio_req \<times> io) option" where
  "exec_other ext cs req w =
     (let fd = int1 req in case rtype req of
        EIO_WD_OPEN \<Rightarrow> do {
          (wd, w) \<leftarrow> eio__wd_open_sync (ext_tree ext) (rwd req) (ptr1 req) w;
          Some (req\<lparr>rwd := wd, rresult := (if wd = EIO_INVALID_WD then - 1 else 0)\<rparr>, w)
        }
      | EIO_WD_CLOSE \<Rightarrow> do {
          w \<leftarrow> eio_wd_close_sync (rwd req) w;
          Some (req\<lparr>rresult := 0\<rparr>, w)
        }
      | EIO_SEEK \<Rightarrow> Some (eio__lseek req w)
      | EIO_READ \<Rightarrow> ALLOC (unat (rsize req)) (\<lambda>req w. gives req (
          if 0 \<le> roffs req then sys (Pread fd (ptr2 req) (rsize req) (roffs req)) w else sys (Read fd (ptr2 req) (rsize req)) w)) req w
      | EIO_WRITE \<Rightarrow> gives req (
          if 0 \<le> roffs req then sys (Pwrite fd (ptr2 req) (rsize req) (roffs req)) w else sys (Write fd (ptr2 req) (rsize req)) w)
      | EIO_READAHEAD \<Rightarrow> gives req (sys (Readahead fd (roffs req) (rsize req)) w)
      | EIO_SENDFILE \<Rightarrow> (case eio__sendfile (ext_file ext (int2 req)) fd (int2 req) (roffs req) (unat (rsize req)) [] w of
          (r, _, w) \<Rightarrow> gives req (r, w))
      | EIO_FUTIME \<Rightarrow> gives req (sys (Futimens fd (exec_times req)) w)
      | _ \<Rightarrow> exec_rest ext cs req w)"

definition from_open :: "req_type \<Rightarrow> bool" where
  "from_open t \<longleftrightarrow> t \<in> {EIO_OPEN, EIO_STAT, EIO_LSTAT, EIO_STATVFS, EIO_TRUNCATE, EIO_UTIME, EIO_CHMOD, EIO_CHOWN,
     EIO_UNLINK, EIO_RMDIR, EIO_MKDIR, EIO_RENAME, EIO_MKNOD, EIO_LINK, EIO_SYMLINK, EIO_READLINK}"

definition eio_execute :: "externals \<Rightarrow> bool list \<Rightarrow> eio_req \<Rightarrow> io \<Rightarrow> (eio_req \<times> io) option" where
  "eio_execute ext cs req w =
     (if cancelled req then Some (req\<lparr>rresult := - 1, errorno := ECANCELED\<rparr>, w)
      else if rwd req = EIO_INVALID_WD then Some (req\<lparr>rresult := - 1, errorno := ENOENT\<rparr>, w)
      else do {
        (req, w) \<leftarrow> (if from_open (rtype req) then do {
            dirfd \<leftarrow> WD2FD (rwd req) w;
            exec_path dirfd req w
          } else exec_other ext cs req w);
        Some (req\<lparr>errorno := kerrno w\<rparr>, w)
      })"

section \<open>From the client to the kernel\<close>

text \<open>Executing the request makes the call \<open>c\<close> and reports its result.\<close>

definition carries_out :: "eio_req \<Rightarrow> call \<Rightarrow> bool" where
  "carries_out r c \<longleftrightarrow> (\<forall>ext cs w. eio_execute ext cs r w =
     (case sys c w of (res, w') \<Rightarrow> Some (r\<lparr>rresult := res, errorno := kerrno w'\<rparr>, w')))"

text \<open>
  The call \<open>out\<close> of the client returns a request in the pool: it is at the end of the queue of its
  priority and nothing else in the queues has moved, it is counted, a worker is started if there may be
  one more, and whoever executes it carries out \<open>c\<close>. The strings in memory are now \<open>strings\<close>.
\<close>

definition sent :: "alloc \<Rightarrow> addr list list \<Rightarrow> int \<Rightarrow> api \<Rightarrow> (addr \<rightharpoonup> u8 list) \<Rightarrow> outcome \<Rightarrow> call \<Rightarrow> bool" where
  "sent al ls prio s strings out c \<longleftrightarrow> (\<exists>s' r. out = Some (calloc_at al, s') \<and>
     queued s' (queue_push (slot prio) (calloc_at al) ls) \<and>
     reqs (api_pool s') (calloc_at al) = Some r \<and> carries_out r c \<and> api_strs s' = strings \<and>
     nreqs (pool (api_pool s')) = nreqs (pool (api_pool s)) + 1 \<and> nready (pool (api_pool s')) = nready (pool (api_pool s)) + 1 \<and>
     frames (api_pool s') = Submit_start # frames (api_pool s))"

definition made :: "alloc \<Rightarrow> req_type \<Rightarrow> int \<Rightarrow> nat \<Rightarrow> addr \<Rightarrow> eio_req" where
  "made al t prio cb data = zero_req\<lparr>rtype := t, pri := word_of_int prio, finish_cb := cb, rdata := data, destroy_cb := 1\<rparr>"

lemma SEND_sent:
  assumes "queued s ls" "calloc_at al \<noteq> 0" "calloc_at al \<notin> set (concat ls)" and "rtype r \<noteq> EIO_GROUP" "pri r = word_of_int prio"
    and "\<And>x y. carries_out (r\<lparr>pri := y, rnext := x\<rparr>) c" and "reqs (api_pool s) = reqs (api_pool s0)" "pool (api_pool s) = pool (api_pool s0)"
    and "frames (api_pool s) = frames (api_pool s0)"
  shows "sent al ls prio s0 (api_strs s) (SEND al r s) c"
  using SEND_submits [OF assms(1-5)] assms(6-9) unfolding sent_def by metis

lemma REQ_submits:
  assumes "queued s ls" "calloc_at al \<noteq> 0" "calloc_at al \<notin> set (concat ls)"
    and "rtype (f (made al t prio cb data)) \<noteq> EIO_GROUP" "pri (f (made al t prio cb data)) = word_of_int prio"
    and "\<And>x y. carries_out ((f (made al t prio cb data))\<lparr>pri := y, rnext := x\<rparr>) c"
  shows "sent al ls prio s (api_strs s) (REQ al t prio cb data (\<lambda>r. SEND al (f r)) s) c"
proof -
  have "REQ al t prio cb data (\<lambda>r. SEND al (f r)) s = SEND al (f (made al t prio cb data)) s"
    using assms(2) by (simp add: REQ_def made_def)
  then show ?thesis using SEND_sent [OF assms, of s] by simp
qed

lemma queued_strs [simp]: "queued (s\<lparr>api_strs := m\<rparr>) ls = queued s ls"
  by (simp add: queued_def)

lemma PATH_submits:
  assumes "queued s ls" "calloc_at al \<noteq> 0" "calloc_at al \<notin> set (concat ls)" "path_at al \<noteq> 0"
    and "rtype (f ((made al t prio cb data)\<lparr>rflags := EIO_FLAG_PTR1_FREE, ptr1 := path_at al\<rparr>)) \<noteq> EIO_GROUP"
    and "pri (f ((made al t prio cb data)\<lparr>rflags := EIO_FLAG_PTR1_FREE, ptr1 := path_at al\<rparr>)) = word_of_int prio"
    and "\<And>x y. carries_out ((f ((made al t prio cb data)\<lparr>rflags := EIO_FLAG_PTR1_FREE, ptr1 := path_at al\<rparr>))\<lparr>pri := y, rnext := x\<rparr>) c"
  shows "sent al ls prio s ((api_strs s)(path_at al \<mapsto> path)) (REQ al t prio cb data (PATH al path (\<lambda>r. SEND al (f r))) s) c"
proof -
  define s1 where "s1 = s\<lparr>api_strs := (api_strs s)(path_at al \<mapsto> path)\<rparr>"
  have "REQ al t prio cb data (PATH al path (\<lambda>r. SEND al (f r))) s =
      SEND al (f ((made al t prio cb data)\<lparr>rflags := EIO_FLAG_PTR1_FREE, ptr1 := path_at al\<rparr>)) s1"
    using assms(2,4) by (simp add: REQ_def PATH_def Let_def made_def zero_req_def s1_def)
  then show ?thesis using SEND_sent [OF _ assms(2,3,5,6,7), of s1 s] assms(1) by (simp add: s1_def)
qed

lemma PATHS_submit:
  assumes "queued s ls" "calloc_at al \<noteq> 0" "calloc_at al \<notin> set (concat ls)" "path_at al \<noteq> 0" "new_path_at al \<noteq> 0"
    and "t \<noteq> EIO_GROUP"
    and "\<And>x y. carries_out ((made al t prio cb data)\<lparr>rflags := EIO_FLAG_PTR1_FREE OR EIO_FLAG_PTR2_FREE, ptr1 := path_at al,
      ptr2 := new_path_at al, pri := y, rnext := x\<rparr>) c"
  shows "sent al ls prio s ((api_strs s)(path_at al \<mapsto> path, new_path_at al \<mapsto> new_path)) (eio__2path al t path new_path prio cb data s) c"
proof -
  define s1 where "s1 = s\<lparr>api_strs := (api_strs s)(path_at al \<mapsto> path, new_path_at al \<mapsto> new_path)\<rparr>"
  define r where "r = (made al t prio cb data)\<lparr>rflags := EIO_FLAG_PTR1_FREE OR EIO_FLAG_PTR2_FREE, ptr1 := path_at al, ptr2 := new_path_at al\<rparr>"
  have "eio__2path al t path new_path prio cb data s = SEND al r s1"
    using assms(2,4,5) by (simp add: eio__2path_def REQ_def PATH_def Let_def made_def zero_req_def s1_def r_def)
  moreover have "rtype r = t" "pri r = word_of_int prio" by (simp_all add: r_def made_def)
  ultimately show ?thesis using SEND_sent [OF _ assms(2,3), of s1 r prio c s] assms(1,6,7) by (simp add: s1_def r_def)
qed

lemmas exec_defs = carries_out_def eio_execute_def exec_other_def exec_rest_def exec_path_def from_open_def made_def zero_req_def WD2FD_def
  gives_def ALLOC_def

text \<open>C19: What the client asks for reaches the system. With memory for the request each of these functions puts it into
  the pool, at the end of the queue of its priority, and a worker that executes it makes exactly the system call of that name with the arguments given, and stores
  its result and \<open>errno\<close> in the request.\<close>
theorem descriptor_requests_reach_kernel:
  assumes "queued s ls" "calloc_at al \<noteq> 0" "calloc_at al \<notin> set (concat ls)"
  shows "(buf \<noteq> 0 \<longrightarrow> 0 \<le> offset \<longrightarrow> sent al ls prio s (api_strs s) (eio_read al fd buf len offset prio cb data s) (Pread fd buf len offset)) \<and>
    (buf \<noteq> 0 \<longrightarrow> offset < 0 \<longrightarrow> sent al ls prio s (api_strs s) (eio_read al fd buf len offset prio cb data s) (Read fd buf len)) \<and>
    (0 \<le> offset \<longrightarrow> sent al ls prio s (api_strs s) (eio_write al fd buf len offset prio cb data s) (Pwrite fd buf len offset)) \<and>
    (offset < 0 \<longrightarrow> sent al ls prio s (api_strs s) (eio_write al fd buf len offset prio cb data s) (Write fd buf len)) \<and>
    sent al ls prio s (api_strs s) (eio_readahead al fd offset len prio cb data s) (Readahead fd offset len) \<and>
    sent al ls prio s (api_strs s) (eio_close al fd prio cb data s) (Close fd) \<and>
    sent al ls prio s (api_strs s) (eio_dup2 al fd fd2 prio cb data s) (Dup2 fd fd2) \<and>
    sent al ls prio s (api_strs s) (eio_fsync al fd prio cb data s) (Fsync fd) \<and>
    sent al ls prio s (api_strs s) (eio_fdatasync al fd prio cb data s) (Fdatasync fd) \<and>
    sent al ls prio s (api_strs s) (eio_ftruncate al fd offset prio cb data s) (Ftruncate fd offset) \<and>
    sent al ls prio s (api_strs s) (eio_fchmod al fd mode prio cb data s) (Fchmod fd mode) \<and>
    sent al ls prio s (api_strs s) (eio_fchown al fd uid gid prio cb data s) (Fchown fd uid gid) \<and>
    sent al ls prio s (api_strs s) (eio_fallocate al fd mode offset len prio cb data s) (Fallocate fd mode offset len) \<and>
    sent al ls prio s (api_strs s) (eio_mlockall al flags prio cb data s) (Mlockall flags)"
proof -
  note ws = eio_read_def eio_write_def eio_readahead_def eio_close_def eio_dup2_def eio_fsync_def eio_fdatasync_def eio_ftruncate_def
    eio_fchmod_def eio_fchown_def eio_fallocate_def eio_mlockall_def
  show ?thesis unfolding ws
    by (intro conjI impI; rule REQ_submits [OF assms])
      (simp_all add: exec_defs eio__fallocate_def eio__mlockall_def split: prod.split)
qed

lemma nothing_queued: "queued \<lparr>api_pool = etp_init 0 0, api_strs = Map.empty\<rparr> (replicate 9 [])"
  by (simp add: queued_def etp_init_def reqq_init_def reqq_repr_def)

theorem descriptor_requests_reach_kernel_witness:
  "sent \<lparr>calloc_at = 5, path_at = 6, new_path_at = 7\<rparr> (replicate 9 []) 0 \<lparr>api_pool = etp_init 0 0, api_strs = Map.empty\<rparr> Map.empty
     (eio_close \<lparr>calloc_at = 5, path_at = 6, new_path_at = 7\<rparr> 3 0 0 0 \<lparr>api_pool = etp_init 0 0, api_strs = Map.empty\<rparr>) (Close 3)"
  using descriptor_requests_reach_kernel [OF nothing_queued, of "\<lparr>calloc_at = 5, path_at = 6, new_path_at = 7\<rparr>"] by simp

text \<open>C18: The same for the requests on file names, relative to the current directory, whose names are copied into
  memory that the request owns; there has to be memory for the request and the names.\<close>
theorem path_requests_reach_kernel:
  assumes "queued s ls" "calloc_at al \<noteq> 0" "calloc_at al \<notin> set (concat ls)" "path_at al \<noteq> 0" "new_path_at al \<noteq> 0"
  shows "sent al ls prio s ((api_strs s)(path_at al \<mapsto> path)) (eio_open al path flags mode prio cb data s)
      (Openat AT_FDCWD (Path (path_at al)) flags mode) \<and>
    sent al ls prio s ((api_strs s)(path_at al \<mapsto> path)) (eio_chmod al path mode prio cb data s)
      (Fchmodat AT_FDCWD (Path (path_at al)) mode) \<and>
    sent al ls prio s ((api_strs s)(path_at al \<mapsto> path)) (eio_chown al path uid gid prio cb data s)
      (Fchownat AT_FDCWD (Path (path_at al)) uid gid) \<and>
    sent al ls prio s ((api_strs s)(path_at al \<mapsto> path)) (eio_mkdir al path mode prio cb data s)
      (Mkdirat AT_FDCWD (Path (path_at al)) mode) \<and>
    sent al ls prio s ((api_strs s)(path_at al \<mapsto> path)) (eio_mknod al path mode dev prio cb data s)
      (Mknodat AT_FDCWD (Path (path_at al)) mode dev) \<and>
    sent al ls prio s ((api_strs s)(path_at al \<mapsto> path)) (eio_unlink al path prio cb data s)
      (Unlinkat AT_FDCWD (Path (path_at al)) 0) \<and>
    sent al ls prio s ((api_strs s)(path_at al \<mapsto> path)) (eio_rmdir al path prio cb data s)
      (Unlinkat AT_FDCWD (Path (path_at al)) AT_REMOVEDIR) \<and>
    sent al ls prio s ((api_strs s)(path_at al \<mapsto> path, new_path_at al \<mapsto> new_path)) (eio_rename al path new_path prio cb data s)
      (Renameat AT_FDCWD (Path (path_at al)) AT_FDCWD (Path (new_path_at al))) \<and>
    sent al ls prio s ((api_strs s)(path_at al \<mapsto> path, new_path_at al \<mapsto> new_path)) (eio_link al path new_path prio cb data s)
      (Linkat AT_FDCWD (Path (path_at al)) AT_FDCWD (Path (new_path_at al))) \<and>
    sent al ls prio s ((api_strs s)(path_at al \<mapsto> path, new_path_at al \<mapsto> new_path)) (eio_symlink al path new_path prio cb data s)
      (Symlinkat (Path (path_at al)) AT_FDCWD (Path (new_path_at al)))"
proof -
  note ws = eio_open_def eio_chmod_def eio_chown_def eio_mkdir_def eio_mknod_def eio_unlink_def eio_rmdir_def eio_rename_def
    eio_link_def eio_symlink_def eio__1path_def
  show ?thesis unfolding ws
    by (intro conjI; (rule PATH_submits [OF assms(1-4)] PATHS_submit [OF assms]))
      (simp_all add: exec_defs wd_of_long_def split: prod.split)
qed

theorem path_requests_reach_kernel_witness:
  "sent \<lparr>calloc_at = 5, path_at = 6, new_path_at = 7\<rparr> (replicate 9 []) 0 \<lparr>api_pool = etp_init 0 0, api_strs = Map.empty\<rparr> [6 \<mapsto> [97]]
     (eio_unlink \<lparr>calloc_at = 5, path_at = 6, new_path_at = 7\<rparr> [97] 0 0 0 \<lparr>api_pool = etp_init 0 0, api_strs = Map.empty\<rparr>)
     (Unlinkat AT_FDCWD (Path 6) 0)"
  using path_requests_reach_kernel [OF nothing_queued, of "\<lparr>calloc_at = 5, path_at = 6, new_path_at = 7\<rparr>" 0 "[97]"] by simp

section \<open>Result buffers\<close>

lemma sys_quiet [simp]:
  "replies (snd (sys c w)) = replies w" "\<not> heap_call c \<Longrightarrow> allocated (snd (sys c w)) = allocated w"
  using sys_heap(1) [of c w "fst (sys c w)" "snd (sys c w)"] sys_same [of c w "fst (sys c w)" "snd (sys c w)"]
  by (simp_all only: prod.collapse same_heap_def simp_thms)

text \<open>What the helpers do to the heap: nothing.\<close>

lemma quiet_helpers [simp]:
  "same_heap w (snd (eio__truncateat d p l w))" "same_heap w (snd (eio__statvfsat d p b w))" "same_heap w (snd (eio__syncfs fd w))"
  "same_heap w (snd (eio__sync_file_range fd offs n f w))" "same_heap w (snd (eio__msync m len fl w))"
  "same_heap w (snd (eio__mlock m len w))" "same_heap w (snd (eio__mlockall i w))" "same_heap w (snd (eio__fallocate fd i offs n w))"
  "same_heap w (snd (eio__mtouch r cs w))" "same_heap w (snd (eio__lseek r w))"
  "\<not> heap_call c \<Longrightarrow> same_heap w (snd (sys c w))"
  using touch_loop_same
  by (simp_all add: eio__truncateat_def eio__statvfsat_def eio__syncfs_def eio__sync_file_range_def eio__msync_def eio__mlock_def
      eio__mlockall_def eio__fallocate_def eio__mtouch_def eio__lseek_def same_heap_def case_prod_beta Let_def heap_call_def)
















end
