(* ===== verification/Eio_Demo.thy ===== *)
theory Eio_Demo
  imports Scandir Eio_Realpath
begin

text \<open>
  The sample program \<open>src/libeio/demo.c\<close>: the pipe through which the pool wakes its event loop, the
  event loop, which sleeps until the pipe can be read, and the callbacks. The program is the pool of
  \<open>Etp_Pool\<close> with a client that does what \<open>event_loop\<close> says.
\<close>

section \<open>The pipe\<close>

text \<open>
  A pipe of \<open>cap\<close> bytes; \<open>None\<close> says that the call blocks, in a critical section of the pool. The byte
  written is an uninitialised variable.
\<close>

definition demo_want_poll :: "nat \<Rightarrow> u8 \<Rightarrow> u8 list \<Rightarrow> u8 list option" where
  "demo_want_poll cap dummy pipe = (if length pipe < cap then Some (pipe @ [dummy]) else None)"

definition demo_done_poll :: "u8 list \<Rightarrow> u8 list option" where
  "demo_done_poll pipe = (if pipe = [] then None else Some (tl pipe))"

text \<open>The pipe after the callbacks that the pool has made, oldest first.\<close>

fun signals :: "nat \<Rightarrow> u8 \<Rightarrow> poll_event list \<Rightarrow> u8 list \<Rightarrow> u8 list option" where
  "signals cap dummy [] pipe = Some pipe"
| "signals cap dummy (Want # es) pipe = Option.bind (demo_want_poll cap dummy pipe) (signals cap dummy es)"
| "signals cap dummy (Done # es) pipe = Option.bind (demo_done_poll pipe) (signals cap dummy es)"

definition demo_pipe :: "nat \<Rightarrow> u8 \<Rightarrow> etp_state \<Rightarrow> u8 list option" where
  "demo_pipe cap dummy s = signals cap dummy (rev (polls s)) []"

section \<open>Callbacks\<close>

text \<open>\<open>res_cb\<close> is the callback number 2; it aborts the program when the request has failed.\<close>

definition RES_CB :: nat where "RES_CB = 2"

definition aborts :: "eio_req \<Rightarrow> bool" where
  "aborts r \<longleftrightarrow> finish_cb r = RES_CB \<and> rresult r < 0"

text \<open>What is printed, and the result that \<open>EIO_RESULT (req)--\<close> leaves in the request.\<close>

fun readdir_loop :: "u8 list \<Rightarrow> nat \<Rightarrow> u8 list list option" where
  "readdir_loop buf 0 = Some []"
| "readdir_loop buf (Suc n) = do {
     k \<leftarrow> c_strlen buf;
     ps \<leftarrow> readdir_loop (drop (k + 1) buf) n;
     Some (take k buf # ps)
   }"

definition readdir_cb :: "u8 list \<Rightarrow> int \<Rightarrow> (u8 list list \<times> int) option" where
  "readdir_cb buf result =
     (if result < 0 then Some ([], result)
      else map_option (\<lambda>ps. (ps, - 1)) (readdir_loop buf (nat result)))"

text \<open>\<open>read_cb\<close> prints eight bytes, whatever the result is.\<close>

definition read_cb :: "u8 list \<Rightarrow> int \<Rightarrow> u8 list option" where
  "read_cb buf result = (if length buf < 8 then None else Some (take 8 buf))"

section \<open>The event loop\<close>

datatype loop_pc = At_test | At_poll | Left_loop | Aborted

record demo =
  dpool :: etp_state
  dpc :: loop_pc

text \<open>
  A worker runs a section, or the client does: it tests \<open>eio_nreqs\<close>, waits until the pipe can be read,
  polls, and runs the callbacks, which all return 0. An allocation gives a fresh address.
\<close>

inductive demo_step :: "nat \<Rightarrow> u8 \<Rightarrow> demo \<Rightarrow> demo \<Rightarrow> bool" for cap dummy where
  worker: "dpc d \<noteq> Aborted \<Longrightarrow> pcs (dpool d) w \<noteq> Gone \<Longrightarrow> worker_section w now timedout res (dpool d) = Some s \<Longrightarrow>
    demo_step cap dummy d (d\<lparr>dpool := s\<rparr>)"
| client: "dpc d \<noteq> Aborted \<Longrightarrow> frames (dpool d) = f # fs \<Longrightarrow> is_finishing f = 0 \<Longrightarrow>
    new \<noteq> 0 \<Longrightarrow> wlinks (dpool d) new = None \<Longrightarrow> reqs (dpool d) new = None \<Longrightarrow>
    client_section new created 0 now (dpool d) = Some s \<Longrightarrow> demo_step cap dummy d (d\<lparr>dpool := s\<rparr>)"
| finish: "dpc d \<noteq> Aborted \<Longrightarrow> frames (dpool d) = In_finish req v # fs \<Longrightarrow> reqs (dpool d) req = Some r \<Longrightarrow> \<not> aborts r \<Longrightarrow>
    demo_step cap dummy d (d\<lparr>dpool := poll_finished req 0 now v fs (dpool d)\<rparr>)"
| abort: "frames (dpool d) = In_finish req v # fs \<Longrightarrow> reqs (dpool d) req = Some r \<Longrightarrow> aborts r \<Longrightarrow>
    demo_step cap dummy d (d\<lparr>dpc := Aborted\<rparr>)"
| test: "dpc d = At_test \<Longrightarrow> frames (dpool d) = [] \<Longrightarrow>
    demo_step cap dummy d (d\<lparr>dpc := (if etp_nreqs (dpool d) \<noteq> 0 then At_poll else Left_loop)\<rparr>)"
| readable: "dpc d = At_poll \<Longrightarrow> demo_pipe cap dummy (dpool d) = Some (x # xs) \<Longrightarrow>
    demo_step cap dummy d (d\<lparr>dpc := At_test, dpool := etp_poll now (dpool d)\<rparr>)"

text \<open>The loop is entered between two calls, in any state of the pool.\<close>

inductive demo_reach :: "nat \<Rightarrow> u8 \<Rightarrow> demo \<Rightarrow> bool" for cap dummy where
  enter: "reachable s \<Longrightarrow> frames s = [] \<Longrightarrow> demo_reach cap dummy \<lparr>dpool = s, dpc = At_test\<rparr>"
| step: "demo_reach cap dummy d \<Longrightarrow> demo_step cap dummy d d' \<Longrightarrow> demo_reach cap dummy d'"

section \<open>Lemmas\<close>

lemma signals_append: "signals cap dummy (es @ fs) pipe = Option.bind (signals cap dummy es pipe) (signals cap dummy fs)"
proof (induction es arbitrary: pipe)
  case (Cons e es)
  then have "Option.bind x (signals cap dummy (es @ fs)) = Option.bind (Option.bind x (signals cap dummy es)) (signals cap dummy fs)" for x
    by (cases x) simp_all
  then show ?case by (cases e) simp_all
qed simp

lemma signals_alternating:
  "alternates es \<Longrightarrow> 0 < cap \<Longrightarrow> signals cap dummy (rev es) [] = Some (if \<exists>fs. es = Want # fs then [dummy] else [])"
proof (induction es rule: alternates.induct)
  case (3 e e' es)
  have "signals cap dummy (rev (e # e' # es)) [] = Option.bind (signals cap dummy (rev (e' # es)) []) (signals cap dummy [e])"
    unfolding rev.simps(2) [of e] by (rule signals_append)
  moreover have "signals cap dummy (rev (e' # es)) [] = Some (if e' = Want then [dummy] else [])" using 3 by simp
  ultimately show ?case using 3(2,3) by (cases e; cases e') (simp_all add: demo_want_poll_def demo_done_poll_def)
qed (simp_all add: demo_want_poll_def)

lemma pool_pipe:
  assumes "pool_ok s ls rs ws" "0 < cap"
  shows "demo_pipe cap dummy s = Some (if concat rs = [] then [] else [dummy])"
proof -
  note D = poolD [OF assms(1)]
  have "signals cap dummy (rev (polls s)) [] = Some (if \<exists>fs. polls s = Want # fs then [dummy] else [])"
    using signals_alternating assms(2) D(6) by (simp add: logged_def)
  moreover have "concat rs \<noteq> [] \<longleftrightarrow> (\<exists>fs. polls s = Want # fs)" using D(6) by (simp add: logged_def del: concat_eq_Nil_conv)
  ultimately show ?thesis unfolding demo_pipe_def by (simp del: concat_eq_Nil_conv)
qed

lemma push_result_keeps: "push_result req s = Some s' \<Longrightarrow> frames s' = frames s \<and> nreqs (pool s') = nreqs (pool s)"
  by (auto simp: push_result_def bind_eq_Some_conv Let_def split: if_splits)

lemma proc_take_keeps: "proc_take w now tv s = Some s' \<Longrightarrow> frames s' = frames s \<and> nreqs (pool s') = nreqs (pool s)"
  by (auto simp: proc_take_def bind_eq_Some_conv Let_def split: if_splits)

lemma worker_section_keeps:
  "worker_section w now timedout res s = Some s' \<Longrightarrow> frames s' = frames s \<and> nreqs (pool s') = nreqs (pool s)"
  by (cases "pcs s w")
    (auto simp: worker_section_def proc_wake_def proc_execute_def proc_result_def proc_timeout_def proc_quit_def
      bind_eq_Some_conv Let_def dest!: proc_take_keeps push_result_keeps split: if_splits)

definition loop_ok :: "demo \<Rightarrow> bool" where
  "loop_ok d \<longleftrightarrow> reachable (dpool d) \<and>
     (dpc d = At_poll \<longrightarrow> frames (dpool d) = [] \<and> nreqs (pool (dpool d)) \<noteq> 0) \<and>
     (dpc d = Left_loop \<longrightarrow> frames (dpool d) = [] \<and> nreqs (pool (dpool d)) = 0)"

lemma demo_step_ok: "demo_step cap dummy d d' \<Longrightarrow> loop_ok d \<Longrightarrow> loop_ok d'"
proof (induction rule: demo_step.induct)
  case (worker d w now timedout res s)
  then show ?case using reachable.step [OF _ worker_section_step] worker_section_keeps [OF worker(3)]
    by (auto simp: loop_ok_def)
next
  case (client d f fs new created now s)
  then have "frames (dpool d) \<noteq> []" by simp
  then have "pool_step (dpool d) s" using client_section_step client(4,5,6,7) by blast
  then show ?case using client reachable.step [of "dpool d" s] by (auto simp: loop_ok_def)
next
  case (finish d req v fs r now)
  then show ?case using reachable.step [OF _ pool_step.finished] by (auto simp: loop_ok_def)
next
  case (readable d x xs now)
  then have "can_call (dpool d)" by (simp add: loop_ok_def can_call_def)
  then show ?case using readable reachable.step [OF _ pool_step.poll] by (auto simp: loop_ok_def)
qed (auto simp: loop_ok_def etp_nreqs_def)

lemma demo_reach_ok: "demo_reach cap dummy d \<Longrightarrow> loop_ok d"
  by (induction rule: demo_reach.induct) (auto simp: loop_ok_def dest: demo_step_ok [unfolded loop_ok_def])

text \<open>What is in the pool while the client is in no call.\<close>

definition at_work :: "etp_state \<Rightarrow> addr list list \<Rightarrow> addr list \<Rightarrow> addr multiset" where
  "at_work s ls ws = mset (concat ls) + (\<Sum>w\<leftarrow>ws. held (pcs s w))"

lemma not_quits: "\<forall>x \<in># M. \<not> is_quit h x \<Longrightarrow> num_quits h M = 0"
  unfolding num_quits_def by (metis filter_mset_False filter_mset_cong size_empty)

lemma idle_client_counts:
  assumes "pool_ok s ls rs ws" "frames s = []"
  shows "nreqs (pool s) + of_nat (length (delayed s) + num_quits (reqs s) (at_work s ls ws)) =
    of_nat (size (at_work s ls ws) + length (concat rs) + length (delayed s))"
proof -
  note D = poolD [OF assms(1)]
  have p: "places s ls rs ws = at_work s ls ws + (mset (concat rs) + mset (delayed s))"
    using assms(2) by (simp add: places_def at_work_def ac_simps)
  have "\<forall>x \<in># mset (concat rs) + mset (delayed s). \<not> is_quit (reqs s) x" using D(4) by (auto simp: typed_def)
  then have "num_quits (reqs s) (places s ls rs ws) = num_quits (reqs s) (at_work s ls ws)"
    unfolding p using not_quits [of _ "reqs s"] by (simp add: num_quits_def)
  then show ?thesis using D(5) assms(2) unfolding counted_def p by (simp add: ac_simps)
qed

lemma in_held: "a \<in># (\<Sum>w\<leftarrow>ws. held (g w)) \<longleftrightarrow> (\<exists>w \<in> set ws. a \<in># held (g w))"
  by (induction ws) auto

lemma num_quits_all: "num_quits h M = size M \<longleftrightarrow> (\<forall>x \<in># M. is_quit h x)"
proof -
  have "size M = num_quits h M + size (filter_mset (\<lambda>x. \<not> is_quit h x) M)"
    unfolding num_quits_def by (metis multiset_partition size_union)
  then show ?thesis by auto
qed

lemma num_quits_le: "num_quits h M \<le> size M"
  unfolding num_quits_def by (rule size_filter_mset_lesseq)

lemma no_thread_sleeps:
  assumes "req \<noteq> 0" "rtype r \<notin> {ETP_TYPE_QUIT, EIO_GROUP}" "new \<noteq> 0" "new \<noteq> WRK_FIRST"
    and "etp_submit req ((etp_init mt mr)\<lparr>reqs := [req \<mapsto> r]\<rparr>) = Some s1" "client_section new False 0 now s1 = Some s2"
  shows "demo_reach cap dummy \<lparr>dpool = s2, dpc = At_poll\<rparr>" "frames s2 = []" "polls s2 = []" "pcs s2 = (\<lambda>_. Gone)"
proof -
  define s0 where "s0 = (etp_init mt mr)\<lparr>reqs := [req \<mapsto> r]\<rparr>"
  have "pool_step (etp_init mt mr) s1"
    using assms(1,2,5) by (intro pool_step.submit [of _ req r]) (simp_all add: etp_init_def can_call_def)
  then have s1: "reachable s1" using reachable.init reachable.step by blast
  have f: "frames s1 = [Submit_start]" "nreqs (pool s1) = 1" "polls s1 = []" "pcs s1 = (\<lambda>_. Gone)" "wlinks s1 = wlinks s0"
    using assms(2,5) by (auto simp: etp_submit_def etp_init_def s0_def bind_eq_Some_conv Let_def)
  then have s2: "s2 = s1\<lparr>frames := []\<rparr>"
    using assms(3,6) by (auto simp: client_section_def etp_maybe_start_thread_def etp_start_thread_def split: if_splits)
  have "pool_step s1 s2"
    using f assms(3,4) s2 by (intro pool_step.submit_start [of _ "[]" new False])
      (auto simp: s0_def etp_init_def etp_maybe_start_thread_def etp_start_thread_def)
  then have "demo_reach cap dummy \<lparr>dpool = s2, dpc = At_test\<rparr>"
    using s1 s2 by (intro demo_reach.enter reachable.step [of s1 s2]) simp_all
  moreover have "demo_step cap dummy \<lparr>dpool = s2, dpc = At_test\<rparr> \<lparr>dpool = s2, dpc = At_poll\<rparr>"
    using demo_step.test [of "\<lparr>dpool = s2, dpc = At_test\<rparr>" cap dummy] f(2) by (simp add: s2 etp_nreqs_def)
  ultimately show "demo_reach cap dummy \<lparr>dpool = s2, dpc = At_poll\<rparr>" by (rule demo_reach.step)
  show "frames s2 = []" "polls s2 = []" "pcs s2 = (\<lambda>_. Gone)" using f by (simp_all add: s2)
qed

lemma run1_sleeps:
  "etp_submit 5 ((etp_init 0 0)\<lparr>reqs := [5 \<mapsto> a_req 0 0]\<rparr>) = Some run1"
  "client_section 2 False 0 (0, 0) run1 = Some (run1\<lparr>frames := []\<rparr>)"
  "rtype (a_req 0 0) \<notin> {ETP_TYPE_QUIT, EIO_GROUP}" "2 \<noteq> WRK_FIRST"
  by (simp_all add: etp_init_def etp_submit_def reqq_push_def reqq_init_def submit_pri_def pri_index_def
      client_section_def etp_maybe_start_thread_def etp_start_thread_def etp_nthreads_def etp_npending_def etp_nreqs_def
      run1_def run_defs fun_eq_iff eval_nat_numeral)

section \<open>Properties\<close>

text \<open>C4: In every interleaving the pipe holds one byte exactly while results wait, and is empty otherwise: neither
  callback ever blocks inside the pool, the pipe can be read when there is something to poll, and no wake-up is
  lost or left over.\<close>
theorem demo_pipe_signals:
  assumes "reachable s" "0 < cap"
  shows "demo_pipe cap dummy s = Some (if qsize (res_queue (pool s)) = 0 then [] else [dummy])"
proof -
  obtain ls rs ws where ok: "pool_ok s ls rs ws" using reachable_ok [OF assms(1)] by blast
  then have "qsize (res_queue (pool s)) = int (length (concat rs))" using poolD(1) by (simp add: queues_def reqq_repr_def)
  then show ?thesis using pool_pipe [OF ok assms(2)] by (simp del: concat_eq_Nil_conv)
qed

theorem demo_pipe_signals_witness: "demo_pipe 1 7 run9 = Some [7]"
  using demo_pipe_signals [OF run9_reachable, of 1 7] by (simp add: run9_def run_defs)

text \<open>C5: While the event loop sleeps on an empty pipe, a request of the client is queued for the workers or in the
  hands of one: the loop never waits for nothing.\<close>
theorem event_loop_waits_for_work:
  assumes "demo_reach cap dummy d" "0 < cap" and "dpc d = At_poll" "demo_pipe cap dummy (dpool d) = Some []"
  shows "\<exists>ls ws a. reqq_repr (reqs (dpool d)) (req_queue (pool (dpool d))) ls \<and> circ (wlinks (dpool d)) WRK_FIRST ws \<and>
    \<not> is_quit (reqs (dpool d)) a \<and> (a \<in> set (concat ls) \<or> (\<exists>w \<in> set ws. a \<in># held (pcs (dpool d) w)))"
proof -
  define s where "s = dpool d"
  have s: "reachable s" "frames s = []" "nreqs (pool s) \<noteq> 0"
    using demo_reach_ok [OF assms(1)] assms(3) by (simp_all add: loop_ok_def s_def)
  obtain ls rs ws where ok: "pool_ok s ls rs ws" using reachable_ok [OF s(1)] by blast
  note D = poolD [OF ok]
  have rs: "concat rs = []" using pool_pipe [OF ok assms(2), of dummy] assms(4) by (simp add: s_def del: concat_eq_Nil_conv split: if_splits)
  have "num_quits (reqs s) (at_work s ls ws) \<noteq> size (at_work s ls ws)"
    using idle_client_counts [OF ok s(2)] s(3) unfolding rs by (auto simp: ac_simps)
  then obtain a where a: "a \<in># at_work s ls ws" "\<not> is_quit (reqs s) a" unfolding num_quits_all by blast
  have "a \<in> set (concat ls) \<or> (\<exists>w \<in> set ws. a \<in># held (pcs s w))"
    using a(1) by (auto simp: at_work_def in_held)
  then show ?thesis using a(2) D(1,2) unfolding s_def [symmetric] queues_def crew_def by blast
qed

theorem event_loop_waits_for_work_witness:
  "\<exists>ls ws a. reqq_repr (reqs run1) (req_queue (pool run1)) ls \<and> \<not> is_quit (reqs run1) a \<and>
    (a \<in> set (concat ls) \<or> (\<exists>w \<in> set ws. a \<in># held (pcs run1 w)))"
proof -
  define d where "d = \<lparr>dpool = run1\<lparr>frames := []\<rparr>, dpc = At_poll\<rparr>"
  note sleeps = no_thread_sleeps [OF _ run1_sleeps(3) _ run1_sleeps(4,1,2), folded d_def]
  have d_pc: "dpc d = At_poll" by (simp add: d_def)
  have "demo_pipe 1 7 (dpool d) = Some []" using sleeps(3) by (simp add: demo_pipe_def d_def)
  moreover have "demo_reach 1 7 d" using sleeps(1) by (simp add: d_def)
  ultimately obtain ls ws a where "reqq_repr (reqs (dpool d)) (req_queue (pool (dpool d))) ls" "\<not> is_quit (reqs (dpool d)) a"
    "a \<in> set (concat ls) \<or> (\<exists>w \<in> set ws. a \<in># held (pcs (dpool d) w))"
    using event_loop_waits_for_work [of 1 7 d] zero_less_one d_pc by blast
  then show ?thesis by (intro exI [of _ ls] exI [of _ ws] exI [of _ a]) (simp add: d_def)
qed

text \<open>When the event loop is left, everything the client asked for is done: a request that is still in the pool is
  a QUIT request for a worker or a group that waits for its members.\<close>
theorem event_loop_leaves_nothing:
  assumes "demo_reach cap dummy d" "dpc d = Left_loop" and "length (entered (dpool d)) < 2 ^ 32"
  shows "\<exists>M. mset (entered (dpool d)) = mset (left (dpool d)) + M \<and>
    (\<forall>a \<in># M. is_quit (reqs (dpool d)) a \<or> a \<in> set (delayed (dpool d)))"
proof -
  define s where "s = dpool d"
  have s: "reachable s" "frames s = []" "nreqs (pool s) = 0"
    using demo_reach_ok [OF assms(1)] assms(2) by (simp_all add: loop_ok_def s_def)
  obtain ls rs ws where ok: "pool_ok s ls rs ws" using reachable_ok [OF s(1)] by blast
  have all: "mset (entered s) = mset (left s) + places s ls rs ws" using poolD(6) [OF ok] by (simp add: logged_def)
  have p: "places s ls rs ws = at_work s ls ws + mset (concat rs) + mset (delayed s)"
    using s(2) by (simp add: places_def at_work_def ac_simps)
  define q n where "q = num_quits (reqs s) (at_work s ls ws)" and "n = size (at_work s ls ws) + length (concat rs)"
  have "length (entered s) = length (left s) + (n + length (delayed s))"
    using arg_cong [OF all, of size] by (simp add: p n_def)
  then have small: "n + length (delayed s) < 2 ^ 32" using assms(3) by (simp add: s_def)
  have "(of_nat (q + length (delayed s)) :: u32) = of_nat (n + length (delayed s))"
    using idle_client_counts [OF ok s(2)] s(3) by (simp add: q_def n_def ac_simps)
  moreover have "q \<le> n" unfolding q_def n_def using num_quits_le trans_le_add1 by blast
  ultimately have "q + length (delayed s) = n + length (delayed s)"
    using small of_nat_inverse [of "n + length (delayed s)", where 'a = 32] of_nat_inverse [of "q + length (delayed s)", where 'a = 32] by simp
  then have "q = size (at_work s ls ws)" "concat rs = []"
    using num_quits_le [of "reqs s" "at_work s ls ws"] by (simp_all add: q_def n_def)
  then have "\<forall>a \<in># places s ls rs ws. is_quit (reqs s) a \<or> a \<in> set (delayed s)"
    unfolding p q_def num_quits_all by (auto simp del: concat_eq_Nil_conv)
  then show ?thesis using all unfolding s_def by blast
qed

theorem event_loop_leaves_nothing_witness:
  "\<exists>M. mset (entered (etp_init 0 0)) = mset (left (etp_init 0 0)) + M \<and>
    (\<forall>a \<in># M. is_quit (reqs (etp_init 0 0)) a \<or> a \<in> set (delayed (etp_init 0 0)))"
proof -
  have "demo_reach 1 7 \<lparr>dpool = etp_init 0 0, dpc = At_test\<rparr>"
    by (rule demo_reach.enter [OF reachable.init]) (simp add: etp_init_def)
  moreover have "demo_step 1 7 \<lparr>dpool = etp_init 0 0, dpc = At_test\<rparr> \<lparr>dpool = etp_init 0 0, dpc = Left_loop\<rparr>"
    using demo_step.test [of "\<lparr>dpool = etp_init 0 0, dpc = At_test\<rparr>" 1 7] by (simp add: etp_init_def etp_nreqs_def)
  ultimately have "demo_reach 1 7 \<lparr>dpool = etp_init 0 0, dpc = Left_loop\<rparr>" by (rule demo_reach.step)
  from event_loop_leaves_nothing [OF this] show ?thesis by (simp add: etp_init_def)
qed

text \<open>Where the first thread cannot be created, the program sleeps for ever: the request is queued, there is no worker
  to take it, and the loop waits for a result before it would try to start a thread again.\<close>
theorem event_loop_deadlocks:
  assumes "req \<noteq> 0" "rtype r \<notin> {ETP_TYPE_QUIT, EIO_GROUP}" "new \<noteq> 0" "new \<noteq> WRK_FIRST"
    and "etp_submit req ((etp_init mt mr)\<lparr>reqs := [req \<mapsto> r]\<rparr>) = Some s1" "client_section new False 0 now s1 = Some s2"
  shows "demo_reach cap dummy \<lparr>dpool = s2, dpc = At_poll\<rparr> \<and> (\<nexists>d. demo_step cap dummy \<lparr>dpool = s2, dpc = At_poll\<rparr> d)"
proof -
  note sleeps = no_thread_sleeps [OF assms]
  have "\<not> demo_step cap dummy \<lparr>dpool = s2, dpc = At_poll\<rparr> d" for d
    using sleeps(2-4) by (auto simp: demo_pipe_def elim: demo_step.cases)
  with sleeps(1) show ?thesis by blast
qed

theorem event_loop_deadlocks_witness:
  "demo_reach 1 7 \<lparr>dpool = run1\<lparr>frames := []\<rparr>, dpc = At_poll\<rparr> \<and> (\<nexists>d. demo_step 1 7 \<lparr>dpool = run1\<lparr>frames := []\<rparr>, dpc = At_poll\<rparr> d)"
  using event_loop_deadlocks [OF _ run1_sleeps(3) _ run1_sleeps(4,1,2), of 1 7] by simp

text \<open>The callback for a directory prints the names that \<open>eio__scandir\<close> put into the buffer, in their order, and stays
  inside the buffer; it leaves -1 as the result of the request. The listing is one that \<open>eio__scandir\<close> can hold.\<close>
theorem readdir_cb_prints_names:
  assumes "flags AND EIO_READDIR_DENTS \<noteq> 0" and "\<forall>e \<in> set es. d_ino e \<noteq> 0 \<and> 0 \<notin> set (dname e)"
    and "False \<notin> set rs" and "True \<notin> set cs" and "scan_fits (visible es)"
  shows "\<exists>r. eio__scandir flags True True True es 0 cs rs = Some r \<and>
    readdir_cb (scan_names r) (scan_result r) = Some (map dname (visible es), - 1)"
proof -
  have "readdir_loop (packed vs @ rest) (length vs) = Some (map dname vs)" if "set vs \<subseteq> set es" for vs rest
    using that
  proof (induction vs)
    case (Cons v vs)
    have "c_strlen (dname v @ 0 # packed vs @ rest) = Some (length (dname v))"
      using c_strlen_string Cons.prems assms(2) by auto
    then show ?case using Cons by (simp add: packed_def)
  qed simp
  from this [of "visible es" "[]"] have "readdir_loop (packed (visible es)) (length (visible es)) = Some (map dname (visible es))"
    by (simp add: visible_def)
  moreover have "\<forall>e \<in> set es. d_ino e \<noteq> 0" using assms(2) by blast
  ultimately show ?thesis using scandir_run [OF assms(1) _ assms(3,4), of es] assms(5) by (auto simp: readdir_cb_def)
qed

theorem readdir_cb_prints_names_witness:
  "\<exists>r. eio__scandir 1 True True True [\<lparr>dname = [97, 98], d_type = 8, d_ino = 5\<rparr>] 0 [] [] = Some r \<and>
    readdir_cb (scan_names r) (scan_result r) = Some ([[97, 98]], - 1)"
  using readdir_cb_prints_names [of 1 "[\<lparr>dname = [97, 98], d_type = 8, d_ino = 5\<rparr>]" "[]" "[]"]
  by (simp add: readdir_flags visible_def skipped_def scan_fits_def packed_def NAMES_MAX_def)

end
