(* ===== verification/Murmur.thy ===== *)
theory Murmur
  imports Prelude
begin

unbundle bit_operations_syntax

text \<open>
  \<open>src/utils/murmurhash.c\<close>: the hash of a region of bytes on 32-bit words, and the hash of an
  identifier made from it. The four bytes of a block are read as a little-endian word. \<open>None\<close> is
  a read outside of the region, or the overflow of \<open>abs\<close>.
\<close>

section \<open>The code\<close>

definition murmur_m :: u32 where "murmur_m = 0x5bd1e995"

definition block_word :: "u8 \<Rightarrow> u8 \<Rightarrow> u8 \<Rightarrow> u8 \<Rightarrow> u32" where
  "block_word a b c d = ucast a OR push_bit 8 (ucast b) OR push_bit 16 (ucast c) OR push_bit 24 (ucast d)"

definition mix_block :: "u32 \<Rightarrow> u32 \<Rightarrow> u32" where
  "mix_block h k =
     (let k = k * murmur_m;
          k = k XOR drop_bit 24 k;
          k = k * murmur_m;
          h = h * murmur_m
      in h XOR k)"

fun mix_blocks :: "u32 \<Rightarrow> u8 list \<Rightarrow> u32 \<times> u8 list" where
  "mix_blocks h (a # b # c # d # ds) = mix_blocks (mix_block h (block_word a b c d)) ds"
| "mix_blocks h ds = (h, ds)"

fun mix_tail :: "u32 \<Rightarrow> u8 list \<Rightarrow> u32" where
  "mix_tail h [a, b, c] = (h XOR push_bit 16 (ucast c) XOR push_bit 8 (ucast b) XOR ucast a) * murmur_m"
| "mix_tail h [a, b] = (h XOR push_bit 8 (ucast b) XOR ucast a) * murmur_m"
| "mix_tail h [a] = (h XOR ucast a) * murmur_m"
| "mix_tail h _ = h"

definition mix_final :: "u32 \<Rightarrow> u32" where
  "mix_final h =
     (let h = h XOR drop_bit 13 h;
          h = h * murmur_m
      in h XOR drop_bit 15 h)"

definition MurmurHash :: "u8 list \<Rightarrow> int \<Rightarrow> u32 \<Rightarrow> u32 option" where
  "MurmurHash key len seed =
     (if int (length key) < len then None
      else case mix_blocks (seed XOR word_of_int len) (take (nat len) key) of (h, ds) \<Rightarrow> Some (mix_final (mix_tail h ds)))"

definition IdHash :: "u8 list \<Rightarrow> int \<Rightarrow> int option" where
  "IdHash key len = do {
     h \<leftarrow> MurmurHash key len 31;
     let hash = sint h;
     if hash = - (2 ^ 31) then None else Some \<bar>hash\<bar>
   }"

section \<open>Every step can be undone\<close>

definition murmur_inverse :: u32 where "murmur_inverse = 0xe59b19bd"

lemma murmur_inverse: "x * murmur_m * murmur_inverse = x"
proof -
  have "murmur_m * murmur_inverse = 1" by (simp add: murmur_m_def murmur_inverse_def)
  then show ?thesis by (simp add: mult.assoc)
qed

lemma times_m_inj [simp]: "x * murmur_m = y * murmur_m \<longleftrightarrow> x = y"
  by (metis murmur_inverse)

lemma xor_right_inj [simp]: "x XOR k = y XOR k \<longleftrightarrow> x = y" "k XOR x = k XOR y \<longleftrightarrow> x = y" for x y k :: "'a::len word"
  by (metis xor.right_neutral xor_self_eq xor.assoc, metis xor.left_neutral xor_self_eq xor.assoc)

text \<open>An exclusive or with the own upper bits, undone by shifting again.\<close>

lemma drop_bit_32: "32 \<le> n \<Longrightarrow> drop_bit n x = 0" for x :: u32
  by (rule bit_eqI) (auto simp: bit_simps dest: bit_imp_le_length)

lemma shift24: "(let y = x XOR drop_bit 24 x in y XOR drop_bit 24 y) = x" for x :: u32
  by (simp add: Let_def drop_bit_xor drop_bit_drop_bit drop_bit_32 xor.assoc xor.left_commute [of "drop_bit 24 x"])

lemma shift13: "(let y = x XOR drop_bit 13 x in y XOR drop_bit 13 y XOR drop_bit 26 y) = x" for x :: u32
  by (rule bit_eqI) (auto simp: Let_def bit_simps add.commute dest: bit_imp_le_length)

lemma shift15: "(let y = x XOR drop_bit 15 x in y XOR drop_bit 15 y XOR drop_bit 30 y) = x" for x :: u32
  by (rule bit_eqI) (auto simp: Let_def bit_simps add.commute dest: bit_imp_le_length)

lemma mix_final_inj [simp]: "mix_final x = mix_final y \<longleftrightarrow> x = y"
  unfolding mix_final_def Let_def by (metis (no_types) shift13 shift15 times_m_inj)

lemma mix_block_inj: "mix_block h k = mix_block h' k \<longleftrightarrow> h = h'" "mix_block h k = mix_block h k' \<longleftrightarrow> k = k'"
proof -
  have "x XOR drop_bit 24 x = y XOR drop_bit 24 y \<longleftrightarrow> x = y" for x y :: u32 by (metis shift24)
  then show "mix_block h k = mix_block h' k \<longleftrightarrow> h = h'" "mix_block h k = mix_block h k' \<longleftrightarrow> k = k'"
    by (simp_all add: mix_block_def Let_def)
qed

lemma block_word_inj [simp]:
  "block_word a b c d = block_word a' b' c' d' \<longleftrightarrow> a = a' \<and> b = b' \<and> c = c' \<and> d = d'"
proof -
  have "ucast (block_word a b c d) = a" "ucast (drop_bit 8 (block_word a b c d)) = b"
    "ucast (drop_bit 16 (block_word a b c d)) = c" "ucast (drop_bit 24 (block_word a b c d)) = d" for a b c d
    by (rule bit_word_eqI; auto simp: block_word_def bit_simps dest: bit_imp_le_length)+
  then show ?thesis by metis
qed

definition mix_all :: "u32 \<Rightarrow> u8 list \<Rightarrow> u32" where
  "mix_all h ds = (case mix_blocks h ds of (h, ds) \<Rightarrow> mix_tail h ds)"

lemma mix_all_block [simp]: "mix_all h (a # b # c # d # ds) = mix_all (mix_block h (block_word a b c d)) ds"
  by (simp add: mix_all_def)

lemma mix_all_short:
  "mix_all h [] = h" "mix_all h [a] = mix_tail h [a]" "mix_all h [a, b] = mix_tail h [a, b]" "mix_all h [a, b, c] = mix_tail h [a, b, c]"
  by (simp_all add: mix_all_def)

lemma MurmurHash_mix:
  "MurmurHash key len seed =
     (if int (length key) < len then None else Some (mix_final (mix_all (seed XOR word_of_int len) (take (nat len) key))))"
  by (simp add: MurmurHash_def mix_all_def split: prod.split)

lemma mix_all_inj: "mix_all h ds = mix_all h' ds \<longleftrightarrow> h = h'"
proof (induction h ds arbitrary: h' rule: mix_blocks.induct)
  case (1 h a b c d ds)
  then show ?case by (simp add: mix_block_inj)
qed (simp_all add: mix_all_short)

lemma mix_all_append:
  "length pre mod 4 = 0 \<Longrightarrow> \<exists>h'. \<forall>ds. mix_all h (pre @ ds) = mix_all h' ds"
proof (induction h pre rule: mix_blocks.induct)
  case (1 h a b c d ds)
  then show ?case by simp
qed (auto simp: mix_all_short)

lemma length_4: "length xs = 4 \<longleftrightarrow> (\<exists>a b c d. xs = [a, b, c, d])"
  by (auto simp: length_Suc_conv numeral_eq_Suc)

lemma mix_all_last:
  assumes "mix_all h (b1 @ post) = mix_all h (b2 @ post)" "length b1 = length b2" "length b1 = 4 \<or> length b1 < 4 \<and> post = []"
  shows "b1 = b2"
proof (cases "length b1 = 4")
  case True
  then obtain a b c d a' b' c' d' where "b1 = [a, b, c, d]" "b2 = [a', b', c', d']" using assms(2) by (metis length_4)
  then show ?thesis using assms(1) by (simp add: mix_all_inj mix_block_inj)
next
  case False
  then have post: "post = []" and "length b1 < 4" using assms(3) by auto
  have tail: "mix_block 0 (block_word a b c 0) = mix_block 0 (block_word a' b' c' 0) \<longleftrightarrow> a = a' \<and> b = b' \<and> c = c'" for a b c a' b' c' :: u8
    by (simp add: mix_block_inj)
  have word: "push_bit 16 (ucast c) XOR push_bit 8 (ucast b) XOR ucast a = block_word a b c 0" for a b c :: u8
    by (rule bit_word_eqI) (auto simp: block_word_def bit_simps dest: bit_imp_le_length)
  have w: "h XOR push_bit 16 (ucast c) XOR push_bit 8 (ucast b) XOR ucast a = h XOR block_word a b c 0"
    "h XOR push_bit 8 (ucast b) XOR ucast a = h XOR block_word a b 0 0" "h XOR ucast a = h XOR block_word a 0 0 0" for a b c :: u8
    using word [of c b a] word [of 0 b a] word [of 0 0 a] by (simp_all add: xor.assoc)
  consider "length b1 = 0" | "length b1 = 1" | "length b1 = 2" | "length b1 = 3" using \<open>length b1 < 4\<close> by linarith
  then show ?thesis
    using assms(1,2) by cases (auto simp: length_Suc_conv Suc_length_conv numeral_2_eq_2 numeral_3_eq_3 post mix_all_short w)
qed

section \<open>Properties\<close>

text \<open>No collision is local. Two keys of one length that differ in a single aligned block of four bytes, or only in
  the last bytes that fill no block, have different hashes for the same seed; so do two seeds for the same key.\<close>
theorem murmur_local_changes_differ:
  assumes "length pre mod 4 = 0" "length b1 = length b2" "length b1 = 4 \<or> length b1 < 4 \<and> post = []"
    and "len = int (length (pre @ b1 @ post))"
  shows "MurmurHash (pre @ b1 @ post) len seed \<noteq> None \<and>
    (b1 \<noteq> b2 \<longrightarrow> MurmurHash (pre @ b1 @ post) len seed \<noteq> MurmurHash (pre @ b2 @ post) len seed) \<and>
    (seed \<noteq> seed2 \<longrightarrow> MurmurHash (pre @ b1 @ post) len seed \<noteq> MurmurHash (pre @ b1 @ post) len seed2)"
proof (intro conjI impI)
  have all: "MurmurHash ds len sd = Some (mix_final (mix_all (sd XOR word_of_int len) ds))" if "len = int (length ds)" for ds sd
    using that by (simp add: MurmurHash_mix)
  have len2: "len = int (length (pre @ b2 @ post))" using assms(2,4) by simp
  show "MurmurHash (pre @ b1 @ post) len seed \<noteq> None" using all [OF assms(4)] by simp
  show "MurmurHash (pre @ b1 @ post) len seed \<noteq> MurmurHash (pre @ b1 @ post) len seed2" if "seed \<noteq> seed2"
    using that unfolding all [OF assms(4)] by (simp add: mix_all_inj del: of_int_of_nat_eq)
  show "MurmurHash (pre @ b1 @ post) len seed \<noteq> MurmurHash (pre @ b2 @ post) len seed" if "b1 \<noteq> b2"
  proof -
    obtain h where h: "\<And>ds. mix_all (seed XOR word_of_int len) (pre @ ds) = mix_all h ds"
      using mix_all_append [OF assms(1)] by metis
    have "mix_all h (b1 @ post) \<noteq> mix_all h (b2 @ post)" using mix_all_last [OF _ assms(2,3)] that by blast
    then show ?thesis unfolding all [OF assms(4)] all [OF len2] h by simp
  qed
qed

theorem murmur_local_changes_differ_witness:
  "MurmurHash [1, 2, 3, 4, 5, 6] 6 31 \<noteq> MurmurHash [1, 2, 3, 4, 5, 7] 6 31"
  using murmur_local_changes_differ [of "[1, 2, 3, 4]" "[5, 6]" "[5, 7]" "[]" 6 31 0] by simp

text \<open>The identifier of a region that is long enough is the absolute value of the hash with seed 31, between 0 and
  \<open>2 ^ 31 - 1\<close>, unless the hash is \<open>2 ^ 31\<close>, whose \<open>abs\<close> overflows; some key of four bytes has that hash.\<close>
theorem id_hash_range:
  assumes "len \<le> int (length key)"
  shows "\<exists>h. MurmurHash key len 31 = Some h \<and>
    (if h = 2 ^ 31 then IdHash key len = None
     else IdHash key len = Some \<bar>sint h\<bar> \<and> \<bar>sint h\<bar> < 2 ^ 31) \<and> IdHash [240, 160, 170, 110] 4 = None"
proof -
  obtain h where h: "MurmurHash key len 31 = Some h" using assms by (simp add: MurmurHash_mix)
  have "sint h = - (2 ^ 31) \<longleftrightarrow> h = 2 ^ 31"
  proof
    assume "sint h = - (2 ^ 31)"
    then have "word_of_int (sint h) = (word_of_int (- (2 ^ 31)) :: u32)" by (rule arg_cong)
    then show "h = 2 ^ 31" by simp
  qed simp
  moreover have "\<bar>sint h\<bar> < 2 ^ 31" if "sint h \<noteq> - (2 ^ 31)"
    using that sint_range_size [of h] by (auto simp: word_size abs_if)
  moreover have "IdHash [240, 160, 170, 110] 4 = None"
    by (simp add: IdHash_def MurmurHash_def block_word_def mix_block_def mix_final_def murmur_m_def Let_def)
  ultimately show ?thesis using h by (auto simp: IdHash_def Let_def)
qed

theorem id_hash_range_witness: "\<exists>h. MurmurHash [1, 2] 2 31 = Some h \<and> (h = 2 ^ 31 \<or> IdHash [1, 2] 2 = Some \<bar>sint h\<bar>)"
  using id_hash_range [of 2 "[1, 2]"] by (auto split: if_splits)

end
