(* ===== verification/My_Config.thy ===== *)
theory My_Config
  imports Prelude
begin

text \<open>
  \<open>src/utils/config/my_config.cpp\<close>: the reader of configuration files with sections and items. The
  file is the string that \<open>fopen\<close> gives access to, nothing if it fails; the maps of the C++ library
  are maps; the line buffer is a list of characters that is stripped in place. \<open>None\<close> is an access
  outside of the buffer.
\<close>

section \<open>The code\<close>

definition MAX_CONF_ITEM_LENTH :: nat where "MAX_CONF_ITEM_LENTH = 1024"

definition NUL :: char where "NUL = CHR 0x00"
definition NEWLINE :: char where "NEWLINE = CHR 0x0A"

record my_config =
  m_contener :: "string \<rightharpoonup> (string \<rightharpoonup> string)"
  m_iLoaded :: int

text \<open>The local variables of \<open>loadConfigFile\<close>.\<close>

record reading =
  contener :: "string \<rightharpoonup> (string \<rightharpoonup> string)"
  cSectionName :: string
  cSection :: "string \<rightharpoonup> string"

text \<open>\<open>fgets\<close>: at most \<open>k\<close> characters up to a newline; the rest; whether the end was met.\<close>

fun fgets :: "nat \<Rightarrow> string \<Rightarrow> string \<times> string \<times> bool" where
  "fgets 0 file = ([], file, False)"
| "fgets (Suc k) [] = ([], [], True)"
| "fgets (Suc k) (c # file) = (if c = NEWLINE then ([c], file, False)
     else case fgets k file of (s, rest, eof) \<Rightarrow> (c # s, rest, eof))"

definition into_buffer :: "string \<Rightarrow> string \<Rightarrow> string" where
  "into_buffer s buf = s @ NUL # drop (length s + 1) buf"

definition c_str :: "string \<Rightarrow> string" where "c_str = takeWhile (\<lambda>c. c \<noteq> NUL)"

definition blank :: "char \<Rightarrow> bool" where
  "blank c \<longleftrightarrow> c = CHR '' '' \<or> c = CHR 0x09 \<or> c = CHR 0x0D \<or> c = NEWLINE"

text \<open>The loop that moves the characters down over the blanks, until a comment or the end.\<close>

function strip_loop :: "string \<Rightarrow> nat \<Rightarrow> nat \<Rightarrow> (string \<times> nat \<times> nat) option" where
  "strip_loop line i n =
     (if length line \<le> i then None
      else let c = line ! i in
        if c = NUL then Some (line, i, n)
        else if blank c then strip_loop line (i + 1) (n + 1)
        else if c = CHR '';'' then Some (line[i - n := NUL], i, n)
        else strip_loop (line[i - n := c]) (i + 1) n)"
  by pat_completeness auto

termination by (relation "measure (\<lambda>(line, i, n). length line - i)") auto

declare strip_loop.simps [simp del]

definition store_section :: "reading \<Rightarrow> reading" where
  "store_section r = (if cSectionName r \<noteq> [] then r\<lparr>contener := (contener r)(cSectionName r \<mapsto> cSection r)\<rparr> else r)"

text \<open>A stripped line of \<open>len\<close> characters: a new section or an item of the current one.\<close>

definition take_text :: "string \<Rightarrow> nat \<Rightarrow> reading \<Rightarrow> string \<times> reading" where
  "take_text szLine len r =
     (if szLine ! 0 = CHR ''['' \<and> szLine ! (len - 1) = CHR '']'' then
       (let r = store_section r;
            szLine = szLine[len - 1 := NUL]
        in (szLine, r\<lparr>cSectionName := c_str (drop 1 szLine), cSection := Map.empty\<rparr>))
     else if CHR ''='' \<notin> set (c_str szLine) then (szLine, r\<lparr>cSection := (cSection r)(c_str szLine \<mapsto> [])\<rparr>)
     else
       (let k = length (takeWhile (\<lambda>c. c \<noteq> CHR ''='') szLine);
            szLine = szLine[k := NUL]
        in (szLine, r\<lparr>cSection := (cSection r)(c_str szLine \<mapsto> c_str (drop (k + 1) szLine))\<rparr>)))"

definition take_line :: "string \<Rightarrow> reading \<Rightarrow> (string \<times> reading) option" where
  "take_line szLine r = do {
     (szLine, i, iNum) \<leftarrow> strip_loop szLine 0 0;
     let szLine = szLine[i - iNum := NUL];
     Some (if i = iNum then (szLine, r) else take_text szLine (i - iNum) r)
   }"

lemma fgets_parts: "fgets k file = (s, rest, eof) \<Longrightarrow> file = s @ rest \<and> length s \<le> k"
  by (induction k "file" arbitrary: s rest eof rule: fgets.induct) (auto split: if_splits prod.splits)

function read_loop :: "string \<Rightarrow> bool \<Rightarrow> string \<Rightarrow> reading \<Rightarrow> reading option" where
  "read_loop file eof szLine r =
     (if eof then Some (store_section r)
      else case fgets (MAX_CONF_ITEM_LENTH - 1) file of (s, rest, eof) \<Rightarrow>
        if s = [] then Some (store_section r)
        else do {
          (szLine, r) \<leftarrow> take_line (into_buffer s szLine) r;
          read_loop rest eof szLine r
        })"
  by pat_completeness auto

termination
  by (relation "measure (\<lambda>(file, eof, szLine, r). length file)") (auto dest!: fgets_parts [OF sym])

declare read_loop.simps [simp del]

definition loadConfigFile :: "string option \<Rightarrow> string option \<Rightarrow> string \<Rightarrow> my_config \<Rightarrow> (int \<times> my_config) option" where
  "loadConfigFile s_cnf_file opened junk c =
     (if s_cnf_file = None then Some (- 1, c)
      else case opened of
          None \<Rightarrow> Some (- 1, c)
        | Some file \<Rightarrow> do {
            r \<leftarrow> read_loop file False junk \<lparr>contener = m_contener c, cSectionName = [], cSection = Map.empty\<rparr>;
            Some (0, c\<lparr>m_contener := contener r, m_iLoaded := 1\<rparr>)
          })"

text \<open>\<open>atoi\<close>: blanks, a sign, digits; a value that is no \<open>int\<close> is undefined.\<close>

fun digits_value :: "int \<Rightarrow> string \<Rightarrow> int" where
  "digits_value v [] = v"
| "digits_value v (c # s) = (if 48 \<le> (of_char c :: int) \<and> of_char c \<le> (57 :: int) then digits_value (10 * v + (of_char c - 48)) s else v)"

definition atoi :: "string \<Rightarrow> int option" where
  "atoi s = (let s = dropWhile (\<lambda>c. blank c \<or> c = CHR 0x0B \<or> c = CHR 0x0C) s;
       v = (case s of c # t \<Rightarrow> if c = CHR ''-'' then - digits_value 0 t else if c = CHR ''+'' then digits_value 0 t else digits_value 0 s
            | [] \<Rightarrow> 0)
     in if - (2 ^ 31) \<le> v \<and> v < 2 ^ 31 then Some v else None)"

definition getConfigStr :: "my_config \<Rightarrow> string \<Rightarrow> string \<Rightarrow> string option" where
  "getConfigStr c s_section s_item = do {
     items \<leftarrow> m_contener c s_section;
     items s_item
   }"

definition getCfgStr :: "my_config \<Rightarrow> string \<Rightarrow> string \<Rightarrow> string" where
  "getCfgStr c s_section s_item =
     (case m_contener c s_section of None \<Rightarrow> []
      | Some items \<Rightarrow> (case items s_item of None \<Rightarrow> [] | Some v \<Rightarrow> v))"

definition getConfigInt :: "my_config \<Rightarrow> string \<Rightarrow> string \<Rightarrow> int option" where
  "getConfigInt c s_section s_item =
     (case m_contener c s_section of None \<Rightarrow> Some (- 1)
      | Some items \<Rightarrow> (case items s_item of None \<Rightarrow> Some (- 1) | Some v \<Rightarrow> atoi (c_str v)))"

section \<open>What a line means\<close>

definition clean_text :: "string \<Rightarrow> string" where
  "clean_text s = filter (\<lambda>c. \<not> blank c) (takeWhile (\<lambda>c. c \<noteq> CHR '';'') s)"

lemma clean_text_simps [simp]:
  "clean_text [] = []"
  "clean_text (c # s) = (if c = CHR '';'' then [] else if blank c then clean_text s else c # clean_text s)"
  by (auto simp: clean_text_def blank_def NEWLINE_def)

lemma strip_loop_ok:
  assumes "n \<le> i" "drop i line = s @ NUL # junk" "NUL \<notin> set s"
  shows "\<exists>line' i' n'. strip_loop line i n = Some (line', i', n') \<and> n' \<le> i' \<and> i' < length line' \<and>
    i' - n' = i - n + length (clean_text s) \<and> take (i' - n') line' = take (i - n) line @ clean_text s"
  using assms
proof (induction s arbitrary: line i n)
  case Nil
  then have i: "i < length line" "line ! i = NUL"
    by (auto simp: nth_via_drop intro: ccontr)
  then show ?case using Nil.prems(1) by (subst strip_loop.simps) simp
next
  case (Cons c s)
  have i: "i < length line" "line ! i = c" "drop (i + 1) line = s @ NUL # junk"
    using Cons.prems(2) by (auto simp: nth_via_drop intro: ccontr) (metis drop_Suc tl_drop list.sel(3))
  have c: "c \<noteq> NUL" "NUL \<notin> set s" using Cons.prems(3) by auto
  consider (blank) "blank c" | (comment) "\<not> blank c" "c = CHR '';''" | (other) "\<not> blank c" "c \<noteq> CHR '';''" by blast
  then show ?case
  proof cases
    case blank
    then have "c \<noteq> CHR '';''" by (auto simp: blank_def NEWLINE_def)
    moreover have "strip_loop line i n = strip_loop line (i + 1) (n + 1)"
      using i c blank by (subst strip_loop.simps) (simp add: Let_def)
    ultimately show ?thesis using Cons.IH [of "n + 1" "i + 1" line] Cons.prems(1) i(3) c(2) blank by simp
  next
    case comment
    have "strip_loop line i n = Some (line[i - n := NUL], i, n)"
      using i c comment by (subst strip_loop.simps) (simp add: Let_def)
    then show ?thesis using Cons.prems(1) i(1) comment by simp
  next
    case other
    define line' where "line' = line[i - n := c]"
    have "strip_loop line i n = strip_loop line' (i + 1) n"
      using i c other by (subst strip_loop.simps) (simp add: Let_def line'_def)
    moreover have "drop (i + 1) line' = s @ NUL # junk" using i(3) by (simp add: line'_def)
    moreover have "take (i + 1 - n) line' = take (i - n) line @ [c]"
      using i(1) Cons.prems(1) by (simp add: line'_def Suc_diff_le take_Suc_conv_app_nth)
    ultimately show ?thesis using Cons.IH [of n "i + 1" line'] Cons.prems(1) c(2) other by (simp add: Suc_diff_le)
  qed
qed

definition apply_text :: "string \<Rightarrow> reading \<Rightarrow> reading" where
  "apply_text t r =
     (if t = [] then r
      else if hd t = CHR ''['' \<and> last t = CHR '']'' then (store_section r)\<lparr>cSectionName := tl (butlast t), cSection := Map.empty\<rparr>
      else if CHR ''='' \<notin> set t then r\<lparr>cSection := (cSection r)(t \<mapsto> [])\<rparr>
      else r\<lparr>cSection := (cSection r)(takeWhile (\<lambda>c. c \<noteq> CHR ''='') t \<mapsto> tl (dropWhile (\<lambda>c. c \<noteq> CHR ''='') t))\<rparr>)"

lemma c_str_text: "NUL \<notin> set t \<Longrightarrow> c_str (t @ NUL # junk) = t"
  by (induction t) (auto simp: c_str_def)

lemma NUL_chars [simp]: "NUL \<noteq> CHR ''=''" "NUL \<noteq> CHR ''[''" "NUL \<noteq> CHR '']''" "\<not> blank NUL"
  by (auto simp: NUL_def blank_def NEWLINE_def)

lemma at_equals:
  assumes "CHR ''='' \<notin> set k"
  shows "takeWhile (\<lambda>c. c \<noteq> CHR ''='') (k @ CHR ''='' # x) = k" "dropWhile (\<lambda>c. c \<noteq> CHR ''='') (k @ CHR ''='' # x) = CHR ''='' # x"
  using assms by (induction k) auto

lemma take_text_means:
  assumes "line = t @ NUL # junk" "NUL \<notin> set t" "t \<noteq> []"
  shows "snd (take_text line (length t) r) = apply_text t r"
proof -
  have h: "line ! 0 = hd t" "line ! (length t - 1) = last t"
    using assms by (auto simp: nth_append hd_conv_nth last_conv_nth)
  have str: "c_str line = t" using assms by (simp add: c_str_text)
  show ?thesis
  proof (cases "hd t = CHR ''['' \<and> last t = CHR '']''")
    case True
    obtain m where t: "t = CHR ''['' # m @ [CHR '']'']"
    proof -
      obtain u where u: "t = CHR ''['' # u" using True assms(3) by (cases t) auto
      moreover have "u \<noteq> []" using True u by auto
      ultimately show thesis using that [of "butlast u"] True append_butlast_last_id [of u] by simp
    qed
    have "line[length t - 1 := NUL] = CHR ''['' # m @ NUL # NUL # junk" by (simp add: assms(1) t list_update_append)
    then have "c_str (drop 1 (line[length t - 1 := NUL])) = m" using assms(2) by (simp add: t c_str_text)
    moreover have "tl (butlast t) = m" by (simp add: t)
    ultimately show ?thesis using True assms(3) by (simp add: h take_text_def apply_text_def Let_def del: One_nat_def)
  next
    case head: False
    show ?thesis
    proof (cases "CHR ''='' \<in> set t")
      case True
      then obtain k v where t: "t = k @ CHR ''='' # v" "CHR ''='' \<notin> set k" by (meson split_list_first)
      note tw = at_equals [OF t(2)]
      have line: "line[length k := NUL] = k @ NUL # v @ NUL # junk" by (simp add: assms(1) t)
      have "NUL \<notin> set k" "NUL \<notin> set v" using assms(2) by (simp_all add: t)
      then have "c_str (line[length k := NUL]) = k" "c_str (drop (length k + 1) (line[length k := NUL])) = v"
        unfolding line by (simp_all add: c_str_text)
      moreover have "takeWhile (\<lambda>c. c \<noteq> CHR ''='') line = k" using tw by (simp add: assms(1) t(1))
      moreover have "takeWhile (\<lambda>c. c \<noteq> CHR ''='') t = k" "tl (dropWhile (\<lambda>c. c \<noteq> CHR ''='') t) = v" using tw by (simp_all add: t(1))
      ultimately show ?thesis using head True assms(3) by (auto simp: h str take_text_def apply_text_def Let_def simp del: One_nat_def)
    next
      case False
      then show ?thesis using head assms(3) by (auto simp: h str take_text_def apply_text_def simp del: One_nat_def)
    qed
  qed
qed

lemma take_line_means:
  assumes "NUL \<notin> set s"
  shows "\<exists>buf'. take_line (s @ NUL # junk) r = Some (buf', apply_text (clean_text s) r)"
proof -
  define t where "t = clean_text s"
  have t: "NUL \<notin> set t" using assms by (auto simp: t_def clean_text_def dest: set_takeWhileD)
  obtain line i n where st: "strip_loop (s @ NUL # junk) 0 0 = Some (line, i, n)" "n \<le> i" "i < length line"
    "i - n = length t" "take (i - n) line = t"
    using strip_loop_ok [of 0 0 "s @ NUL # junk" s junk] assms by (auto simp: t_def)
  have line: "line[i - n := NUL] = t @ NUL # drop (i - n + 1) line"
    using st(3,5) upd_conv_take_nth_drop [of "i - n" line NUL] by simp
  show ?thesis
  proof (cases "t = []")
    case True
    then show ?thesis using st by (simp add: take_line_def t_def [symmetric] apply_text_def)
  next
    case False
    then have "i \<noteq> n" using st(4) by auto
    then show ?thesis using take_text_means [OF line t False, of r] st(1,4)
      by (cases "take_text (line[length t := NUL]) (length t) r") (simp add: take_line_def flip: t_def)
  qed
qed

section \<open>What a file means\<close>

text \<open>The pieces that \<open>fgets\<close> reads one after the other.\<close>

function pieces :: "string \<Rightarrow> string list" where
  "pieces s = (case fgets (MAX_CONF_ITEM_LENTH - 1) s of (p, rest, _) \<Rightarrow> if p = [] then [] else p # pieces rest)"
  by pat_completeness auto

termination by (relation "measure length") (auto dest!: fgets_parts [OF sym])

declare pieces.simps [simp del]

lemma fgets_end: "fgets k s = (p, rest, True) \<Longrightarrow> rest = []"
  by (induction k s arbitrary: p rest rule: fgets.induct) (auto split: if_splits prod.splits)

lemma pieces_Nil: "pieces [] = []"
  by (subst pieces.simps) (simp add: MAX_CONF_ITEM_LENTH_def numeral_eq_Suc)

definition apply_piece :: "string \<Rightarrow> reading \<Rightarrow> reading" where
  "apply_piece p = apply_text (clean_text (c_str p))"

lemma c_str_no_NUL: "NUL \<notin> set (c_str s)"
  by (auto simp: c_str_def dest: set_takeWhileD)

lemma take_buffer_means: "\<exists>buf'. take_line (into_buffer p buf) r = Some (buf', apply_piece p r)"
proof -
  have "\<exists>junk. p @ NUL # x = c_str p @ NUL # junk" for x
    by (induction p) (auto simp: c_str_def)
  then obtain junk where "into_buffer p buf = c_str p @ NUL # junk" unfolding into_buffer_def by blast
  then show ?thesis using take_line_means [OF c_str_no_NUL] by (simp add: apply_piece_def)
qed

lemma read_loop_fold:
  "read_loop file eof buf r = Some (store_section (fold apply_piece (if eof then [] else pieces file) r))"
proof (induction "file" eof buf r rule: read_loop.induct)
  case (1 inp eof buf r)
  obtain p rest e where f: "fgets (MAX_CONF_ITEM_LENTH - 1) inp = (p, rest, e)" by (metis prod.exhaust)
  obtain buf' where b: "take_line (into_buffer p buf) r = Some (buf', apply_piece p r)" using take_buffer_means by blast
  show ?case
  proof (cases "eof \<or> p = []")
    case True
    then show ?thesis using f by (subst read_loop.simps, subst pieces.simps) auto
  next
    case False
    have "pieces inp = p # pieces rest" using f False by (subst pieces.simps) simp
    moreover have "(if e then [] else pieces rest) = pieces rest" using f by (cases e) (auto dest: fgets_end simp: pieces_Nil)
    moreover have "read_loop inp eof buf r = read_loop rest e buf' (apply_piece p r)"
      using False f b by (subst read_loop.simps) simp
    moreover have "read_loop rest e buf' (apply_piece p r) = Some (store_section (fold apply_piece (if e then [] else pieces rest) (apply_piece p r)))"
      using False f b by (intro 1) auto
    ultimately show ?thesis using False by simp
  qed
qed

definition started :: "my_config \<Rightarrow> reading" where
  "started c = \<lparr>contener = m_contener c, cSectionName = [], cSection = Map.empty\<rparr>"

lemma load_fold:
  "loadConfigFile (Some nm) (Some inp) junk c =
     Some (0, c\<lparr>m_contener := contener (store_section (fold apply_piece (pieces inp) (started c))), m_iLoaded := 1\<rparr>)"
  by (simp add: loadConfigFile_def read_loop_fold started_def)

section \<open>Writing a configuration\<close>

type_synonym ini = "(string \<times> (string \<times> string) list) list"

definition section_lines :: "string \<times> (string \<times> string) list \<Rightarrow> string list" where
  "section_lines s = (CHR ''['' # fst s @ [CHR '']'']) # map (\<lambda>(k, v). k @ CHR ''='' # v) (snd s)"

definition print_config :: "ini \<Rightarrow> string" where
  "print_config cfg = concat (map (\<lambda>l. l @ [NEWLINE]) (concat (map section_lines cfg)))"

definition plain :: "string \<Rightarrow> bool" where
  "plain s \<longleftrightarrow> (\<forall>c \<in> set s. \<not> blank c \<and> c \<noteq> CHR '';'' \<and> c \<noteq> NUL)"

definition printable :: "ini \<Rightarrow> bool" where
  "printable cfg \<longleftrightarrow> (\<forall>(n, its) \<in> set cfg. n \<noteq> [] \<and> plain n \<and> length n + 3 < MAX_CONF_ITEM_LENTH \<and>
     (\<forall>(k, v) \<in> set its. plain k \<and> plain v \<and> CHR ''='' \<notin> set k \<and> CHR ''['' \<notin> set k \<and> length k + length v + 2 < MAX_CONF_ITEM_LENTH))"

lemma fgets_line: "NEWLINE \<notin> set l \<Longrightarrow> length l < k \<Longrightarrow> \<exists>e. fgets k (l @ NEWLINE # rest) = (l @ [NEWLINE], rest, e)"
proof (induction l arbitrary: k)
  case Nil
  then show ?case by (cases k) auto
next
  case (Cons c l)
  then obtain j where j: "k = Suc j" "length l < j" by (cases k) auto
  moreover obtain e where "fgets j (l @ NEWLINE # rest) = (l @ [NEWLINE], rest, e)" using Cons.IH [OF _ j(2)] Cons.prems(1) by auto
  ultimately show ?case using Cons.prems by auto
qed

lemma pieces_lines:
  "\<forall>l \<in> set ls. NEWLINE \<notin> set l \<and> length l + 1 < MAX_CONF_ITEM_LENTH \<Longrightarrow>
   pieces (concat (map (\<lambda>l. l @ [NEWLINE]) ls)) = map (\<lambda>l. l @ [NEWLINE]) ls"
proof (induction ls)
  case (Cons l ls)
  obtain e where "fgets (MAX_CONF_ITEM_LENTH - 1) (l @ NEWLINE # concat (map (\<lambda>l. l @ [NEWLINE]) ls)) =
      (l @ [NEWLINE], concat (map (\<lambda>l. l @ [NEWLINE]) ls), e)"
  proof -
    have "length l < MAX_CONF_ITEM_LENTH - 1" "NEWLINE \<notin> set l" using Cons.prems by auto
    then show thesis using that fgets_line by blast
  qed
  then show ?case using Cons by (subst pieces.simps) simp
qed (simp add: pieces_Nil)

lemma apply_plain: "plain l \<Longrightarrow> apply_piece (l @ [NEWLINE]) = apply_text l"
proof -
  assume l: "plain l"
  then have "c_str (l @ [NEWLINE]) = l @ [NEWLINE]"
    by (induction l) (auto simp: c_str_def plain_def NEWLINE_def NUL_def)
  moreover have "clean_text (l @ [NEWLINE]) = l" using l by (induction l) (auto simp: plain_def blank_def NEWLINE_def)
  ultimately show ?thesis by (simp add: apply_piece_def)
qed

lemma plain_simps [simp]: "plain []" "plain (s @ t) \<longleftrightarrow> plain s \<and> plain t"
  "plain (c # s) \<longleftrightarrow> \<not> blank c \<and> c \<noteq> CHR '';'' \<and> c \<noteq> NUL \<and> plain s"
  by (auto simp: plain_def)

lemma plain_marks [simp]: "\<not> blank (CHR ''['')" "\<not> blank (CHR '']'')" "\<not> blank (CHR ''='')"
  "CHR ''['' \<noteq> NUL" "CHR '']'' \<noteq> NUL" "CHR ''='' \<noteq> NUL"
  by (simp_all add: blank_def NEWLINE_def NUL_def)

lemma plain_no_newline: "plain l \<Longrightarrow> NEWLINE \<notin> set l"
  by (auto simp: plain_def blank_def)

lemma printable_lines:
  assumes "printable cfg"
  shows "\<forall>l \<in> set (concat (map section_lines cfg)). plain l \<and> length l + 1 < MAX_CONF_ITEM_LENTH"
proof
  fix l assume "l \<in> set (concat (map section_lines cfg))"
  then obtain n its where s: "(n, its) \<in> set cfg" "l \<in> set (section_lines (n, its))" by auto
  have ok: "plain n" "length n + 3 < MAX_CONF_ITEM_LENTH"
    "\<forall>(k, v) \<in> set its. plain k \<and> plain v \<and> length k + length v + 2 < MAX_CONF_ITEM_LENTH"
    using bspec [OF assms [unfolded printable_def] s(1)] by auto
  from s(2) consider "l = CHR ''['' # n @ [CHR '']'']" | k v where "(k, v) \<in> set its" "l = k @ CHR ''='' # v"
    by (auto simp: section_lines_def)
  then show "plain l \<and> length l + 1 < MAX_CONF_ITEM_LENTH"
  proof cases
    case (2 k v)
    then show ?thesis using bspec [OF ok(3) 2(1)] by simp
  qed (use ok in simp)
qed

lemma fold_lines: "\<forall>l \<in> set ls. plain l \<Longrightarrow> fold apply_piece (map (\<lambda>l. l @ [NEWLINE]) ls) r = fold apply_text ls r"
  by (induction ls arbitrary: r) (simp_all add: apply_plain)

lemma apply_item:
  "CHR ''='' \<notin> set k \<Longrightarrow> CHR ''['' \<notin> set k \<Longrightarrow> apply_text (k @ CHR ''='' # v) r = r\<lparr>cSection := (cSection r)(k \<mapsto> v)\<rparr>"
proof -
  assume k: "CHR ''='' \<notin> set k" "CHR ''['' \<notin> set k"
  then have "hd (k @ CHR ''='' # v) \<noteq> CHR ''[''" by (cases k) auto
  then show ?thesis by (simp add: apply_text_def at_equals [OF k(1)])
qed

lemma fold_items:
  "\<forall>(k, v) \<in> set its. CHR ''='' \<notin> set k \<and> CHR ''['' \<notin> set k \<Longrightarrow>
   fold apply_text (map (\<lambda>(k, v). k @ CHR ''='' # v) its) r = r\<lparr>cSection := cSection r ++ map_of (rev its)\<rparr>"
proof (induction its arbitrary: r)
  case (Cons kv its)
  then show ?case by (cases kv) (simp add: apply_item map_add_assoc)
qed simp

lemma fold_section:
  assumes "printable (s # cfg)"
  shows "fold apply_text (section_lines s) r = (store_section r)\<lparr>cSectionName := fst s, cSection := map_of (rev (snd s))\<rparr>"
proof -
  have "apply_text (CHR ''['' # fst s @ [CHR '']'']) r = (store_section r)\<lparr>cSectionName := fst s, cSection := Map.empty\<rparr>"
    by (simp add: apply_text_def)
  moreover have "\<forall>(k, v) \<in> set (snd s). CHR ''='' \<notin> set k \<and> CHR ''['' \<notin> set k"
    using assms by (auto simp: printable_def)
  ultimately show ?thesis using fold_items by (simp add: section_lines_def)
qed

definition maps_of :: "ini \<Rightarrow> string \<rightharpoonup> (string \<rightharpoonup> string)" where
  "maps_of cfg = map_of (rev (map (\<lambda>(n, its). (n, map_of (rev its))) cfg))"

lemma fold_config:
  "printable cfg \<Longrightarrow> contener (store_section (fold apply_text (concat (map section_lines cfg)) r)) = contener (store_section r) ++ maps_of cfg"
proof (induction cfg arbitrary: r)
  case (Cons s cfg)
  have "printable cfg" "fst s \<noteq> []" using Cons.prems by (auto simp: printable_def)
  moreover have "maps_of (s # cfg) = [fst s \<mapsto> map_of (rev (snd s))] ++ maps_of cfg"
    by (cases s) (simp add: maps_of_def)
  ultimately show ?case using Cons.IH by (simp add: fold_section [OF Cons.prems] store_section_def map_add_assoc)
qed (simp add: maps_of_def)

lemma load_print:
  assumes "printable cfg"
  shows "loadConfigFile (Some nm) (Some (print_config cfg)) junk c =
    Some (0, c\<lparr>m_contener := m_contener c ++ maps_of cfg, m_iLoaded := 1\<rparr>)"
proof -
  have lines: "\<forall>l \<in> set (concat (map section_lines cfg)). plain l \<and> length l + 1 < MAX_CONF_ITEM_LENTH"
    by (rule printable_lines [OF assms])
  have "pieces (print_config cfg) = map (\<lambda>l. l @ [NEWLINE]) (concat (map section_lines cfg))"
    unfolding print_config_def by (rule pieces_lines) (use lines plain_no_newline in blast)
  then have "fold apply_piece (pieces (print_config cfg)) (started c) = fold apply_text (concat (map section_lines cfg)) (started c)"
    using fold_lines [of "concat (map section_lines cfg)" "started c"] lines by simp
  then show ?thesis using fold_config [OF assms, of "started c"] by (simp add: load_fold started_def store_section_def)
qed

section \<open>Properties\<close>

text \<open>The loop that strips a line in place leaves the characters that are no blanks, up to the first semicolon, in
  their order and terminated, and never writes outside of the buffer; what the rest of the loop body does with them
  depends on nothing else.\<close>
theorem take_line_reads_text:
  "\<exists>buf'. take_line (into_buffer line buf) r =
     Some (buf', apply_text (filter (\<lambda>c. \<not> blank c) (takeWhile (\<lambda>c. c \<noteq> CHR '';'') (c_str line))) r)"
  using take_buffer_means by (simp add: apply_piece_def clean_text_def)

text \<open>Loading never fails once the file is open, whatever it holds. The result is that of the lines, one after
  the other, cut into pieces of at most 1023 characters; the flag is set.\<close>
theorem load_reads_pieces:
  assumes "s_cnf_file = Some nm" and "opened = Some inp"
  shows "loadConfigFile s_cnf_file opened junk c = Some (0, c\<lparr>m_contener := contener (store_section (fold apply_piece (pieces inp)
      \<lparr>contener = m_contener c, cSectionName = [], cSection = Map.empty\<rparr>)), m_iLoaded := 1\<rparr>) \<and>
    concat (pieces inp) = inp \<and> (\<forall>p \<in> set (pieces inp). length p \<le> 1023)"
proof -
  have "concat (pieces inp) = inp \<and> (\<forall>p \<in> set (pieces inp). length p \<le> 1023)"
  proof (induction inp rule: pieces.induct)
    case (1 s)
    obtain p rest e where f: "fgets (MAX_CONF_ITEM_LENTH - 1) s = (p, rest, e)" by (metis prod.exhaust)
    have "p = [] \<Longrightarrow> s = []"
      using f by (cases s) (auto simp: MAX_CONF_ITEM_LENTH_def numeral_eq_Suc split: if_splits prod.splits)
    with f fgets_parts [OF f] 1 [OF f [symmetric] refl] show ?case
      by (subst (1 2) pieces.simps) (auto simp: MAX_CONF_ITEM_LENTH_def)
  qed
  then show ?thesis using assms load_fold [of nm inp junk c] by (simp add: started_def)
qed

theorem load_reads_pieces_witness:
  "\<exists>c'. loadConfigFile (Some ''a'') (Some ''[A]'') [] \<lparr>m_contener = Map.empty, m_iLoaded = 0\<rparr> = Some (0, c')"
  using load_reads_pieces [of "Some ''a''" "''a''" "Some ''[A]''" "''[A]''"] by blast

text \<open>C31: A configuration that is written as text and loaded is there again: every item of every section can be read,
  as a string and as a number, if names and values have no blanks and marks and fit on a line, and no section or item
  is given twice.\<close>
theorem config_round_trip:
  assumes "printable cfg" and "distinct (map fst cfg)" "\<forall>(n, its) \<in> set cfg. distinct (map fst its)"
  shows "\<exists>c'. loadConfigFile (Some nm) (Some (print_config cfg)) junk c = Some (0, c') \<and> m_iLoaded c' = 1 \<and>
    (\<forall>(n, its) \<in> set cfg. \<forall>(k, v) \<in> set its. getConfigStr c' n k = Some v \<and> getCfgStr c' n k = v \<and> getConfigInt c' n k = atoi v)"
proof -
  define c' where "c' = c\<lparr>m_contener := m_contener c ++ maps_of cfg, m_iLoaded := 1\<rparr>"
  have get: "m_contener c' n = Some (map_of (rev its))" if "(n, its) \<in> set cfg" for n its
  proof -
    have "distinct (map fst (rev (map (\<lambda>(n, its). (n, map_of (rev its))) cfg)))"
      using assms(2) by (simp add: rev_map [symmetric] split_def comp_def)
    moreover have "(n, map_of (rev its)) \<in> set (rev (map (\<lambda>(n, its). (n, map_of (rev its))) cfg))" using that by force
    ultimately have "maps_of cfg n = Some (map_of (rev its))" unfolding maps_of_def by (rule map_of_is_SomeI)
    then show ?thesis by (simp add: c'_def map_add_def)
  qed
  have item: "map_of (rev its) k = Some v" "c_str v = v" if "(n, its) \<in> set cfg" "(k, v) \<in> set its" for n its k v
  proof -
    have "distinct (map fst (rev its))" using assms(3) that(1) by (auto simp: rev_map [symmetric])
    then show "map_of (rev its) k = Some v" using that(2) by (intro map_of_is_SomeI) simp_all
    have "plain v" using bspec [OF assms(1) [unfolded printable_def] that(1)] that(2) by auto
    then show "c_str v = v" by (auto simp: c_str_def plain_def takeWhile_eq_all_conv)
  qed
  have "loadConfigFile (Some nm) (Some (print_config cfg)) junk c = Some (0, c')" unfolding c'_def by (rule load_print [OF assms(1)])
  moreover have "m_iLoaded c' = 1" by (simp add: c'_def)
  ultimately show ?thesis using get item by (fastforce simp: getConfigStr_def getCfgStr_def getConfigInt_def)
qed

theorem config_round_trip_witness:
  "\<exists>c'. loadConfigFile (Some ''f'') (Some (print_config [(''P'', [(''Age'', ''42'')])])) [] \<lparr>m_contener = Map.empty, m_iLoaded = 0\<rparr> = Some (0, c') \<and>
    getConfigInt c' ''P'' ''Age'' = Some 42"
proof -
  have "atoi ''42'' = Some 42" by (simp add: atoi_def blank_def NEWLINE_def)
  moreover have "printable [(''P'', [(''Age'', ''42'')])]"
    by (simp add: printable_def plain_def blank_def NEWLINE_def NUL_def MAX_CONF_ITEM_LENTH_def)
  ultimately show ?thesis
    using config_round_trip [of "[(''P'', [(''Age'', ''42'')])]" "''f''" "[]" "\<lparr>m_contener = Map.empty, m_iLoaded = 0\<rparr>"] by auto
qed

text \<open>A section that is opened again replaces what an earlier one of that name held, and items before the first
  section are lost: after any lines that fit the buffer, a last section has exactly the items that follow it.\<close>
theorem last_section_replaces:
  assumes "printable [(n, its)]" and "\<forall>l \<in> set ls. NEWLINE \<notin> set l \<and> length l + 1 < MAX_CONF_ITEM_LENTH"
  shows "\<exists>c'. loadConfigFile (Some nm) (Some (concat (map (\<lambda>l. l @ [NEWLINE]) ls) @ print_config [(n, its)])) junk c = Some (0, c') \<and>
    m_contener c' n = Some (map_of (rev its))"
proof -
  have lines: "\<forall>l \<in> set (section_lines (n, its)). plain l \<and> length l + 1 < MAX_CONF_ITEM_LENTH"
    using printable_lines [OF assms(1)] by simp
  define r where "r = fold apply_piece (map (\<lambda>l. l @ [NEWLINE]) ls) (started c)"
  have "pieces (concat (map (\<lambda>l. l @ [NEWLINE]) (ls @ section_lines (n, its)))) = map (\<lambda>l. l @ [NEWLINE]) (ls @ section_lines (n, its))"
    using lines assms(2) plain_no_newline by (intro pieces_lines) auto
  then have "fold apply_piece (pieces (concat (map (\<lambda>l. l @ [NEWLINE]) ls) @ print_config [(n, its)])) (started c) =
      fold apply_text (section_lines (n, its)) r"
    using fold_lines [of "section_lines (n, its)" r] lines by (simp add: print_config_def r_def)
  also have "\<dots> = (store_section r)\<lparr>cSectionName := n, cSection := map_of (rev its)\<rparr>"
    using fold_section [OF assms(1)] by simp
  finally show ?thesis using assms(1) by (simp add: load_fold store_section_def printable_def)
qed

theorem last_section_replaces_witness:
  "\<exists>c'. loadConfigFile (Some ''f'') (Some (concat (map (\<lambda>l. l @ [NEWLINE]) [''[P]'', ''a=1'']) @ print_config [(''P'', [(''b'', ''2'')])])) []
     \<lparr>m_contener = Map.empty, m_iLoaded = 0\<rparr> = Some (0, c') \<and> m_contener c' ''P'' = Some (map_of [(''b'', ''2'')])"
proof -
  have "printable [(''P'', [(''b'', ''2'')])]"
    by (simp add: printable_def plain_def blank_def NEWLINE_def NUL_def MAX_CONF_ITEM_LENTH_def)
  moreover have "\<forall>l \<in> set [''[P]'', ''a=1'']. NEWLINE \<notin> set l \<and> length l + 1 < MAX_CONF_ITEM_LENTH"
    by (simp add: NEWLINE_def MAX_CONF_ITEM_LENTH_def)
  ultimately show ?thesis using last_section_replaces [of "''P''" "[(''b'', ''2'')]" "[''[P]'', ''a=1'']"] by simp
qed

end
