(* ===== verification/Decimal.thy ===== *)
theory Decimal
  imports Prelude
begin

text \<open>
  Numbers as the decimal text that the C and C++ libraries print, used by the theories that make
  or read names with numbers in them.
\<close>

definition digit :: "nat \<Rightarrow> char" where "digit d = char_of (48 + d)"

fun decimal :: "nat \<Rightarrow> string" where
  "decimal n = (if n < 10 then [digit n] else decimal (n div 10) @ [digit (n mod 10)])"

declare decimal.simps [simp del]

definition value_of :: "string \<Rightarrow> nat" where "value_of s = foldl (\<lambda>v c. 10 * v + (of_char c - 48)) 0 s"

lemma of_char_digit: "d < 10 \<Longrightarrow> (of_char (digit d) :: nat) = 48 + d"
  by (simp add: digit_def)

lemma value_of_snoc: "value_of (s @ [c]) = 10 * value_of s + (of_char c - 48)"
  by (simp add: value_of_def)

lemma value_of_decimal [simp]: "value_of (decimal n) = n"
proof (induction n rule: decimal.induct)
  case (1 n)
  then show ?case
    by (subst decimal.simps) (auto simp: value_of_snoc of_char_digit, simp add: value_of_def of_char_digit)
qed

lemma digit_no_slash: "d < 10 \<Longrightarrow> digit d \<noteq> CHR ''/''"
  using of_char_digit [of d] by auto

lemma decimal_no_slash: "CHR ''/'' \<notin> set (decimal n)"
proof (induction n rule: decimal.induct)
  case (1 n)
  have "digit (n mod 10) \<noteq> CHR ''/''" by (rule digit_no_slash) simp
  then show ?case using 1 digit_no_slash [of n] by (cases "n < 10") (auto simp: decimal.simps [of n])
qed

lemma decimal_digits: "\<forall>c \<in> set (decimal n). \<exists>d < 10. c = digit d"
proof (induction n rule: decimal.induct)
  case (1 n)
  have "\<exists>d < 10. digit (n mod 10) = digit d" by (rule exI [of _ "n mod 10"]) simp
  then show ?case using 1 by (cases "n < 10") (auto simp: decimal.simps [of n])
qed

lemma decimal_nonempty [simp]: "decimal n \<noteq> []"
  by (simp add: decimal.simps [of n])

end
