(* ===== verification/Log_Files.thy ===== *)
theory Log_Files
  imports Decimal
begin

text \<open>
  The loggers of \<open>src/utils/log\<close>: \<open>my_log.c\<close> formats a line in a buffer; \<open>log_size_rolling.cpp\<close> and
  \<open>log_daily_rolling.cpp\<close> keep backups of the log file. A file system maps a directory and a name in
  it to a file; an open log is the file with its name, as it is closed before it is renamed.
\<close>

section \<open>Formatting a line\<close>

definition LOG_MAX_LEN :: nat where "LOG_MAX_LEN = 256"

definition MY_OK :: int where "MY_OK = 0"
definition MY_ERROR :: int where "MY_ERROR = - 1"

record logger =
  lname :: string
  level :: int
  lfd :: int

definition log_init :: "int \<Rightarrow> int \<Rightarrow> string \<Rightarrow> logger \<Rightarrow> int \<times> logger" where
  "log_init fd lvl path l = (if fd < 0 then (MY_ERROR, l) else (MY_OK, l\<lparr>lfd := fd, lname := path, level := lvl\<rparr>))"

text \<open>The result of \<open>close\<close> is \<open>status\<close>; the second component says whether it was called.\<close>

definition log_deinit :: "int \<Rightarrow> logger \<Rightarrow> int \<times> bool" where
  "log_deinit status l = (if 0 < lfd l then (if status < 0 then MY_ERROR else MY_OK, True) else (MY_OK, False))"

definition log_loggable :: "int \<Rightarrow> logger \<Rightarrow> int" where
  "log_loggable lvl l = (if level l < lvl then 0 else 1)"

text \<open>
  \<open>snprintf (buf + len, size - len, ...)\<close> writes as much of the text as fits, terminated, and returns
  the length of the whole text. The room is a \<open>size_t\<close>: beyond the buffer it is huge.
\<close>

definition c_snprintf :: "string \<Rightarrow> nat \<Rightarrow> string \<Rightarrow> (nat \<times> string) option" where
  "c_snprintf buf len txt =
     (let room = unat (word_of_int (int LOG_MAX_LEN - int len) :: u64);
          out = take (room - 1) txt @ [CHR 0x00]
      in if room = 0 then Some (len + length txt, buf)
         else if len + length out \<le> length buf then Some (len + length txt, take len buf @ out @ drop (len + length out) buf)
         else None)"

definition put_at :: "string \<Rightarrow> nat \<Rightarrow> char \<Rightarrow> string option" where
  "put_at buf i c = (if i < length buf then Some (buf[i := c]) else None)"

text \<open>
  \<open>stamp\<close>, \<open>head\<close> and \<open>body\<close> are the formatted time, place and message; the result is what is given
  to \<open>write\<close>. \<open>junk\<close> is the uninitialised buffer.
\<close>

definition log_line :: "string \<Rightarrow> string \<Rightarrow> string \<Rightarrow> string \<Rightarrow> string option" where
  "log_line junk stamp head body = do {
     (len, buf) \<leftarrow> c_snprintf junk 0 stamp;
     (len, buf) \<leftarrow> c_snprintf buf len head;
     (len, buf) \<leftarrow> c_snprintf buf len body;
     buf \<leftarrow> put_at buf len (CHR 0x0A);
     Some (take (len + 1) buf)
   }"

definition log_stderr_line :: "string \<Rightarrow> string \<Rightarrow> string \<Rightarrow> string option" where
  "log_stderr_line junk stamp body = do {
     (len, buf) \<leftarrow> c_snprintf junk 0 stamp;
     (len, buf) \<leftarrow> c_snprintf buf len body;
     buf \<leftarrow> put_at buf len (CHR 0x0A);
     Some (take (len + 1) buf)
   }"

definition log_debug :: "logger \<Rightarrow> int \<Rightarrow> string \<Rightarrow> string \<Rightarrow> string \<Rightarrow> string \<Rightarrow> string option option" where
  "log_debug l lvl junk stamp head body =
     (if log_loggable lvl l \<noteq> 0 then map_option Some (log_line junk stamp head body) else Some None)"

section \<open>File systems\<close>

record stored =
  text_of :: string
  mtime :: int
  regular :: bool

type_synonym files = "string \<times> string \<rightharpoonup> stored"

text \<open>A path is split at its last slash; without one the file is in the current directory.\<close>

definition dir_of :: "string \<Rightarrow> string" where
  "dir_of path = (if CHR ''/'' \<in> set path then rev (tl (dropWhile (\<lambda>c. c \<noteq> CHR ''/'') (rev path))) else ''.'')"

definition base_of :: "string \<Rightarrow> string" where
  "base_of path = rev (takeWhile (\<lambda>c. c \<noteq> CHR ''/'') (rev path))"

definition at :: "string \<Rightarrow> string \<times> string" where
  "at path = (dir_of path, base_of path)"

definition rename_file :: "string \<Rightarrow> string \<Rightarrow> files \<Rightarrow> files" where
  "rename_file src dst fs = (case fs (at src) of None \<Rightarrow> fs
     | Some f \<Rightarrow> if at src = at dst then fs else fs(at dst \<mapsto> f, at src := None))"

definition remove_file :: "string \<Rightarrow> files \<Rightarrow> files" where
  "remove_file path fs = fs(at path := None)"

text \<open>\<open>open\<close> with \<open>O_CREAT\<close>, with or without \<open>O_TRUNC\<close>, at the time \<open>now\<close>; writes go to the end.\<close>

definition open_log :: "bool \<Rightarrow> int \<Rightarrow> string \<Rightarrow> files \<Rightarrow> files" where
  "open_log trunc now path fs = (case fs (at path) of
       None \<Rightarrow> fs(at path \<mapsto> \<lparr>text_of = [], mtime = now, regular = True\<rparr>)
     | Some f \<Rightarrow> if trunc then fs(at path \<mapsto> f\<lparr>text_of := [], mtime := now\<rparr>) else fs)"

definition append_log :: "int \<Rightarrow> string \<Rightarrow> string \<Rightarrow> files \<Rightarrow> files" where
  "append_log now path s fs = (case fs (at path) of None \<Rightarrow> fs
     | Some f \<Rightarrow> fs(at path \<mapsto> f\<lparr>text_of := text_of f @ s, mtime := now\<rparr>))"

section \<open>Numbers in names\<close>

text \<open>\<open>setw\<close> with \<open>setfill ('0')\<close>.\<close>

definition padded :: "nat \<Rightarrow> nat \<Rightarrow> string" where
  "padded w n = replicate (w - length (decimal n)) (CHR ''0'') @ decimal n"

section \<open>Rolling by size\<close>

record size_rolling =
  max_backup_index :: u32
  max_backup_index_width :: nat
  max_file_size :: u64
  is_open :: bool
  sr_trunc :: bool
  sr_filename :: string

text \<open>The conversion of \<open>log10\<close> of a \<open>float\<close> to an integer is the library's, \<open>log10f\<close>.\<close>

definition SizeRolling :: "(u32 \<Rightarrow> nat) \<Rightarrow> string \<Rightarrow> u64 \<Rightarrow> u32 \<Rightarrow> bool \<Rightarrow> bool \<Rightarrow> int \<Rightarrow> files \<Rightarrow> size_rolling \<times> files" where
  "SizeRolling log10f fname max_size max_index append_mode ok now fs =
     (\<lparr>max_backup_index = (if 0 < max_index then max_index else 1),
       max_backup_index_width = (if 0 < max_index then log10f max_index + 1 else 1),
       max_file_size = max_size, is_open = ok, sr_trunc = (\<not> append_mode), sr_filename = fname\<rparr>,
      if ok then open_log (\<not> append_mode) now fname fs else fs)"

definition backup_name :: "size_rolling \<Rightarrow> nat \<Rightarrow> string" where
  "backup_name r i = sr_filename r @ CHR ''.'' # padded (max_backup_index_width r) i"

text \<open>The loop from \<open>i\<close> down to 2, with the name of the last backup.\<close>

fun shift_backups :: "size_rolling \<Rightarrow> nat \<Rightarrow> string \<Rightarrow> files \<Rightarrow> string \<times> files" where
  "shift_backups r i last_name fs =
     (if 1 < i then shift_backups r (i - 1) (backup_name r (i - 1)) (rename_file (backup_name r (i - 1)) last_name fs)
      else (last_name, fs))"

declare shift_backups.simps [simp del]

definition size_roll_over :: "bool \<Rightarrow> int \<Rightarrow> size_rolling \<Rightarrow> files \<Rightarrow> size_rolling \<times> files" where
  "size_roll_over ok now r fs =
     (let fs = (if 0 < max_backup_index r then
          (let last_name = backup_name r (unat (max_backup_index r));
               fs = remove_file last_name fs;
               (last_name, fs) = shift_backups r (unat (max_backup_index r)) last_name fs
           in rename_file (sr_filename r) last_name fs)
          else fs)
      in (r\<lparr>is_open := ok\<rparr>, if ok then open_log (sr_trunc r) now (sr_filename r) fs else fs))"

definition size_line :: "string \<Rightarrow> string \<Rightarrow> string" where
  "size_line log_level msg = log_level @ CHR '' '' # msg @ [CHR 0x0A]"

definition size_log :: "bool \<Rightarrow> int \<Rightarrow> string \<Rightarrow> string \<Rightarrow> size_rolling \<Rightarrow> files \<Rightarrow> size_rolling \<times> files" where
  "size_log ok now log_level msg r fs =
     (if \<not> is_open r then (r, fs)
      else let fs = append_log now (sr_filename r) (size_line log_level msg) fs
        in case fs (at (sr_filename r)) of
            None \<Rightarrow> (r, fs)
          | Some f \<Rightarrow> if max_file_size r \<le> of_nat (length (text_of f)) then size_roll_over ok now r fs else (r, fs))"

section \<open>Rolling by day\<close>

record daily_rolling =
  maxDaysToKeep :: u32
  dr_trunc :: bool
  dr_filename :: string
  logs_time :: "nat \<times> nat \<times> nat"

text \<open>\<open>tm_of\<close> is \<open>localtime_r\<close>: years since 1900, months since January, and the day.\<close>

definition DailyRolling :: "(int \<Rightarrow> (nat \<times> nat \<times> nat) option) \<Rightarrow> string \<Rightarrow> u32 \<Rightarrow> bool \<Rightarrow> bool \<Rightarrow> int \<Rightarrow> files \<Rightarrow> (daily_rolling \<times> files) option" where
  "DailyRolling tm_of fname days append_mode ok now fs =
     (if \<not> ok then None
      else do {
        let fs = open_log (\<not> append_mode) now fname fs;
        let t = (case fs (at fname) of None \<Rightarrow> now | Some f \<Rightarrow> mtime f);
        tm \<leftarrow> tm_of t;
        Some (\<lparr>maxDaysToKeep = days, dr_trunc = (\<not> append_mode), dr_filename = fname, logs_time = tm\<rparr>, fs)
      })"

definition day_name :: "daily_rolling \<Rightarrow> string" where
  "day_name r = (case logs_time r of (y, m, d) \<Rightarrow>
     dr_filename r @ CHR ''.'' # decimal (y + 1900) @ CHR ''-'' # padded 2 (m + 1) @ CHR ''-'' # padded 2 d)"

fun strstr :: "string \<Rightarrow> string \<Rightarrow> bool" where
  "strstr [] t = (t = [])"
| "strstr (c # s) t = (take (length t) (c # s) = t \<or> strstr s t)"

text \<open>The age limit is computed in 32 bits without a sign.\<close>

definition oldest :: "int \<Rightarrow> daily_rolling \<Rightarrow> int" where
  "oldest now r = now - uint (maxDaysToKeep r * 24 * 60 * 60)"

text \<open>Each entry of the directory is looked up by its name alone.\<close>

definition expire_entry :: "int \<Rightarrow> daily_rolling \<Rightarrow> string \<Rightarrow> files \<Rightarrow> files" where
  "expire_entry now r d fs = (case fs (at d) of
       None \<Rightarrow> fs
     | Some f \<Rightarrow>
         if \<not> regular f then fs
         else if mtime f < oldest now r \<and> strstr d (base_of (dr_filename r))
           then remove_file (dir_of (dr_filename r) @ CHR ''/'' # d) fs
         else fs)"

definition daily_roll_over :: "string list option \<Rightarrow> int \<Rightarrow> daily_rolling \<Rightarrow> files \<Rightarrow> files" where
  "daily_roll_over entries now r fs =
     (let fs = rename_file (dr_filename r) (day_name r) fs;
          fs = open_log (dr_trunc r) now (dr_filename r) fs
      in case entries of None \<Rightarrow> fs | Some ds \<Rightarrow> fold (expire_entry now r) ds fs)"

definition daily_log :: "(int \<Rightarrow> (nat \<times> nat \<times> nat) option) \<Rightarrow> string list option \<Rightarrow> int \<Rightarrow> string \<Rightarrow> daily_rolling \<Rightarrow> files \<Rightarrow> daily_rolling \<times> files" where
  "daily_log tm_of entries t msg r fs =
     (let (r, fs) = (case tm_of t of
            None \<Rightarrow> (r, fs)
          | Some now \<Rightarrow> if now \<noteq> logs_time r then (r\<lparr>logs_time := now\<rparr>, daily_roll_over entries t r fs) else (r, fs))
      in (r, append_log t (dr_filename r) (msg @ [CHR 0x0A]) fs))"

section \<open>Names\<close>

lemma dir_base_append:
  assumes "CHR ''/'' \<notin> set s"
  shows "dir_of (p @ s) = dir_of p" "base_of (p @ s) = base_of p @ s"
proof -
  have "takeWhile (\<lambda>c. c \<noteq> CHR ''/'') (rev s @ rev p) = rev s @ takeWhile (\<lambda>c. c \<noteq> CHR ''/'') (rev p)"
    "dropWhile (\<lambda>c. c \<noteq> CHR ''/'') (rev s @ rev p) = dropWhile (\<lambda>c. c \<noteq> CHR ''/'') (rev p)"
    using assms by (auto intro!: takeWhile_append2 dropWhile_append2)
  then show "dir_of (p @ s) = dir_of p" "base_of (p @ s) = base_of p @ s" using assms by (auto simp: dir_of_def base_of_def)
qed

lemma at_append: "CHR ''/'' \<notin> set s \<Longrightarrow> at (p @ s) = (dir_of p, base_of p @ s)"
  by (simp add: at_def dir_base_append)

lemma at_in_dir: "CHR ''/'' \<notin> set d \<Longrightarrow> at (p @ CHR ''/'' # d) = (p, d)"
  using dir_base_append [of d "p @ ''/''"] by (simp add: at_def) (simp add: dir_of_def base_of_def)

lemma at_plain: "CHR ''/'' \<notin> set d \<Longrightarrow> at d = (''.'', d)"
  using dir_base_append [of d "[]"] by (simp add: at_def dir_of_def base_of_def)

lemma value_of_padded [simp]: "value_of (padded w n) = n"
proof -
  have "foldl (\<lambda>v c. 10 * v + (of_char c - 48)) 0 (replicate k (CHR ''0'') @ s) = foldl (\<lambda>v c. 10 * v + (of_char c - 48)) (0 :: nat) s" for k s
    by (induction k) simp_all
  then show ?thesis using value_of_decimal [of n] by (simp add: padded_def value_of_def)
qed

lemma padded_no_slash: "CHR ''/'' \<notin> set (padded w n)"
  using decimal_no_slash by (simp add: padded_def)

lemma at_backup: "at (backup_name r i) = (dir_of (sr_filename r), base_of (sr_filename r) @ CHR ''.'' # padded (max_backup_index_width r) i)"
  using at_append [of "CHR ''.'' # padded (max_backup_index_width r) i"] padded_no_slash by (simp add: backup_name_def)

lemma at_backup_inj [simp]: "at (backup_name r i) = at (backup_name r j) \<longleftrightarrow> i = j"
  unfolding at_backup by (simp, metis value_of_padded)

lemma at_backup_current [simp]: "at (backup_name r i) \<noteq> at (sr_filename r)" "at (sr_filename r) \<noteq> at (backup_name r i)"
  unfolding at_backup by (simp_all add: at_def)

section \<open>The line buffer\<close>

lemma unat_small: "k \<le> 256 \<Longrightarrow> unat (word_of_int (int k) :: u64) = k"
  by (simp add: unat_of_nat)

lemma c_snprintf_fits:
  assumes "length buf = LOG_MAX_LEN" "len + length txt < LOG_MAX_LEN"
  shows "\<exists>buf'. c_snprintf buf len txt = Some (len + length txt, buf') \<and> length buf' = LOG_MAX_LEN \<and>
     take (len + length txt) buf' = take len buf @ txt"
proof -
  have "int LOG_MAX_LEN - int len = int (LOG_MAX_LEN - len)" using assms(2) by simp
  moreover have "LOG_MAX_LEN - len \<le> 256" by (simp add: LOG_MAX_LEN_def)
  ultimately have room: "unat (word_of_int (int LOG_MAX_LEN - int len) :: u64) = LOG_MAX_LEN - len"
    using unat_small by metis
  have "c_snprintf buf len txt = Some (len + length txt, take len buf @ (txt @ [CHR 0x00]) @ drop (len + (length txt + 1)) buf)"
  proof -
    have "take (LOG_MAX_LEN - len - 1) txt = txt" "LOG_MAX_LEN - len \<noteq> 0" "len + length (txt @ [CHR 0x00]) \<le> length buf" using assms by simp_all
    then show ?thesis unfolding c_snprintf_def Let_def room by simp
  qed
  then show ?thesis using assms by simp
qed

lemma c_snprintf_length: "c_snprintf buf len txt = Some (n, buf') \<Longrightarrow> n = len + length txt \<and> length buf' = length buf"
  by (auto simp: c_snprintf_def Let_def split: if_splits)

text \<open>A log line goes to the file in full, with its time, place and newline, if it has less than 256 characters;
  a longer one is written past the end of the buffer.\<close>
theorem log_line_limit:
  assumes "length junk = LOG_MAX_LEN"
  shows "log_line junk stamp head body =
    (if length (stamp @ head @ body) < LOG_MAX_LEN then Some (stamp @ head @ body @ [CHR 0x0A]) else None)"
proof (cases "length (stamp @ head @ body) < LOG_MAX_LEN")
  case True
  then obtain b1 where b1: "c_snprintf junk 0 stamp = Some (length stamp, b1)" "length b1 = LOG_MAX_LEN" "take (length stamp) b1 = stamp"
    using c_snprintf_fits [OF assms, of 0 stamp] by auto
  obtain b2 where b2: "c_snprintf b1 (length stamp) head = Some (length stamp + length head, b2)" "length b2 = LOG_MAX_LEN"
    "take (length stamp + length head) b2 = stamp @ head"
    using c_snprintf_fits [OF b1(2), of "length stamp" head] b1(3) True by auto
  obtain b3 where b3: "c_snprintf b2 (length stamp + length head) body = Some (length stamp + length head + length body, b3)"
    "length b3 = LOG_MAX_LEN" "take (length stamp + length head + length body) b3 = stamp @ head @ body"
    using c_snprintf_fits [OF b2(2), of "length stamp + length head" body] b2(3) True by auto
  show ?thesis using True b1(1) b2(1) b3 by (simp add: log_line_def put_at_def take_Suc_conv_app_nth add.assoc)
next
  case False
  have "log_line junk stamp head body = None"
  proof (rule ccontr)
    assume "log_line junk stamp head body \<noteq> None"
    then obtain n1 b1 n2 b2 n3 b3 where "c_snprintf junk 0 stamp = Some (n1, b1)" "c_snprintf b1 n1 head = Some (n2, b2)"
      "c_snprintf b2 n2 body = Some (n3, b3)" and put: "put_at b3 n3 (CHR 0x0A) \<noteq> None"
      by (auto simp: log_line_def bind_eq_Some_conv)
    then have "n3 = length (stamp @ head @ body)" "length b3 = LOG_MAX_LEN" using assms by (auto dest!: c_snprintf_length)
    then show False using put False by (simp add: put_at_def split: if_splits)
  qed
  then show ?thesis using False by simp
qed

theorem log_line_limit_witness: "log_line (replicate 256 CHR 0x00) ''t '' ''f '' (replicate 252 CHR ''x'') = None"
  using log_line_limit [of "replicate 256 CHR 0x00" "''t ''" "''f ''" "replicate 252 CHR ''x''"] by (simp add: LOG_MAX_LEN_def)

section \<open>Rolling\<close>

lemma shift_backups_ok:
  assumes "1 \<le> m" "fs (at (backup_name r m)) = None"
  shows "\<exists>fs'. shift_backups r m (backup_name r m) fs = (backup_name r 1, fs') \<and> fs' (at (backup_name r 1)) = None \<and>
    (\<forall>j. 1 \<le> j \<and> j < m \<longrightarrow> fs' (at (backup_name r (j + 1))) = fs (at (backup_name r j))) \<and>
    (\<forall>k. k \<notin> at ` backup_name r ` {1..m} \<longrightarrow> fs' k = fs k)"
  using assms
proof (induction m arbitrary: fs)
  case (Suc m)
  show ?case
  proof (cases "m = 0")
    case True
    then show ?thesis using Suc.prems by (simp add: shift_backups.simps)
  next
    case False
    define fs1 where "fs1 = rename_file (backup_name r m) (backup_name r (Suc m)) fs"
    have fs1: "fs1 (at (backup_name r (Suc m))) = fs (at (backup_name r m))" "fs1 (at (backup_name r m)) = None"
      "k \<noteq> at (backup_name r m) \<Longrightarrow> k \<noteq> at (backup_name r (Suc m)) \<Longrightarrow> fs1 k = fs k" for k
      using Suc.prems(2) by (auto simp: fs1_def rename_file_def split: option.splits)
    obtain fs' where fs': "shift_backups r m (backup_name r m) fs1 = (backup_name r 1, fs')" "fs' (at (backup_name r 1)) = None"
      "\<And>j. 1 \<le> j \<Longrightarrow> j < m \<Longrightarrow> fs' (at (backup_name r (j + 1))) = fs1 (at (backup_name r j))"
      "\<And>k. k \<notin> at ` backup_name r ` {1..m} \<Longrightarrow> fs' k = fs1 k"
      using Suc.IH [of fs1] False fs1(2) by auto
    have "shift_backups r (Suc m) (backup_name r (Suc m)) fs = (backup_name r 1, fs')"
      using False fs'(1) by (subst shift_backups.simps) (simp add: fs1_def)
    moreover have "fs' (at (backup_name r (j + 1))) = fs (at (backup_name r j))" if "1 \<le> j" "j < Suc m" for j
    proof (cases "j = m")
      case True
      have "at (backup_name r (Suc m)) \<notin> at ` backup_name r ` {1..m}" by auto
      then show ?thesis using fs'(4) fs1(1) True by simp
    next
      case False
      then show ?thesis using fs'(3) [of j] fs1(3) [of "at (backup_name r j)"] that by simp
    qed
    moreover have "fs' k = fs k" if "k \<notin> at ` backup_name r ` {1..Suc m}" for k
    proof -
      have "k \<noteq> at (backup_name r m)" "k \<noteq> at (backup_name r (Suc m))" "k \<notin> at ` backup_name r ` {1..m}"
        using that False by auto
      then show ?thesis using fs'(4) fs1(3) by simp
    qed
    ultimately show ?thesis using fs'(2) by blast
  qed
qed simp

lemma limit_reached: "n < 2 ^ 64 \<Longrightarrow> m \<le> of_nat n \<longleftrightarrow> unat m \<le> n" for m :: u64
  by (simp add: word_le_nat_alt unat_of_nat)

abbreviation backups :: "size_rolling \<Rightarrow> nat" where "backups r \<equiv> unat (max_backup_index r)"
abbreviation backup :: "size_rolling \<Rightarrow> nat \<Rightarrow> string \<times> string" where "backup r i \<equiv> at (backup_name r i)"

lemma size_roll_over_files:
  assumes "0 < backups r" "fs (at (sr_filename r)) = Some f" "size_roll_over True now r fs = (r', fs')"
  shows "r' = r\<lparr>is_open := True\<rparr> \<and> fs' (at (sr_filename r)) = Some \<lparr>text_of = [], mtime = now, regular = True\<rparr> \<and>
    fs' (backup r 1) = Some f \<and> (\<forall>j. 1 \<le> j \<and> j < backups r \<longrightarrow> fs' (backup r (j + 1)) = fs (backup r j)) \<and>
    (\<forall>k. k \<noteq> at (sr_filename r) \<and> k \<notin> at ` backup_name r ` {1..backups r} \<longrightarrow> fs' k = fs k)"
proof -
  define fs0 where "fs0 = remove_file (backup_name r (backups r)) fs"
  have fs0: "fs0 (backup r (backups r)) = None" "\<And>k. k \<noteq> backup r (backups r) \<Longrightarrow> fs0 k = fs k"
    by (simp_all add: fs0_def remove_file_def)
  obtain fs1 where fs1: "shift_backups r (backups r) (backup_name r (backups r)) fs0 = (backup_name r 1, fs1)"
    "fs1 (backup r 1) = None" "\<And>j. 1 \<le> j \<Longrightarrow> j < backups r \<Longrightarrow> fs1 (backup r (j + 1)) = fs0 (backup r j)"
    "\<And>k. k \<notin> at ` backup_name r ` {1..backups r} \<Longrightarrow> fs1 k = fs0 k"
    using shift_backups_ok [of "backups r" fs0 r] fs0(1) assms(1) by auto
  have cur: "fs1 (at (sr_filename r)) = Some f"
  proof -
    have "at (sr_filename r) \<notin> at ` backup_name r ` {1..backups r}" by auto
    then show ?thesis using fs1(4) fs0(2) [of "at (sr_filename r)"] assms(2) by simp
  qed
  have pos: "0 < max_backup_index r" using assms(1) by (simp add: word_less_nat_alt)
  have fs': "fs' = fs1(backup r 1 \<mapsto> f, at (sr_filename r) \<mapsto> \<lparr>text_of = [], mtime = now, regular = True\<rparr>)"
    and r': "r' = r\<lparr>is_open := True\<rparr>"
    using assms(3) fs1(1) cur pos by (auto simp: size_roll_over_def fs0_def [symmetric] rename_file_def open_log_def Let_def)
  have keep: "fs' k = fs k" if "k \<noteq> at (sr_filename r)" "k \<notin> at ` backup_name r ` {1..backups r}" for k
  proof -
    have "k \<noteq> backup r 1" "k \<noteq> backup r (backups r)" using that(2) assms(1) by auto
    then show ?thesis using that fs1(4) fs0(2) by (simp add: fs')
  qed
  have shift: "fs' (backup r (j + 1)) = fs (backup r j)" if "1 \<le> j" "j < backups r" for j
    using that fs1(3) [of j] fs0(2) [of "backup r j"] by (simp add: fs')
  show ?thesis using r' keep shift by (simp add: fs')
qed

definition content :: "files \<Rightarrow> string \<times> string \<Rightarrow> string" where
  "content fs k = (case fs k of None \<Rightarrow> [] | Some f \<Rightarrow> text_of f)"

text \<open>All that is kept, the oldest first.\<close>

definition history :: "size_rolling \<Rightarrow> files \<Rightarrow> string" where
  "history r fs = concat (map (\<lambda>i. content fs (backup r i)) (rev [1..<backups r + 1])) @ content fs (at (sr_filename r))"

lemma history_split:
  assumes "0 < backups r"
  shows "history r fs = content fs (backup r (backups r)) @ concat (map (\<lambda>i. content fs (backup r i)) (rev [1..<backups r])) @ content fs (at (sr_filename r))"
  using assms by (simp add: history_def)

lemma history_rolled:
  assumes "0 < backups r" "content fs' (backup r 1) = c" "content fs' (at (sr_filename r)) = []"
    and "\<And>j. 1 \<le> j \<Longrightarrow> j < backups r \<Longrightarrow> fs' (backup r (j + 1)) = fs (backup r j)"
  shows "history r fs' = concat (map (\<lambda>i. content fs (backup r i)) (rev [1..<backups r])) @ c"
proof -
  have "[1..<backups r + 1] = 1 # map Suc [1..<backups r]" using assms(1) by (simp add: upt_conv_Cons map_Suc_upt)
  then have "concat (map (\<lambda>i. content fs' (backup r i)) (rev [1..<backups r + 1])) =
      concat (map (\<lambda>i. content fs' (backup r (i + 1))) (rev [1..<backups r])) @ c"
    using assms(2) by (simp add: rev_map comp_def)
  also have "map (\<lambda>i. content fs' (backup r (i + 1))) (rev [1..<backups r]) = map (\<lambda>i. content fs (backup r i)) (rev [1..<backups r])"
    using assms(4) by (simp add: content_def)
  finally show ?thesis using assms(3) by (simp add: history_def)
qed

text \<open>For the examples: a limit of four bytes and one backup.\<close>

definition demo_size :: size_rolling where
  "demo_size = \<lparr>max_backup_index = 1, max_backup_index_width = 1, max_file_size = 4, is_open = True, sr_trunc = False, sr_filename = ''a''\<rparr>"
definition demo_files :: files where "demo_files = [at ''a'' \<mapsto> \<lparr>text_of = ''x'', mtime = 0, regular = True\<rparr>]"

lemma demo_size_ok: "is_open demo_size" "backups demo_size = 1" "max_file_size demo_size = 4" "sr_filename demo_size = ''a''"
  by (simp_all add: demo_size_def)

lemma demo_files_ok: "demo_files (at ''a'') = Some \<lparr>text_of = ''x'', mtime = 0, regular = True\<rparr>" "content demo_files (backup demo_size i) = []"
  using at_backup_current [of demo_size i] by (simp_all add: demo_files_def content_def demo_size_ok)

text \<open>C32: Rolling by size loses nothing but the oldest backup. Logging adds the line to the end of the kept text, and
  when the file reaches its limit, and only then, the text of the last backup goes, every other one moves up by one
  and an empty file is started.\<close>
theorem size_log_keeps_history:
  assumes "is_open r" "fs (at (sr_filename r)) = Some f" "0 < backups r" "length (text_of f @ size_line lvl msg) < 2 ^ 64"
    and "size_log True now lvl msg r fs = (r', fs')"
    and "rolled \<longleftrightarrow> unat (max_file_size r) \<le> length (text_of f @ size_line lvl msg)"
  shows "r' = r \<and> (if rolled then content fs (backup r (backups r)) else []) @ history r fs' = history r fs @ size_line lvl msg \<and>
    content fs' (at (sr_filename r)) = (if rolled then [] else text_of f @ size_line lvl msg) \<and>
    (\<forall>k. k \<notin> insert (at (sr_filename r)) (at ` backup_name r ` {1..backups r}) \<longrightarrow> fs' k = fs k)"
proof -
  define fs1 where "fs1 = fs(at (sr_filename r) \<mapsto> f\<lparr>text_of := text_of f @ size_line lvl msg, mtime := now\<rparr>)"
  have roll: "max_file_size r \<le> of_nat (length (text_of f @ size_line lvl msg)) \<longleftrightarrow> rolled"
    unfolding limit_reached [OF assms(4)] by (rule assms(6) [symmetric])
  have log: "(if rolled then size_roll_over True now r fs1 else (r, fs1)) = (r', fs')"
    using assms(1,2,5) roll unfolding fs1_def by (simp add: size_log_def append_log_def Let_def del: of_nat_add length_append)
  have same: "content fs1 (backup r i) = content fs (backup r i)" for i by (simp add: content_def fs1_def)
  have cur: "content fs1 (at (sr_filename r)) = text_of f @ size_line lvl msg" by (simp add: content_def fs1_def)
  show ?thesis
  proof (cases rolled)
    case True
    have new: "fs1 (at (sr_filename r)) = Some (f\<lparr>text_of := text_of f @ size_line lvl msg, mtime := now\<rparr>)" by (simp add: fs1_def)
    have eq: "size_roll_over True now r fs1 = (r', fs')" using log True by simp
    note fs' = size_roll_over_files [where fs = fs1, OF assms(3) new eq]
    have hist: "history r fs' = concat (map (\<lambda>i. content fs1 (backup r i)) (rev [1..<backups r])) @ text_of f @ size_line lvl msg"
      by (rule history_rolled [OF assms(3)]) (use fs' eq in \<open>simp_all add: content_def\<close>)
    have "fs' k = fs k" if "k \<notin> insert (at (sr_filename r)) (at ` backup_name r ` {1..backups r})" for k
    proof -
      have "fs' k = fs1 k" using fs' that by blast
      then show ?thesis using that by (simp add: fs1_def)
    qed
    moreover have "history r fs @ size_line lvl msg = content fs (backup r (backups r)) @ history r fs'"
      unfolding hist history_split [OF assms(3), of fs] same using assms(2) by (simp add: content_def)
    ultimately show ?thesis using fs' eq True assms(1) by (simp add: content_def)
  next
    case False
    then have "fs' = fs1" "r' = r" using log by auto
    then show ?thesis using False cur assms(2) by (simp add: history_def same) (simp add: content_def fs1_def)
  qed
qed

theorem size_log_keeps_history_witness:
  "\<exists>fs'. size_log True 5 ''w'' ''m'' demo_size demo_files = (demo_size, fs') \<and> history demo_size fs' = ''xw m'' @ [CHR 0x0A]"
proof -
  obtain r' fs' where e: "size_log True 5 ''w'' ''m'' demo_size demo_files = (r', fs')" by fastforce
  have "history demo_size demo_files = ''x''" by (simp add: history_def demo_size_ok demo_files_ok) (simp add: content_def demo_files_ok)
  then show ?thesis
    using size_log_keeps_history [of demo_size demo_files "\<lparr>text_of = ''x'', mtime = 0, regular = True\<rparr>" "''w''" "''m''" 5 r' fs' True] e
    by (simp add: demo_size_ok demo_files_ok size_line_def)
qed

text \<open>The limits hold: after every line the file is shorter than its limit, and no backup is longer than the limit and
  one line.\<close>
theorem size_log_bounds:
  assumes "is_open r" "fs (at (sr_filename r)) = Some f" "0 < backups r" "0 < max_file_size r"
    and "length (text_of f) < unat (max_file_size r)" "\<forall>i \<in> {1..backups r}. length (content fs (backup r i)) < unat (max_file_size r) + n"
    and "length (size_line lvl msg) \<le> n" "unat (max_file_size r) + n < 2 ^ 64" and "size_log True now lvl msg r fs = (r', fs')"
  shows "length (content fs' (at (sr_filename r))) < unat (max_file_size r) \<and>
    (\<forall>i \<in> {1..backups r}. length (content fs' (backup r i)) < unat (max_file_size r) + n)"
proof -
  define fs1 where "fs1 = fs(at (sr_filename r) \<mapsto> f\<lparr>text_of := text_of f @ size_line lvl msg, mtime := now\<rparr>)"
  have len: "length (text_of f @ size_line lvl msg) < unat (max_file_size r) + n" using assms(5,7) by simp
  have roll: "max_file_size r \<le> of_nat (length (text_of f @ size_line lvl msg)) \<longleftrightarrow> unat (max_file_size r) \<le> length (text_of f @ size_line lvl msg)"
    by (rule limit_reached) (use len assms(8) in linarith)
  have log: "(if unat (max_file_size r) \<le> length (text_of f @ size_line lvl msg) then size_roll_over True now r fs1 else (r, fs1)) = (r', fs')"
    using assms(1,2,9) roll unfolding fs1_def by (simp add: size_log_def append_log_def Let_def del: of_nat_add length_append)
  have pos: "0 < unat (max_file_size r)" using assms(4) by (simp add: word_less_nat_alt)
  show ?thesis
  proof (cases "unat (max_file_size r) \<le> length (text_of f @ size_line lvl msg)")
    case True
    have new: "fs1 (at (sr_filename r)) = Some (f\<lparr>text_of := text_of f @ size_line lvl msg, mtime := now\<rparr>)" by (simp add: fs1_def)
    have eq: "size_roll_over True now r fs1 = (r', fs')" using log True by simp
    note fs' = size_roll_over_files [where fs = fs1, OF assms(3) new eq]
    have "length (content fs' (backup r i)) < unat (max_file_size r) + n" if i: "i \<in> {1..backups r}" for i
    proof (cases "i = 1")
      case True
      then show ?thesis using fs' len by (simp add: content_def)
    next
      case False
      then obtain j where j: "i = j + 1" "1 \<le> j" "j < backups r" using i by (cases i) auto
      then have "content fs' (backup r i) = content fs (backup r j)" using fs' by (simp add: content_def fs1_def)
      then show ?thesis using assms(6) j by simp
    qed
    then show ?thesis using fs' pos by (simp add: content_def)
  next
    case False
    then have "fs' = fs1" using log by simp
    then show ?thesis using False assms(6) by (simp add: content_def fs1_def)
  qed
qed

theorem size_log_bounds_witness:
  "\<exists>r' fs'. size_log True 5 ''w'' ''m'' demo_size demo_files = (r', fs') \<and> length (content fs' (at ''a'')) < 4"
proof -
  obtain r' fs' where e: "size_log True 5 ''w'' ''m'' demo_size demo_files = (r', fs')" by fastforce
  then show ?thesis
    using size_log_bounds [of demo_size demo_files "\<lparr>text_of = ''x'', mtime = 0, regular = True\<rparr>" 4 "''w''" "''m''" 5 r' fs']
    by (simp add: demo_size_ok demo_files_ok size_line_def)
qed

section \<open>Daily files\<close>

definition expired :: "int \<Rightarrow> daily_rolling \<Rightarrow> files \<Rightarrow> string \<Rightarrow> bool" where
  "expired now r fs d = (case fs (''.'', d) of None \<Rightarrow> False
     | Some f \<Rightarrow> regular f \<and> mtime f < oldest now r \<and> strstr d (dr_filename r))"

lemma expire_entry_here:
  assumes "CHR ''/'' \<notin> set (dr_filename r)" "CHR ''/'' \<notin> set d"
  shows "expire_entry now r d fs = (if expired now r fs d then fs((''.'', d) := None) else fs)"
proof -
  have "at (dir_of (dr_filename r) @ CHR ''/'' # d) = (''.'', d)" "base_of (dr_filename r) = dr_filename r"
    using at_in_dir [OF assms(2), of "''.''"] at_plain [OF assms(1)] by (simp_all add: at_def)
  then show ?thesis using at_plain [OF assms(2)]
    by (auto simp: expire_entry_def expired_def remove_file_def split: option.splits)
qed

lemma expire_all_here:
  assumes "CHR ''/'' \<notin> set (dr_filename r)" "\<forall>d \<in> set ds. CHR ''/'' \<notin> set d"
  shows "fold (expire_entry now r) ds fs = (\<lambda>k. if fst k = ''.'' \<and> snd k \<in> set ds \<and> expired now r fs (snd k) then None else fs k)"
  using assms(2)
proof (induction ds arbitrary: fs)
  case (Cons d ds)
  define fs1 where "fs1 = (if expired now r fs d then fs((''.'', d) := None) else fs)"
  have "expired now r fs1 e \<longleftrightarrow> expired now r fs e \<and> e \<noteq> d \<or> expired now r fs e \<and> \<not> expired now r fs d" for e
    by (auto simp: fs1_def expired_def)
  moreover have "fold (expire_entry now r) (d # ds) fs = fold (expire_entry now r) ds fs1"
    using expire_entry_here [OF assms(1), of d now fs] Cons.prems by (simp add: fs1_def)
  ultimately show ?case using Cons by (auto simp: fs1_def fun_eq_iff)
qed simp

lemma day_name_no_slash: "CHR ''/'' \<notin> set (dr_filename r) \<Longrightarrow> CHR ''/'' \<notin> set (day_name r)"
  using decimal_no_slash padded_no_slash by (simp add: day_name_def split: prod.splits)

lemma day_name_new: "day_name r \<noteq> dr_filename r"
  by (simp add: day_name_def split: prod.splits)

text \<open>The first line of a new day moves the file to one named after the day of its last lines and starts a file with
  the new line alone. Of the other files of the directory exactly those go that are listed, regular, older than the
  limit, and have the name of the log in theirs.\<close>
theorem daily_log_new_day:
  assumes "CHR ''/'' \<notin> set (dr_filename r)" "\<forall>d \<in> set ds. CHR ''/'' \<notin> set d"
    and "tm_of t = Some today" "today \<noteq> logs_time r" and "fs (''.'', dr_filename r) = Some f"
    and "fs1 = fs((''.'', day_name r) \<mapsto> f)"
  shows "\<exists>fs'. daily_log tm_of (Some ds) t msg r fs = (r\<lparr>logs_time := today\<rparr>, fs') \<and>
    content fs' (''.'', dr_filename r) = msg @ [CHR 0x0A] \<and>
    (\<forall>d. d \<noteq> dr_filename r \<longrightarrow> fs' (''.'', d) = (if d \<in> set ds \<and> expired t r fs1 d then None else fs1 (''.'', d)))"
proof -
  have at: "at (dr_filename r) = (''.'', dr_filename r)" "at (day_name r) = (''.'', day_name r)"
    using at_plain assms(1) day_name_no_slash by auto
  define fs2 where "fs2 = fs((''.'', day_name r) \<mapsto> f, (''.'', dr_filename r) \<mapsto> \<lparr>text_of = [], mtime = t, regular = True\<rparr>)"
  have new: "open_log (dr_trunc r) t (dr_filename r) (rename_file (dr_filename r) (day_name r) fs) = fs2"
    using assms(5) day_name_new [of r] by (auto simp: open_log_def rename_file_def at fs2_def)
  have "oldest t r \<le> t" by (simp add: oldest_def)
  then have fresh: "\<not> expired t r fs2 (dr_filename r)" by (simp add: expired_def fs2_def)
  have other: "expired t r fs2 d = expired t r fs1 d" "fs2 (''.'', d) = fs1 (''.'', d)" if "d \<noteq> dr_filename r" for d
    using that by (simp_all add: expired_def fs2_def assms(6))
  define fs3 where "fs3 = fold (expire_entry t r) ds fs2"
  have fs3: "fs3 k = (if fst k = ''.'' \<and> snd k \<in> set ds \<and> expired t r fs2 (snd k) then None else fs2 k)" for k
    by (simp add: fs3_def expire_all_here [OF assms(1,2)])
  have cur: "fs3 (''.'', dr_filename r) = Some \<lparr>text_of = [], mtime = t, regular = True\<rparr>"
    using fresh by (simp add: fs3) (simp add: fs2_def)
  have "daily_log tm_of (Some ds) t msg r fs = (r\<lparr>logs_time := today\<rparr>, append_log t (dr_filename r) (msg @ [CHR 0x0A]) fs3)"
    using assms(3,4) by (simp add: daily_log_def daily_roll_over_def new fs3_def)
  then show ?thesis using cur other fs3 by (simp add: append_log_def at content_def)
qed

theorem daily_log_new_day_witness:
  "\<exists>r' fs'. daily_log (\<lambda>t. Some (100, 0, 2)) (Some []) 9 ''b'' \<lparr>maxDaysToKeep = 2, dr_trunc = False, dr_filename = ''l'', logs_time = (100, 0, 1)\<rparr>
     [(''.'', ''l'') \<mapsto> \<lparr>text_of = ''a'', mtime = 0, regular = True\<rparr>] = (r', fs') \<and> content fs' (''.'', ''l'') = ''b'' @ [CHR 0x0A]"
  using daily_log_new_day [of "\<lparr>maxDaysToKeep = 2, dr_trunc = False, dr_filename = ''l'', logs_time = (100, 0, 1)\<rparr>" "[]" "\<lambda>t. Some (100, 0, 2)" 9 "(100, 0, 2)"
    "[(''.'', ''l'') \<mapsto> \<lparr>text_of = ''a'', mtime = 0, regular = True\<rparr>]" "\<lparr>text_of = ''a'', mtime = 0, regular = True\<rparr>" _ "''b''"] by auto

text \<open>A log in another directory keeps its backups for ever: the entries of that directory are looked up in the
  current one, and unless it has files of the same names nothing is ever removed.\<close>
theorem daily_log_elsewhere_keeps_all:
  assumes "dir_of (dr_filename r) \<noteq> ''.''" and "\<forall>d \<in> set ds. CHR ''/'' \<notin> set d \<and> fs (''.'', d) = None"
    and "tm_of t = Some today" "today \<noteq> logs_time r"
  shows "snd (daily_log tm_of (Some ds) t msg r fs) = append_log t (dr_filename r) (msg @ [CHR 0x0A])
    (open_log (dr_trunc r) t (dr_filename r) (rename_file (dr_filename r) (day_name r) fs))"
proof -
  define fs2 where "fs2 = open_log (dr_trunc r) t (dr_filename r) (rename_file (dr_filename r) (day_name r) fs)"
  have "dir_of (day_name r) = dir_of (dr_filename r)"
    using dir_base_append(1) decimal_no_slash padded_no_slash by (simp add: day_name_def split: prod.splits)
  then have "fs2 (''.'', d) = fs (''.'', d)" for d
    using assms(1) by (auto simp: fs2_def open_log_def rename_file_def at_def split: option.splits)
  then have "\<forall>d \<in> set ds. CHR ''/'' \<notin> set d \<and> fs2 (''.'', d) = None" using assms(2) by simp
  then have "fold (expire_entry t r) ds fs2 = fs2"
    by (induction ds) (simp_all add: expire_entry_def at_plain)
  then show ?thesis using assms(3,4) by (simp add: daily_log_def daily_roll_over_def fs2_def)
qed

theorem daily_log_elsewhere_keeps_all_witness:
  "snd (daily_log (\<lambda>t. Some (100, 0, 2)) (Some [''l'', ''l.1999-12-31'']) 999999999 ''b'' \<lparr>maxDaysToKeep = 2, dr_trunc = False, dr_filename = ''d/l'', logs_time = (100, 0, 1)\<rparr>
     [(''d'', ''l'') \<mapsto> \<lparr>text_of = ''a'', mtime = 0, regular = True\<rparr>, (''d'', ''l.1999-12-31'') \<mapsto> \<lparr>text_of = ''o'', mtime = 0, regular = True\<rparr>])
     (''d'', ''l.1999-12-31'') \<noteq> None"
proof -
  define r where "r = \<lparr>maxDaysToKeep = 2, dr_trunc = False, dr_filename = ''d/l'', logs_time = (100, 0, 1)\<rparr>"
  define fs :: files where "fs = [(''d'', ''l'') \<mapsto> \<lparr>text_of = ''a'', mtime = 0, regular = True\<rparr>, (''d'', ''l.1999-12-31'') \<mapsto> \<lparr>text_of = ''o'', mtime = 0, regular = True\<rparr>]"
  have d: "dir_of (dr_filename r) = ''d''" "at (dr_filename r) = (''d'', ''l'')" by (simp_all add: r_def dir_of_def at_def base_of_def)
  have day: "at (day_name r) = (''d'', ''l'' @ drop 3 (day_name r))"
    using at_in_dir [of "''l'' @ drop 3 (day_name r)" "''d''"] decimal_no_slash padded_no_slash by (simp add: r_def day_name_def)
  have "snd (daily_log (\<lambda>t. Some (100, 0, 2)) (Some [''l'', ''l.1999-12-31'']) 999999999 ''b'' r fs) = append_log 999999999 (dr_filename r) (''b'' @ [CHR 0x0A])
    (open_log (dr_trunc r) 999999999 (dr_filename r) (rename_file (dr_filename r) (day_name r) fs))"
    by (rule daily_log_elsewhere_keeps_all) (simp_all add: d, simp_all add: fs_def r_def)
  then show ?thesis unfolding r_def [symmetric] fs_def [symmetric]
    by (auto simp: append_log_def open_log_def rename_file_def d day split: option.splits) (auto simp: fs_def)
qed

end
