(* ===== verification/Small_Utils.thy ===== *)
theory Small_Utils
  imports Decimal
begin

unbundle bit_operations_syntax

text \<open>
  Small programs: the names of log levels (\<open>src/utils/priority_name_value.cpp\<close>), the version of the
  kernel as a number (\<open>src/utils/linux_version.c\<close>), the limit on open files
  (\<open>src/utils/adjust_open_files_limit.c\<close>) and the command line (\<open>src/utils/parse_cmdline_param.c\<close>).
\<close>

section \<open>Names of log levels\<close>

definition priority_names :: "string list" where
  "priority_names = [''FATAL'', ''ALERT'', ''CRIT'', ''ERROR'', ''WARN'', ''NOTICE'', ''INFO'', ''DEBUG'', ''NOTSET'', ''UNKNOWN'']"

definition INT_MAX :: int where "INT_MAX = 2 ^ 31 - 1"

text \<open>\<open>None\<close> is the overflow of \<open>priority++\<close>; the division truncates.\<close>

definition getPriorityName :: "int \<Rightarrow> string option" where
  "getPriorityName priority =
     (if priority = INT_MAX then None
      else let p = priority + 1; p = (if p < 0 then - (- p div 100) else p div 100)
        in Some (priority_names ! (if p < 0 \<or> 8 < p then 8 else nat p)))"

fun is_space :: "char \<Rightarrow> bool" where
  "is_space c = (c \<in> {CHR '' '', CHR 0x09, CHR 0x0A, CHR 0x0B, CHR 0x0C, CHR 0x0D})"

fun is_digit :: "char \<Rightarrow> bool" where
  "is_digit c = (48 \<le> (of_char c :: nat) \<and> of_char c \<le> (57 :: nat))"

fun digits :: "nat \<Rightarrow> string \<Rightarrow> nat \<times> string" where
  "digits v [] = (v, [])"
| "digits v (c # s) = (if is_digit c then digits (10 * v + (of_char c - 48)) s else (v, c # s))"

text \<open>\<open>strtoul\<close> in base 10: the value and the rest; all of the string when there is no number.\<close>

definition strtoul :: "string \<Rightarrow> u64 \<times> string" where
  "strtoul s =
     (let t = dropWhile is_space s;
          neg = (t \<noteq> [] \<and> hd t = CHR ''-'');
          u = (if t \<noteq> [] \<and> (hd t = CHR ''-'' \<or> hd t = CHR ''+'') then tl t else t)
      in if u = [] \<or> \<not> is_digit (hd u) then (0, s)
         else case digits 0 u of (v, rest) \<Rightarrow>
           (if 2 ^ 64 \<le> v then (- 1, rest) else (if neg then - of_nat v else of_nat v, rest)))"

datatype invalid_argument = Unknown_priority string

fun find_name :: "nat \<Rightarrow> string list \<Rightarrow> string \<Rightarrow> int" where
  "find_name i [] s = - 1"
| "find_name i (n # ns) s = (if s = n then int i * 100 else find_name (i + 1) ns s)"

definition getPriorityValue :: "string \<Rightarrow> invalid_argument + int" where
  "getPriorityValue s =
     (let v = find_name 0 priority_names s in
      if v = - 1 then
        (if s = ''EMERG'' then Inr 0
         else case strtoul s of (w, rest) \<Rightarrow>
           if rest \<noteq> [] then Inl (Unknown_priority s) else Inr (sint (ucast w :: u32)))
      else Inr v)"

section \<open>The version of the kernel\<close>

text \<open>\<open>release\<close> is the string of \<open>uname\<close>; the digits of a part, then one dot.\<close>

fun version_part :: "u32 \<Rightarrow> string \<Rightarrow> u32 \<times> string" where
  "version_part c [] = (c, [])"
| "version_part c (p # s) =
     (if is_digit p then version_part (c * 10 + of_char p - 48) s else if p = CHR ''.'' then (c, s) else (c, p # s))"

fun version_parts :: "nat \<Rightarrow> u32 \<Rightarrow> string \<Rightarrow> u32" where
  "version_parts 0 v s = v"
| "version_parts (Suc i) v s = (case version_part 0 s of (c, s) \<Rightarrow> version_parts i (push_bit 8 v OR c) s)"

definition linux_version :: "string option \<Rightarrow> u32" where
  "linux_version release = (case release of None \<Rightarrow> 0 | Some s \<Rightarrow> version_parts 3 0 s)"

section \<open>The limit on open files\<close>

definition MIN_RESERVED_FDS :: u64 where "MIN_RESERVED_FDS = 32"

text \<open>\<open>accepts\<close> says which limits \<open>setrlimit\<close> takes.\<close>

function limit_loop :: "(u64 \<Rightarrow> bool) \<Rightarrow> u64 \<Rightarrow> u64 \<Rightarrow> u64" where
  "limit_loop accepts oldlimit f =
     (if oldlimit < f then (if accepts f then f else if f < 16 then f else limit_loop accepts oldlimit (f - 16)) else f)"
  by pat_completeness auto

termination
  by (relation "measure (\<lambda>(a, l, f). unat f)") (auto simp: word_le_nat_alt unat_sub word_less_nat_alt)

declare limit_loop.simps [simp del]

text \<open>The number of clients, or nothing when the program ends for want of descriptors.\<close>

definition adjust_open_files_limit :: "(u64 \<Rightarrow> bool) \<Rightarrow> u64 option \<Rightarrow> int option" where
  "adjust_open_files_limit accepts getrlimit =
     (let maxclients = 50000; maxfiles = of_int maxclients + MIN_RESERVED_FDS in
      case getrlimit of
        None \<Rightarrow> Some (1024 - uint MIN_RESERVED_FDS)
      | Some oldlimit \<Rightarrow>
          if oldlimit < maxfiles then
            (let f = limit_loop accepts oldlimit maxfiles;
                 f = (if f < oldlimit then oldlimit else f)
             in if f \<noteq> maxfiles then
                  (let maxclients = sint (ucast (f - MIN_RESERVED_FDS) :: u32) in if maxclients < 1 then None else Some maxclients)
                else Some maxclients)
          else Some maxclients)"

section \<open>The command line\<close>

record cmdline =
  show_help :: bool
  show_version :: bool
  daemonize :: bool
  conf_file :: "string option"
  pid_file :: "string option"
  nprocs :: int

definition set_default_options :: "cmdline \<Rightarrow> cmdline" where
  "set_default_options c = c\<lparr>conf_file := Some ''./log'', pid_file := Some ''./pid'', nprocs := 10\<rparr>"

text \<open>
  \<open>getopt_long\<close> gives a list of options with their arguments. A file name or a number given in the long form has
  none, as the table says that these options take no argument. \<open>atoi\<close> of NULL is the fault.
\<close>

fun get_options :: "(string \<Rightarrow> int) \<Rightarrow> (char \<times> string option) list \<Rightarrow> cmdline \<Rightarrow> (int \<times> cmdline) option" where
  "get_options atoi [] c = Some (0, c)"
| "get_options atoi ((opt, optarg) # os) c =
     (if opt = CHR ''h'' then get_options atoi os (c\<lparr>show_version := True, show_help := True\<rparr>)
      else if opt = CHR ''v'' then get_options atoi os (c\<lparr>show_version := True\<rparr>)
      else if opt = CHR ''d'' then get_options atoi os (c\<lparr>daemonize := True\<rparr>)
      else if opt = CHR ''c'' then get_options atoi os (c\<lparr>conf_file := optarg\<rparr>)
      else if opt = CHR ''p'' then get_options atoi os (c\<lparr>pid_file := optarg\<rparr>)
      else if opt = CHR ''n'' then
        (case optarg of None \<Rightarrow> None | Some s \<Rightarrow> get_options atoi os (c\<lparr>nprocs := atoi s\<rparr>))
      else Some (- 1, c))"

section \<open>Properties\<close>

text \<open>Names and values of the levels belong together: each name has the value of its level and that value has the
  name again, except that the last name, \<open>UNKNOWN\<close>, comes back as \<open>NOTSET\<close>; values between two levels have the name
  of the lower one, up to the last value before the next level.\<close>
theorem priority_names_values:
  assumes "i < 9" and "100 * int i - 1 \<le> p" "p < 100 * int i + 99"
  shows "getPriorityValue (priority_names ! i) = Inr (100 * int i) \<and> getPriorityName p = Some (priority_names ! i) \<and>
    getPriorityValue ''UNKNOWN'' = Inr 900 \<and> getPriorityName 900 = Some ''NOTSET''"
proof -
  have div: "(p + 1) div 100 = int i" using assms(2,3) by linarith
  have range: "0 \<le> p + 1" "p \<noteq> INT_MAX" using assms by (simp_all add: INT_MAX_def)
  have "getPriorityName p = Some (priority_names ! i)"
    using div range assms(1) by (simp add: getPriorityName_def Let_def)
  moreover have "i \<in> {0, 1, 2, 3, 4, 5, 6, 7, 8}" using assms(1) by auto
  then have "getPriorityValue (priority_names ! i) = Inr (100 * int i)"
    by (auto simp: getPriorityValue_def priority_names_def)
  ultimately show ?thesis by (simp add: getPriorityValue_def getPriorityName_def priority_names_def INT_MAX_def)
qed

theorem priority_names_values_witness: "getPriorityValue ''WARN'' = Inr 400 \<and> getPriorityName 498 = Some ''WARN''"
  using priority_names_values [of 4 498] by (simp add: priority_names_def)

lemma version_part_decimal:
  assumes "\<forall>c \<in> set s. \<exists>d < 10. c = digit d" and "rest = [] \<or> \<not> is_digit (hd rest)"
  shows "version_part c (s @ rest) = version_part (foldl (\<lambda>v c. v * 10 + of_char c - 48) c s) rest"
  using assms(1)
proof (induction s arbitrary: c)
  case (Cons p s)
  then have "is_digit p" by (auto simp: of_char_digit)
  then show ?case using Cons by simp
qed simp

lemma foldl_value: "\<forall>c \<in> set s. \<exists>d < 10. c = digit d \<Longrightarrow>
  foldl (\<lambda>v c. v * 10 + of_char c - 48) (of_nat n) s = (of_nat (foldl (\<lambda>v c. 10 * v + (of_char c - 48)) n s) :: u32)"
proof (induction s arbitrary: n)
  case (Cons p s)
  then obtain d where d: "d < 10" "p = digit d" by auto
  have "(of_char p :: u32) = of_nat (of_char p)" by (simp add: of_nat_of_char)
  then have "of_nat n * 10 + of_char p - 48 = (of_nat (10 * n + (of_char p - 48)) :: u32)" using d by (simp add: of_char_digit)
  then show ?case using Cons by (simp del: of_nat_add of_nat_mult)
qed simp

lemma value_of_digits: "foldl (\<lambda>v c. 10 * v + (of_char c - 48)) 0 (decimal n) = n"
  using value_of_decimal [of n] by (simp add: value_of_def)

lemma version_part_number:
  assumes "rest = [] \<or> \<not> is_digit (hd rest)"
  shows "version_part 0 (decimal n @ rest) = (of_nat n, if rest \<noteq> [] \<and> hd rest = CHR ''.'' then tl rest else rest)"
proof -
  have "version_part 0 (decimal n @ rest) = version_part (of_nat n) rest"
    using version_part_decimal [OF decimal_digits assms, of 0 n] foldl_value [OF decimal_digits, of 0 n] value_of_digits [of n] by simp
  then show ?thesis using assms by (cases rest) auto
qed

lemma or_shifted:
  assumes "x < 2 ^ 8" "unat y < 2 ^ k" "k + 8 \<le> 32"
  shows "unat (push_bit 8 y OR of_nat x :: u32) = 256 * unat y + x"
proof -
  have x: "take_bit 8 (of_nat x :: u32) = of_nat x" using assms(1) by (simp add: take_bit_of_nat take_bit_nat_eq_self)
  have "\<not> bit (push_bit 8 y) n \<or> \<not> bit (of_nat x :: u32) n" for n
    using arg_cong [OF x, of "\<lambda>w. bit w n"] by (auto simp: bit_simps)
  then have "push_bit 8 y OR of_nat x = push_bit 8 y + (of_nat x :: u32)" by (rule disjunctive_add [symmetric])
  also have "\<dots> = of_nat (256 * unat y + x)" by (simp add: push_bit_eq_mult mult.commute)
  finally have eq: "push_bit 8 y OR of_nat x = (of_nat (256 * unat y + x) :: u32)" .
  have "256 * unat y + x < 2 ^ 32"
  proof -
    have "unat y < 2 ^ 24" using assms(2,3) power_increasing [of k 24 "2 :: nat"] by linarith
    then show ?thesis using assms(1) by simp
  qed
  then show ?thesis unfolding eq unat_of_nat by simp
qed

text \<open>The version number has the major, minor and patch number in its last three bytes, when all are below 256; a
  larger patch number runs into the byte of the minor one, so that 4.4.302 is taken for 4.5.46.\<close>
theorem linux_version_reads:
  assumes "a < 256" "b < 256" "c < 256" and "rest = [] \<or> \<not> is_digit (hd rest)"
  shows "unat (linux_version (Some (decimal a @ ''.'' @ decimal b @ ''.'' @ decimal c @ rest))) = 65536 * a + 256 * b + c \<and>
    linux_version (Some ''4.4.302'') = linux_version (Some ''4.5.46'')"
proof -
  have "linux_version (Some (decimal a @ ''.'' @ decimal b @ ''.'' @ decimal c @ rest)) =
      push_bit 8 (push_bit 8 (of_nat a) OR of_nat b) OR of_nat c"
    using version_part_number [of "CHR ''.'' # decimal b @ CHR ''.'' # decimal c @ rest" a] version_part_number [of "CHR ''.'' # decimal c @ rest" b]
      version_part_number [OF assms(4), of c]
    by (simp add: linux_version_def numeral_3_eq_3)
  moreover have "unat (of_nat a :: u32) = a" using assms(1) by (simp add: unat_of_nat)
  then have "unat (push_bit 8 (of_nat a) OR of_nat b :: u32) = 256 * a + b" using or_shifted [of b "of_nat a" 8] assms(1,2) by simp
  then have "unat (push_bit 8 (push_bit 8 (of_nat a) OR of_nat b) OR of_nat c :: u32) = 256 * (256 * a + b) + c"
    using or_shifted [of c "push_bit 8 (of_nat a) OR of_nat b" 16] assms by simp
  ultimately show ?thesis by (simp add: linux_version_def numeral_3_eq_3)
qed

theorem linux_version_reads_witness: "unat (linux_version (Some (decimal 5 @ ''.'' @ decimal 15 @ ''.'' @ decimal 0 @ ''-generic''))) = 331520"
  using linux_version_reads [of 5 15 0 "''-generic''"] by simp

lemma limit_loop_result:
  assumes "oldlimit < f0"
  shows "\<exists>k. (\<forall>j < k. \<not> accepts (f0 - 16 * of_nat j)) \<and> 16 * k \<le> unat f0 \<and> limit_loop accepts oldlimit f0 = f0 - 16 * of_nat k \<and>
    (accepts (f0 - 16 * of_nat k) \<and> oldlimit < f0 - 16 * of_nat k \<or> f0 - 16 * of_nat k \<le> oldlimit \<or>
     \<not> accepts (f0 - 16 * of_nat k) \<and> f0 - 16 * of_nat k < 16)"
  using assms
proof (induction accepts oldlimit f0 rule: limit_loop.induct)
  case (1 accepts oldlimit f0)
  show ?case
  proof (cases "accepts f0 \<or> f0 < 16")
    case True
    then show ?thesis using 1(2) by (intro exI [of _ 0]) (auto simp: limit_loop.simps [of accepts oldlimit f0])
  next
    case False
    then have step: "limit_loop accepts oldlimit f0 = limit_loop accepts oldlimit (f0 - 16)"
      using 1(2) by (simp add: limit_loop.simps [of accepts oldlimit f0])
    have f0: "unat (f0 - 16) = unat f0 - 16" "16 \<le> unat f0"
      using False by (auto simp: unat_sub word_le_nat_alt not_less)
    show ?thesis
    proof (cases "oldlimit < f0 - 16")
      case True
      obtain k where k: "\<forall>j < k. \<not> accepts (f0 - 16 - 16 * of_nat j)" "16 * k \<le> unat (f0 - 16)"
        "limit_loop accepts oldlimit (f0 - 16) = f0 - 16 - 16 * of_nat k"
        "accepts (f0 - 16 - 16 * of_nat k) \<and> oldlimit < f0 - 16 - 16 * of_nat k \<or> f0 - 16 - 16 * of_nat k \<le> oldlimit \<or>
         \<not> accepts (f0 - 16 - 16 * of_nat k) \<and> f0 - 16 - 16 * of_nat k < 16"
        using 1(1) False 1(2) True by auto
      have suc: "f0 - 16 - 16 * of_nat j = f0 - 16 * of_nat (Suc j)" for j by (simp add: algebra_simps)
      have "\<forall>j < Suc k. \<not> accepts (f0 - 16 * of_nat j)"
        using k(1) False unfolding suc by (auto simp: less_Suc_eq_0_disj simp del: of_nat_Suc)
      then show ?thesis using k(2,3,4) f0 step unfolding suc by (intro exI [of _ "Suc k"]) (simp del: of_nat_Suc)
    next
      case False
      then have "limit_loop accepts oldlimit (f0 - 16) = f0 - 16" by (simp add: limit_loop.simps [of accepts oldlimit "f0 - 16"])
      then show ?thesis using False \<open>\<not> (accepts f0 \<or> f0 < 16)\<close> step f0 by (intro exI [of _ 1]) auto
    qed
  qed
qed

text \<open>The number of clients never exceeds what the limit on open files allows, beside 32 reserved descriptors: it is
  50000, or what remains of a limit that the system took or had before; the program only ends when that is less
  than one client.\<close>
theorem open_files_limit:
  assumes "oldlimit < 50032"
  shows "\<exists>f. (f = oldlimit \<or> oldlimit < f \<and> f \<le> 50032 \<and> (accepts f \<or> f < 16)) \<and>
    adjust_open_files_limit accepts (Some oldlimit) = (if uint f - 32 < 1 then None else Some (uint f - 32))"
proof -
  define f1 where "f1 = limit_loop accepts oldlimit 50032"
  obtain k where *: "(\<forall>j < k. \<not> accepts (50032 - 16 * of_nat j)) \<and> 16 * k \<le> unat (50032 :: u64) \<and>
    limit_loop accepts oldlimit 50032 = 50032 - 16 * of_nat k \<and>
    (accepts (50032 - 16 * of_nat k) \<and> oldlimit < 50032 - 16 * of_nat k \<or> 50032 - 16 * of_nat k \<le> oldlimit \<or>
     \<not> accepts (50032 - 16 * of_nat k) \<and> 50032 - 16 * of_nat k < (16 :: u64))"
    using limit_loop_result [OF assms, of accepts] by (elim exE)
  have k: "16 * k \<le> unat (50032 :: u64)" "f1 = 50032 - 16 * of_nat k"
    using * unfolding f1_def by (iprover+)
  have end_cases: "accepts f1 \<and> oldlimit < f1 \<or> f1 \<le> oldlimit \<or> \<not> accepts f1 \<and> f1 < 16"
    using conjunct2 [OF conjunct2 [OF conjunct2 [OF *]]] unfolding k(2) .
  have "16 * k \<le> 50032" using k(1) by simp
  then have "unat (of_nat (16 * k) :: u64) = 16 * k" unfolding unat_of_nat by (intro mod_less) simp
  then have "of_nat (16 * k) \<le> (50032 :: u64)" using \<open>16 * k \<le> 50032\<close> by (simp add: word_le_nat_alt del: of_nat_mult)
  then have "50032 - of_nat (16 * k) \<le> (50032 :: u64)" by (metis word_sub_le)
  then have f1: "f1 \<le> 50032" by (simp add: k(2))
  define f where "f = (if f1 < oldlimit then oldlimit else f1)"
  have f: "f \<le> 50032" using f1 less_imp_le [OF assms] by (simp add: f_def)
  have small: "sint (ucast (f - 32) :: u32) = uint f - 32"
  proof -
    have "(ucast (f - 32) :: u32) = word_of_int (uint f - 32)"
    proof -
      have "uint (f - 32) = take_bit 64 (uint f - 32)" by (simp add: uint_word_ariths take_bit_eq_mod)
      then have "(ucast (f - 32) :: u32) = word_of_int (take_bit 64 (uint f - 32))" by (simp only: ucast_eq)
      moreover have "(word_of_int (take_bit 64 (uint f - 32)) :: u32) = word_of_int (uint f - 32)"
        unfolding word_of_int_eq_iff take_bit_take_bit by simp
      ultimately show ?thesis by (simp only:)
    qed
    then have "sint (ucast (f - 32) :: u32) = signed_take_bit (LENGTH(32) - 1) (uint f - 32)" by (simp only: sint_sbintrunc')
    moreover have "- 32 \<le> uint f - 32" "uint f - 32 < 2 ^ 31" using f by (simp_all add: word_le_def)
    ultimately show ?thesis by (simp add: signed_take_bit_int_eq_self)
  qed
  have max: "of_int 50000 + 32 = (50032 :: u64)" by simp
  have "adjust_open_files_limit accepts (Some oldlimit) =
      (if f \<noteq> 50032 then (if sint (ucast (f - 32) :: u32) < 1 then None else Some (sint (ucast (f - 32) :: u32))) else Some 50000)"
    unfolding adjust_open_files_limit_def Let_def option.case MIN_RESERVED_FDS_def max f_def f1_def using assms by (simp only: if_True)
  then have adj: "adjust_open_files_limit accepts (Some oldlimit) =
      (if f \<noteq> 50032 then (if uint f - 32 < 1 then None else Some (uint f - 32)) else Some 50000)"
    by (simp only: small)
  have "f = oldlimit \<or> oldlimit < f \<and> f \<le> 50032 \<and> (accepts f \<or> f < 16)"
    using end_cases f by (auto simp: f_def)
  then show ?thesis using adj by (intro exI [of _ f]) auto
qed

theorem open_files_limit_witness:
  "\<exists>f :: u64. (f = 1024 \<or> 1024 < f \<and> f \<le> 50032 \<and> (f \<le> 4096 \<or> f < 16)) \<and>
    adjust_open_files_limit (\<lambda>f. f \<le> 4096) (Some 1024) = (if uint f - 32 < 1 then None else Some (uint f - 32))"
proof -
  have "(1024 :: u64) < 50032" by simp
  from open_files_limit [OF this, of "\<lambda>f. f \<le> 4096"] show ?thesis .
qed

end
