(* ===== verification/Daemon.thy ===== *)
theory Daemon
  imports Prelude
begin

text \<open>
  Becoming a daemon, \<open>src/utils/my_daemonize.c\<close>; \<open>vos_daemonize\<close> of \<open>src/thrift/vos/gen-cpp/my_vosserver.cpp\<close>
  has the text of \<open>simple_daemonize\<close>. A process is what these functions change of it. A function follows
  the child at each \<open>fork\<close>; the parent exits. Which calls fail is an argument.
\<close>

section \<open>Processes\<close>

datatype open_file = Dev_null | Other_file nat

record process =
  fds :: "open_file option list"
  leads_session :: bool
  has_terminal :: bool
  ignores_hup :: bool
  work_dir :: string
  creation_mask :: nat

text \<open>The outcome: the process that called it ends, or the function returns.\<close>

datatype outcome = Exits nat | Returns int process

record refusals =
  fork1_ok :: bool
  setsid_ok :: bool
  signal_ok :: bool
  fork2_ok :: bool
  chdir_ok :: bool
  open_ok :: bool
  dup2_ok :: "nat \<Rightarrow> bool"
  close_ok :: bool

definition STDERR_FILENO :: nat where "STDERR_FILENO = 2"

section \<open>System calls\<close>

text \<open>The child leads no session; \<open>setsid\<close> makes it the leader of a new one, without a terminal.\<close>

definition fork_child :: "process \<Rightarrow> process" where
  "fork_child p = p\<lparr>leads_session := False\<rparr>"

definition setsid :: "process \<Rightarrow> process" where
  "setsid p = p\<lparr>leads_session := True, has_terminal := False\<rparr>"

text \<open>\<open>open\<close> takes the lowest descriptor that is free.\<close>

fun lowest_free :: "open_file option list \<Rightarrow> nat" where
  "lowest_free [] = 0"
| "lowest_free (None # fs) = 0"
| "lowest_free (Some f # fs) = Suc (lowest_free fs)"

definition fd_at :: "process \<Rightarrow> nat \<Rightarrow> open_file option" where
  "fd_at p fd = (if fd < length (fds p) then fds p ! fd else None)"

definition set_fd :: "nat \<Rightarrow> open_file option \<Rightarrow> process \<Rightarrow> process" where
  "set_fd fd f p = p\<lparr>fds := (fds p @ replicate (Suc fd - length (fds p)) None)[fd := f]\<rparr>"

definition open_null :: "process \<Rightarrow> nat \<times> process" where
  "open_null p = (let fd = lowest_free (fds p) in (fd, set_fd fd (Some Dev_null) p))"

definition dup2 :: "nat \<Rightarrow> nat \<Rightarrow> process \<Rightarrow> process" where
  "dup2 fd fd2 p = set_fd fd2 (fd_at p fd) p"

definition close_fd :: "nat \<Rightarrow> process \<Rightarrow> process" where
  "close_fd fd p = set_fd fd None p"

section \<open>The code\<close>

text \<open>A failed \<open>fork\<close> also returns something other than 0.\<close>

definition simple_daemonize :: "refusals \<Rightarrow> process \<Rightarrow> outcome" where
  "simple_daemonize ok p =
     (if \<not> fork1_ok ok then Exits 0
      else let p = fork_child p; p = (if setsid_ok ok then setsid p else p)
        in if \<not> open_ok ok then Returns 0 p
           else case open_null p of (fd, p) \<Rightarrow>
             (let p = (if dup2_ok ok 0 then dup2 fd 0 p else p);
                  p = (if dup2_ok ok 1 then dup2 fd 1 p else p);
                  p = (if dup2_ok ok 2 then dup2 fd 2 p else p)
              in Returns 0 (if STDERR_FILENO < fd then close_fd fd p else p)))"

text \<open>The three redirections, each of which closes the new descriptor when it fails.\<close>

fun redirect :: "refusals \<Rightarrow> nat \<Rightarrow> nat list \<Rightarrow> process \<Rightarrow> process + process" where
  "redirect ok fd [] p = Inr p"
| "redirect ok fd (std # stds) p =
     (if \<not> dup2_ok ok std then Inl (close_fd fd p) else redirect ok fd stds (dup2 fd std p))"

definition my_daemonize :: "refusals \<Rightarrow> int \<Rightarrow> process \<Rightarrow> outcome" where
  "my_daemonize ok dump_core p =
     (if \<not> fork1_ok ok then Returns (- 1) p
      else let p = fork_child p in
        if \<not> setsid_ok ok then Returns (- 1) p
        else let p = setsid p in
          if \<not> signal_ok ok then Returns (- 1) p
          else let p = p\<lparr>ignores_hup := True\<rparr> in
            if \<not> fork2_ok ok then Returns (- 1) p
            else let p = fork_child p in
              if dump_core = 0 \<and> \<not> chdir_ok ok then Returns (- 1) p
              else let p = (if dump_core = 0 then p\<lparr>work_dir := ''/''\<rparr> else p); p = p\<lparr>creation_mask := 0\<rparr> in
                if \<not> open_ok ok then Returns (- 1) p
                else case open_null p of (fd, p) \<Rightarrow>
                  (case redirect ok fd [0, 1, 2] p of
                     Inl p \<Rightarrow> Returns (- 1) p
                   | Inr p \<Rightarrow>
                       if STDERR_FILENO < fd then
                         (if close_ok ok then Returns 0 (close_fd fd p) else Returns (- 1) p)
                       else Returns 0 p))"

section \<open>Lemmas\<close>

lemma fd_at_set: "fd_at (set_fd fd f p) i = (if i = fd then f else fd_at p i)"
  by (auto simp: fd_at_def set_fd_def nth_append nth_list_update)

lemma set_fd_keeps [simp]:
  "leads_session (set_fd fd f p) = leads_session p" "has_terminal (set_fd fd f p) = has_terminal p"
  "ignores_hup (set_fd fd f p) = ignores_hup p" "work_dir (set_fd fd f p) = work_dir p"
  "creation_mask (set_fd fd f p) = creation_mask p"
  by (simp_all add: set_fd_def)

lemma fd_at_updates [simp]:
  "fd_at (p\<lparr>leads_session := b\<rparr>) = fd_at p" "fd_at (p\<lparr>has_terminal := b\<rparr>) = fd_at p" "fd_at (p\<lparr>ignores_hup := b\<rparr>) = fd_at p"
  "fd_at (p\<lparr>work_dir := d\<rparr>) = fd_at p" "fd_at (p\<lparr>creation_mask := m\<rparr>) = fd_at p"
  by (simp_all add: fd_at_def fun_eq_iff)

lemma lowest_free_none: "lowest_free fs < length fs \<Longrightarrow> fs ! lowest_free fs = None"
  by (induction fs rule: lowest_free.induct) auto

lemma lowest_is_free: "fd_at p (lowest_free (fds p)) = None"
  by (simp add: fd_at_def lowest_free_none)

text \<open>After the redirections the standard descriptors are the null device, and no other one has changed.\<close>

definition redirected :: "process \<Rightarrow> process \<Rightarrow> bool" where
  "redirected p p' \<longleftrightarrow> (\<forall>i. fd_at p' i = (if i \<le> STDERR_FILENO then Some Dev_null else fd_at p i))"

lemma dup2_redirects:
  assumes "fd = lowest_free (fds p)"
  shows "redirected p (let q = dup2 fd 2 (dup2 fd 1 (dup2 fd 0 (set_fd fd (Some Dev_null) p)))
    in if STDERR_FILENO < fd then close_fd fd q else q)"
  using lowest_is_free [of p] assms
  by (auto simp: redirected_def dup2_def close_fd_def fd_at_set STDERR_FILENO_def Let_def)

section \<open>Properties\<close>

text \<open>C27: A process for which \<open>my_daemonize\<close> returns 0 is a daemon: it has no terminal and leads no session, so that it
  cannot get one; it ignores the hang-up; its standard descriptors are the null device and every other one is as
  before; it is in the root directory unless it is to dump core.\<close>
theorem my_daemonize_detaches:
  assumes "my_daemonize ok dump_core p = Returns 0 p'"
  shows "\<not> leads_session p' \<and> \<not> has_terminal p' \<and> ignores_hup p' \<and> creation_mask p' = 0 \<and>
    work_dir p' = (if dump_core = 0 then ''/'' else work_dir p) \<and>
    (\<forall>fd. fd_at p' fd = (if fd \<le> STDERR_FILENO then Some Dev_null else fd_at p fd))"
proof -
  define q where "q = (fork_child (setsid (fork_child p)))\<lparr>ignores_hup := True, creation_mask := 0, work_dir := (if dump_core = 0 then ''/'' else work_dir p)\<rparr>"
  have q: "fd_at q = fd_at p" by (simp add: q_def fork_child_def setsid_def fd_at_def fun_eq_iff)
  define fd where "fd = lowest_free (fds q)"
  have "p' = (let r = dup2 fd 2 (dup2 fd 1 (dup2 fd 0 (set_fd fd (Some Dev_null) q))) in if STDERR_FILENO < fd then close_fd fd r else r)"
    using assms by (cases p) (auto simp: my_daemonize_def open_null_def q_def fd_def fork_child_def setsid_def Let_def split: if_splits)
  moreover from this have "redirected q p'" using dup2_redirects [of fd q] by (simp add: fd_def)
  ultimately show ?thesis unfolding redirected_def q
    by (auto simp: q_def fork_child_def setsid_def dup2_def close_fd_def Let_def)
qed

definition demo_process :: process where
  "demo_process = \<lparr>fds = [Some (Other_file 1), None, Some (Other_file 2), Some (Other_file 3)], leads_session = True, has_terminal = True,
     ignores_hup = False, work_dir = ''/home'', creation_mask = 18\<rparr>"

definition all_ok :: refusals where
  "all_ok = \<lparr>fork1_ok = True, setsid_ok = True, signal_ok = True, fork2_ok = True, chdir_ok = True, open_ok = True,
     dup2_ok = (\<lambda>fd. True), close_ok = True\<rparr>"

lemmas daemon_defs = my_daemonize_def simple_daemonize_def fork_child_def setsid_def open_null_def dup2_def close_fd_def set_fd_def
  fd_at_def demo_process_def all_ok_def STDERR_FILENO_def Let_def

theorem my_daemonize_detaches_witness:
  "\<exists>p'. my_daemonize all_ok 0 demo_process = Returns 0 p' \<and> \<not> leads_session p' \<and> \<not> has_terminal p' \<and>
    fd_at p' 1 = Some Dev_null \<and> fd_at p' 3 = Some (Other_file 3)"
proof -
  obtain p' where p': "my_daemonize all_ok 0 demo_process = Returns 0 p'" by (simp add: daemon_defs)
  have "fd_at demo_process 3 = Some (Other_file 3)" by (simp add: fd_at_def demo_process_def)
  with my_daemonize_detaches [OF p'] p' show ?thesis by (simp add: STDERR_FILENO_def)
qed

text \<open>The simple variant leaves the process at the head of its session, so that it may get a terminal again, and
  keeps the signals, the directory and the mask; without a second process it ends with the code of success, and no
  daemon runs.\<close>
theorem simple_daemonize_leads:
  assumes "setsid_ok ok" "open_ok ok" "\<forall>fd. dup2_ok ok fd"
  shows "if fork1_ok ok then \<exists>p'. simple_daemonize ok p = Returns 0 p' \<and> leads_session p' \<and> \<not> has_terminal p' \<and>
      ignores_hup p' = ignores_hup p \<and> work_dir p' = work_dir p \<and> redirected p p'
    else simple_daemonize ok p = Exits 0"
proof (cases "fork1_ok ok")
  case True
  define q fd where "q = setsid (fork_child p)" and "fd = lowest_free (fds q)"
  have q: "fd_at q = fd_at p" by (simp add: q_def fork_child_def setsid_def fd_at_def fun_eq_iff)
  define p' where "p' = (let r = dup2 fd 2 (dup2 fd 1 (dup2 fd 0 (set_fd fd (Some Dev_null) q))) in if STDERR_FILENO < fd then close_fd fd r else r)"
  have "simple_daemonize ok p = Returns 0 p'"
    using assms True by (simp add: simple_daemonize_def open_null_def p'_def q_def fd_def Let_def)
  moreover have "redirected q p'" using dup2_redirects [of fd q] by (simp add: fd_def p'_def)
  ultimately show ?thesis using True q
    by (auto simp: redirected_def p'_def q_def fork_child_def setsid_def dup2_def close_fd_def Let_def)
qed (simp add: simple_daemonize_def)

theorem simple_daemonize_leads_witness:
  "\<exists>p'. simple_daemonize all_ok demo_process = Returns 0 p' \<and> leads_session p' \<and> work_dir p' = ''/home''"
  using simple_daemonize_leads [of all_ok demo_process] by (auto simp: all_ok_def demo_process_def)

end
