(* ===== verification/Thrift_Wire.thy ===== *)
theory Thrift_Wire
  imports Prelude
begin

text \<open>
  What the generated Thrift code relies on: a protocol, which writes items to a stream and reads them
  back. The protocol is not part of the repository; it is the record \<open>tproto\<close>, whose stream has elements
  of any type, and \<open>reads_back\<close> states its documented behaviour. The loop over the fields of a struct,
  which the generator repeats in each \<open>read\<close>, is here once. The byte counts that all functions return
  and the limit on nesting are left out.
\<close>

section \<open>Protocols\<close>

datatype ttype = T_STOP | T_BOOL | T_I16 | T_I32 | T_DOUBLE | T_STRING | T_STRUCT | T_other nat

datatype mtype = T_CALL | T_REPLY | T_EXCEPTION | T_ONEWAY

text \<open>Numbers are words of their width, and a double is its 64 bits.\<close>

datatype item =
    Message_begin string mtype u32
  | Message_end
  | Struct_begin string
  | Struct_end
  | Field_begin string ttype u16
  | Field_end
  | Field_stop
  | I32 u32
  | I16 u16
  | Bool bool
  | Double u64
  | Str string

datatype app_exception = Unknown string | Unknown_method string | Missing_result string

text \<open>
  A read returns the rest of the stream; \<open>None\<close> says that it throws. The names of structs and fields that
  a read returns are not used by the generated code.
\<close>

record 'b tproto =
  put :: "item \<Rightarrow> 'b list"
  put_exception :: "app_exception \<Rightarrow> 'b list"
  r_message_begin :: "'b list \<Rightarrow> ((string \<times> mtype \<times> u32) \<times> 'b list) option"
  r_message_end :: "'b list \<Rightarrow> 'b list option"
  r_struct_begin :: "'b list \<Rightarrow> 'b list option"
  r_struct_end :: "'b list \<Rightarrow> 'b list option"
  r_field_begin :: "'b list \<Rightarrow> ((ttype \<times> u16) \<times> 'b list) option"
  r_field_end :: "'b list \<Rightarrow> 'b list option"
  r_i32 :: "'b list \<Rightarrow> (u32 \<times> 'b list) option"
  r_i16 :: "'b list \<Rightarrow> (u16 \<times> 'b list) option"
  r_bool :: "'b list \<Rightarrow> (bool \<times> 'b list) option"
  r_double :: "'b list \<Rightarrow> (u64 \<times> 'b list) option"
  r_string :: "'b list \<Rightarrow> (string \<times> 'b list) option"
  r_exception :: "'b list \<Rightarrow> (app_exception \<times> 'b list) option"
  skip :: "ttype \<Rightarrow> 'b list \<Rightarrow> 'b list option"

section \<open>Values\<close>

datatype tvalue =
    VI32 u32
  | VI16 u16
  | VBool bool
  | VDouble u64
  | VStr string
  | VStruct string "(string \<times> u16 \<times> tvalue) list"

fun type_of :: "tvalue \<Rightarrow> ttype" where
  "type_of (VI32 n) = T_I32"
| "type_of (VI16 n) = T_I16"
| "type_of (VBool b) = T_BOOL"
| "type_of (VDouble d) = T_DOUBLE"
| "type_of (VStr s) = T_STRING"
| "type_of (VStruct n fs) = T_STRUCT"

fun put_value :: "'b tproto \<Rightarrow> tvalue \<Rightarrow> 'b list"
  and put_fields :: "'b tproto \<Rightarrow> (string \<times> u16 \<times> tvalue) list \<Rightarrow> 'b list" where
  "put_value P (VI32 n) = put P (I32 n)"
| "put_value P (VI16 n) = put P (I16 n)"
| "put_value P (VBool b) = put P (Bool b)"
| "put_value P (VDouble d) = put P (Double d)"
| "put_value P (VStr s) = put P (Str s)"
| "put_value P (VStruct n fs) = put P (Struct_begin n) @ put_fields P fs"
| "put_fields P [] = put P Field_stop @ put P Struct_end"
| "put_fields P ((f, i, v) # fs) = put P (Field_begin f (type_of v) i) @ put_value P v @ put P Field_end @ put_fields P fs"

section \<open>What is documented of a protocol\<close>

definition reads_back :: "'b tproto \<Rightarrow> bool" where
  "reads_back P \<longleftrightarrow>
     (\<forall>f m q bs. r_message_begin P (put P (Message_begin f m q) @ bs) = Some ((f, m, q), bs)) \<and>
     (\<forall>bs. r_message_end P (put P Message_end @ bs) = Some bs) \<and>
     (\<forall>n bs. r_struct_begin P (put P (Struct_begin n) @ bs) = Some bs) \<and>
     (\<forall>bs. r_struct_end P (put P Struct_end @ bs) = Some bs) \<and>
     (\<forall>f t i bs. t \<noteq> T_STOP \<longrightarrow> r_field_begin P (put P (Field_begin f t i) @ bs) = Some ((t, i), bs)) \<and>
     (\<forall>bs. \<exists>i. r_field_begin P (put P Field_stop @ bs) = Some ((T_STOP, i), bs)) \<and>
     (\<forall>bs. r_field_end P (put P Field_end @ bs) = Some bs) \<and>
     (\<forall>n bs. r_i32 P (put P (I32 n) @ bs) = Some (n, bs)) \<and>
     (\<forall>n bs. r_i16 P (put P (I16 n) @ bs) = Some (n, bs)) \<and>
     (\<forall>b bs. r_bool P (put P (Bool b) @ bs) = Some (b, bs)) \<and>
     (\<forall>d bs. r_double P (put P (Double d) @ bs) = Some (d, bs)) \<and>
     (\<forall>s bs. r_string P (put P (Str s) @ bs) = Some (s, bs)) \<and>
     (\<forall>e bs. r_exception P (put_exception P e @ bs) = Some (e, bs)) \<and>
     (\<forall>v bs. skip P (type_of v) (put_value P v @ bs) = Some bs)"

section \<open>Reading a struct\<close>

text \<open>
  The loop of every \<open>read\<close>; \<open>field\<close> is its \<open>switch\<close>. \<open>None\<close> also stands for a loop that never ends,
  on a protocol that never reports \<open>T_STOP\<close>.
\<close>

partial_function (option) read_fields ::
  "'b tproto \<Rightarrow> (ttype \<Rightarrow> u16 \<Rightarrow> 'a \<Rightarrow> 'b list \<Rightarrow> ('a \<times> 'b list) option) \<Rightarrow> 'a \<Rightarrow> 'b list \<Rightarrow> ('a \<times> 'b list) option" where
  "read_fields P field x bs = do {
     ((t, i), bs) \<leftarrow> r_field_begin P bs;
     if t = T_STOP then Some (x, bs)
     else do {
       (x, bs) \<leftarrow> field t i x bs;
       bs \<leftarrow> r_field_end P bs;
       read_fields P field x bs
     }
   }"

definition read_struct ::
  "'b tproto \<Rightarrow> (ttype \<Rightarrow> u16 \<Rightarrow> 'a \<Rightarrow> 'b list \<Rightarrow> ('a \<times> 'b list) option) \<Rightarrow> 'a \<Rightarrow> 'b list \<Rightarrow> ('a \<times> 'b list) option" where
  "read_struct P field x bs = do {
     bs \<leftarrow> r_struct_begin P bs;
     (x, bs) \<leftarrow> read_fields P field x bs;
     bs \<leftarrow> r_struct_end P bs;
     Some (x, bs)
   }"

text \<open>One case of a \<open>switch\<close>: the value is read when it has the right type, and skipped otherwise.\<close>

definition take_field ::
  "'b tproto \<Rightarrow> ttype \<Rightarrow> ttype \<Rightarrow> ('b list \<Rightarrow> ('v \<times> 'b list) option) \<Rightarrow> ('v \<Rightarrow> 'a) \<Rightarrow> 'a \<Rightarrow> 'b list \<Rightarrow> ('a \<times> 'b list) option" where
  "take_field P want t read store x bs =
     (if t = want then do { (v, bs) \<leftarrow> read bs; Some (store v, bs) }
      else do { bs \<leftarrow> skip P t bs; Some (x, bs) })"

section \<open>Lemmas\<close>

lemma reads_backD [simp]:
  assumes "reads_back P"
  shows "r_message_begin P (put P (Message_begin f m q) @ bs) = Some ((f, m, q), bs)"
    "r_message_end P (put P Message_end @ bs) = Some bs"
    "r_struct_begin P (put P (Struct_begin n) @ bs) = Some bs"
    "r_struct_end P (put P Struct_end @ bs) = Some bs"
    "t \<noteq> T_STOP \<Longrightarrow> r_field_begin P (put P (Field_begin f t i) @ bs) = Some ((t, i), bs)"
    "r_field_end P (put P Field_end @ bs) = Some bs"
    "r_i32 P (put P (I32 w) @ bs) = Some (w, bs)"
    "r_i16 P (put P (I16 h) @ bs) = Some (h, bs)"
    "r_bool P (put P (Bool b) @ bs) = Some (b, bs)"
    "r_double P (put P (Double d) @ bs) = Some (d, bs)"
    "r_string P (put P (Str s) @ bs) = Some (s, bs)"
    "r_exception P (put_exception P e @ bs) = Some (e, bs)"
    "skip P (type_of v) (put_value P v @ bs) = Some bs"
  using assms unfolding reads_back_def by ((elim conjE, simp only: simp_thms)+)

lemma reads_stop: "reads_back P \<Longrightarrow> \<exists>i. r_field_begin P (put P Field_stop @ bs) = Some ((T_STOP, i), bs)"
  unfolding reads_back_def by (elim conjE) (rule spec)

lemma type_of_not_stop [simp]: "type_of v \<noteq> T_STOP"
  by (cases v) simp_all

lemma skip_base [simp]:
  assumes "reads_back P"
  shows "skip P T_I32 (put P (I32 n) @ bs) = Some bs" "skip P T_I16 (put P (I16 h) @ bs) = Some bs"
    "skip P T_BOOL (put P (Bool b) @ bs) = Some bs" "skip P T_DOUBLE (put P (Double d) @ bs) = Some bs"
    "skip P T_STRING (put P (Str s) @ bs) = Some bs"
    "skip P T_STRUCT (put P (Struct_begin m) @ put_fields P fs @ bs) = Some bs"
  using reads_backD(13) [OF assms, of "VI32 n"] reads_backD(13) [OF assms, of "VI16 h"] reads_backD(13) [OF assms, of "VBool b"]
    reads_backD(13) [OF assms, of "VDouble d"] reads_backD(13) [OF assms, of "VStr s"] reads_backD(13) [OF assms, of "VStruct m fs"]
  by simp_all

text \<open>Reading a struct applies its fields to the object, in their order.\<close>

lemma read_fields_fold:
  assumes "reads_back P" and "\<And>i v x bs. field (type_of v) i x (put_value P v @ bs) = Some (upd i v x, bs)"
  shows "\<exists>bs'. read_fields P field x (put_fields P fs @ bs) = Some (fold (\<lambda>(f, i, v). upd i v) fs x, bs') \<and>
    r_struct_end P bs' = Some bs"
proof (induction fs arbitrary: x)
  case Nil
  obtain i where "r_field_begin P (put P Field_stop @ put P Struct_end @ bs) = Some ((T_STOP, i), put P Struct_end @ bs)"
    using reads_stop [OF assms(1)] by blast
  then show ?case using assms(1) by (simp add: read_fields.simps)
next
  case (Cons a fs)
  obtain f i v where a: "a = (f, i, v)" by (cases a)
  show ?case using Cons.IH [where x = "upd i v x"] assms by (subst read_fields.simps) (simp add: a)
qed

lemma read_struct_fold:
  assumes "reads_back P" and "\<And>i v x bs. field (type_of v) i x (put_value P v @ bs) = Some (upd i v x, bs)"
  shows "read_struct P field x (put_value P (VStruct n fs) @ bs) = Some (fold (\<lambda>(f, i, v). upd i v) fs x, bs)"
  using read_fields_fold [where upd = upd, OF assms, of x fs bs] assms(1) by (auto simp: read_struct_def)

lemma take_field_skips:
  "reads_back P \<Longrightarrow> type_of v \<noteq> want \<Longrightarrow> take_field P want (type_of v) read store x (put_value P v @ bs) = Some (x, bs)"
  by (simp add: take_field_def)

section \<open>A protocol of tokens\<close>

text \<open>The protocol that sends the items themselves behaves as documented.\<close>

fun drop_struct :: "nat \<Rightarrow> (item + app_exception) list \<Rightarrow> (item + app_exception) list option" where
  "drop_struct n [] = None"
| "drop_struct n (Inl (Struct_begin s) # bs) = drop_struct (n + 1) bs"
| "drop_struct n (Inl Struct_end # bs) = (if n = 1 then Some bs else drop_struct (n - 1) bs)"
| "drop_struct n (b # bs) = drop_struct n bs"

definition token_proto :: "(item + app_exception) tproto" where
  "token_proto = \<lparr>put = (\<lambda>t. [Inl t]), put_exception = (\<lambda>e. [Inr e]),
     r_message_begin = (\<lambda>bs. case bs of Inl (Message_begin f m q) # bs \<Rightarrow> Some ((f, m, q), bs) | _ \<Rightarrow> None),
     r_message_end = (\<lambda>bs. case bs of Inl Message_end # bs \<Rightarrow> Some bs | _ \<Rightarrow> None),
     r_struct_begin = (\<lambda>bs. case bs of Inl (Struct_begin s) # bs \<Rightarrow> Some bs | _ \<Rightarrow> None),
     r_struct_end = (\<lambda>bs. case bs of Inl Struct_end # bs \<Rightarrow> Some bs | _ \<Rightarrow> None),
     r_field_begin = (\<lambda>bs. case bs of Inl (Field_begin f t i) # bs \<Rightarrow> Some ((t, i), bs)
       | Inl Field_stop # bs \<Rightarrow> Some ((T_STOP, 0), bs) | _ \<Rightarrow> None),
     r_field_end = (\<lambda>bs. case bs of Inl Field_end # bs \<Rightarrow> Some bs | _ \<Rightarrow> None),
     r_i32 = (\<lambda>bs. case bs of Inl (I32 n) # bs \<Rightarrow> Some (n, bs) | _ \<Rightarrow> None),
     r_i16 = (\<lambda>bs. case bs of Inl (I16 n) # bs \<Rightarrow> Some (n, bs) | _ \<Rightarrow> None),
     r_bool = (\<lambda>bs. case bs of Inl (Bool b) # bs \<Rightarrow> Some (b, bs) | _ \<Rightarrow> None),
     r_double = (\<lambda>bs. case bs of Inl (Double d) # bs \<Rightarrow> Some (d, bs) | _ \<Rightarrow> None),
     r_string = (\<lambda>bs. case bs of Inl (Str s) # bs \<Rightarrow> Some (s, bs) | _ \<Rightarrow> None),
     r_exception = (\<lambda>bs. case bs of Inr e # bs \<Rightarrow> Some (e, bs) | _ \<Rightarrow> None),
     skip = (\<lambda>t bs. case bs of [] \<Rightarrow> None | b # bs' \<Rightarrow> if t = T_STRUCT then drop_struct 0 bs else Some bs')\<rparr>"

lemma token_put [simp]: "put token_proto t = [Inl t]"
  by (simp add: token_proto_def)

lemma token_skip [simp]: "skip token_proto t (b # bs) = (if t = T_STRUCT then drop_struct 0 (b # bs) else Some bs)"
  by (simp add: token_proto_def)

lemma drop_struct_value:
  "P = token_proto \<Longrightarrow> n \<noteq> 0 \<Longrightarrow> drop_struct n (put_value P v @ bs) = drop_struct n bs"
  "P = token_proto \<Longrightarrow> n \<noteq> 0 \<Longrightarrow> drop_struct n (put_fields P fs @ bs) = (if n = 1 then Some bs else drop_struct (n - 1) bs)"
  by (induction P v and P fs arbitrary: n bs and n bs rule: put_value_put_fields.induct) simp_all

lemma token_proto_ok: "reads_back token_proto"
proof -
  have "skip token_proto (type_of v) (put_value token_proto v @ bs) = Some bs" for v bs
    by (cases v) (simp_all add: drop_struct_value)
  then show ?thesis unfolding reads_back_def by (intro conjI) (simp_all add: token_proto_def)
qed

end
