(* ===== verification/Student_Service.thy ===== *)
theory Student_Service
  imports Thrift_Wire
begin

text \<open>
  The service of \<open>src/thrift/student/gen-cpp\<close>: the struct \<open>Student\<close> (\<open>student_types.cpp\<close>), the arguments
  and the result of the call \<open>put\<close>, its client and its processor (\<open>Serv.cpp\<close>). The handler is a
  parameter; the callbacks of an event handler, which the server does not install, and the client for
  several threads are left out.
\<close>

section \<open>Student\<close>

record student =
  sno :: u32
  sname :: string
  ssex :: bool
  sage :: u16
  isset_sno :: bool
  isset_sname :: bool
  isset_ssex :: bool
  isset_sage :: bool

definition new_student :: student where
  "new_student = \<lparr>sno = 0, sname = [], ssex = False, sage = 0,
     isset_sno = False, isset_sname = False, isset_ssex = False, isset_sage = False\<rparr>"

definition student_field :: "'b tproto \<Rightarrow> ttype \<Rightarrow> u16 \<Rightarrow> student \<Rightarrow> 'b list \<Rightarrow> (student \<times> 'b list) option" where
  "student_field P t i x bs =
     (if i = 1 then take_field P T_I32 t (r_i32 P) (\<lambda>v. x\<lparr>sno := v, isset_sno := True\<rparr>) x bs
      else if i = 2 then take_field P T_STRING t (r_string P) (\<lambda>v. x\<lparr>sname := v, isset_sname := True\<rparr>) x bs
      else if i = 3 then take_field P T_BOOL t (r_bool P) (\<lambda>v. x\<lparr>ssex := v, isset_ssex := True\<rparr>) x bs
      else if i = 4 then take_field P T_I16 t (r_i16 P) (\<lambda>v. x\<lparr>sage := v, isset_sage := True\<rparr>) x bs
      else do { bs \<leftarrow> skip P t bs; Some (x, bs) })"

definition Student_read :: "'b tproto \<Rightarrow> student \<Rightarrow> 'b list \<Rightarrow> (student \<times> 'b list) option" where
  "Student_read P = read_struct P (student_field P)"

definition Student_write :: "'b tproto \<Rightarrow> student \<Rightarrow> 'b list" where
  "Student_write P x =
     put P (Struct_begin ''Student'') @
     put P (Field_begin ''sno'' T_I32 1) @ put P (I32 (sno x)) @ put P Field_end @
     put P (Field_begin ''sname'' T_STRING 2) @ put P (Str (sname x)) @ put P Field_end @
     put P (Field_begin ''ssex'' T_BOOL 3) @ put P (Bool (ssex x)) @ put P Field_end @
     put P (Field_begin ''sage'' T_I16 4) @ put P (I16 (sage x)) @ put P Field_end @
     put P Field_stop @ put P Struct_end"

section \<open>Arguments and result of the call\<close>

record put_args =
  arg_s :: student
  isset_s :: bool

record put_result =
  success :: u32
  isset_success :: bool

definition put_args_field :: "'b tproto \<Rightarrow> ttype \<Rightarrow> u16 \<Rightarrow> put_args \<Rightarrow> 'b list \<Rightarrow> (put_args \<times> 'b list) option" where
  "put_args_field P t i x bs =
     (if i = 1 then take_field P T_STRUCT t (Student_read P (arg_s x)) (\<lambda>v. x\<lparr>arg_s := v, isset_s := True\<rparr>) x bs
      else do { bs \<leftarrow> skip P t bs; Some (x, bs) })"

definition Serv_put_args_read :: "'b tproto \<Rightarrow> put_args \<Rightarrow> 'b list \<Rightarrow> (put_args \<times> 'b list) option" where
  "Serv_put_args_read P = read_struct P (put_args_field P)"

definition Serv_put_args_write :: "'b tproto \<Rightarrow> put_args \<Rightarrow> 'b list" where
  "Serv_put_args_write P x =
     put P (Struct_begin ''Serv_put_args'') @
     put P (Field_begin ''s'' T_STRUCT 1) @ Student_write P (arg_s x) @ put P Field_end @
     put P Field_stop @ put P Struct_end"

definition Serv_put_pargs_write :: "'b tproto \<Rightarrow> student \<Rightarrow> 'b list" where
  "Serv_put_pargs_write P s =
     put P (Struct_begin ''Serv_put_pargs'') @
     put P (Field_begin ''s'' T_STRUCT 1) @ Student_write P s @ put P Field_end @
     put P Field_stop @ put P Struct_end"

definition put_result_field :: "'b tproto \<Rightarrow> ttype \<Rightarrow> u16 \<Rightarrow> put_result \<Rightarrow> 'b list \<Rightarrow> (put_result \<times> 'b list) option" where
  "put_result_field P t i x bs =
     (if i = 0 then take_field P T_I32 t (r_i32 P) (\<lambda>v. x\<lparr>success := v, isset_success := True\<rparr>) x bs
      else do { bs \<leftarrow> skip P t bs; Some (x, bs) })"

definition Serv_put_result_read :: "'b tproto \<Rightarrow> put_result \<Rightarrow> 'b list \<Rightarrow> (put_result \<times> 'b list) option" where
  "Serv_put_result_read P = read_struct P (put_result_field P)"

text \<open>\<open>Serv_put_presult\<close>, which the client reads, stores into a variable of the caller.\<close>

definition Serv_put_presult_read :: "'b tproto \<Rightarrow> put_result \<Rightarrow> 'b list \<Rightarrow> (put_result \<times> 'b list) option" where
  "Serv_put_presult_read P = read_struct P (put_result_field P)"

definition Serv_put_result_write :: "'b tproto \<Rightarrow> put_result \<Rightarrow> 'b list" where
  "Serv_put_result_write P x =
     put P (Struct_begin ''Serv_put_result'') @
     (if isset_success x then put P (Field_begin ''success'' T_I32 0) @ put P (I32 (success x)) @ put P Field_end else []) @
     put P Field_stop @ put P Struct_end"

section \<open>The client\<close>

definition send_put :: "'b tproto \<Rightarrow> student \<Rightarrow> 'b list" where
  "send_put P s = put P (Message_begin ''put'' T_CALL 0) @ Serv_put_pargs_write P s @ put P Message_end"

text \<open>
  The result is what is thrown or returned; \<open>junk\<close> is the uninitialised \<open>_return\<close>. After a message of
  another type, or for another call, the client goes on reading a result.
\<close>

definition skip_message :: "'b tproto \<Rightarrow> 'b list \<Rightarrow> 'b list option" where
  "skip_message P bs = do { bs \<leftarrow> skip P T_STRUCT bs; r_message_end P bs }"

definition recv_put :: "'b tproto \<Rightarrow> u32 \<Rightarrow> 'b list \<Rightarrow> ((app_exception + u32) \<times> 'b list) option" where
  "recv_put P junk bs = do {
     ((fname, mtype, rseqid), bs) \<leftarrow> r_message_begin P bs;
     if mtype = T_EXCEPTION then do {
       (x, bs) \<leftarrow> r_exception P bs;
       bs \<leftarrow> r_message_end P bs;
       Some (Inl x, bs)
     } else do {
       bs \<leftarrow> (if mtype \<noteq> T_REPLY then skip_message P bs else Some bs);
       bs \<leftarrow> (if fname \<noteq> ''put'' then skip_message P bs else Some bs);
       (result, bs) \<leftarrow> Serv_put_presult_read P \<lparr>success = junk, isset_success = False\<rparr> bs;
       bs \<leftarrow> r_message_end P bs;
       Some (if isset_success result then Inr (success result) else Inl (Missing_result ''put failed: unknown result''), bs)
     }
   }"

section \<open>The processor\<close>

text \<open>A handler changes its state and returns a number, or throws with a message.\<close>

definition process_put ::
  "'b tproto \<Rightarrow> (student \<Rightarrow> 'h \<Rightarrow> (string + u32) \<times> 'h) \<Rightarrow> u32 \<Rightarrow> 'b list \<Rightarrow> 'h \<Rightarrow> ('b list \<times> 'h \<times> 'b list) option" where
  "process_put P handler seqid bs h = do {
     (args, bs) \<leftarrow> Serv_put_args_read P \<lparr>arg_s = new_student, isset_s = False\<rparr> bs;
     bs \<leftarrow> r_message_end P bs;
     case handler (arg_s args) h of
       (Inl what, h) \<Rightarrow>
         Some (put P (Message_begin ''put'' T_EXCEPTION seqid) @ put_exception P (Unknown what) @ put P Message_end, h, bs)
     | (Inr v, h) \<Rightarrow>
         Some (put P (Message_begin ''put'' T_REPLY seqid) @
           Serv_put_result_write P \<lparr>success = v, isset_success = True\<rparr> @ put P Message_end, h, bs)
   }"

definition Serv_dispatchCall ::
  "'b tproto \<Rightarrow> (student \<Rightarrow> 'h \<Rightarrow> (string + u32) \<times> 'h) \<Rightarrow> string \<Rightarrow> u32 \<Rightarrow> 'b list \<Rightarrow> 'h \<Rightarrow> ('b list \<times> 'h \<times> 'b list) option" where
  "Serv_dispatchCall P handler fname seqid bs h =
     (if fname \<noteq> ''put'' then do {
        bs \<leftarrow> skip_message P bs;
        Some (put P (Message_begin fname T_EXCEPTION seqid) @
          put_exception P (Unknown_method (''Invalid method name: '' @ [CHR 0x27] @ fname @ [CHR 0x27])) @ put P Message_end, h, bs)
      } else process_put P handler seqid bs h)"

section \<open>Lemmas\<close>

fun student_set :: "u16 \<Rightarrow> tvalue \<Rightarrow> student \<Rightarrow> student" where
  "student_set i v x = (case v of
     VI32 n \<Rightarrow> if i = 1 then x\<lparr>sno := n, isset_sno := True\<rparr> else x
   | VStr s \<Rightarrow> if i = 2 then x\<lparr>sname := s, isset_sname := True\<rparr> else x
   | VBool b \<Rightarrow> if i = 3 then x\<lparr>ssex := b, isset_ssex := True\<rparr> else x
   | VI16 n \<Rightarrow> if i = 4 then x\<lparr>sage := n, isset_sage := True\<rparr> else x
   | _ \<Rightarrow> x)"

text \<open>A student as a value, and what the receiver of it has.\<close>

definition student_value :: "student \<Rightarrow> tvalue" where
  "student_value x = VStruct ''Student'' [(''sno'', 1, VI32 (sno x)), (''sname'', 2, VStr (sname x)),
     (''ssex'', 3, VBool (ssex x)), (''sage'', 4, VI16 (sage x))]"

definition received :: "student \<Rightarrow> student" where
  "received x = x\<lparr>isset_sno := True, isset_sname := True, isset_ssex := True, isset_sage := True\<rparr>"

lemma Student_write_value: "Student_write P x = put_value P (student_value x)"
  by (simp add: Student_write_def student_value_def)

lemma student_field_set:
  "reads_back P \<Longrightarrow> student_field P (type_of v) i x (put_value P v @ bs) = Some (student_set i v x, bs)"
  by (cases v) (simp_all add: student_field_def take_field_def)

lemma Student_read_fold:
  "reads_back P \<Longrightarrow> Student_read P x (put_value P (VStruct n fs) @ bs) = Some (fold (\<lambda>(f, i, v). student_set i v) fs x, bs)"
  unfolding Student_read_def by (rule read_struct_fold) (simp_all add: student_field_set del: student_set.simps)

lemma Student_read_write: "reads_back P \<Longrightarrow> Student_read P x (Student_write P s @ bs) = Some (received s, bs)"
  unfolding Student_write_value student_value_def
  by (subst Student_read_fold) (simp_all add: received_def)

lemma put_args_read:
  assumes "reads_back P"
  shows "Serv_put_args_read P x (put P (Struct_begin n) @ put P (Field_begin ''s'' T_STRUCT 1) @ Student_write P s @ put P Field_end @
    put P Field_stop @ put P Struct_end @ bs) = Some (x\<lparr>arg_s := received s, isset_s := True\<rparr>, bs)"
proof -
  obtain i where "r_field_begin P (put P Field_stop @ put P Struct_end @ bs) = Some ((T_STOP, i), put P Struct_end @ bs)"
    using reads_stop [OF assms] by blast
  then show ?thesis using assms
    by (simp add: Serv_put_args_read_def read_struct_def read_fields.simps put_args_field_def take_field_def Student_read_write)
qed

lemma put_result_read:
  assumes "reads_back P"
  shows "Serv_put_presult_read P x (Serv_put_result_write P r @ bs) =
      Some (if isset_success r then x\<lparr>success := success r, isset_success := True\<rparr> else x, bs)"
proof -
  obtain i where "r_field_begin P (put P Field_stop @ put P Struct_end @ bs) = Some ((T_STOP, i), put P Struct_end @ bs)"
    using reads_stop [OF assms] by blast
  then show ?thesis using assms
    by (simp add: Serv_put_presult_read_def Serv_put_result_write_def read_struct_def read_fields.simps
        put_result_field_def take_field_def)
qed

lemma skip_message_any:
  "reads_back P \<Longrightarrow> skip_message P (put_value P (VStruct n fs) @ put P Message_end @ bs) = Some bs"
  by (simp add: skip_message_def)

section \<open>Properties\<close>

text \<open>C25: Reading a student applies the fields of the struct on the wire in their order: a field of known number and the
  right type is stored and marked as set, any other is skipped whatever it holds, and what is not sent keeps its
  value. So programs with more or fewer fields understand each other.\<close>
theorem student_reads_any_struct:
  assumes "reads_back P"
  shows "Student_read P x (put_value P (VStruct n fs) @ bs) = Some (fold (\<lambda>(f, i, v) x.
    case v of
      VI32 m \<Rightarrow> if i = 1 then x\<lparr>sno := m, isset_sno := True\<rparr> else x
    | VStr s \<Rightarrow> if i = 2 then x\<lparr>sname := s, isset_sname := True\<rparr> else x
    | VBool b \<Rightarrow> if i = 3 then x\<lparr>ssex := b, isset_ssex := True\<rparr> else x
    | VI16 m \<Rightarrow> if i = 4 then x\<lparr>sage := m, isset_sage := True\<rparr> else x
    | _ \<Rightarrow> x) fs x, bs)"
proof -
  have "(\<lambda>(f, i, v). student_set i v) = ((\<lambda>(f, i, v) x.
    case v of
      VI32 m \<Rightarrow> if i = 1 then x\<lparr>sno := m, isset_sno := True\<rparr> else x
    | VStr s \<Rightarrow> if i = 2 then x\<lparr>sname := s, isset_sname := True\<rparr> else x
    | VBool b \<Rightarrow> if i = 3 then x\<lparr>ssex := b, isset_ssex := True\<rparr> else x
    | VI16 m \<Rightarrow> if i = 4 then x\<lparr>sage := m, isset_sage := True\<rparr> else x
    | _ \<Rightarrow> x) :: string \<times> u16 \<times> tvalue \<Rightarrow> student \<Rightarrow> student)"
    by (intro ext) (simp add: split_def)
  then show ?thesis using Student_read_fold [OF assms, of x n fs bs] by (simp only:)
qed

theorem student_reads_any_struct_witness:
  "Student_read token_proto new_student (put_value token_proto
     (VStruct ''Student'' [(''sname'', 2, VStr ''liqb''), (''class'', 9, VStruct ''C'' [(''n'', 1, VI32 5)]), (''sno'', 1, VBool True)]) @ []) =
   Some (new_student\<lparr>sname := ''liqb'', isset_sname := True\<rparr>, [])"
  by (subst student_reads_any_struct [OF token_proto_ok]) simp

text \<open>C20: A call over any protocol that reads back what was written: the handler is run once with the student that was
  given to the client, the client gets the number it returned or the exception it threw, and both sides have read
  exactly the other's message.\<close>
theorem put_call_returns:
  assumes "reads_back P" and "handler (received s) h = (r, h')"
  shows "\<exists>body reply. r_message_begin P (send_put P s @ tail) = Some ((''put'', T_CALL, 0), body) \<and>
    Serv_dispatchCall P handler ''put'' 0 body h = Some (reply, h', tail) \<and>
    recv_put P junk (reply @ later) = Some (case r of Inl what \<Rightarrow> Inl (Unknown what) | Inr v \<Rightarrow> Inr v, later)"
proof -
  define body where "body = Serv_put_pargs_write P s @ put P Message_end @ tail"
  have begin_ok: "r_message_begin P (send_put P s @ tail) = Some ((''put'', T_CALL, 0), body)"
    using assms(1) by (simp add: send_put_def body_def)
  have args: "Serv_put_args_read P x body = Some (x\<lparr>arg_s := received s, isset_s := True\<rparr>, put P Message_end @ tail)" for x
    using put_args_read [OF assms(1)] by (simp add: body_def Serv_put_pargs_write_def)
  show ?thesis
    using begin_ok assms args
    by (cases r) (simp_all add: Serv_dispatchCall_def process_put_def recv_put_def put_result_read)
qed

theorem put_call_returns_witness:
  "\<exists>body reply. r_message_begin token_proto (send_put token_proto new_student @ []) = Some ((''put'', T_CALL, 0), body) \<and>
    Serv_dispatchCall token_proto (\<lambda>s h. (Inr (sno s + 7), s # h)) ''put'' 0 body [] = Some (reply, [received new_student], []) \<and>
    recv_put token_proto 99 (reply @ []) = Some (Inr 7, [])"
  using put_call_returns [OF token_proto_ok, of "\<lambda>s h. (Inr (sno s + 7), s # h)" new_student "[]" "Inr 7" "[received new_student]" "[]" 99 "[]"]
  by (simp add: received_def new_student_def)

text \<open>C26: A call of a method that the service does not have is answered by an exception that names it; its arguments,
  whatever they are, are skipped up to the next message, and the handler is not run.\<close>
theorem unknown_method_answered:
  assumes "reads_back P" and "fname \<noteq> ''put''"
  shows "\<exists>reply. Serv_dispatchCall P handler fname seqid (put_value P (VStruct n fs) @ put P Message_end @ tail) h = Some (reply, h, tail) \<and>
    recv_put P junk (reply @ later) = Some (Inl (Unknown_method (''Invalid method name: '' @ [CHR 0x27] @ fname @ [CHR 0x27])), later)"
  using assms skip_message_any [OF assms(1), of n fs tail] by (simp add: Serv_dispatchCall_def recv_put_def)

theorem unknown_method_answered_witness:
  "\<exists>reply. Serv_dispatchCall token_proto (\<lambda>s h. (Inr 0, s # h)) ''get'' 4
      (put_value token_proto (VStruct ''Serv_get_args'' [(''k'', 1, VI32 3)]) @ put token_proto Message_end @ []) [] = Some (reply, [], [])"
  using unknown_method_answered [OF token_proto_ok, of "''get''" "\<lambda>s h. (Inr 0, s # h)" 4 "''Serv_get_args''" "[(''k'', 1, VI32 3)]" "[]" "[]" 0 "[]"] by blast

text \<open>After a reply for another call the client does not stop: it skips that message and takes what follows for the
  result, without a message around it.\<close>
theorem wrong_reply_reads_on:
  assumes "reads_back P" and "fname \<noteq> ''put''"
  shows "recv_put P junk (put P (Message_begin fname T_REPLY q) @ put_value P (VStruct n fs) @ put P Message_end @
      Serv_put_result_write P \<lparr>success = v, isset_success = True\<rparr> @ put P Message_end @ later) = Some (Inr v, later)"
proof -
  define rest where "rest = Serv_put_result_write P \<lparr>success = v, isset_success = True\<rparr> @ put P Message_end @ later"
  have "skip_message P (put_value P (VStruct n fs) @ put P Message_end @ rest) = Some rest" by (rule skip_message_any [OF assms(1)])
  then show ?thesis using assms put_result_read [OF assms(1)] unfolding rest_def by (simp add: recv_put_def)
qed

theorem wrong_reply_reads_on_witness:
  "recv_put token_proto 0 (put token_proto (Message_begin ''get'' T_REPLY 1) @ put_value token_proto (VStruct ''R'' []) @ put token_proto Message_end @
      Serv_put_result_write token_proto \<lparr>success = 8, isset_success = True\<rparr> @ put token_proto Message_end @ []) = Some (Inr 8, [])"
  by (rule wrong_reply_reads_on [OF token_proto_ok]) simp

end
