(* ===== verification/Vos_Server.thy ===== *)
theory Vos_Server
  imports Thrift_Wire My_Config Log_Files Daemon
begin

text \<open>
  The server for orders, \<open>src/thrift/vos/gen-cpp\<close>: the struct \<open>OrderInfo\<close> (\<open>vos_types.cpp\<close>), the one-way
  call \<open>SendOrderInfo\<close>, its client and processor (\<open>VOSServer.cpp\<close>), the queue of orders, the options and
  the start-up of \<open>my_vosserver.cpp\<close>. Configuration and log are \<open>vos_conf.cpp\<close> and \<open>vos_log.cpp\<close>, which
  have the text of the files modelled in \<open>My_Config\<close> and \<open>Log_Files\<close>.
\<close>

section \<open>OrderInfo\<close>

definition MARKET_END :: u32 where "MARKET_END = 1"
definition BIZ_END :: u32 where "BIZ_END = 2"

record order_info =
  oi_id :: string
  oi_flag :: u32
  oi_fee :: u64
  oi_key :: string
  oi_type :: u32
  isset_id :: bool
  isset_flag :: bool
  isset_fee :: bool
  isset_key :: bool
  isset_type :: bool

definition new_order :: order_info where
  "new_order = \<lparr>oi_id = [], oi_flag = 0, oi_fee = 0, oi_key = [], oi_type = 0,
     isset_id = False, isset_flag = False, isset_fee = False, isset_key = False, isset_type = False\<rparr>"

text \<open>The type is read as a number and cast, whatever it is.\<close>

definition order_field :: "'b tproto \<Rightarrow> ttype \<Rightarrow> u16 \<Rightarrow> order_info \<Rightarrow> 'b list \<Rightarrow> (order_info \<times> 'b list) option" where
  "order_field P t i x bs =
     (if i = 1 then take_field P T_STRING t (r_string P) (\<lambda>v. x\<lparr>oi_id := v, isset_id := True\<rparr>) x bs
      else if i = 2 then take_field P T_I32 t (r_i32 P) (\<lambda>v. x\<lparr>oi_flag := v, isset_flag := True\<rparr>) x bs
      else if i = 3 then take_field P T_DOUBLE t (r_double P) (\<lambda>v. x\<lparr>oi_fee := v, isset_fee := True\<rparr>) x bs
      else if i = 4 then take_field P T_STRING t (r_string P) (\<lambda>v. x\<lparr>oi_key := v, isset_key := True\<rparr>) x bs
      else if i = 5 then take_field P T_I32 t (r_i32 P) (\<lambda>v. x\<lparr>oi_type := v, isset_type := True\<rparr>) x bs
      else do { bs \<leftarrow> skip P t bs; Some (x, bs) })"

definition OrderInfo_read :: "'b tproto \<Rightarrow> order_info \<Rightarrow> 'b list \<Rightarrow> (order_info \<times> 'b list) option" where
  "OrderInfo_read P = read_struct P (order_field P)"

definition OrderInfo_write :: "'b tproto \<Rightarrow> order_info \<Rightarrow> 'b list" where
  "OrderInfo_write P x =
     put P (Struct_begin ''OrderInfo'') @
     put P (Field_begin ''id'' T_STRING 1) @ put P (Str (oi_id x)) @ put P Field_end @
     put P (Field_begin ''flag'' T_I32 2) @ put P (I32 (oi_flag x)) @ put P Field_end @
     put P (Field_begin ''fee'' T_DOUBLE 3) @ put P (Double (oi_fee x)) @ put P Field_end @
     put P (Field_begin ''key'' T_STRING 4) @ put P (Str (oi_key x)) @ put P Field_end @
     put P (Field_begin ''type'' T_I32 5) @ put P (I32 (oi_type x)) @ put P Field_end @
     put P Field_stop @ put P Struct_end"

section \<open>The call\<close>

record order_args =
  arg_oi :: order_info
  isset_oi :: bool

definition order_args_field :: "'b tproto \<Rightarrow> ttype \<Rightarrow> u16 \<Rightarrow> order_args \<Rightarrow> 'b list \<Rightarrow> (order_args \<times> 'b list) option" where
  "order_args_field P t i x bs =
     (if i = 1 then take_field P T_STRUCT t (OrderInfo_read P (arg_oi x)) (\<lambda>v. x\<lparr>arg_oi := v, isset_oi := True\<rparr>) x bs
      else do { bs \<leftarrow> skip P t bs; Some (x, bs) })"

definition SendOrderInfo_args_read :: "'b tproto \<Rightarrow> order_args \<Rightarrow> 'b list \<Rightarrow> (order_args \<times> 'b list) option" where
  "SendOrderInfo_args_read P = read_struct P (order_args_field P)"

definition SendOrderInfo_args_write :: "'b tproto \<Rightarrow> order_args \<Rightarrow> 'b list" where
  "SendOrderInfo_args_write P x =
     put P (Struct_begin ''VOSServer_SendOrderInfo_args'') @
     put P (Field_begin ''oi'' T_STRUCT 1) @ OrderInfo_write P (arg_oi x) @ put P Field_end @
     put P Field_stop @ put P Struct_end"

definition SendOrderInfo_pargs_write :: "'b tproto \<Rightarrow> order_info \<Rightarrow> 'b list" where
  "SendOrderInfo_pargs_write P oi =
     put P (Struct_begin ''VOSServer_SendOrderInfo_pargs'') @
     put P (Field_begin ''oi'' T_STRUCT 1) @ OrderInfo_write P oi @ put P Field_end @
     put P Field_stop @ put P Struct_end"

definition send_SendOrderInfo :: "'b tproto \<Rightarrow> order_info \<Rightarrow> 'b list" where
  "send_SendOrderInfo P oi =
     put P (Message_begin ''SendOrderInfo'' T_ONEWAY 0) @ SendOrderInfo_pargs_write P oi @ put P Message_end"

text \<open>The handler puts the order at the end of the queue; nothing is written back.\<close>

definition SendOrderInfo :: "order_info \<Rightarrow> order_info list \<Rightarrow> order_info list" where
  "SendOrderInfo oi orderinfoq = orderinfoq @ [oi]"

definition process_SendOrderInfo ::
  "'b tproto \<Rightarrow> 'b list \<Rightarrow> order_info list \<Rightarrow> (order_info list \<times> 'b list) option" where
  "process_SendOrderInfo P bs q = do {
     (args, bs) \<leftarrow> SendOrderInfo_args_read P \<lparr>arg_oi = new_order, isset_oi = False\<rparr> bs;
     bs \<leftarrow> r_message_end P bs;
     Some (SendOrderInfo (arg_oi args) q, bs)
   }"

definition VOSServer_dispatchCall ::
  "'b tproto \<Rightarrow> string \<Rightarrow> u32 \<Rightarrow> 'b list \<Rightarrow> order_info list \<Rightarrow> ('b list \<times> order_info list \<times> 'b list) option" where
  "VOSServer_dispatchCall P fname seqid bs q =
     (if fname \<noteq> ''SendOrderInfo'' then do {
        bs \<leftarrow> skip P T_STRUCT bs;
        bs \<leftarrow> r_message_end P bs;
        Some (put P (Message_begin fname T_EXCEPTION seqid) @
          put_exception P (Unknown_method (''Invalid method name: '' @ [CHR 0x27] @ fname @ [CHR 0x27])) @ put P Message_end, q, bs)
      } else do {
        (q, bs) \<leftarrow> process_SendOrderInfo P bs q;
        Some ([], q, bs)
      })"

section \<open>The queue of orders\<close>

text \<open>The handlers of the two types do nothing yet; the log of what was handled is kept for the proofs.\<close>

partial_function (option) handle_request :: "order_info list \<Rightarrow> order_info list \<Rightarrow> order_info list option" where
  "handle_request orderinfoq handled =
     (case orderinfoq of
        [] \<Rightarrow> Some handled
      | oi # rest \<Rightarrow>
          if oi_type oi = BIZ_END then handle_request rest (handled @ [oi])
          else if oi_type oi = MARKET_END then handle_request rest (handled @ [oi])
          else handle_request orderinfoq handled)"

section \<open>Options and start-up\<close>

record vos_options =
  vos_show_help :: bool
  vos_show_version :: bool
  vos_daemon :: bool
  log_file :: "string option"
  cfg_file :: "string option"
  pid_file :: "string option"

definition vos_set_default_options :: "vos_options \<Rightarrow> vos_options" where
  "vos_set_default_options o' = o'\<lparr>cfg_file := Some ''./vos.ini'', log_file := Some ''./vos.log'', pid_file := Some ''./vos.pid''\<rparr>"

text \<open>\<open>getopt_long\<close> gives a list of options with their arguments; those in the long form have none.\<close>

fun vos_get_options :: "(char \<times> string option) list \<Rightarrow> vos_options \<Rightarrow> int \<times> vos_options" where
  "vos_get_options [] v = (0, v)"
| "vos_get_options ((c, optarg) # os) v =
     (if c = CHR ''h'' then vos_get_options os (v\<lparr>vos_show_version := True, vos_show_help := True\<rparr>)
      else if c = CHR ''v'' then vos_get_options os (v\<lparr>vos_show_version := True\<rparr>)
      else if c = CHR ''d'' then vos_get_options os (v\<lparr>vos_daemon := True\<rparr>)
      else if c = CHR ''c'' then vos_get_options os (v\<lparr>cfg_file := optarg\<rparr>)
      else if c = CHR ''l'' then vos_get_options os (v\<lparr>log_file := optarg\<rparr>)
      else if c = CHR ''p'' then vos_get_options os (v\<lparr>pid_file := optarg\<rparr>)
      else (- 1, v))"

definition VOS_OK :: int where "VOS_OK = 0"
definition VOS_ERR :: int where "VOS_ERR = - 1"

text \<open>
  \<open>opens\<close> is the result of \<open>open\<close> on the log file, \<open>reads\<close> the text of a configuration file that can be
  opened. A missing name gives NULL, from which no string can be made: the fault, as is an age that is no
  \<open>int\<close>. \<open>LOG_DEBUG\<close> is 7.
\<close>

definition vos_init_server ::
  "(string option \<Rightarrow> int) \<Rightarrow> (string option \<Rightarrow> string option) \<Rightarrow> string \<Rightarrow> vos_options \<Rightarrow> logger \<times> my_config \<Rightarrow>
    (int \<times> logger \<times> my_config) option" where
  "vos_init_server opens reads junk v s =
     (case log_init (opens (log_file v)) 7 (case log_file v of None \<Rightarrow> [] | Some f \<Rightarrow> f) (fst s) of
        (status, l) \<Rightarrow>
          if status < 0 then Some (VOS_ERR, l, snd s)
          else do {
            (status, c) \<leftarrow> loadConfigFile (cfg_file v) (reads (cfg_file v)) junk (snd s);
            if status < 0 then Some (VOS_ERR, l, c)
            else do {
              name \<leftarrow> getConfigStr c ''Person'' ''Name'';
              age \<leftarrow> getConfigInt c ''Person'' ''Age'';
              Some (VOS_OK, l, c)
            }
          })"

text \<open>
  How \<open>main\<close> goes on: it ends with a code, or it serves, with the process that it has become. The file with
  the number of the process is left out.
\<close>

datatype vos_run = Vos_ends int | Vos_serves process

definition vos_main ::
  "refusals \<Rightarrow> (string option \<Rightarrow> int) \<Rightarrow> (string option \<Rightarrow> string option) \<Rightarrow> string \<Rightarrow> (char \<times> string option) list \<Rightarrow>
    vos_options \<Rightarrow> logger \<times> my_config \<Rightarrow> process \<Rightarrow> (vos_run \<times> logger \<times> my_config) option" where
  "vos_main ok opens reads junk args v s p =
     (case vos_get_options args (vos_set_default_options v) of (status, v) \<Rightarrow>
        if status < 0 then Some (Vos_ends 0, s)
        else if vos_show_version v then Some (Vos_ends 0, s)
        else case (if vos_daemon v then simple_daemonize ok p else Returns 0 p) of
            Exits n \<Rightarrow> Some (Vos_ends (int n), s)
          | Returns _ p \<Rightarrow> do {
              (status, l, c) \<leftarrow> vos_init_server opens reads junk v s;
              Some (if status \<noteq> VOS_OK then Vos_ends 1 else Vos_serves p, l, c)
            })"

section \<open>Lemmas\<close>

definition order_received :: "order_info \<Rightarrow> order_info" where
  "order_received x = x\<lparr>isset_id := True, isset_flag := True, isset_fee := True, isset_key := True, isset_type := True\<rparr>"

lemma stop_read:
  assumes "reads_back P"
  obtains i where "r_field_begin P (put P Field_stop @ put P Struct_end @ bs) = Some ((T_STOP, i), put P Struct_end @ bs)"
  using reads_stop [OF assms] by blast

lemma OrderInfo_read_write:
  assumes "reads_back P"
  shows "OrderInfo_read P x (OrderInfo_write P oi @ bs) = Some (order_received oi, bs)"
proof -
  obtain i where "r_field_begin P (put P Field_stop @ put P Struct_end @ bs) = Some ((T_STOP, i), put P Struct_end @ bs)"
    by (rule stop_read [OF assms])
  then show ?thesis using assms
    by (simp add: OrderInfo_read_def OrderInfo_write_def read_struct_def read_fields.simps order_field_def take_field_def order_received_def)
qed

lemma SendOrderInfo_args_read_write:
  assumes "reads_back P"
  shows "SendOrderInfo_args_read P x (SendOrderInfo_pargs_write P oi @ bs) = Some (x\<lparr>arg_oi := order_received oi, isset_oi := True\<rparr>, bs)"
proof -
  obtain i where "r_field_begin P (put P Field_stop @ put P Struct_end @ bs) = Some ((T_STOP, i), put P Struct_end @ bs)"
    by (rule stop_read [OF assms])
  then show ?thesis using assms
    by (simp add: SendOrderInfo_args_read_def SendOrderInfo_pargs_write_def read_struct_def read_fields.simps order_args_field_def
        take_field_def OrderInfo_read_write)
qed

lemma handled_types:
  assumes "handle_request q h = Some r"
  shows "\<forall>oi \<in> set q. oi_type oi \<in> {BIZ_END, MARKET_END}"
proof (rule handle_request.raw_induct [OF _ assms])
  fix f q h r
  assume "\<And>q h r. f q h = Some r \<Longrightarrow> \<forall>oi \<in> set q. oi_type oi \<in> {BIZ_END, MARKET_END}"
    and "(case q of [] \<Rightarrow> Some h
      | oi # rest \<Rightarrow>
          if oi_type oi = BIZ_END then f rest (h @ [oi])
          else if oi_type oi = MARKET_END then f rest (h @ [oi])
          else f q h) = Some r"
  then show "\<forall>oi \<in> set q. oi_type oi \<in> {BIZ_END, MARKET_END}"
    by (fastforce split: list.splits if_splits)
qed

lemma valid_types_handled: "\<forall>oi \<in> set q. oi_type oi \<in> {BIZ_END, MARKET_END} \<Longrightarrow> handle_request q h = Some (h @ q)"
proof (induction q arbitrary: h)
  case (Cons oi q)
  then show ?case by (subst handle_request.simps) auto
qed (simp add: handle_request.simps)

lemma handle_request_cases:
  "handle_request q [] = (if \<forall>oi \<in> set q. oi_type oi \<in> {BIZ_END, MARKET_END} then Some q else None)"
proof (cases "\<forall>oi \<in> set q. oi_type oi \<in> {BIZ_END, MARKET_END}")
  case True
  then show ?thesis using valid_types_handled [of q "[]"] by simp
next
  case False
  then have "handle_request q [] = None" using handled_types [of q "[]"] by (cases "handle_request q []") blast+
  then show ?thesis using False by (simp only: if_False)
qed

section \<open>Properties\<close>

text \<open>The handling of the waiting orders ends exactly when each of them is of one of the two known types, and then each
  was handled once, in the order of arrival; one order of another type makes the server loop for ever, since the
  order is never taken off the queue.\<close>
theorem handle_request_ends:
  "handle_request q [] = (if \<forall>oi \<in> set q. oi_type oi \<in> {BIZ_END, MARKET_END} then Some q else None)"
  by (rule handle_request_cases)

theorem handle_request_ends_witness:
  "handle_request [new_order\<lparr>oi_type := MARKET_END\<rparr>, new_order\<lparr>oi_type := 7\<rparr>] [] = None"
  using handle_request_ends [of "[new_order\<lparr>oi_type := MARKET_END\<rparr>, new_order\<lparr>oi_type := 7\<rparr>]"] by (simp add: MARKET_END_def BIZ_END_def)

text \<open>C21: From client to queue. What the client sends for an order begins, over any protocol that reads back what was
  written, with the head of a one-way call of that name; given the rest, the processor puts the order with every field at
  the end of the queue, writes no reply, and leaves the input where the next message begins. A call of another name
  leaves the queue as it is and is answered.\<close>
theorem sent_orders_arrive:
  assumes "reads_back P"
  shows "\<exists>body. r_message_begin P (send_SendOrderInfo P oi @ later) = Some ((''SendOrderInfo'', T_ONEWAY, 0), body) \<and>
    VOSServer_dispatchCall P ''SendOrderInfo'' 0 body q = Some ([], q @ [order_received oi], later) \<and>
    (\<forall>fname seqid bs out q' bs'. fname \<noteq> ''SendOrderInfo'' \<longrightarrow> VOSServer_dispatchCall P fname seqid bs q = Some (out, q', bs') \<longrightarrow>
      q' = q \<and> (\<exists>reply. out = put P (Message_begin fname T_EXCEPTION seqid) @ reply))"
proof -
  have "VOSServer_dispatchCall P ''SendOrderInfo'' 0 (SendOrderInfo_pargs_write P oi @ put P Message_end @ later) q =
      Some ([], q @ [order_received oi], later)"
    using assms by (simp add: VOSServer_dispatchCall_def process_SendOrderInfo_def SendOrderInfo_args_read_write SendOrderInfo_def)
  moreover have "q' = q \<and> (\<exists>reply. out = put P (Message_begin fname T_EXCEPTION seqid) @ reply)"
    if "fname \<noteq> ''SendOrderInfo''" "VOSServer_dispatchCall P fname seqid bs q = Some (out, q', bs')" for fname seqid bs out q' bs'
    using that by (auto simp: VOSServer_dispatchCall_def bind_eq_Some_conv)
  ultimately show ?thesis using assms
    by (intro exI [of _ "SendOrderInfo_pargs_write P oi @ put P Message_end @ later"]) (simp add: send_SendOrderInfo_def)
qed

theorem sent_orders_arrive_witness:
  "\<exists>body. r_message_begin token_proto (send_SendOrderInfo token_proto (new_order\<lparr>oi_id := ''7x98i1'', oi_type := BIZ_END\<rparr>) @ []) =
      Some ((''SendOrderInfo'', T_ONEWAY, 0), body) \<and>
    VOSServer_dispatchCall token_proto ''SendOrderInfo'' 0 body [new_order] =
      Some ([], [new_order, order_received (new_order\<lparr>oi_id := ''7x98i1'', oi_type := BIZ_END\<rparr>)], [])"
  using sent_orders_arrive [OF token_proto_ok, of "new_order\<lparr>oi_id := ''7x98i1'', oi_type := BIZ_END\<rparr>" "[]" "[new_order]"] by auto

text \<open>With a configuration file that can be read and a log that can be opened, the server starts exactly when the
  section \<open>Person\<close> gives a \<open>Name\<close> (and no \<open>Age\<close> that is too large for a number); without the name it crashes,
  since a NULL pointer is made into a string.\<close>
theorem vos_starts_with_name:
  assumes "printable cfg" "distinct (map fst cfg)" "\<forall>(n, its) \<in> set cfg. distinct (map fst its)"
    and "cfg_file v = Some f" "reads (Some f) = Some (print_config cfg)" "0 \<le> opens (log_file v)" "m_contener (snd s) = Map.empty"
    and "\<forall>its age. (''Person'', its) \<in> set cfg \<longrightarrow> (''Age'', age) \<in> set its \<longrightarrow> atoi age \<noteq> None"
  shows "if \<exists>its name. (''Person'', its) \<in> set cfg \<and> (''Name'', name) \<in> set its
    then \<exists>l c. vos_init_server opens reads junk v s = Some (VOS_OK, l, c) \<and> lfd l = opens (log_file v) \<and> m_iLoaded c = 1
    else vos_init_server opens reads junk v s = None"
proof -
  define c where "c = (snd s)\<lparr>m_contener := maps_of cfg, m_iLoaded := 1\<rparr>"
  have load: "loadConfigFile (cfg_file v) (reads (cfg_file v)) junk (snd s) = Some (0, c)"
    using load_print [OF assms(1), of f junk "snd s"] assms(4,5,7) by (simp add: c_def)
  have conf: "m_contener c = map_of (rev (map (\<lambda>(n, its). (n, map_of (rev its))) cfg))" by (simp add: c_def maps_of_def)
  have dist: "distinct (map fst (rev (map (\<lambda>(n, its). (n, map_of (rev its))) cfg)))"
    using assms(2) by (simp add: rev_map [symmetric] split_def comp_def)
  have section_of: "m_contener c n = Some m \<longleftrightarrow> (\<exists>its. (n, its) \<in> set cfg \<and> m = map_of (rev its))" for n m
    unfolding conf using map_of_eq_Some_iff [OF dist] by auto
  have item_of: "map_of (rev its) k = Some w \<longleftrightarrow> (k, w) \<in> set its" if "(n, its) \<in> set cfg" for n its k w
    using map_of_eq_Some_iff [of "rev its" k w] assms(3) that by (auto simp: rev_map [symmetric])
  have name: "getConfigStr c ''Person'' ''Name'' = Some w \<longleftrightarrow> (\<exists>its. (''Person'', its) \<in> set cfg \<and> (''Name'', w) \<in> set its)" for w
    unfolding getConfigStr_def bind_eq_Some_conv section_of using item_of by blast
  have plain: "c_str w = w" if "(n, its) \<in> set cfg" "(k, w) \<in> set its" for n its k w
  proof -
    have "plain w" using bspec [OF assms(1) [unfolded printable_def] that(1)] that(2) by auto
    then show ?thesis by (auto simp: c_str_def plain_def takeWhile_eq_all_conv)
  qed
  have age: "getConfigInt c ''Person'' ''Age'' \<noteq> None"
  proof (cases "m_contener c ''Person''")
    case (Some m)
    then obtain its where its: "(''Person'', its) \<in> set cfg" "m = map_of (rev its)" using section_of by blast
    show ?thesis
    proof (cases "m ''Age''")
      case (Some w)
      then have "(''Age'', w) \<in> set its" using its(2) item_of [OF its(1)] by simp
      then have "c_str w = w" "atoi w \<noteq> None" using plain [OF its(1)] assms(8) its(1) by blast+
      then show ?thesis using Some \<open>m_contener c ''Person'' = Some m\<close> by (simp add: getConfigInt_def)
    qed (simp add: getConfigInt_def \<open>m_contener c ''Person'' = Some m\<close>)
  qed (simp add: getConfigInt_def)
  show ?thesis
  proof (cases "getConfigStr c ''Person'' ''Name''")
    case None
    then have "vos_init_server opens reads junk v s = None" using load assms(6) by (simp add: vos_init_server_def log_init_def MY_OK_def)
    then show ?thesis using name None by simp
  next
    case (Some w)
    obtain a where a: "getConfigInt c ''Person'' ''Age'' = Some a" using age by blast
    obtain l where l: "log_init (opens (log_file v)) 7 (case log_file v of None \<Rightarrow> [] | Some f \<Rightarrow> f) (fst s) = (MY_OK, l)" "lfd l = opens (log_file v)"
      using assms(6) by (simp add: log_init_def)
    have "vos_init_server opens reads junk v s = Some (VOS_OK, l, c)"
      unfolding vos_init_server_def l(1) load by (simp add: MY_OK_def Some a)
    moreover have "\<exists>its name. (''Person'', its) \<in> set cfg \<and> (''Name'', name) \<in> set its" using name [of w] Some by blast
    moreover have "m_iLoaded c = 1" by (simp add: c_def)
    ultimately show ?thesis using l(2) by (simp only: if_True) blast
  qed
qed

theorem vos_starts_with_name_witness:
  "vos_init_server (\<lambda>f. 3) (\<lambda>f. Some (print_config [(''Other'', [(''k'', ''v'')])])) []
     \<lparr>vos_show_help = False, vos_show_version = False, vos_daemon = False, log_file = Some ''l'', cfg_file = Some ''c'', pid_file = None\<rparr>
     (\<lparr>lname = [], level = 0, lfd = 0\<rparr>, \<lparr>m_contener = Map.empty, m_iLoaded = 0\<rparr>) = None"
proof -
  have "printable [(''Other'', [(''k'', ''v'')])]"
    by (simp add: printable_def plain_def blank_def NEWLINE_def NUL_def MAX_CONF_ITEM_LENTH_def)
  then show ?thesis
    using vos_starts_with_name [of "[(''Other'', [(''k'', ''v'')])]"
      "\<lparr>vos_show_help = False, vos_show_version = False, vos_daemon = False, log_file = Some ''l'', cfg_file = Some ''c'', pid_file = None\<rparr>" "''c''"
      "\<lambda>f. Some (print_config [(''Other'', [(''k'', ''v'')])])" "\<lambda>f. 3" "(\<lparr>lname = [], level = 0, lfd = 0\<rparr>, \<lparr>m_contener = Map.empty, m_iLoaded = 0\<rparr>)" "[]"]
    by simp
qed

end
