(* ===== verification/Kafka_Consumer.thy ===== *)
theory Kafka_Consumer
  imports Posix My_Config Log_Files
begin

text \<open>
  The Kafka consumer, \<open>src/kafka/src/kafka_consume.cpp\<close> on \<open>kafka_helper.cpp\<close>: one thread per partition
  fetches messages and puts each into a bucket chosen at random, one thread takes full buckets and stores what is in
  them, and the main thread starts and stops the others.

  The Kafka library is not in the repository. What the code relies on is that its objects are created and destroyed
  (a call with one that does not exist is a fault); what its calls return is the environment's choice and an argument.
  The critical sections of the threads contain no other synchronisation, so each is one step, and \<open>kafka_step\<close>
  interleaves the steps of all threads. The logs \<open>fetched\<close> and \<open>pushed\<close> are not in the code; \<open>data_log\<close> holds the
  messages given to \<open>_store_data\<close>, each with its bucket and the line that the logger wrote for it. A line that does not
  fit in the buffer of the logger is a fault; the lines with a fixed text, which fit, are left out. Lengths of
  messages fit in an \<open>int\<close>. The configuration objects of the library are left out.
\<close>

section \<open>The objects of the library\<close>

datatype kobj = Producer | Consumer | Topic

record klib =
  objs :: "nat \<Rightarrow> kobj option"
  fresh :: nat

definition rd_new :: "bool \<Rightarrow> kobj \<Rightarrow> klib \<Rightarrow> nat \<times> klib" where
  "rd_new ok k L = (if ok then (fresh L, L\<lparr>objs := (objs L)(fresh L := Some k), fresh := fresh L + 1\<rparr>) else (0, L))"

definition rd_live :: "nat \<Rightarrow> klib \<Rightarrow> bool" where
  "rd_live a L = (a \<noteq> 0 \<and> objs L a \<noteq> None)"

definition rd_destroy :: "nat \<Rightarrow> klib \<Rightarrow> klib option" where
  "rd_destroy a L = (if rd_live a L then Some (L\<lparr>objs := (objs L)(a := None)\<rparr>) else None)"

text \<open>A message of the library; when \<open>err\<close> is set, the payload is a text that describes the error.\<close>

record kmsg =
  err :: int
  payload :: string

section \<open>The helper\<close>

record kafka_helper =
  m_rkt :: nat
  m_rk :: nat
  m_str_brokers :: string
  m_str_topic :: string

definition KafkaHelper :: kafka_helper where
  "KafkaHelper = \<lparr>m_rkt = 0, m_rk = 0, m_str_brokers = [], m_str_topic = []\<rparr>"

text \<open>The destructor.\<close>

definition KafkaHelper_delete :: "kafka_helper \<Rightarrow> klib \<Rightarrow> klib option" where
  "KafkaHelper_delete h L = (if m_rk h \<noteq> 0 then rd_destroy (m_rk h) L else Some L)"

text \<open>Whether a handle can be made, how many brokers are valid, and whether the topic can be made.\<close>

type_synonym init_choice = "bool \<times> nat \<times> bool"

definition helper_init :: "init_choice \<Rightarrow> string \<Rightarrow> string \<Rightarrow> bool \<Rightarrow> kafka_helper \<Rightarrow> klib \<Rightarrow> int \<times> kafka_helper \<times> klib" where
  "helper_init ch brokers topic isproduce h L =
     (case ch of (rk_ok, valid, rkt_ok) \<Rightarrow>
        let h = h\<lparr>m_str_brokers := brokers, m_str_topic := topic\<rparr> in
        case rd_new rk_ok (if isproduce then Producer else Consumer) L of (rk, L) \<Rightarrow>
          let h = h\<lparr>m_rk := rk\<rparr> in
          if rk = 0 then (- 1, h, L)
          else if valid = 0 then (- 1, h, L)
          else case rd_new rkt_ok Topic L of (rkt, L) \<Rightarrow> (0, h\<lparr>m_rkt := rkt\<rparr>, L))"

text \<open>\<open>accepted\<close> is whether the library takes the message; the code does not look. The third result is what it took.\<close>

definition produce :: "bool \<Rightarrow> bool \<Rightarrow> string \<Rightarrow> int \<Rightarrow> kafka_helper \<Rightarrow> klib \<Rightarrow> (int \<times> kafka_helper \<times> klib \<times> (int \<times> string) list) option" where
  "produce rkt_ok accepted buf part h L =
     (case (if m_rkt h = 0 then rd_new rkt_ok Topic L else (m_rkt h, L)) of (rkt, L) \<Rightarrow>
        let h = h\<lparr>m_rkt := rkt\<rparr> in
        if rkt = 0 then Some (- 1, h, L, [])
        else if rd_live rkt L \<and> rd_live (m_rk h) L then Some (0, h, L, if accepted then [(part, buf)] else [])
        else None)"

text \<open>\<open>errno\<close> is 0 when the library starts to consume.\<close>

definition consume_start :: "int \<Rightarrow> kafka_helper \<Rightarrow> klib \<Rightarrow> int option" where
  "consume_start errno h L = (if rd_live (m_rkt h) L then Some errno else None)"

definition consume_destroy :: "kafka_helper \<Rightarrow> klib \<Rightarrow> klib option" where
  "consume_destroy h L = do {
     L \<leftarrow> rd_destroy (m_rkt h) L;
     rd_destroy (m_rk h) L
   }"

text \<open>
  The two functions \<open>msg_consume\<close>: the messages for which they call the callback. \<open>r\<close> is what the library returns,
  \<open>None\<close> for -1 (a timeout); \<open>mem\<close> is whether there is memory for the pointers to them.
\<close>

definition msg_consume_batch :: "int \<Rightarrow> bool \<Rightarrow> kmsg list option \<Rightarrow> kafka_helper \<Rightarrow> klib \<Rightarrow> kmsg list option" where
  "msg_consume_batch batch_size mem r h L =
     (if batch_size = 0 then Some []
      else if \<not> rd_live (m_rkt h) L then None
      else case r of
          None \<Rightarrow> Some []
        | Some ms \<Rightarrow> if \<not> mem \<and> ms \<noteq> [] then None else Some ms)"

definition msg_consume :: "kmsg option \<Rightarrow> kafka_helper \<Rightarrow> klib \<Rightarrow> (int \<times> kmsg list) option" where
  "msg_consume r h L =
     (if \<not> rd_live (m_rkt h) L then None
      else case r of
          None \<Rightarrow> Some (0, [])
        | Some m \<Rightarrow> Some (if err m \<noteq> 0 then (err m, []) else (0, [m])))"

section \<open>The state of the program\<close>

text \<open>Where each thread is.\<close>

datatype consumer_pc = C_Begin | C_Check | C_Fetch | C_Push "kmsg list" | C_End

datatype processor_pc = P_Check | P_Bucket nat | P_Store nat "string list" | P_End | P_Joined

datatype release_pc = R_Stop | R_Destroy nat | R_Delete | R_Join nat | R_Join_processor | R_Locks

text \<open>In \<open>Release\<close>, the flag says whether \<open>release\<close> is called once more, behind the label \<open>err\<close>.\<close>

datatype main_pc = Start_processor | Start_consumer nat | Idle_wait | Release release_pc bool | Exits

text \<open>A thread that was never created has no number: \<open>None\<close>. So have the arrays before they are allocated.\<close>

record kafka =
  g_stop :: bool
  g_msgs :: "string list list"
  g_kfkhandler :: "kafka_helper list option"
  g_lock :: bool
  partitions :: nat
  batch_size :: int
  m_cthread :: "consumer_pc option list option"
  m_pthread :: "processor_pc option"
  main_at :: main_pc
  klib_of :: klib
  fetched :: "(nat \<times> string) list"
  pushed :: "(nat \<times> nat \<times> string) list"
  data_log :: "(nat \<times> string \<times> string option) list"
  klogger :: logger

definition consumer_at :: "nat \<Rightarrow> kafka \<Rightarrow> consumer_pc option" where
  "consumer_at i s = (case m_cthread s of None \<Rightarrow> None | Some ts \<Rightarrow> if i < length ts then ts ! i else None)"

definition set_consumer :: "nat \<Rightarrow> consumer_pc \<Rightarrow> kafka \<Rightarrow> kafka" where
  "set_consumer i pc s = s\<lparr>m_cthread := map_option (\<lambda>ts. ts[i := Some pc]) (m_cthread s)\<rparr>"

definition handler_at :: "nat \<Rightarrow> kafka \<Rightarrow> kafka_helper option" where
  "handler_at i s = (case g_kfkhandler s of None \<Rightarrow> None | Some hs \<Rightarrow> if i < length hs then Some (hs ! i) else None)"

section \<open>The consumers\<close>

text \<open>\<open>rnd\<close> is what \<open>rand ()\<close> returns.\<close>

definition consume_callback :: "nat \<Rightarrow> string \<Rightarrow> nat \<Rightarrow> kafka \<Rightarrow> kafka option" where
  "consume_callback i buff rnd s =
     (if buff = [] then Some s
      else let index = rnd mod partitions s in
        if \<not> g_lock s \<or> length (g_msgs s) \<le> index then None
        else Some (s\<lparr>g_msgs := (g_msgs s)[index := g_msgs s ! index @ [buff]], pushed := pushed s @ [(i, index, buff)]\<rparr>))"

text \<open>The parts of \<open>consume\<close>.\<close>

definition consume_begin :: "nat \<Rightarrow> int \<Rightarrow> kafka \<Rightarrow> kafka option" where
  "consume_begin i errno s = do {
     h \<leftarrow> handler_at i s;
     ret \<leftarrow> consume_start errno h (klib_of s);
     Some (set_consumer i (if ret \<noteq> 0 then C_End else C_Check) s)
   }"

definition consume_check :: "nat \<Rightarrow> kafka \<Rightarrow> kafka" where
  "consume_check i s = set_consumer i (if g_stop s then C_End else C_Fetch) s"

definition consume_fetch :: "nat \<Rightarrow> bool \<Rightarrow> kmsg list option \<Rightarrow> kafka \<Rightarrow> kafka option" where
  "consume_fetch i mem r s = do {
     h \<leftarrow> handler_at i s;
     ms \<leftarrow> msg_consume_batch (batch_size s) mem r h (klib_of s);
     Some (set_consumer i (C_Push ms) (s\<lparr>fetched := fetched s @ map (\<lambda>m. (i, payload m)) ms\<rparr>))
   }"

fun consume_push :: "nat \<Rightarrow> nat \<Rightarrow> kmsg list \<Rightarrow> kafka \<Rightarrow> kafka option" where
  "consume_push i rnd [] s = Some (set_consumer i C_Check s)"
| "consume_push i rnd (m # ms) s = do {
     s \<leftarrow> consume_callback i (payload m) rnd s;
     Some (set_consumer i (C_Push ms) s)
   }"

text \<open>A step of a consumer; the arguments are what its environment may choose.\<close>

fun consume :: "nat \<Rightarrow> int \<Rightarrow> bool \<Rightarrow> kmsg list option \<Rightarrow> nat \<Rightarrow> consumer_pc \<Rightarrow> kafka \<Rightarrow> kafka option" where
  "consume i errno mem r rnd C_Begin s = consume_begin i errno s"
| "consume i errno mem r rnd C_Check s = Some (consume_check i s)"
| "consume i errno mem r rnd C_Fetch s = consume_fetch i mem r s"
| "consume i errno mem r rnd (C_Push ms) s = consume_push i rnd ms s"
| "consume i errno mem r rnd C_End s = Some s"

section \<open>The processor\<close>

text \<open>
  \<open>P_Bucket k\<close> is the loop at \<open>index = k\<close>, and behind its last round the program sleeps and looks at \<open>g_stop\<close>; \<open>P_Store k ms\<close>
  has swapped bucket \<open>k\<close> for an empty one and is to store \<open>ms\<close>.
\<close>

text \<open>
  What a line is made of: the buffer before it, and the time as \<open>strftime\<close> writes it in 21 characters. The head of the
  line names the file and the line of the call.
\<close>

definition log_args :: "string \<Rightarrow> string \<Rightarrow> bool" where
  "log_args junk stamp = (length junk = LOG_MAX_LEN \<and> length stamp = 21)"

definition LOG_DEBUG :: int where "LOG_DEBUG = 7"
definition STORE_HEAD :: string where "STORE_HEAD = ''[kafka_consume.cpp 239] ''"

definition store_data :: "string \<Rightarrow> string \<Rightarrow> string \<Rightarrow> kafka \<Rightarrow> string option option" where
  "store_data junk stamp msg s = log_debug (klogger s) LOG_DEBUG junk stamp STORE_HEAD (c_str msg)"

definition BUCKET_FULL :: nat where "BUCKET_FULL = 1000"

fun Process :: "string \<Rightarrow> string \<Rightarrow> processor_pc \<Rightarrow> kafka \<Rightarrow> kafka option" where
  "Process junk stamp P_Check s = Some (s\<lparr>m_pthread := Some (if g_stop s then P_End else P_Bucket 0)\<rparr>)"
| "Process junk stamp (P_Bucket k) s =
     (if k < partitions s then
        (if \<not> g_lock s \<or> length (g_msgs s) \<le> k then None
         else if length (g_msgs s ! k) > BUCKET_FULL then
           Some (s\<lparr>m_pthread := Some (P_Store k (g_msgs s ! k)), g_msgs := (g_msgs s)[k := []]\<rparr>)
         else Some (s\<lparr>m_pthread := Some (P_Bucket (k + 1))\<rparr>))
      else Some (s\<lparr>m_pthread := Some P_Check\<rparr>))"
| "Process junk stamp (P_Store k []) s = Some (s\<lparr>m_pthread := Some (P_Bucket (k + 1))\<rparr>)"
| "Process junk stamp (P_Store k (m # ms)) s = do {
     line \<leftarrow> store_data junk stamp m s;
     Some (s\<lparr>m_pthread := Some (P_Store k ms), data_log := data_log s @ [(k, m, line)]\<rparr>)
   }"
| "Process junk stamp P_End s = Some s"
| "Process junk stamp P_Joined s = Some s"

section \<open>The main thread\<close>

fun init_helpers :: "(nat \<Rightarrow> init_choice) \<Rightarrow> string \<Rightarrow> string \<Rightarrow> nat \<Rightarrow> kafka_helper list \<Rightarrow> klib \<Rightarrow> int \<times> kafka_helper list \<times> klib" where
  "init_helpers ch broker topic i [] L = (0, [], L)"
| "init_helpers ch broker topic i (h # hs) L =
     (case helper_init (ch i) broker topic False h L of (ret, h, L) \<Rightarrow>
        if ret \<noteq> 0 then (- 1, h # hs, L)
        else case init_helpers ch broker topic (i + 1) hs L of (ret, hs, L) \<Rightarrow> (ret, h # hs, L))"

text \<open>
  A missing name makes a string of NULL, and without partitions the assertion fails. What is read is written to the
  log; a value that is too long for the buffer of the logger is a fault.
\<close>

definition int_text :: "int \<Rightarrow> string" where
  "int_text i = (if i < 0 then CHR ''-'' # decimal (nat (- i)) else decimal (nat i))"

definition kafka_init :: "string \<Rightarrow> string \<Rightarrow> (nat \<Rightarrow> init_choice) \<Rightarrow> my_config \<Rightarrow> kafka \<Rightarrow> (int \<times> kafka) option" where
  "kafka_init junk stamp ch c s = do {
     let note = (\<lambda>head body. log_debug (klogger s) LOG_DEBUG junk stamp head body);
     broker \<leftarrow> getConfigStr c ''KAFKA'' ''BROKER'';
     _ \<leftarrow> note ''[kafka_consume.cpp 114] '' (''kafka broker:'' @ c_str broker);
     topic \<leftarrow> getConfigStr c ''KAFKA'' ''TOPIC'';
     _ \<leftarrow> note ''[kafka_consume.cpp 118] '' (''kafka topic:'' @ c_str topic);
     size \<leftarrow> getConfigInt c ''KAFKA'' ''BATCH_SIZE'';
     _ \<leftarrow> note ''[kafka_consume.cpp 122] '' (''kafka batch size:'' @ int_text size);
     num \<leftarrow> getConfigInt c ''KAFKA'' ''PARTITION_NUM'';
     _ \<leftarrow> note ''[kafka_consume.cpp 126] '' (''kafka partition number:'' @ int_text num);
     if num \<le> 0 then None
     else do {
       let s = s\<lparr>batch_size := size, partitions := nat num\<rparr>;
       (case init_helpers ch broker topic 0 (replicate (nat num) KafkaHelper) (klib_of s) of (ret, hs, L) \<Rightarrow>
          let s = s\<lparr>g_kfkhandler := Some hs, klib_of := L\<rparr> in
          if ret \<noteq> 0 then Some (- 1, s)
          else Some (0, s\<lparr>m_cthread := Some (replicate (nat num) None), g_lock := True, g_msgs := replicate (nat num) []\<rparr>))
     }
   }"

text \<open>\<open>main\<close> up to the threads: the log, the configuration, the helpers.\<close>

definition kafka_empty :: kafka where
  "kafka_empty = \<lparr>g_stop = False, g_msgs = [], g_kfkhandler = None, g_lock = False, partitions = 0, batch_size = 0,
     m_cthread = None, m_pthread = None, main_at = Release R_Stop False, klib_of = \<lparr>objs = Map.empty, fresh = 1\<rparr>,
     fetched = [], pushed = [], data_log = [], klogger = \<lparr>lname = [], level = 0, lfd = 0\<rparr>\<rparr>"

definition CONFIG_FILE :: string where "CONFIG_FILE = ''../etc/kafka_consume.ini''"
definition LOG_FILE :: string where "LOG_FILE = ''./kfk_consume.log''"

definition kafka_main ::
  "int \<Rightarrow> string option \<Rightarrow> string \<Rightarrow> string \<Rightarrow> string \<Rightarrow> (nat \<Rightarrow> init_choice) \<Rightarrow> my_config \<Rightarrow> kafka option" where
  "kafka_main log_fd opened cjunk junk stamp ch c =
     (case log_init log_fd LOG_DEBUG LOG_FILE (klogger kafka_empty) of (status, l) \<Rightarrow>
        if status < 0 then Some kafka_empty
        else do {
          (status, c) \<leftarrow> loadConfigFile (Some CONFIG_FILE) opened cjunk c;
          if status < 0 then Some (kafka_empty\<lparr>klogger := l\<rparr>)
          else do {
            (status, s) \<leftarrow> kafka_init junk stamp ch c (kafka_empty\<lparr>klogger := l\<rparr>);
            Some (if status < 0 then s else s\<lparr>main_at := Start_processor\<rparr>)
          }
        })"

text \<open>
  \<open>release\<close>. \<open>pthread_join\<close> waits for the end of the thread; with a number that no thread has, or has any more, it is a
  fault. The array of helpers is deleted from its end.
\<close>

fun delete_helpers :: "kafka_helper list \<Rightarrow> klib \<Rightarrow> klib option" where
  "delete_helpers [] L = Some L"
| "delete_helpers (h # hs) L = do { L \<leftarrow> delete_helpers hs L; KafkaHelper_delete h L }"

fun release :: "release_pc \<Rightarrow> bool \<Rightarrow> kafka \<Rightarrow> kafka run" where
  "release R_Stop again s =
     Ends (s\<lparr>g_stop := True, main_at := Release (if g_kfkhandler s \<noteq> None then R_Destroy 0 else R_Join 0) again\<rparr>)"
| "release (R_Destroy i) again s =
     (if i < partitions s then
        (case do { h \<leftarrow> handler_at i s; consume_destroy h (klib_of s) } of
           None \<Rightarrow> Faults
         | Some L \<Rightarrow> Ends (s\<lparr>klib_of := L, main_at := Release (R_Destroy (i + 1)) again\<rparr>))
      else Ends (s\<lparr>main_at := Release R_Delete again\<rparr>))"
| "release R_Delete again s =
     (case do { hs \<leftarrow> g_kfkhandler s; delete_helpers hs (klib_of s) } of
        None \<Rightarrow> Faults
      | Some L \<Rightarrow> Ends (s\<lparr>klib_of := L, g_kfkhandler := None, main_at := Release (R_Join 0) again\<rparr>))"
| "release (R_Join i) again s =
     (case m_cthread s of
        None \<Rightarrow> Ends (s\<lparr>main_at := Release R_Join_processor again\<rparr>)
      | Some ts \<Rightarrow>
          if i < partitions s then
            (case consumer_at i s of
               None \<Rightarrow> Faults
             | Some pc \<Rightarrow> if pc = C_End then Ends (s\<lparr>main_at := Release (R_Join (i + 1)) again\<rparr>) else Blocks)
          else Ends (s\<lparr>m_cthread := None, main_at := Release R_Join_processor again\<rparr>))"
| "release R_Join_processor again s =
     (case m_pthread s of
        None \<Rightarrow> Faults
      | Some P_Joined \<Rightarrow> Faults
      | Some P_End \<Rightarrow> Ends (s\<lparr>m_pthread := Some P_Joined, main_at := Release R_Locks again\<rparr>)
      | Some _ \<Rightarrow> Blocks)"
| "release R_Locks again s = Ends (s\<lparr>g_lock := False, main_at := (if again then Release R_Stop False else Exits)\<rparr>)"

text \<open>\<open>start\<close> and what follows it; \<open>created\<close> is whether a thread can be created.\<close>

fun main_thread :: "bool \<Rightarrow> main_pc \<Rightarrow> kafka \<Rightarrow> kafka run" where
  "main_thread created Start_processor s =
     Ends (if created then s\<lparr>m_pthread := Some P_Check, main_at := Start_consumer 0\<rparr>
       else s\<lparr>main_at := Release R_Stop True\<rparr>)"
| "main_thread created (Start_consumer i) s =
     Ends (if i < partitions s then
         (if created then (set_consumer i C_Begin s)\<lparr>main_at := Start_consumer (i + 1)\<rparr>
          else s\<lparr>main_at := Release R_Stop True\<rparr>)
       else s\<lparr>main_at := Idle_wait\<rparr>)"
| "main_thread created Idle_wait s = Ends (if g_stop s then s\<lparr>main_at := Release R_Stop True\<rparr> else s)"
| "main_thread created (Release pc again) s = release pc again s"
| "main_thread created Exits s = Ends s"

section \<open>The program\<close>

inductive kafka_step :: "kafka \<Rightarrow> kafka \<Rightarrow> bool" where
  signal: "kafka_step s (s\<lparr>g_stop := True\<rparr>)"
| consumer: "consumer_at i s = Some pc \<Longrightarrow> consume i errno mem r rnd pc s = Some s' \<Longrightarrow> kafka_step s s'"
| processor: "m_pthread s = Some pc \<Longrightarrow> log_args junk stamp \<Longrightarrow> Process junk stamp pc s = Some s' \<Longrightarrow> kafka_step s s'"
| main: "main_thread created (main_at s) s = Ends s' \<Longrightarrow> kafka_step s s'"

inductive kafka_reachable :: "kafka \<Rightarrow> bool" where
  start: "kafka_main log_fd opened cjunk junk stamp ch c = Some s \<Longrightarrow> kafka_reachable s"
| step: "kafka_reachable s \<Longrightarrow> kafka_step s s' \<Longrightarrow> kafka_reachable s'"

section \<open>What the sections change\<close>

lemma set_consumer_keeps [simp]:
  "g_stop (set_consumer i pc s) = g_stop s" "g_msgs (set_consumer i pc s) = g_msgs s"
  "g_kfkhandler (set_consumer i pc s) = g_kfkhandler s" "g_lock (set_consumer i pc s) = g_lock s"
  "partitions (set_consumer i pc s) = partitions s" "batch_size (set_consumer i pc s) = batch_size s"
  "m_pthread (set_consumer i pc s) = m_pthread s" "main_at (set_consumer i pc s) = main_at s"
  "klogger (set_consumer i pc s) = klogger s" "klib_of (set_consumer i pc s) = klib_of s" "fetched (set_consumer i pc s) = fetched s"
  "pushed (set_consumer i pc s) = pushed s" "data_log (set_consumer i pc s) = data_log s"
  by (simp_all add: set_consumer_def)

lemma consumer_at_set:
  "consumer_at j (set_consumer i pc s) =
     (if j = i \<and> (\<exists>ts. m_cthread s = Some ts \<and> i < length ts) then Some pc else consumer_at j s)"
  by (auto simp: consumer_at_def set_consumer_def split: option.split)

lemma consumer_at_cong: "m_cthread s' = m_cthread s \<Longrightarrow> consumer_at i s' = consumer_at i s"
  by (simp add: consumer_at_def)

lemma consumer_at_Some: "consumer_at i s = Some pc \<Longrightarrow> \<exists>ts. m_cthread s = Some ts \<and> i < length ts"
  by (auto simp: consumer_at_def split: option.splits if_splits)

text \<open>A step of a consumer: what stays, and where the consumer is then.\<close>

lemma consume_keeps:
  assumes "consume i errno mem r rnd pc s = Some s'" and "consumer_at i s = Some pc"
  shows "g_stop s' = g_stop s" "length (g_msgs s') = length (g_msgs s)" "g_kfkhandler s' = g_kfkhandler s"
    "g_lock s' = g_lock s" "partitions s' = partitions s" "m_pthread s' = m_pthread s" "main_at s' = main_at s"
    "klib_of s' = klib_of s" "data_log s' = data_log s" "klogger s' = klogger s"
    and "\<exists>pc'. consumer_at i s' = Some pc' \<and> (\<forall>j. j \<noteq> i \<longrightarrow> consumer_at j s' = consumer_at j s)"
    and "map_option length (m_cthread s') = map_option length (m_cthread s)"
proof -
  have C: "consumer_at j (set_consumer i q t) = (if j = i then Some q else consumer_at j s)"
      "map_option length (m_cthread (set_consumer i q t)) = map_option length (m_cthread s)"
    if "m_cthread t = m_cthread s" for j q t
    using consumer_at_Some [OF assms(2)] that consumer_at_cong [OF that]
    by (auto simp: consumer_at_set) (auto simp: set_consumer_def option.map_comp comp_def)
  have "g_stop s' = g_stop s \<and> length (g_msgs s') = length (g_msgs s) \<and> g_kfkhandler s' = g_kfkhandler s \<and>
    g_lock s' = g_lock s \<and> partitions s' = partitions s \<and> m_pthread s' = m_pthread s \<and> main_at s' = main_at s \<and>
    klib_of s' = klib_of s \<and> data_log s' = data_log s \<and> klogger s' = klogger s \<and>
    (\<exists>pc'. consumer_at i s' = Some pc' \<and> (\<forall>j. j \<noteq> i \<longrightarrow> consumer_at j s' = consumer_at j s)) \<and>
    map_option length (m_cthread s') = map_option length (m_cthread s)"
  proof (cases pc)
    case (C_Push ms)
    then show ?thesis using assms
      by (cases ms) (auto simp: bind_eq_Some_conv consume_callback_def Let_def C split: if_splits)
  qed (use assms in \<open>auto simp: consume_begin_def consume_check_def consume_fetch_def bind_eq_Some_conv C\<close>)
  then show "g_stop s' = g_stop s" "length (g_msgs s') = length (g_msgs s)" "g_kfkhandler s' = g_kfkhandler s"
    "g_lock s' = g_lock s" "partitions s' = partitions s" "m_pthread s' = m_pthread s" "main_at s' = main_at s"
    "klib_of s' = klib_of s" "data_log s' = data_log s" "klogger s' = klogger s"
    "\<exists>pc'. consumer_at i s' = Some pc' \<and> (\<forall>j. j \<noteq> i \<longrightarrow> consumer_at j s' = consumer_at j s)"
    "map_option length (m_cthread s') = map_option length (m_cthread s)" by blast+
qed

lemma Process_keeps:
  assumes "Process junk stamp pc s = Some s'"
  shows "g_stop s' = g_stop s" "length (g_msgs s') = length (g_msgs s)" "g_kfkhandler s' = g_kfkhandler s"
    "g_lock s' = g_lock s" "partitions s' = partitions s" "main_at s' = main_at s" "klib_of s' = klib_of s"
    "m_cthread s' = m_cthread s" "fetched s' = fetched s" "pushed s' = pushed s" "klogger s' = klogger s"
  using assms by (cases "(junk, stamp, pc, s)" rule: Process.cases; auto simp: bind_eq_Some_conv split: if_splits)+

lemma Process_not_joined:
  assumes "Process junk stamp pc s = Some s'" "m_pthread s = Some pc" "pc \<noteq> P_Joined"
  shows "\<exists>pc'. m_pthread s' = Some pc' \<and> pc' \<noteq> P_Joined"
  using assms by (cases "(junk, stamp, pc, s)" rule: Process.cases) (auto simp: bind_eq_Some_conv split: if_splits)

section \<open>The shape of the reachable states\<close>

fun stage_ok :: "main_pc \<Rightarrow> kafka_helper list \<Rightarrow> kafka \<Rightarrow> bool" where
  "stage_ok Start_processor hs s = (m_pthread s = None \<and> (\<forall>i. consumer_at i s = None))"
| "stage_ok (Start_consumer i) hs s = (\<forall>j \<ge> i. consumer_at j s = None)"
| "stage_ok Idle_wait hs s = True"
| "stage_ok (Release R_Stop again) hs s = again"
| "stage_ok (Release (R_Destroy i) again) hs s = (again \<and> (\<forall>j < i. j < length hs \<longrightarrow> \<not> rd_live (m_rk (hs ! j)) (klib_of s)))"
| "stage_ok (Release R_Delete again) hs s = (again \<and> (\<forall>h \<in> set hs. \<not> rd_live (m_rk h) (klib_of s)))"
| "stage_ok _ hs s = False"

text \<open>Up to the release nothing is destroyed.\<close>

fun serving :: "main_pc \<Rightarrow> bool" where
  "serving Start_processor = True"
| "serving (Start_consumer i) = True"
| "serving Idle_wait = True"
| "serving (Release R_Stop again) = True"
| "serving _ = False"

definition kafka_ok :: "kafka \<Rightarrow> bool" where
  "kafka_ok s = (case m_cthread s of
     None \<Rightarrow> m_pthread s = None \<and> (\<exists>pc. main_at s = Release pc False \<and> pc \<noteq> R_Locks)
   | Some ts \<Rightarrow> length ts = partitions s \<and> 0 < partitions s \<and> g_lock s \<and> length (g_msgs s) = partitions s \<and>
       m_pthread s \<noteq> Some P_Joined \<and> level (klogger s) = LOG_DEBUG \<and>
       (\<exists>hs. g_kfkhandler s = Some hs \<and> length hs = partitions s \<and> (\<forall>h \<in> set hs. m_rk h \<noteq> 0) \<and>
         (serving (main_at s) \<longrightarrow> (\<forall>h \<in> set hs. m_rkt h \<noteq> 0 \<longrightarrow> rd_live (m_rkt h) (klib_of s))) \<and>
         stage_ok (main_at s) hs s))"

lemma rd_new_live:
  assumes "rd_new ok k L = (a, L')" and "0 < fresh L"
  shows "0 < fresh L'" and "a \<noteq> 0 \<Longrightarrow> rd_live a L'" and "rd_live b L \<Longrightarrow> rd_live b L'"
  using assms by (auto simp: rd_new_def rd_live_def split: if_splits)

lemma helper_init_live:
  assumes "helper_init ch broker topic isproduce h L = (ret, h', L')" and "0 < fresh L"
  shows "0 < fresh L'" and "rd_live b L \<Longrightarrow> rd_live b L'"
    and "ret = 0 \<Longrightarrow> m_rk h' \<noteq> 0 \<and> (m_rkt h' \<noteq> 0 \<longrightarrow> rd_live (m_rkt h') L')"
  using assms rd_new_live unfolding helper_init_def by (auto simp: Let_def split: prod.splits if_splits)

lemma init_helpers_live:
  assumes "init_helpers ch broker topic i hs L = (ret, hs', L')" and "0 < fresh L"
  shows "length hs' = length hs \<and> (rd_live b L \<longrightarrow> rd_live b L') \<and>
    (ret = 0 \<longrightarrow> (\<forall>h \<in> set hs'. m_rk h \<noteq> 0 \<and> (m_rkt h \<noteq> 0 \<longrightarrow> rd_live (m_rkt h) L')))"
  using assms
proof (induction hs arbitrary: i L ret hs' b)
  case Nil
  then show ?case by simp
next
  case (Cons h hs)
  obtain r1 h1 L1 where H: "helper_init (ch i) broker topic False h L = (r1, h1, L1)" by (metis prod_cases3)
  note G = helper_init_live [OF H Cons.prems(2)]
  show ?case
  proof (cases "r1 = 0")
    case True
    obtain r2 hs2 L2 where I: "init_helpers ch broker topic (i + 1) hs L1 = (r2, hs2, L2)" by (metis prod_cases3)
    have e: "ret = r2" "hs' = h1 # hs2" "L' = L2" using Cons.prems(1) H I True by auto
    have ih: "length hs2 = length hs \<and> (rd_live c L1 \<longrightarrow> rd_live c L2) \<and>
        (r2 = 0 \<longrightarrow> (\<forall>h \<in> set hs2. m_rk h \<noteq> 0 \<and> (m_rkt h \<noteq> 0 \<longrightarrow> rd_live (m_rkt h) L2)))" for c
      using Cons.IH [OF I [unfolded e(3) [symmetric]] G(1), of c] e(3) by simp
    show ?thesis using ih [of b] ih [of "m_rkt h1"] G True unfolding e by auto
  next
    case False
    then show ?thesis using Cons.prems(1) H G(2) by auto
  qed
qed

lemma kafka_main_ok:
  assumes "kafka_main log_fd opened cjunk junk stamp ch c = Some s"
  shows "kafka_ok s"
proof -
  define l where "l = \<lparr>lname = LOG_FILE, level = LOG_DEBUG, lfd = log_fd\<rparr>"
  define s0 where "s0 = kafka_empty\<lparr>klogger := l\<rparr>"
  have empty: "kafka_ok kafka_empty" "kafka_ok s0" by (simp_all add: kafka_ok_def kafka_empty_def s0_def)
  have init: "if ret < 0 then kafka_ok t else kafka_ok (t\<lparr>main_at := Start_processor\<rparr>)"
    if K: "kafka_init junk stamp ch c s0 = Some (ret, t)" for ret t c
  proof -
    obtain broker topic size num ret1 hs L where n: "0 < num"
      and I: "init_helpers ch broker topic 0 (replicate (nat num) KafkaHelper) (klib_of s0) = (ret1, hs, L)"
      and t: "(ret, t) = (let s = s0\<lparr>batch_size := size, partitions := nat num, g_kfkhandler := Some hs, klib_of := L\<rparr> in
        if ret1 \<noteq> 0 then (- 1, s)
        else (0, s\<lparr>m_cthread := Some (replicate (nat num) None), g_lock := True, g_msgs := replicate (nat num) []\<rparr>))"
      using K by (auto simp: kafka_init_def bind_eq_Some_conv Let_def not_le split: if_splits prod.splits)
    have "0 < fresh (klib_of s0)" by (simp add: kafka_empty_def s0_def)
    note J = init_helpers_live [OF I this]
    show ?thesis using t n J
      by (cases "ret1 = 0") (auto simp: Let_def kafka_ok_def kafka_empty_def consumer_at_def s0_def l_def)
  qed
  have "log_init log_fd LOG_DEBUG LOG_FILE (klogger kafka_empty) =
      (if log_fd < 0 then (MY_ERROR, klogger kafka_empty) else (MY_OK, l))"
    by (simp add: log_init_def l_def kafka_empty_def)
  then show ?thesis using assms empty init
    by (auto simp: kafka_main_def bind_eq_Some_conv s0_def [symmetric] MY_OK_def MY_ERROR_def split: if_splits prod.splits)
      (metis | fastforce)+
qed

text \<open>What a state of the running program has.\<close>

lemma kafka_okD:
  assumes "kafka_ok s" "m_cthread s = Some ts"
  obtains hs where "length ts = partitions s" "0 < partitions s" "g_lock s" "length (g_msgs s) = partitions s"
    "m_pthread s \<noteq> Some P_Joined" "level (klogger s) = LOG_DEBUG" "g_kfkhandler s = Some hs" "length hs = partitions s" "\<forall>h \<in> set hs. m_rk h \<noteq> 0"
    "serving (main_at s) \<longrightarrow> (\<forall>h \<in> set hs. m_rkt h \<noteq> 0 \<longrightarrow> rd_live (m_rkt h) (klib_of s))" "stage_ok (main_at s) hs s"
  using assms by (auto simp: kafka_ok_def)

lemma stage_ok_cong:
  assumes "stage_ok pc hs s" "klib_of s' = klib_of s" "m_pthread s = None \<Longrightarrow> m_pthread s' = None"
    and "\<And>i. consumer_at i s = None \<Longrightarrow> consumer_at i s' = None"
  shows "stage_ok pc hs s'"
  using assms by (cases "(pc, hs, s)" rule: stage_ok.cases) auto

lemma kafka_ok_cong:
  assumes "kafka_ok s" "map_option length (m_cthread s') = map_option length (m_cthread s)" "g_kfkhandler s' = g_kfkhandler s"
    "g_lock s' = g_lock s" "length (g_msgs s') = length (g_msgs s)" "partitions s' = partitions s" "main_at s' = main_at s"
    "klib_of s' = klib_of s" "klogger s' = klogger s" "m_pthread s = None \<Longrightarrow> m_pthread s' = None" "m_pthread s \<noteq> Some P_Joined \<Longrightarrow> m_pthread s' \<noteq> Some P_Joined"
    "\<And>i. consumer_at i s = None \<Longrightarrow> consumer_at i s' = None"
  shows "kafka_ok s'"
proof (cases "m_cthread s")
  case None
  then show ?thesis using assms by (simp add: kafka_ok_def)
next
  case (Some ts)
  then obtain ts' where "m_cthread s' = Some ts'" "length ts' = length ts" using assms(2) by (cases "m_cthread s'") auto
  moreover obtain hs where "length ts = partitions s" "0 < partitions s" "g_lock s" "length (g_msgs s) = partitions s"
    "m_pthread s \<noteq> Some P_Joined" "level (klogger s) = LOG_DEBUG" "g_kfkhandler s = Some hs" "length hs = partitions s" "\<forall>h \<in> set hs. m_rk h \<noteq> 0"
    "serving (main_at s) \<longrightarrow> (\<forall>h \<in> set hs. m_rkt h \<noteq> 0 \<longrightarrow> rd_live (m_rkt h) (klib_of s))" "stage_ok (main_at s) hs s"
    using kafka_okD [OF assms(1) Some] by metis
  ultimately show ?thesis using assms stage_ok_cong [of "main_at s" hs s s'] by (simp add: kafka_ok_def)
qed

lemma rd_destroy_live:
  assumes "rd_destroy a L = Some L'"
  shows "rd_live b L' \<longleftrightarrow> rd_live b L \<and> b \<noteq> a"
  using assms by (auto simp: rd_destroy_def rd_live_def split: if_splits)

text \<open>After \<open>consume_destroy\<close>, deleting the array destroys a handle for the second time.\<close>

lemma delete_helpers_faults:
  assumes "hs \<noteq> []" "\<forall>h \<in> set hs. m_rk h \<noteq> 0 \<and> \<not> rd_live (m_rk h) L"
  shows "delete_helpers hs L = None"
  using assms
proof (induction hs)
  case (Cons h hs)
  then show ?case by (cases "hs = []") (simp_all add: KafkaHelper_delete_def rd_destroy_def)
qed simp

lemma main_ok:
  assumes ok: "kafka_ok s" and step: "main_thread created (main_at s) s = Ends s'"
  shows "kafka_ok s'"
proof (cases "m_cthread s")
  case None
  then obtain pc where pc: "main_at s = Release pc False" "pc \<noteq> R_Locks" and p: "m_pthread s = None"
    using ok by (auto simp: kafka_ok_def)
  then show ?thesis using step None
    by (cases pc) (auto simp: kafka_ok_def split: if_splits option.splits)
next
  case (Some ts)
  obtain hs where H: "length ts = partitions s" "0 < partitions s" "g_lock s" "length (g_msgs s) = partitions s"
    "m_pthread s \<noteq> Some P_Joined" "level (klogger s) = LOG_DEBUG" "g_kfkhandler s = Some hs" "length hs = partitions s" "\<forall>h \<in> set hs. m_rk h \<noteq> 0"
    "serving (main_at s) \<longrightarrow> (\<forall>h \<in> set hs. m_rkt h \<noteq> 0 \<longrightarrow> rd_live (m_rkt h) (klib_of s))" "stage_ok (main_at s) hs s"
    using kafka_okD [OF ok Some] by metis
  show ?thesis
  proof (cases "main_at s")
    case Start_processor
    then show ?thesis using step Some H by (auto simp: kafka_ok_def consumer_at_def)
  next
    case (Start_consumer i)
    then have "ts ! j = None" if "i \<le> j" "j < partitions s" for j
      using H(1,11) Some that by (auto simp: consumer_at_def)
    then show ?thesis using step Some H Start_consumer
      by (auto simp: kafka_ok_def set_consumer_def consumer_at_def)
  next
    case Idle_wait
    then show ?thesis using step Some H by (auto simp: kafka_ok_def)
  next
    case (Release pc again)
    show ?thesis
    proof (cases pc)
      case R_Stop
      then show ?thesis using step Some H Release by (auto simp: kafka_ok_def)
    next
      case (R_Destroy i)
      show ?thesis
      proof (cases "i < partitions s")
        case True
        then obtain L1 L where L: "rd_destroy (m_rkt (hs ! i)) (klib_of s) = Some L1" "rd_destroy (m_rk (hs ! i)) L1 = Some L"
          and s': "s' = s\<lparr>klib_of := L, main_at := Release (R_Destroy (i + 1)) again\<rparr>"
          using step Release R_Destroy H by (auto simp: handler_at_def consume_destroy_def bind_eq_Some_conv split: option.splits)
        have "\<not> rd_live (m_rk (hs ! j)) L" if "j < i + 1" "j < length hs" for j
          using H(11) that Release R_Destroy rd_destroy_live [OF L(1)] rd_destroy_live [OF L(2)] by (cases "j = i") auto
        then show ?thesis using Some H Release R_Destroy by (simp add: s' kafka_ok_def)
      next
        case False
        then have "\<forall>h \<in> set hs. \<not> rd_live (m_rk h) (klib_of s)"
          using H(8,11) Release R_Destroy by (auto simp: in_set_conv_nth)
        then show ?thesis using step Some H Release R_Destroy False by (auto simp: kafka_ok_def)
      qed
    next
      case R_Delete
      have "delete_helpers hs (klib_of s) = None"
        using H(2,8,9,11) Release R_Delete by (intro delete_helpers_faults) auto
      then show ?thesis using step H Release R_Delete by simp
    qed (use H(11) Release in simp_all)
  next
    case Exits
    then show ?thesis using H(11) by simp
  qed
qed

lemma kafka_step_ok: "kafka_step s s' \<Longrightarrow> kafka_ok s \<Longrightarrow> kafka_ok s'"
proof (induction rule: kafka_step.induct)
  case (signal s)
  show ?case by (rule kafka_ok_cong [OF signal]) (simp_all add: consumer_at_def)
next
  case (consumer i s pc errno mem r rnd s')
  note K = consume_keeps [OF consumer(2,1)]
  have "consumer_at j s = None \<Longrightarrow> consumer_at j s' = None" for j
    using K(11) consumer(1) by (cases "j = i") auto
  then show ?case using K by (intro kafka_ok_cong [OF consumer(3)]) simp_all
next
  case (processor s pc junk stamp s')
  note K = Process_keeps [OF processor(3)]
  have "m_pthread s' \<noteq> Some P_Joined" if "m_pthread s \<noteq> Some P_Joined"
    using Process_not_joined [OF processor(3,1)] that processor(1) by auto
  then show ?case using K processor(1) by (intro kafka_ok_cong [OF processor(4)]) (simp_all add: consumer_at_cong [OF K(8)])
next
  case (main created s s')
  show ?case by (rule main_ok [OF main(2,1)])
qed

lemma kafka_reachable_ok: "kafka_reachable s \<Longrightarrow> kafka_ok s"
  by (induction rule: kafka_reachable.induct) (erule kafka_main_ok, erule (1) kafka_step_ok)

section \<open>Where the messages are\<close>

definition in_bucket :: "nat \<Rightarrow> kafka \<Rightarrow> string list" where
  "in_bucket k s = (if k < length (g_msgs s) then g_msgs s ! k else [])"

definition in_hand :: "nat \<Rightarrow> kafka \<Rightarrow> string list" where
  "in_hand k s = (case m_pthread s of Some (P_Store j ms) \<Rightarrow> if j = k then ms else [] | _ \<Rightarrow> [])"

definition to_push :: "nat \<Rightarrow> kafka \<Rightarrow> string list" where
  "to_push i s = (case consumer_at i s of Some (C_Push ms) \<Rightarrow> map payload ms | _ \<Rightarrow> [])"

definition stored :: "nat \<Rightarrow> kafka \<Rightarrow> string list" where
  "stored k s = map (\<lambda>(j, m, line). m) (filter (\<lambda>(j, m, line). j = k) (data_log s))"

definition into_bucket :: "nat \<Rightarrow> kafka \<Rightarrow> string list" where
  "into_bucket k s = map (\<lambda>(i, j, m). m) (filter (\<lambda>(i, j, m). j = k) (pushed s))"

definition pushed_by :: "nat \<Rightarrow> kafka \<Rightarrow> string list" where
  "pushed_by i s = map (\<lambda>(i, j, m). m) (filter (\<lambda>(j, k, m). j = i) (pushed s))"

definition fetched_by :: "nat \<Rightarrow> kafka \<Rightarrow> string list" where
  "fetched_by i s = map snd (filter (\<lambda>x. fst x = i) (fetched s))"

definition non_empty :: "string list \<Rightarrow> string list" where
  "non_empty ms = filter (\<lambda>m. m \<noteq> []) ms"

lemmas places_def = in_bucket_def in_hand_def to_push_def stored_def into_bucket_def pushed_by_def fetched_by_def non_empty_def

definition taken :: "nat \<Rightarrow> kafka \<Rightarrow> nat" where
  "taken k s = length (stored k s @ in_hand k s)"

definition messages_ok :: "kafka \<Rightarrow> bool" where
  "messages_ok s =
     ((\<forall>k. into_bucket k s = stored k s @ in_hand k s @ in_bucket k s \<and> (taken k s = 0 \<or> BUCKET_FULL < taken k s)) \<and>
      (\<forall>i. non_empty (fetched_by i s) = pushed_by i s @ non_empty (to_push i s)))"

lemma messages_ok_cong:
  assumes "messages_ok s" "g_msgs s' = g_msgs s" "fetched s' = fetched s" "pushed s' = pushed s" "data_log s' = data_log s"
    and "\<And>k. in_hand k s' = in_hand k s" "\<And>i. to_push i s' = to_push i s"
  shows "messages_ok s'"
  using assms unfolding messages_ok_def taken_def stored_def into_bucket_def pushed_by_def fetched_by_def in_bucket_def by simp

lemma to_push_set:
  assumes "consumer_at i s \<noteq> None" "m_cthread t = m_cthread s"
  shows "to_push j (set_consumer i pc t) = (if j = i then (case pc of C_Push ms \<Rightarrow> map payload ms | _ \<Rightarrow> []) else to_push j s)"
proof -
  obtain ts where "m_cthread s = Some ts" "i < length ts" using assms(1) consumer_at_Some [of i s] by auto
  then show ?thesis using assms(2) consumer_at_cong [OF assms(2)] by (simp add: to_push_def consumer_at_set)
qed

lemma messages_consumer:
  assumes "messages_ok s" "consumer_at i s = Some pc" "consume i errno mem r rnd pc s = Some s'"
  shows "messages_ok s'"
proof -
  note T = to_push_set [of i s, unfolded assms(2), simplified]
  have P: "to_push i s = (case pc of C_Push ms \<Rightarrow> map payload ms | _ \<Rightarrow> [])" by (simp add: to_push_def assms(2))
  have quiet: "messages_ok (set_consumer i pc' s)" if "to_push i s = []" "\<And>ms. pc' \<noteq> C_Push ms" for pc'
    by (rule messages_ok_cong [OF assms(1)]) (use that in \<open>auto simp: T in_hand_def split: consumer_pc.splits\<close>)
  show ?thesis
  proof (cases pc)
    case C_Begin
    then show ?thesis using assms(3) quiet P by (auto simp: consume_begin_def bind_eq_Some_conv)
  next
    case C_Check
    then show ?thesis using assms(3) quiet P by (auto simp: consume_check_def)
  next
    case C_Fetch
    then obtain ms where s': "s' = set_consumer i (C_Push ms) (s\<lparr>fetched := fetched s @ map (\<lambda>m. (i, payload m)) ms\<rparr>)"
      using assms(3) by (auto simp: consume_fetch_def bind_eq_Some_conv)
    have "fetched_by j s' = fetched_by j s @ (if j = i then map payload ms else [])" for j
      by (simp add: s' fetched_by_def filter_map comp_def)
    moreover have "to_push j s' = (if j = i then map payload ms else to_push j s)" for j by (simp add: s' T)
    ultimately show ?thesis using assms(1) P C_Fetch
      by (auto simp: messages_ok_def s' taken_def stored_def in_hand_def into_bucket_def in_bucket_def pushed_by_def non_empty_def)
  next
    case (C_Push ms)
    show ?thesis
    proof (cases ms)
      case Nil
      then show ?thesis using C_Push assms(3) quiet P by auto
    next
      case (Cons m ms')
      show ?thesis
      proof (cases "payload m = []")
        case True
        then have s': "s' = set_consumer i (C_Push ms') s" using assms(3) C_Push Cons by (simp add: consume_callback_def)
        have "non_empty (to_push j s') = non_empty (to_push j s)" for j
          using True by (simp add: s' T P C_Push Cons non_empty_def)
        then show ?thesis using assms(1)
          by (auto simp: messages_ok_def s' taken_def stored_def in_hand_def into_bucket_def in_bucket_def pushed_by_def fetched_by_def)
      next
        case False
        then obtain k where k: "k < length (g_msgs s)"
          and s': "s' = set_consumer i (C_Push ms') (s\<lparr>g_msgs := (g_msgs s)[k := g_msgs s ! k @ [payload m]],
            pushed := pushed s @ [(i, k, payload m)]\<rparr>)"
          using assms(3) C_Push Cons by (auto simp: consume_callback_def Let_def not_le split: if_splits)
        have "into_bucket j s' = into_bucket j s @ (if j = k then [payload m] else [])"
          and "in_bucket j s' = in_bucket j s @ (if j = k then [payload m] else [])"
          and "pushed_by j s' = pushed_by j s @ (if j = i then [payload m] else [])"
          and "to_push j s' = (if j = i then map payload ms' else to_push j s)" for j
          using k by (auto simp: s' into_bucket_def in_bucket_def pushed_by_def T)
        then show ?thesis using assms(1) P False
          by (auto simp: messages_ok_def s' taken_def stored_def in_hand_def fetched_by_def non_empty_def C_Push Cons)
      qed
    qed
  next
    case C_End
    then show ?thesis using assms(1,3) by simp
  qed
qed

lemma messages_processor:
  assumes "messages_ok s" "m_pthread s = Some pc" "Process junk stamp pc s = Some s'"
  shows "messages_ok s'"
proof -
  have T: "to_push i s' = to_push i s" for i
    using consumer_at_cong [OF Process_keeps(8) [OF assms(3)]] by (simp add: to_push_def)
  note K = Process_keeps(9,10) [OF assms(3)]
  have hand: "in_hand k s = (case pc of P_Store j ms \<Rightarrow> if j = k then ms else [] | _ \<Rightarrow> [])" for k
    by (simp add: in_hand_def assms(2))
  have rest: "non_empty (fetched_by i s') = pushed_by i s' @ non_empty (to_push i s')" for i
    using assms(1) K by (simp add: messages_ok_def T fetched_by_def pushed_by_def)
  have into: "into_bucket k s' = into_bucket k s" for k by (simp add: into_bucket_def K)
  show ?thesis
  proof (cases "\<exists>k. pc = P_Bucket k \<and> k < partitions s \<and> BUCKET_FULL < length (g_msgs s ! k)")
    case True
    then obtain k where k: "pc = P_Bucket k" "k < length (g_msgs s)" "BUCKET_FULL < length (g_msgs s ! k)"
      and s': "s' = s\<lparr>m_pthread := Some (P_Store k (g_msgs s ! k)), g_msgs := (g_msgs s)[k := []]\<rparr>"
      using assms(3) by (auto split: if_splits)
    have "in_hand j s' @ in_bucket j s' = in_hand j s @ in_bucket j s"
      and "in_hand j s' = (if j = k then g_msgs s ! k else in_hand j s)" for j
      using k by (auto simp: hand) (auto simp: s' in_hand_def in_bucket_def)
    then show ?thesis using assms(1) rest k(3)
      by (auto simp: messages_ok_def into taken_def) (auto simp: s' stored_def)
  next
    case False
    have "stored k s' @ in_hand k s' = stored k s @ in_hand k s \<and> in_bucket k s' = in_bucket k s" for k
      using assms(3) False
      by (cases "(junk, stamp, pc, s)" rule: Process.cases)
         (auto simp: hand stored_def in_bucket_def bind_eq_Some_conv split: if_splits, auto simp: in_hand_def)
    then show ?thesis using assms(1) rest
      unfolding messages_ok_def into taken_def by (metis append_assoc)
  qed
qed

lemma release_keeps:
  assumes "release pc again s = Ends s'"
  shows "g_msgs s' = g_msgs s" "fetched s' = fetched s" "pushed s' = pushed s" "data_log s' = data_log s" "in_hand k s' = in_hand k s"
  using assms by (cases pc; auto simp: in_hand_def split: if_splits option.splits processor_pc.splits)+

lemma release_threads:
  assumes "release pc again s = Ends s'" "\<And>j. pc = R_Join j \<Longrightarrow> m_cthread s = None"
  shows "m_cthread s' = m_cthread s"
  using assms by (cases pc) (auto split: if_splits option.splits processor_pc.splits)

lemma messages_main:
  assumes "messages_ok s" and ok: "kafka_ok s" and step: "main_thread created (main_at s) s = Ends s'"
  shows "messages_ok s'"
proof (cases "main_at s")
  case Start_processor
  then have "m_pthread s = None" using ok by (auto simp: kafka_ok_def split: option.splits)
  then show ?thesis using step Start_processor
    by (intro messages_ok_cong [OF assms(1)]) (auto simp: in_hand_def to_push_def consumer_at_def split: if_splits)
next
  case (Start_consumer i)
  then have "consumer_at i s = None" using ok by (auto simp: kafka_ok_def split: option.splits)
  moreover obtain ts where "m_cthread s = Some ts" using ok Start_consumer by (auto simp: kafka_ok_def split: option.splits)
  ultimately have "to_push j (set_consumer i C_Begin s\<lparr>main_at := pc\<rparr>) = to_push j s" for j pc
    using consumer_at_set [of j i C_Begin s] by (auto simp: to_push_def consumer_at_def split: option.splits if_splits)
  then show ?thesis using step Start_consumer
    by (intro messages_ok_cong [OF assms(1)]) (auto simp: in_hand_def to_push_def consumer_at_def split: if_splits)
next
  case Idle_wait
  then show ?thesis using step
    by (intro messages_ok_cong [OF assms(1)]) (auto simp: in_hand_def to_push_def consumer_at_def split: if_splits)
next
  case (Release pc again)
  then have r: "release pc again s = Ends s'" using step by simp
  have "m_cthread s = None" if "pc = R_Join j" for j
    using ok that Release by (auto simp: kafka_ok_def split: option.splits)
  then have "m_cthread s' = m_cthread s" by (rule release_threads [OF r])
  then show ?thesis using release_keeps [OF r]
    by (intro messages_ok_cong [OF assms(1)]) (simp_all add: to_push_def consumer_at_def)
next
  case Exits
  then show ?thesis using step assms(1) by simp
qed

lemma kafka_reachable_messages: "kafka_reachable s \<Longrightarrow> messages_ok s"
proof (induction rule: kafka_reachable.induct)
  case (start log_fd opened cjunk junk stamp ch c s)
  have empty: "messages_ok s" if "g_msgs s = replicate n []" "m_cthread s = None \<or> m_cthread s = Some (replicate m None)"
      "m_pthread s = None" "fetched s = []" "pushed s = []" "data_log s = []" for s n m
    using that by (auto simp: messages_ok_def taken_def places_def consumer_at_def)
  have shape: "\<exists>n m. g_msgs s = replicate n [] \<and> (m_cthread s = None \<or> m_cthread s = Some (replicate m None)) \<and>
      m_pthread s = None \<and> fetched s = [] \<and> pushed s = [] \<and> data_log s = []"
    using start
    by (auto simp: kafka_main_def kafka_init_def kafka_empty_def bind_eq_Some_conv Let_def split: if_splits prod.splits)
  then show ?case using empty by blast
next
  case (step s s')
  note ok = kafka_reachable_ok [OF step(1)]
  show ?case using step(2)
  proof (cases rule: kafka_step.cases)
    case signal
    then show ?thesis
      by (intro messages_ok_cong [OF step.IH]) (simp_all add: in_hand_def to_push_def consumer_at_def)
  next
    case (consumer i pc errno mem r rnd)
    then show ?thesis using messages_consumer [OF step.IH] by blast
  next
    case (processor pc junk stamp)
    then show ?thesis using messages_processor [OF step.IH] by blast
  next
    case (main created)
    then show ?thesis using messages_main [OF step.IH ok] by blast
  qed
qed

text \<open>The lines that the processor writes.\<close>

definition line_of :: "string \<Rightarrow> string \<Rightarrow> string" where
  "line_of stamp m = stamp @ STORE_HEAD @ c_str m @ [CHR 0x0A]"

definition fits_in_log :: "string \<Rightarrow> bool" where
  "fits_in_log m = (21 + length STORE_HEAD + length (c_str m) < LOG_MAX_LEN)"

lemma store_data_line:
  assumes "log_args junk stamp" "level (klogger s) = LOG_DEBUG"
  shows "store_data junk stamp m s = (if fits_in_log m then Some (Some (line_of stamp m)) else None)"
  using assms log_line_limit [of junk stamp STORE_HEAD "c_str m"]
  by (simp add: store_data_def log_debug_def log_loggable_def log_args_def fits_in_log_def line_of_def)

definition lines_ok :: "kafka \<Rightarrow> bool" where
  "lines_ok s = (\<forall>(k, m, line) \<in> set (data_log s). \<exists>stamp. length stamp = 21 \<and> line = Some (line_of stamp m))"

lemma kafka_ok_level: "kafka_ok s \<Longrightarrow> m_pthread s = Some pc \<Longrightarrow> level (klogger s) = LOG_DEBUG"
  by (auto simp: kafka_ok_def split: option.splits)

lemma lines_processor:
  assumes "lines_ok s" "kafka_ok s" "m_pthread s = Some pc" "log_args junk stamp" "Process junk stamp pc s = Some s'"
  shows "lines_ok s'"
  using assms store_data_line [OF assms(4) kafka_ok_level [OF assms(2,3)]]
  by (cases "(junk, stamp, pc, s)" rule: Process.cases)
     (auto simp: lines_ok_def log_args_def bind_eq_Some_conv split: if_splits)

lemma kafka_reachable_lines: "kafka_reachable s \<Longrightarrow> lines_ok s"
proof (induction rule: kafka_reachable.induct)
  case (start log_fd opened cjunk junk stamp ch c s)
  then have "data_log s = []"
    by (auto simp: kafka_main_def kafka_init_def kafka_empty_def bind_eq_Some_conv Let_def split: if_splits prod.splits)
  then show ?case by (simp add: lines_ok_def)
next
  case (step s s')
  note ok = kafka_reachable_ok [OF step(1)]
  show ?case using step(2)
  proof (cases rule: kafka_step.cases)
    case signal
    then show ?thesis using step.IH by (simp add: lines_ok_def)
  next
    case (consumer i pc errno mem r rnd)
    then show ?thesis using step.IH consume_keeps(9) by (simp add: lines_ok_def)
  next
    case (processor pc junk stamp)
    then show ?thesis using lines_processor [OF step.IH ok] by blast
  next
    case (main created)
    have "data_log s' = data_log s"
      using main by (cases "main_at s") (auto split: if_splits dest: release_keeps(4))
    then show ?thesis using step.IH by (simp add: lines_ok_def)
  qed
qed

section \<open>A run\<close>

text \<open>One partition, a consumer that is about to fetch, and a signal.\<close>

definition demo_ini :: ini where
  "demo_ini = [(''KAFKA'', [(''BROKER'', ''b:9092''), (''TOPIC'', ''uv''), (''BATCH_SIZE'', ''10''), (''PARTITION_NUM'', ''1'')])]"

definition demo_helper :: kafka_helper where
  "demo_helper = \<lparr>m_rkt = 2, m_rk = 1, m_str_brokers = ''b:9092'', m_str_topic = ''uv''\<rparr>"

definition demo_start :: kafka where
  "demo_start = kafka_empty\<lparr>batch_size := 10, partitions := 1, g_kfkhandler := Some [demo_helper],
     klib_of := \<lparr>objs = [1 \<mapsto> Consumer, 2 \<mapsto> Topic], fresh = 3\<rparr>, m_cthread := Some [None], g_lock := True, g_msgs := [[]],
     klogger := \<lparr>lname = LOG_FILE, level = 7, lfd = 3\<rparr>, main_at := Start_processor\<rparr>"

definition demo_running :: kafka where
  "demo_running = demo_start\<lparr>m_pthread := Some P_Check, m_cthread := Some [Some C_Fetch], main_at := Idle_wait\<rparr>"

definition demo_destroyed :: kafka where
  "demo_destroyed = demo_running\<lparr>g_stop := True, klib_of := \<lparr>objs = Map.empty, fresh = 3\<rparr>, main_at := Release (R_Destroy 1) True\<rparr>"

lemmas demo_defs = demo_helper_def demo_start_def demo_running_def demo_destroyed_def kafka_empty_def

lemma demo_start_reachable: "kafka_reachable demo_start"
proof (rule kafka_reachable.start)
  define c where "c = \<lparr>m_contener = Map.empty, m_iLoaded = 0\<rparr>"
  define c' where "c' = c\<lparr>m_contener := m_contener c ++ maps_of demo_ini, m_iLoaded := 1\<rparr>"
  have "printable demo_ini"
    by (simp add: demo_ini_def printable_def plain_def MAX_CONF_ITEM_LENTH_def blank_def NEWLINE_def NUL_def)
  then have load: "loadConfigFile (Some CONFIG_FILE) (Some (print_config demo_ini)) [] c = Some (0, c')"
    unfolding c'_def by (rule load_print)
  have conf: "getConfigStr c' ''KAFKA'' ''BROKER'' = Some ''b:9092''" "getConfigStr c' ''KAFKA'' ''TOPIC'' = Some ''uv''"
    "getConfigInt c' ''KAFKA'' ''BATCH_SIZE'' = Some 10" "getConfigInt c' ''KAFKA'' ''PARTITION_NUM'' = Some 1"
    by (simp_all add: c'_def c_def maps_of_def demo_ini_def getConfigStr_def getConfigInt_def atoi_def c_str_def blank_def NEWLINE_def NUL_def)
  have line: "log_line (replicate 256 CHR 0x00) (replicate 21 CHR ''t'') head body = Some (replicate 21 CHR ''t'' @ head @ body @ [CHR 0x0A])"
    if "length head + length body < 235" for head body
    using log_line_limit [of "replicate 256 CHR 0x00" "replicate 21 CHR ''t''" head body] that by (simp add: LOG_MAX_LEN_def)
  show "kafka_main 3 (Some (print_config demo_ini)) [] (replicate 256 CHR 0x00) (replicate 21 CHR ''t'') (\<lambda>i. (True, 1, True)) c = Some demo_start"
    by (simp add: kafka_main_def log_init_def load kafka_init_def conf helper_init_def rd_new_def KafkaHelper_def demo_defs MY_OK_def
        numeral_2_eq_2 log_debug_def log_loggable_def LOG_DEBUG_def line int_text_def decimal.simps c_str_def NUL_def)
qed

text \<open>The steps to a consumer in front of its next fetch, and from there through a signal into \<open>release\<close>.\<close>

lemma demo_running_reachable: "kafka_reachable demo_running"
proof -
  have r1: "kafka_reachable (demo_start\<lparr>m_pthread := Some P_Check, main_at := Start_consumer 0\<rparr>)" (is "kafka_reachable ?s1")
    by (rule kafka_reachable.step [OF demo_start_reachable], rule kafka_step.main [of True]) (simp add: demo_defs)
  have r2: "kafka_reachable (?s1\<lparr>m_cthread := Some [Some C_Begin], main_at := Start_consumer 1\<rparr>)" (is "kafka_reachable ?s2")
    by (rule kafka_reachable.step [OF r1], rule kafka_step.main [of True]) (simp add: demo_defs set_consumer_def)
  have r3: "kafka_reachable (?s2\<lparr>main_at := Idle_wait\<rparr>)" (is "kafka_reachable ?s3")
    by (rule kafka_reachable.step [OF r2], rule kafka_step.main [of True]) (simp add: demo_defs)
  have r4: "kafka_reachable (?s3\<lparr>m_cthread := Some [Some C_Check]\<rparr>)" (is "kafka_reachable ?s4")
    by (rule kafka_reachable.step [OF r3], rule kafka_step.consumer [of 0 _ C_Begin 0 True None 0])
       (simp_all add: demo_defs consumer_at_def consume_begin_def handler_at_def consume_start_def rd_live_def set_consumer_def)
  have "kafka_reachable (?s4\<lparr>m_cthread := Some [Some C_Fetch]\<rparr>)"
    by (rule kafka_reachable.step [OF r4], rule kafka_step.consumer [of 0 _ C_Check 0 True None 0])
       (simp_all add: demo_defs consumer_at_def consume_check_def set_consumer_def)
  then show ?thesis by (simp add: demo_defs)
qed

lemma demo_destroyed_reachable: "kafka_reachable demo_destroyed"
proof -
  have r1: "kafka_reachable (demo_running\<lparr>g_stop := True\<rparr>)" (is "kafka_reachable ?s1")
    by (rule kafka_reachable.step [OF demo_running_reachable], rule kafka_step.signal)
  have r2: "kafka_reachable (?s1\<lparr>main_at := Release R_Stop True\<rparr>)" (is "kafka_reachable ?s2")
    by (rule kafka_reachable.step [OF r1], rule kafka_step.main [of True]) (simp add: demo_defs)
  have r3: "kafka_reachable (?s2\<lparr>main_at := Release (R_Destroy 0) True\<rparr>)" (is "kafka_reachable ?s3")
    by (rule kafka_reachable.step [OF r2], rule kafka_step.main [of True]) (simp add: demo_defs)
  show ?thesis
    by (rule kafka_reachable.step [OF r3], rule kafka_step.main [of True])
       (simp add: demo_defs handler_at_def consume_destroy_def rd_destroy_def rd_live_def fun_eq_iff)
qed

section \<open>Properties\<close>

text \<open>C7: No message is lost, doubled or reordered in any interleaving. What was put into a bucket is, in this order, what was
  given to \<open>_store_data\<close> from it, what the processor holds of it and what is in it; the processor takes a bucket only
  with more than a thousand messages. What a consumer got from the library is, but for the empty messages, what it put
  into buckets, followed by what it has still to put there. And each message given to \<open>_store_data\<close> is a line of the
  log, as far as its text goes: up to the first zero byte.\<close>
theorem kafka_messages_kept:
  assumes "kafka_reachable s"
  shows "into_bucket k s = stored k s @ in_hand k s @ in_bucket k s \<and>
    (stored k s @ in_hand k s = [] \<or> 1000 < length (stored k s @ in_hand k s)) \<and>
    non_empty (fetched_by i s) = pushed_by i s @ non_empty (to_push i s) \<and>
    (\<forall>(k, m, line) \<in> set (data_log s). \<exists>stamp. length stamp = 21 \<and> line = Some (stamp @ STORE_HEAD @ c_str m @ [CHR 0x0A]))"
  using kafka_reachable_messages [OF assms] kafka_reachable_lines [OF assms]
  unfolding messages_ok_def taken_def BUCKET_FULL_def lines_ok_def line_of_def by auto

theorem kafka_messages_kept_witness:
  "into_bucket 0 demo_destroyed = stored 0 demo_destroyed @ in_hand 0 demo_destroyed @ in_bucket 0 demo_destroyed"
  using kafka_messages_kept [OF demo_destroyed_reachable] by blast

text \<open>C8: When the sections of the threads fault, before \<open>release\<close> begins to destroy. The processor faults exactly when it is to
  store a message whose text has more than 210 bytes, which overflows the buffer of the logger; a consumer exactly when its topic
  could not be made, or when there is no memory for the pointers to the messages that it fetches. In all other cases the
  locks and buckets exist, every index is inside and the topic is live.\<close>
theorem kafka_threads_run:
  assumes "kafka_reachable s"
  shows "(\<forall>pc junk stamp. m_pthread s = Some pc \<and> log_args junk stamp \<longrightarrow>
      (Process junk stamp pc s = None \<longleftrightarrow> (\<exists>k m ms. pc = P_Store k (m # ms) \<and> 210 < length (c_str m)))) \<and>
    (\<forall>pc h. consumer_at i s = Some pc \<and> handler_at i s = Some h \<and> serving (main_at s) \<longrightarrow>
      (consume i errno mem r rnd pc s = None \<longleftrightarrow>
        m_rkt h = 0 \<and> (pc = C_Begin \<or> pc = C_Fetch \<and> batch_size s \<noteq> 0) \<or>
        pc = C_Fetch \<and> batch_size s \<noteq> 0 \<and> \<not> mem \<and> (\<exists>m ms. r = Some (m # ms))))"
proof (intro conjI allI impI)
  note ok = kafka_reachable_ok [OF assms]
  fix pc junk stamp assume A: "m_pthread s = Some pc \<and> log_args junk stamp"
  then have L: "g_lock s" "length (g_msgs s) = partitions s" using ok by (auto simp: kafka_ok_def split: option.splits)
  have D: "store_data junk stamp m s = None \<longleftrightarrow> 210 < length (c_str m)" for m
    using store_data_line [OF _ kafka_ok_level [OF ok], of junk stamp pc m] A by (auto simp: fits_in_log_def STORE_HEAD_def LOG_MAX_LEN_def)
  show "Process junk stamp pc s = None \<longleftrightarrow> (\<exists>k m ms. pc = P_Store k (m # ms) \<and> 210 < length (c_str m))"
    using L D by (cases "(junk, stamp, pc, s)" rule: Process.cases) (auto simp: bind_eq_None_conv)
next
  note ok = kafka_reachable_ok [OF assms]
  fix pc h assume A: "consumer_at i s = Some pc \<and> handler_at i s = Some h \<and> serving (main_at s)"
  then obtain ts where ts: "m_cthread s = Some ts" using consumer_at_Some by blast
  obtain hs where H: "0 < partitions s" "g_lock s" "length (g_msgs s) = partitions s" "g_kfkhandler s = Some hs"
      "serving (main_at s) \<longrightarrow> (\<forall>h \<in> set hs. m_rkt h \<noteq> 0 \<longrightarrow> rd_live (m_rkt h) (klib_of s))"
    using kafka_okD [OF ok ts] by metis
  have "h \<in> set hs" using A H(4) by (auto simp: handler_at_def split: if_splits)
  then have live: "rd_live (m_rkt h) (klib_of s) \<longleftrightarrow> m_rkt h \<noteq> 0" using A H(5) by (auto simp: rd_live_def)
  show "consume i errno mem r rnd pc s = None \<longleftrightarrow>
        m_rkt h = 0 \<and> (pc = C_Begin \<or> pc = C_Fetch \<and> batch_size s \<noteq> 0) \<or>
        pc = C_Fetch \<and> batch_size s \<noteq> 0 \<and> \<not> mem \<and> (\<exists>m ms. r = Some (m # ms))"
  proof (cases pc)
    case C_Begin
    then show ?thesis using A live by (simp add: consume_begin_def consume_start_def)
  next
    case C_Fetch
    then show ?thesis using A live
      by (auto simp: consume_fetch_def msg_consume_batch_def bind_eq_None_conv neq_Nil_conv split: option.splits)
  next
    case (C_Push ms)
    then show ?thesis using H(1-3) mod_less_divisor [OF H(1), of rnd] by (cases ms) (auto simp: consume_callback_def Let_def not_le)
  qed simp_all
qed

theorem kafka_threads_run_witness:
  "consume 0 0 True (Some [\<lparr>err = 0, payload = ''m''\<rparr>]) 5 C_Fetch demo_running \<noteq> None \<and>
   consume 0 0 False (Some [\<lparr>err = 0, payload = ''m''\<rparr>]) 5 C_Fetch demo_running = None"
  using kafka_threads_run [OF demo_running_reachable, of 0 0 _ "Some [\<lparr>err = 0, payload = ''m''\<rparr>]" 5]
  by (simp add: consumer_at_def handler_at_def demo_defs)

text \<open>C9: The program never ends in order. With threads running, \<open>release\<close> destroys every handle and then deletes the helpers,
  whose destructor destroys it again; without, it joins a thread that was never created. So \<open>main\<close> does not get to the
  locks and to its end, however it got to \<open>release\<close>.\<close>
theorem kafka_never_exits:
  assumes "kafka_reachable s"
  shows "main_at s \<noteq> Exits \<and> main_at s \<noteq> Release R_Locks again \<and>
    (m_cthread s \<noteq> None \<and> main_at s = Release R_Delete again \<longrightarrow> main_thread created (main_at s) s = Faults) \<and>
    (main_at s = Release R_Join_processor again \<longrightarrow> main_thread created (main_at s) s = Faults)"
proof (cases "m_cthread s")
  case None
  then show ?thesis using kafka_reachable_ok [OF assms] by (auto simp: kafka_ok_def)
next
  case (Some ts)
  obtain hs where H: "0 < partitions s" "g_kfkhandler s = Some hs" "length hs = partitions s" "\<forall>h \<in> set hs. m_rk h \<noteq> 0"
      "stage_ok (main_at s) hs s"
    using kafka_okD [OF kafka_reachable_ok [OF assms] Some] by metis
  have "main_thread created (main_at s) s = Faults" if "main_at s = Release R_Delete again"
  proof -
    have "delete_helpers hs (klib_of s) = None" using H that by (intro delete_helpers_faults) auto
    then show ?thesis using H(2) that by simp
  qed
  then show ?thesis using H(5) by (auto simp del: main_thread.simps)
qed

theorem kafka_never_exits_witness:
  "main_at demo_destroyed \<noteq> Exits" using kafka_never_exits [OF demo_destroyed_reachable] by blast

text \<open>The helpers are destroyed before the consumers are joined: there is a run in which a consumer has seen that it is
  not to stop, and its fetch, whatever the library would return, uses a topic that is destroyed.\<close>
theorem kafka_release_races:
  "\<exists>s. kafka_reachable s \<and> consumer_at 0 s = Some C_Fetch \<and> (\<forall>errno mem r rnd. consume 0 errno mem r rnd C_Fetch s = None)"
  by (rule exI [of _ demo_destroyed])
     (simp add: demo_destroyed_reachable, simp add: demo_defs consumer_at_def consume_fetch_def handler_at_def msg_consume_batch_def rd_live_def)

end
