(* ===== verification/Simple_Netcommu.thy ===== *)
theory Simple_Netcommu
  imports Posix
begin

text \<open>
  The smallest client and server, \<open>src/simplest_netcommu\<close>. The results of system calls are arguments. Printing the
  read buffer with \<open>%s\<close> is a fault when no zero byte is in it; the server keeps its buffer from one connection to the
  next. \<open>atoi\<close> of the port and the conversion of addresses to text are left out.
\<close>

section \<open>Buffers\<close>

definition text_bytes :: "string \<Rightarrow> u8 list" where
  "text_bytes s = map of_char s"

text \<open>\<open>snprintf (buf, n, "%s", s)\<close> on a buffer of zeros, for a text that fits.\<close>

definition zero_filled :: "nat \<Rightarrow> string \<Rightarrow> u8 list" where
  "zero_filled n s = text_bytes s @ replicate (n - length s) 0"

text \<open>What \<open>read\<close> of at most the length of \<open>buf\<close> leaves in it, when \<open>bs\<close> waits, and what \<open>%s\<close> prints.\<close>

definition read_into :: "u8 list \<Rightarrow> u8 list \<Rightarrow> u8 list" where
  "read_into buf bs = take (length buf) bs @ drop (length bs) buf"

definition print_s :: "u8 list \<Rightarrow> u8 list option" where
  "print_s buf = (if 0 \<in> set buf then Some (takeWhile (\<lambda>b. b \<noteq> 0) buf) else None)"

section \<open>The server\<close>

definition READ_BUF_LEN :: nat where "READ_BUF_LEN = 512"
definition WRITE_BUF_LEN :: nat where "WRITE_BUF_LEN = 1024"

text \<open>The results of the calls up to \<open>listen\<close>, in their order.\<close>

record ns_setup =
  sigterm_st :: int
  sigint_st :: int
  socket_st :: int
  reuse_st :: int
  pton_st :: int
  bind_st :: int
  listen_st :: int

datatype ns_start = Ns_returns int | Ns_listens int

definition ns_server_start :: "nat \<Rightarrow> ns_setup \<Rightarrow> ns_start" where
  "ns_server_start argc r =
     (if argc < 3 then Ns_returns 0
      else if sigterm_st r < 0 then Ns_returns (- 1)
      else if sigint_st r < 0 then Ns_returns (- 1)
      else if socket_st r < 0 then Ns_returns (- 1)
      else if reuse_st r < 0 then Ns_returns (- 1)
      else if pton_st r < 0 then Ns_returns (- 1)
      else if bind_st r < 0 then Ns_returns (- 1)
      else if listen_st r < 0 then Ns_returns (- 1)
      else Ns_listens (socket_st r))"

record ns =
  ns_stop :: bool
  ns_rbuf :: "u8 list"
  ns_wbuf :: "u8 list"
  ns_open :: "int set"
  ns_printed :: "u8 list list"
  ns_sent :: "(int \<times> u8 list) list"

definition ns_fresh :: "int \<Rightarrow> ns" where
  "ns_fresh listen_sd = \<lparr>ns_stop = False, ns_rbuf = replicate READ_BUF_LEN 0, ns_wbuf = replicate WRITE_BUF_LEN 0,
     ns_open = {listen_sd}, ns_printed = [], ns_sent = []\<rparr>"

definition SIGINT :: int where "SIGINT = 2"
definition SIGTERM :: int where "SIGTERM = 15"

definition set_stop :: "int \<Rightarrow> ns \<Rightarrow> ns" where
  "set_stop signo s = (if signo = SIGTERM \<or> signo = SIGINT then s\<lparr>ns_stop := True\<rparr> else s)"

definition ns_close :: "int \<Rightarrow> ns \<Rightarrow> ns" where
  "ns_close fd s = s\<lparr>ns_open := ns_open s - {fd}\<rparr>"

text \<open>
  A round of the loop: the signals that arrive in it, what \<open>accept\<close> returns, what is read (nothing at the end of the
  stream) and how much is written.
\<close>

record ns_round =
  signals :: "int list"
  accepted :: "int syscall"
  read_st :: "u8 list syscall"
  write_st :: "nat syscall"

definition greeting :: string where "greeting = ''hello client, I am server!''"

definition ns_write :: "int \<Rightarrow> nat syscall \<Rightarrow> ns \<Rightarrow> ns" where
  "ns_write fd st s =
     (let s = s\<lparr>ns_wbuf := zero_filled WRITE_BUF_LEN greeting\<rparr> in
      case st of
        Fails e \<Rightarrow> ns_close fd s
      | Returns n \<Rightarrow> s\<lparr>ns_sent := ns_sent s @ [(fd, take n (ns_wbuf s))]\<rparr>)"

definition ns_serve :: "ns_round \<Rightarrow> ns \<Rightarrow> ns option" where
  "ns_serve r s =
     (let s = fold set_stop (signals r) s in
      case accepted r of
        Fails e \<Rightarrow> Some s
      | Returns fd \<Rightarrow> do {
          let s = s\<lparr>ns_open := insert fd (ns_open s)\<rparr>;
          let s = (case read_st r of
              Fails e \<Rightarrow> ns_close fd s
            | Returns bs \<Rightarrow> if bs = [] then ns_close fd s else s\<lparr>ns_rbuf := read_into (ns_rbuf s) bs\<rparr>);
          out \<leftarrow> print_s (ns_rbuf s);
          let s = s\<lparr>ns_printed := ns_printed s @ [out]\<rparr>;
          Some (case read_st r of
              Fails e \<Rightarrow> s
            | Returns bs \<Rightarrow> if bs = [] then s else ns_write fd (write_st r) s)
        })"

text \<open>The loop and the end of \<open>main\<close>; without a further round it waits in \<open>accept\<close>.\<close>

fun ns_loop :: "int \<Rightarrow> ns_round list \<Rightarrow> ns \<Rightarrow> ns run" where
  "ns_loop listen_sd rs s =
     (if ns_stop s then Ends (ns_close listen_sd s)
      else case rs of
          [] \<Rightarrow> Blocks
        | r # rs \<Rightarrow> (case ns_serve r s of None \<Rightarrow> Faults | Some s \<Rightarrow> ns_loop listen_sd rs s))"

declare ns_loop.simps [simp del]

section \<open>The client\<close>

definition MAX_BUF_LEN :: nat where "MAX_BUF_LEN = 1024"

record nc_calls =
  nc_socket :: int
  nc_pton :: int
  nc_connect :: int
  nc_write :: "nat syscall"
  nc_read :: "u8 list syscall"

text \<open>The result of \<open>main\<close>, what it sent and what it printed.\<close>

definition nc_main :: "nat \<Rightarrow> nc_calls \<Rightarrow> (int \<times> u8 list \<times> u8 list list) option" where
  "nc_main argc r =
     (if argc < 3 then Some (0, [], [])
      else if nc_socket r < 0 then Some (- 1, [], [])
      else if nc_pton r < 0 then Some (- 1, [], [])
      else if nc_connect r < 0 then Some (- 1, [], [])
      else let wbuf = zero_filled MAX_BUF_LEN ''hello server'' in
        case nc_write r of
          Fails e \<Rightarrow> Some (- 1, [], [])
        | Returns n \<Rightarrow>
            (case nc_read r of
               Fails e \<Rightarrow> Some (- 1, take n wbuf, [])
             | Returns bs \<Rightarrow> do {
                 out \<leftarrow> print_s (read_into (replicate MAX_BUF_LEN 0) bs);
                 Some (0, take n wbuf, [out])
               }))"

section \<open>Lemmas\<close>

lemma print_read:
  assumes "0 \<notin> set bs" "length bs < n" "n \<le> length buf"
  shows "print_s (read_into buf (take n (bs @ 0 # rest))) = Some bs"
proof -
  have "take (length buf) (take n (bs @ 0 # rest)) = bs @ 0 # take (n - length bs - 1) rest"
    using assms(2,3) by (simp add: min_absorb2 take_Cons' del: min.absorb2)
  moreover have "takeWhile (\<lambda>b. b \<noteq> 0) (bs @ 0 # t) = bs" for t
    using assms(1) by (subst takeWhile_append2) auto
  ultimately show ?thesis unfolding print_s_def read_into_def by simp
qed

lemma zero_filled_split:
  "length s < n \<Longrightarrow> zero_filled n s = text_bytes s @ 0 # replicate (n - length s - 1) 0"
  by (simp add: zero_filled_def flip: replicate_Suc)

text \<open>A round faults exactly when a connection is accepted and the buffer has no zero byte then.\<close>

lemma ns_serve_faults:
  "ns_serve r s = None \<longleftrightarrow> (\<exists>fd. accepted r = Returns fd) \<and>
     0 \<notin> set (case read_st r of Fails e \<Rightarrow> ns_rbuf s | Returns bs \<Rightarrow> if bs = [] then ns_rbuf s else read_into (ns_rbuf s) bs)"
proof -
  have "ns_rbuf (fold set_stop xs s) = ns_rbuf s" for xs
    by (induction xs arbitrary: s) (simp_all add: set_stop_def)
  then show ?thesis
    by (auto simp: ns_serve_def Let_def print_s_def ns_close_def bind_eq_None_conv split: syscall.splits)
qed

lemma ns_loop_Nil: "ns_loop sd [] s = (if ns_stop s then Ends (ns_close sd s) else Blocks)"
  by (simp add: ns_loop.simps)

lemma ns_loop_Cons: "ns_loop sd (r # rs) s =
    (if ns_stop s then Ends (ns_close sd s) else case ns_serve r s of None \<Rightarrow> Faults | Some s \<Rightarrow> ns_loop sd rs s)"
  by (simp add: ns_loop.simps)

fun accepted_fds :: "ns_round list \<Rightarrow> int list" where
  "accepted_fds [] = []"
| "accepted_fds (r # rs) = (case accepted r of Fails e \<Rightarrow> accepted_fds rs | Returns fd \<Rightarrow> fd # accepted_fds rs)"

text \<open>What a round does with the descriptors: the connection that was answered stays open.\<close>

lemma ns_serve_open:
  assumes "ns_serve r s = Some s'"
  shows "case accepted r of
      Fails e \<Rightarrow> ns_open s' = ns_open s \<and> ns_sent s' = ns_sent s
    | Returns fd \<Rightarrow> ns_open s - {fd} \<subseteq> ns_open s' \<and>
        (ns_sent s' = ns_sent s \<or> fd \<in> ns_open s' \<and> (\<exists>bs. ns_sent s' = ns_sent s @ [(fd, bs)]))"
proof -
  have "ns_open (fold set_stop xs s) = ns_open s \<and> ns_sent (fold set_stop xs s) = ns_sent s" for xs
    by (induction xs arbitrary: s) (simp_all add: set_stop_def)
  then show ?thesis using assms
    by (cases "accepted r"; cases "read_st r"; cases "write_st r")
       (auto simp: ns_serve_def Let_def ns_close_def ns_write_def bind_eq_Some_conv split: if_splits)
qed

section \<open>Properties\<close>

text \<open>C16: Client and server together: whatever the server has printed and sent before, when it gets at least the first 13 bytes
  of what the client writes, it prints the client's greeting, and a client that gets at least 27 bytes of the answer
  prints the server's. The server leaves the connection open.\<close>
theorem greetings_exchanged:
  assumes "3 \<le> argc" "0 \<le> nc_socket c" "0 \<le> nc_pton c" "0 \<le> nc_connect c" "nc_write c = Returns n" "accepted r = Returns fd"
    and "read_st r = Returns (take k (take n (zero_filled MAX_BUF_LEN ''hello server'')))" "13 \<le> k" "k \<le> n" "k \<le> READ_BUF_LEN"
    and "write_st r = Returns m" "nc_read c = Returns (take j (take m (zero_filled WRITE_BUF_LEN greeting)))" "27 \<le> j" "j \<le> m" "j \<le> MAX_BUF_LEN"
    and "length (ns_rbuf s) = READ_BUF_LEN"
  shows "\<exists>s'. ns_serve r s = Some s' \<and> ns_printed s' = ns_printed s @ [text_bytes ''hello server''] \<and>
    ns_sent s' = ns_sent s @ [(fd, take m (zero_filled WRITE_BUF_LEN greeting))] \<and> fd \<in> ns_open s' \<and>
    nc_main argc c = Some (0, take n (zero_filled MAX_BUF_LEN ''hello server''), [text_bytes greeting])"
proof -
  have keep: "ns_rbuf (fold set_stop xs s) = ns_rbuf s" "ns_printed (fold set_stop xs s) = ns_printed s"
      "ns_sent (fold set_stop xs s) = ns_sent s" for xs
    by (induction xs arbitrary: s) (simp_all add: set_stop_def)
  have z1: "zero_filled MAX_BUF_LEN ''hello server'' = text_bytes ''hello server'' @ 0 # replicate 1011 0"
    by (subst zero_filled_split) (simp_all add: MAX_BUF_LEN_def)
  have z2: "zero_filled WRITE_BUF_LEN greeting = text_bytes greeting @ 0 # replicate 997 0"
    by (subst zero_filled_split) (simp_all add: WRITE_BUF_LEN_def greeting_def)
  have len: "length (text_bytes ''hello server'') = 12" "length (text_bytes greeting) = 26"
    by (simp_all add: text_bytes_def greeting_def)
  have nz: "0 \<notin> set (text_bytes ''hello server'')" "0 \<notin> set (text_bytes greeting)"
    by (simp_all add: text_bytes_def greeting_def)
  have p1: "print_s (read_into (ns_rbuf s) (take k (zero_filled MAX_BUF_LEN ''hello server''))) = Some (text_bytes ''hello server'')"
    unfolding z1 using nz(1) by (rule print_read) (use assms len in simp_all)
  have p2: "print_s (read_into (replicate MAX_BUF_LEN 0) (take j (zero_filled WRITE_BUF_LEN greeting))) = Some (text_bytes greeting)"
    unfolding z2 using nz(2) by (rule print_read) (use assms len in simp_all)
  have "take k (take n (zero_filled MAX_BUF_LEN ''hello server'')) \<noteq> []"
    using assms(8,9) by (simp add: z1 text_bytes_def)
  then show ?thesis
    using assms(1-6,7,9,11,12,14) p1 p2
    by (simp add: ns_serve_def nc_main_def ns_write_def keep Let_def min_absorb1)
qed

definition demo_client :: nc_calls where
  "demo_client = \<lparr>nc_socket = 3, nc_pton = 1, nc_connect = 0, nc_write = Returns 1024,
     nc_read = Returns (take 1024 (take 1024 (zero_filled WRITE_BUF_LEN greeting)))\<rparr>"

definition demo_round :: ns_round where
  "demo_round = \<lparr>signals = [], accepted = Returns 4,
     read_st = Returns (take 512 (take 1024 (zero_filled MAX_BUF_LEN ''hello server''))), write_st = Returns 1024\<rparr>"

theorem greetings_exchanged_witness:
  "nc_main 3 demo_client = Some (0, take 1024 (zero_filled MAX_BUF_LEN ''hello server''), [text_bytes greeting])"
  using greetings_exchanged [of 3 demo_client 1024 demo_round 4 512 1024 1024 "ns_fresh 3"]
  by (auto simp: demo_client_def demo_round_def ns_fresh_def READ_BUF_LEN_def MAX_BUF_LEN_def)

text \<open>No answered connection is ever closed: when the server ends, the descriptors of all clients that it answered are
  open, each of them another one.\<close>
theorem answered_stay_open:
  assumes "ns_loop sd rs s = Ends s'" "distinct (sd # accepted_fds rs)"
    and "\<forall>fd \<in> set (map fst (ns_sent s)). fd \<in> ns_open s \<and> fd \<notin> set (sd # accepted_fds rs)" "distinct (map fst (ns_sent s))"
  shows "set (map fst (ns_sent s')) \<subseteq> ns_open s' \<and> distinct (map fst (ns_sent s'))"
  using assms
proof (induction rs arbitrary: s)
  case Nil
  then show ?case by (fastforce simp: ns_loop_Nil ns_close_def split: if_splits)
next
  case (Cons r rs)
  show ?case
  proof (cases "ns_stop s")
    case True
    then show ?thesis using Cons.prems by (fastforce simp: ns_loop_Cons ns_close_def)
  next
    case False
    then obtain t where t: "ns_serve r s = Some t" "ns_loop sd rs t = Ends s'"
      using Cons.prems(1) by (auto simp: ns_loop_Cons split: option.splits)
    note O = ns_serve_open [OF t(1)]
    show ?thesis
    proof (rule Cons.IH [OF t(2)])
      show "distinct (sd # accepted_fds rs)" using Cons.prems(2) by (auto split: syscall.splits)
      show "\<forall>fd \<in> set (map fst (ns_sent t)). fd \<in> ns_open t \<and> fd \<notin> set (sd # accepted_fds rs)" "distinct (map fst (ns_sent t))"
        using O Cons.prems(2-4) by (cases "accepted r"; fastforce)+
    qed
  qed
qed

theorem answered_stay_open_witness:
  "\<exists>s'. ns_loop 3 [demo_round\<lparr>signals := [SIGTERM]\<rparr>] (ns_fresh 3) = Ends s' \<and> set (map fst (ns_sent s')) \<subseteq> ns_open s' \<and> 4 \<in> ns_open s'"
proof -
  obtain s' where s': "ns_serve (demo_round\<lparr>signals := [SIGTERM]\<rparr>) (ns_fresh 3) = Some s'" "ns_stop s'" "fst ` set (ns_sent s') = {4}"
    by (auto simp: ns_serve_def demo_round_def ns_fresh_def set_stop_def SIGTERM_def SIGINT_def Let_def print_s_def read_into_def
        ns_write_def READ_BUF_LEN_def MAX_BUF_LEN_def zero_filled_def text_bytes_def)
  then have "ns_loop 3 [demo_round\<lparr>signals := [SIGTERM]\<rparr>] (ns_fresh 3) = Ends (ns_close 3 s')" by (simp add: ns_loop_Cons ns_loop_Nil) (simp add: ns_fresh_def)
  moreover from this have "set (map fst (ns_sent (ns_close 3 s'))) \<subseteq> ns_open (ns_close 3 s')"
    using answered_stay_open [of 3 "[demo_round\<lparr>signals := [SIGTERM]\<rparr>]" "ns_fresh 3" "ns_close 3 s'"] by (simp add: demo_round_def ns_fresh_def)
  ultimately show ?thesis using s'(3) by (auto simp: ns_close_def)
qed

end
