(* ===== verification/Spec2Isabelle.thy ===== *)
theory Spec2Isabelle
  imports Ring_Queue NC_Array List_Head Adlist Pubsub_Server Epoll_Server Scandir Ecb_Bits Ecb_Float Eio_Group Eio_Execute Eio_Realpath Eio_Demo
    Murmur My_Config Log_Files Small_Utils Daemon Student_Service Vos_Server Kafka_Consumer Simple_Netcommu
begin

text \<open>
  The repository is a collection of C and C++ code: containers, two servers, an event loop, the
  thread pool library \<open>libeio\<close>, and small samples. The development follows the C code that has
  state and algorithms of its own. One theory models one part, in the order the code has it: the
  structs as records, the enumerations as datatypes, machine integers as words of their width, each
  function as a definition of (nearly) the same name.

  \<^bold>\<open>Conventions.\<close> A C object is a list of cells or an entry of a map from addresses; NULL is address
  0 or \<open>None\<close>, as the theory says. A function that can fault (NULL or freed memory, an index outside
  the object, an assertion) has an \<open>option\<close> as its result and \<open>None\<close> is the fault. Where a function
  may also block or run forever, \<open>run\<close> of \<open>Posix\<close> tells the cases apart, or a loop is a
  \<open>partial_function\<close> and its theorem proves that it returns. \<open>malloc\<close> is a parameter that says whether
  there is memory and what the fresh bytes are. The kernel is a record with what each system call will
  return; calls that matter are logged.

  \<^bold>\<open>Containers\<close> (\<open>src/data_structure\<close>, \<open>src/utils\<close>)
  \<^item> \<open>Prelude\<close>, \<open>Links\<close>: memory regions, words as numbers; doubly linked circles and lists in a heap.
  \<^item> \<open>Pow2\<close>: \<open>roundup_pow_of_2.c\<close>. Which arguments have a result, and that it is the least power.
  \<^item> \<open>Ring_Queue\<close>: \<open>queue.c\<close>, \<open>queue.h\<close>. The indices run freely and wrap at \<open>2 ^ 32\<close>; \<open>contents\<close> is the
    abstract queue, and the lemmas show that each operation refines one on lists.
  \<^item> \<open>NC_Array\<close>: \<open>nc_array.c\<close>. A region of bytes cut into slots; lemmas on every operation, growth and
    the wrap-around of sizes included.
  \<^item> \<open>List_Head\<close>: \<open>list.h\<close>. Circles of links; each operation against one on lists of addresses, the
    iteration macros and what they do under deletion.
  \<^item> \<open>Adlist\<close>: \<open>alist/adlist.c\<close>. A list of nodes with values and three method pointers.

  \<^bold>\<open>Servers\<close> (\<open>src/pubsub\<close>, \<open>src/epoll\<close>, \<open>src/simplest_netcommu\<close>)
  \<^item> \<open>Posix\<close>: results of system calls. \<open>Ae_Loop\<close>: the event loop \<open>ae.c\<close> on \<open>ae_epoll.c\<close>, with file
    events, timers and the kernel's interest set; the invariant is \<open>ae_ok\<close>, and \<open>watched\<close> says what the kernel
    watches for which registered events. It may refuse to watch a descriptor.
  \<^item> \<open>Pubsub_Server\<close>: \<open>main.c\<close> on the event loop: handlers, start-up and the main function.
  \<^item> \<open>Epoll_Server\<close>: \<open>simplest_sample/epoll_server.c\<close>, with partial reads and writes.
  \<^item> \<open>Simple_Netcommu\<close>: \<open>src/simplest_netcommu\<close>, a server and a client, also one against the other.

  \<^bold>\<open>libeio\<close> (\<open>src/libeio\<close>)
  \<^item> \<open>Etp_Queue\<close>: requests and the queue with one list per priority (\<open>etp.c\<close>, \<open>struct eio_req\<close> of \<open>eio.h\<close>).
  \<^item> \<open>Etp_Pool\<close>: the thread pool of \<open>etp.c\<close>. Every critical section of a worker and of the client is a
    function on the state; \<open>pool_step\<close> interleaves them, and the lemmas are invariants of the reachable
    states: where each request is, what the counters mean, and that a section faults only without memory for a worker.
  \<^item> \<open>Eio_Group\<close>: groups of requests and the end of a request (\<open>eio_finish\<close>, \<open>grp_dec\<close>, \<open>eio_grp_add\<close>).
    \<open>eio_finish\<close> has fuel for the nesting of groups; two levels are enough for a group in no group.
  \<^item> \<open>Eio_Io\<close>: the system calls that \<open>eio.c\<close> emulates or prepares. \<open>Eio_Realpath\<close>: \<open>eio__realpath\<close> on the three
    parts of its buffer, against \<open>resolve\<close>, a resolution on lists of names; links may be followed 31 times,
    which is what bounds the recursion of \<open>resolve\<close>. Where a resolution starts, or why it does not, is \<open>starts_at\<close>, which
    covers the opened root directory, where a byte left in the buffer counts. Working directories, which keep such a path.
    \<open>Eio_Calls\<close>: the functions a client
    calls, which make and submit a request. \<open>Eio_Execute\<close>: \<open>eio_execute\<close>, what a worker does with it; its
    lemmas join the two sides: the request is queued, the system call made is the one asked for, and \<open>allocated\<close>, the
    blocks on the heap, grows by the result buffer alone.
  \<^item> \<open>Eio_Demo\<close>: the sample program \<open>demo.c\<close>, its pipe and event loop as a client of the pool: \<open>demo_step\<close> interleaves
    it with the workers, and the lemmas show that no wake-up is lost and what the loop waits for.
  \<^item> \<open>Dent_Sort\<close>: the radix and insertion sort of directory entries. \<open>Scandir\<close>: \<open>eio__scandir\<close>, with
    its counters of type \<open>int\<close>, which bound the listing (\<open>scan_fits\<close>).
  \<^item> \<open>Ecb_Bits\<close>: bit counts, reversals, rotations and divisions of \<open>ecb.h\<close>. \<open>Ecb_Float\<close>: its conversions between
    floats and their bits, against the values that IEEE 754 defines; to encode a negative number is undefined in C.

  \<^bold>\<open>Small programs\<close> (\<open>src/utils\<close>, \<open>src/thrift\<close>)
  \<^item> \<open>Murmur\<close>: \<open>murmurhash.c\<close>. The mixing steps are bijections of the 32-bit words.
  \<^item> \<open>My_Config\<close>: \<open>config/my_config.cpp\<close> (copied in \<open>src/kafka\<close> and \<open>src/thrift/vos\<close>). Reading a file piece by
    piece of the line buffer, and what is read back of a file that was written from a table.
  \<^item> \<open>Decimal\<close>: decimal notation. \<open>Log_Files\<close>: \<open>log/my_log.c\<close> with its buffer of fixed size, and the loggers
    that start a new file by size and by day, on a map from directories and names to files.
  \<^item> \<open>Small_Utils\<close>: names of priorities, version of the kernel, limit on open files, command line.
    \<open>Daemon\<close>: \<open>my_daemonize.c\<close> on a process with its descriptors, session and terminal.

  \<^bold>\<open>Services\<close> (\<open>src/thrift\<close>)
  \<^item> \<open>Thrift_Wire\<close>: what the generated code relies on. The protocol of the Thrift library is a parameter, a record
    of a writer and of readers for each item; \<open>reads_back\<close> states its documented laws, that an item that was
    written is read and that any value can be skipped, and \<open>token_proto\<close> is a protocol that has them. The loop over
    the fields of a struct, which all generated readers share, is \<open>read_fields\<close>; a wire without a stop is not returned from.
  \<^item> \<open>Student_Service\<close>: \<open>student_types.cpp\<close>, \<open>Serv.cpp\<close>. Client and processor of a call, joined by the lemmas: what
    the client sends the handler gets, and what it returns or throws the client gets.
  \<^item> \<open>Vos_Server\<close>: \<open>vos_types.cpp\<close>, \<open>VOSServer.cpp\<close>, \<open>my_vosserver.cpp\<close>. One call, from the client
    to the queue of orders, and the handling of the queue; the start of the server from its command line, configuration file, log and \<open>Daemon\<close>.

  \<^bold>\<open>Kafka consumer\<close> (\<open>src/kafka\<close>)
  \<^item> \<open>Kafka_Consumer\<close>: \<open>kafka_consume.cpp\<close> on \<open>kafka_helper.cpp\<close>. The Kafka library is a parameter: objects that live or are
    destroyed, and any results. Every critical section of a consumer, of the processor and every part of start and
    release is a step; the lemmas follow the messages through every interleaving, to the line that the logger of \<open>Log_Files\<close>
    writes for each, and show when a thread faults and what becomes of \<open>release\<close>.

  \<^bold>\<open>Interfaces.\<close> Where one part relies on another there is a locale with the operations and laws the
  client uses, interpreted on the model's definitions in the theory that provides them.

  \<^bold>\<open>Not modelled.\<close> The C++ code that only drives libraries which are not in the repository (log4cpp, the
  servers, transports and clients for several threads of Thrift); the samples of design patterns, threads, shared objects
  and timers; samples of \<open>libev\<close>, \<open>libevent\<close> and ZeroMQ, which only call them; \<open>xthread.h\<close> and \<open>config.h\<close>, which
  adapt to platforms; the branches of \<open>libeio\<close> for other systems than Linux; output for logging, but for the messages that
  the Kafka consumer stores.
\<close>

end
